(* ===== verification/Prelude.thy ===== *)
theory Prelude
  imports Main "HOL-Library.Word" "HOL-Library.Multiset" "HOL-Library.List_Lexorder"
    "HOL-Library.Product_Lexorder"
begin

text \<open>
  Shared vocabulary of the development: bytes and byte strings, the machine integers of Go
  as integers with their wrap-around written out, the little-endian encodings of
  \<^verbatim>\<open>encoding/binary\<close>, \<^verbatim>\<open>sort.Search\<close>, \<^verbatim>\<open>bytes.Compare\<close>, the IEEE checksum of
  \<^verbatim>\<open>hash/crc32\<close>, and the one error type that every fallible operation of the model
  returns. The collections \<open>le_simps\<close> and \<open>width_simps\<close> gather the rewrite rules that carry
  the encoding proofs of the other theories.
\<close>

unbundle bit_operations_syntax

named_theorems le_simps \<open>little-endian encodings: lengths, round trips, slices\<close>
named_theorems width_simps \<open>conversions between machine integers that do not wrap\<close>

subsection \<open>Types\<close>

type_synonym byte = "8 word"
type_synonym bytes = "byte list"
type_synonym path = string

text \<open>
  Every error value of the source that some caller can observe. \<open>EIO\<close> stands for a failing
  system call, \<open>GoPanic\<close> for a run-time panic (an index or go_slice out of range, a fault on a
  mapping), \<open>ErrWrapped\<close> for \<^verbatim>\<open>fmt.Errorf("...: %w", err)\<close>.
\<close>

datatype go_error =
    EOF
  | ErrUnexpectedEOF
  | ErrNotExist
  | EIO
  | ErrBlockCorrupt
  | ErrInvalidMagic
  | ErrOutOfOrder
  | ErrUnknownCompression nat
  | ErrCorruptSrcIndex
  | ErrLateArrival
  | ErrPartitionSealed
  | ErrClosed
  | ErrInvalidBucketWidth
  | ErrWrapped string go_error
  | GoPanic

type_synonym 'a result = "go_error + 'a"

subsection \<open>Machine integers\<close>

text \<open>
  An \<^verbatim>\<open>int64\<close> is an \<open>int\<close>; \<open>i64\<close> is the wrap-around of its arithmetic. An \<^verbatim>\<open>uint32\<close> or
  \<^verbatim>\<open>uint64\<close> is a \<open>nat\<close>; \<open>u32\<close> and \<open>u64\<close> truncate to the width.
\<close>

abbreviation MinInt64 :: int where "MinInt64 \<equiv> - 9223372036854775808"

abbreviation MaxInt64 :: int where "MaxInt64 \<equiv> 9223372036854775807"

definition is_i64 :: "int \<Rightarrow> bool" where
  "is_i64 x \<longleftrightarrow> MinInt64 \<le> x \<and> x \<le> MaxInt64"

definition i64 :: "int \<Rightarrow> int" where
  "i64 x = (x + 9223372036854775808) mod 18446744073709551616 - 9223372036854775808"

definition u32 :: "nat \<Rightarrow> nat" where
  "u32 n = n mod 4294967296"

definition u64 :: "nat \<Rightarrow> nat" where
  "u64 n = n mod 18446744073709551616"

definition u64_of_i64 :: "int \<Rightarrow> nat" where
  "u64_of_i64 x = nat (x mod 18446744073709551616)"

definition i64_of_u64 :: "nat \<Rightarrow> int" where
  "i64_of_u64 n = i64 (int n)"

subsection \<open>Little-endian encodings and slices\<close>

fun le_bytes :: "nat \<Rightarrow> nat \<Rightarrow> bytes" where
  "le_bytes 0 n = []"
| "le_bytes (Suc k) n = word_of_nat n # le_bytes k (n div 256)"

fun le_nat :: "bytes \<Rightarrow> nat" where
  "le_nat [] = 0"
| "le_nat (b # bs) = unat b + 256 * le_nat bs"

abbreviation put_u16 :: "nat \<Rightarrow> bytes" where "put_u16 \<equiv> le_bytes 2"
abbreviation put_u32 :: "nat \<Rightarrow> bytes" where "put_u32 \<equiv> le_bytes 4"
abbreviation put_u64 :: "nat \<Rightarrow> bytes" where "put_u64 \<equiv> le_bytes 8"
abbreviation put_i64 :: "int \<Rightarrow> bytes" where "put_i64 x \<equiv> le_bytes 8 (u64_of_i64 x)"

text \<open>The Go slice \<open>xs[a:b]\<close>, for bounds the code has checked.\<close>

definition go_slice :: "nat \<Rightarrow> nat \<Rightarrow> 'a list \<Rightarrow> 'a list" where
  "go_slice a b xs = take (b - a) (drop a xs)"

abbreviation get_u16 :: "bytes \<Rightarrow> nat \<Rightarrow> nat" where "get_u16 bs p \<equiv> le_nat (go_slice p (p + 2) bs)"
abbreviation get_u32 :: "bytes \<Rightarrow> nat \<Rightarrow> nat" where "get_u32 bs p \<equiv> le_nat (go_slice p (p + 4) bs)"
abbreviation get_u64 :: "bytes \<Rightarrow> nat \<Rightarrow> nat" where "get_u64 bs p \<equiv> le_nat (go_slice p (p + 8) bs)"
abbreviation get_i64 :: "bytes \<Rightarrow> nat \<Rightarrow> int" where "get_i64 bs p \<equiv> i64_of_u64 (get_u64 bs p)"

subsection \<open>Standard-library routines\<close>

text \<open>\<^verbatim>\<open>sort.Search\<close>: the loop of the Go library, \<open>h := int(uint(i+j) >> 1)\<close>.\<close>

function search_loop :: "(nat \<Rightarrow> bool) \<Rightarrow> nat \<Rightarrow> nat \<Rightarrow> nat" where
  "search_loop f i j =
     (if i < j then
        (let h = (i + j) div 2 in
         if \<not> f h then search_loop f (Suc h) j else search_loop f i h)
      else i)"
  by pat_completeness auto
termination
  by (relation "measure (\<lambda>(f, i, j). j - i)") auto

declare search_loop.simps [simp del]

definition sort_search :: "nat \<Rightarrow> (nat \<Rightarrow> bool) \<Rightarrow> nat" where
  "sort_search n f = search_loop f 0 n"

text \<open>\<^verbatim>\<open>bytes.Compare\<close>, and the comparison of Go strings, which is the same.\<close>

fun bytes_compare :: "bytes \<Rightarrow> bytes \<Rightarrow> int" where
  "bytes_compare [] [] = 0"
| "bytes_compare [] (_ # _) = -1"
| "bytes_compare (_ # _) [] = 1"
| "bytes_compare (x # xs) (y # ys) =
     (if x < y then -1 else if y < x then 1 else bytes_compare xs ys)"

text \<open>\<^verbatim>\<open>hash/crc32\<close> with the IEEE polynomial, reflected, one bit at a time.\<close>

definition crc_bit :: "32 word \<Rightarrow> 32 word" where
  "crc_bit c = (if bit c 0 then drop_bit 1 c XOR 0xEDB88320 else drop_bit 1 c)"

definition crc_byte :: "32 word \<Rightarrow> byte \<Rightarrow> 32 word" where
  "crc_byte c b = (crc_bit ^^ 8) (c XOR ucast b)"

definition crc_update :: "32 word \<Rightarrow> bytes \<Rightarrow> 32 word" where
  "crc_update c bs = foldl crc_byte c bs"

definition crc_sum32 :: "32 word \<Rightarrow> nat" where
  "crc_sum32 c = unat (NOT c)"

definition crc32 :: "bytes \<Rightarrow> nat" where
  "crc32 bs = crc_sum32 (crc_update (NOT 0) bs)"

text \<open>
  \<^verbatim>\<open>io.ReadFull\<close> on the bytes that are left: a request for no bytes succeeds, no bytes at all
  is \<open>EOF\<close>, fewer than asked for is \<open>ErrUnexpectedEOF\<close>.
\<close>

definition read_full :: "nat \<Rightarrow> bytes \<Rightarrow> (bytes \<times> bytes) result" where
  "read_full n rest =
     (if n \<le> length rest then Inr (take n rest, drop n rest)
      else if rest = [] then Inl EOF else Inl ErrUnexpectedEOF)"

subsection \<open>Lemmas on widths\<close>

lemma i64_id [width_simps]: "is_i64 x \<Longrightarrow> i64 x = x"
  by (simp add: is_i64_def i64_def)

lemma is_i64_i64 [simp]: "is_i64 (i64 x)"
  by (simp add: is_i64_def i64_def)

lemma u32_id [width_simps]: "n < 4294967296 \<Longrightarrow> u32 n = n"
  by (simp add: u32_def)

lemma u64_id [width_simps]: "n < 18446744073709551616 \<Longrightarrow> u64 n = n"
  by (simp add: u64_def)

lemma u64_of_i64_less [simp]: "u64_of_i64 x < 18446744073709551616"
  by (simp add: u64_of_i64_def nat_less_iff)

lemma i64_of_u64_of_i64 [width_simps]: "is_i64 x \<Longrightarrow> i64_of_u64 (u64_of_i64 x) = x"
  by (simp add: is_i64_def i64_of_u64_def u64_of_i64_def i64_def mod_add_left_eq)

subsection \<open>Lemmas on little-endian encodings\<close>

lemma length_le_bytes [le_simps, simp]: "length (le_bytes k n) = k"
  by (induction k arbitrary: n) auto

lemma le_bytes_4: "le_bytes 4 n = [word_of_nat n, word_of_nat (n div 256),
    word_of_nat (n div 256 div 256), word_of_nat (n div 256 div 256 div 256)]"
proof -
  have four: "(4 :: nat) = Suc (Suc (Suc (Suc 0)))" by simp
  show ?thesis by (subst four) simp
qed

lemma take_le_bytes: "take k (le_bytes m n) = le_bytes (min k m) n"
proof (induction m arbitrary: k n)
  case (Suc m)
  then show ?case by (cases k) simp_all
qed simp

lemma le_nat_le_bytes: "le_nat (le_bytes k n) = n mod 256 ^ k"
proof (induction k arbitrary: n)
  case (Suc k)
  have "le_nat (le_bytes (Suc k) n) = n mod 256 + 256 * (n div 256 mod 256 ^ k)"
    using Suc.IH by (simp add: unat_of_nat)
  also have "\<dots> = n mod (256 * 256 ^ k)"
    by (simp add: mod_mult2_eq add.commute)
  finally show ?case by simp
qed simp

lemma le_nat_put_u16 [le_simps]: "n < 65536 \<Longrightarrow> le_nat (put_u16 n) = n"
  by (simp add: le_nat_le_bytes)

lemma le_nat_put_u32 [le_simps]: "n < 4294967296 \<Longrightarrow> le_nat (put_u32 n) = n"
  by (simp add: le_nat_le_bytes)

lemma le_nat_put_u64 [le_simps]: "n < 18446744073709551616 \<Longrightarrow> le_nat (put_u64 n) = n"
  by (simp add: le_nat_le_bytes)

lemma i64_put_i64 [le_simps]: "is_i64 x \<Longrightarrow> i64_of_u64 (le_nat (put_i64 x)) = x"
  by (simp add: le_nat_put_u64 width_simps)

lemma unat_byte_less: "unat (b :: byte) < 256"
  using unsigned_less [of b] by simp

lemma le_nat_less: "le_nat bs < 256 ^ length bs"
proof (induction bs)
  case (Cons b bs)
  have "unat b < 256" by (rule unat_byte_less)
  with Cons show ?case by simp
qed simp

lemma byte_256: "(256 :: byte) = 0"
  by simp

lemma le_bytes_le_nat: "le_bytes (length bs) (le_nat bs) = bs"
proof (induction bs)
  case (Cons b bs)
  have b: "unat b < 256" by (rule unat_byte_less)
  then have "(unat b + 256 * le_nat bs) div 256 = le_nat bs" by simp
  moreover have "(word_of_nat (unat b + 256 * le_nat bs) :: byte) = b"
    by (simp only: of_nat_add of_nat_mult of_nat_numeral byte_256 mult_zero_left) simp
  ultimately show ?case using Cons by simp
qed simp

lemma le_nat_less_u32: "length bs = 4 \<Longrightarrow> le_nat bs < 4294967296"
  using le_nat_less [of bs] by simp

lemma length_slice [le_simps, simp]: "length (go_slice a b xs) = min (b - a) (length xs - a)"
  by (simp add: go_slice_def min.commute)

lemma slice_append_left [le_simps]: "b \<le> length xs \<Longrightarrow> go_slice a b (xs @ ys) = go_slice a b xs"
  by (simp add: go_slice_def)

lemma slice_append_right [le_simps]:
  "length xs \<le> a \<Longrightarrow> go_slice a b (xs @ ys) = go_slice (a - length xs) (b - length xs) ys"
  by (simp add: go_slice_def)

lemma slice_append_exact [le_simps]:
  "a = length xs \<Longrightarrow> b = a + length ys \<Longrightarrow> go_slice a b (xs @ ys @ zs) = ys"
  by (simp add: go_slice_def)

lemma slice_all [le_simps]: "length xs \<le> b \<Longrightarrow> go_slice 0 b xs = xs"
  by (simp add: go_slice_def)

lemma slice_zero: "go_slice 0 b xs = take b xs"
  by (simp add: go_slice_def)

subsection \<open>Lemmas on the library routines\<close>

text \<open>
  On a predicate that is false, then true, \<^verbatim>\<open>sort.Search\<close> finds the border: every index below
  the result fails, every index from it on holds.
\<close>

lemma search_loop_step:
  "i < j \<Longrightarrow> search_loop f i j =
     (if f ((i + j) div 2) then search_loop f i ((i + j) div 2)
      else search_loop f (Suc ((i + j) div 2)) j)"
  by (simp add: search_loop.simps [of f i j] Let_def)

lemma search_loop_stop: "\<not> i < j \<Longrightarrow> search_loop f i j = i"
  by (simp add: search_loop.simps [of f i j])

lemma search_loop_border:
  assumes "\<forall>a b. a \<le> b \<and> b < n \<and> f a \<longrightarrow> f b"
    and "i \<le> j" "j \<le> n" "\<forall>k < i. \<not> f k" "\<forall>k. j \<le> k \<and> k < n \<longrightarrow> f k"
  shows "search_loop f i j \<le> n \<and> (\<forall>k < search_loop f i j. \<not> f k) \<and>
    (\<forall>k. search_loop f i j \<le> k \<and> k < n \<longrightarrow> f k)"
  using assms
proof (induction f i j rule: search_loop.induct)
  case (1 f i j)
  show ?case
  proof (cases "i < j")
    case False
    with "1.prems" show ?thesis by (simp add: search_loop_stop)
  next
    case True
    define h where "h = (i + j) div 2"
    have h: "i \<le> h" "h < j" "h < n" using True "1.prems" by (auto simp: h_def)
    show ?thesis
    proof (cases "f h")
      case fh: True
      have eq: "search_loop f i j = search_loop f i h"
        using fh by (simp only: search_loop_step [OF True, of f] if_True if_False flip: h_def)
      have "\<forall>k. h \<le> k \<and> k < n \<longrightarrow> f k" using fh "1.prems"(1) by blast
      from "1.IH"(2) [OF True h_def _ "1.prems"(1) h(1) _ "1.prems"(4) this] fh h(3)
      show ?thesis unfolding eq by simp
    next
      case fh: False
      have eq: "search_loop f i j = search_loop f (Suc h) j"
        using fh by (simp only: search_loop_step [OF True, of f] if_True if_False flip: h_def)
      have "\<forall>k < Suc h. \<not> f k" using fh "1.prems"(1) h(3) by (metis less_Suc_eq_le)
      from "1.IH"(1) [OF True h_def fh "1.prems"(1) _ "1.prems"(3) this "1.prems"(5)] h(2)
      show ?thesis unfolding eq by simp
    qed
  qed
qed

lemma search_loop_le: "i \<le> j \<Longrightarrow> search_loop f i j \<le> j"
proof (induction f i j rule: search_loop.induct)
  case (1 f i j)
  show ?case
  proof (cases "i < j")
    case True
    define h where "h = (i + j) div 2"
    have h: "i \<le> h" "h < j" using True by (auto simp: h_def)
    show ?thesis
      using "1.IH"(1) [OF True h_def] "1.IH"(2) [OF True h_def] h
      by (cases "f h") (simp_all add: search_loop_step [OF True, of f] flip: h_def)
  qed (use "1.prems" in \<open>simp add: search_loop_stop\<close>)
qed

lemma sort_search_le: "sort_search n f \<le> n"
  by (simp add: sort_search_def search_loop_le)

lemma sort_search_border:
  assumes "\<forall>a b. a \<le> b \<and> b < n \<and> f a \<longrightarrow> f b"
  shows "sort_search n f \<le> n" "k < sort_search n f \<Longrightarrow> \<not> f k"
    "sort_search n f \<le> k \<Longrightarrow> k < n \<Longrightarrow> f k"
proof -
  have "sort_search n f \<le> n \<and> (\<forall>k < sort_search n f. \<not> f k) \<and>
    (\<forall>k. sort_search n f \<le> k \<and> k < n \<longrightarrow> f k)"
    unfolding sort_search_def by (rule search_loop_border [OF assms]) auto
  then show "sort_search n f \<le> n" "k < sort_search n f \<Longrightarrow> \<not> f k"
    "sort_search n f \<le> k \<Longrightarrow> k < n \<Longrightarrow> f k" by auto
qed

text \<open>
  On a list, a monotone predicate splits it: the elements before the border are those that
  fail, the elements after it those that hold.
\<close>

lemma sort_search_filter:
  fixes xs :: "'a list" and P :: "'a \<Rightarrow> bool"
  assumes mono: "sorted_wrt (\<lambda>x y. P x \<longrightarrow> P y) xs"
  defines "k \<equiv> sort_search (length xs) (\<lambda>i. P (xs ! i))"
  shows "take k xs = filter (\<lambda>x. \<not> P x) xs" "drop k xs = filter P xs"
proof -
  have "\<forall>a b. a \<le> b \<and> b < length xs \<and> P (xs ! a) \<longrightarrow> P (xs ! b)"
    using mono by (metis sorted_wrt_iff_nth_less le_neq_implies_less)
  note b = sort_search_border [OF this, folded k_def]
  have t: "\<forall>x \<in> set (take k xs). \<not> P x" using b(2) by (auto simp: in_set_conv_nth)
  have d: "\<forall>x \<in> set (drop k xs). P x" using b(3) by (auto simp: in_set_conv_nth)
  have "filter Q xs = filter Q (take k xs) @ filter Q (drop k xs)" for Q
    by (metis append_take_drop_id filter_append)
  with t d show "take k xs = filter (\<lambda>x. \<not> P x) xs" "drop k xs = filter P xs"
    by (simp_all add: filter_id_conv filter_empty_conv)
qed

lemma bytes_compare_less [simp]: "bytes_compare xs ys < 0 \<longleftrightarrow> xs < ys"
  by (induction xs ys rule: bytes_compare.induct) auto

lemma bytes_compare_ge [simp]: "0 \<le> bytes_compare xs ys \<longleftrightarrow> ys \<le> xs"
  using bytes_compare_less [of xs ys] by (metis linorder_not_less)

lemma crc_update_append [simp]: "crc_update c (xs @ ys) = crc_update (crc_update c xs) ys"
  by (simp add: crc_update_def)

lemma crc32_less [simp]: "crc32 bs < 4294967296"
  using unsigned_less [of "NOT (crc_update (NOT 0) bs)"] by (simp add: crc32_def crc_sum32_def)

lemma read_full_append [simp]: "n = length xs \<Longrightarrow> read_full n (xs @ ys) = Inr (xs, ys)"
  by (simp add: read_full_def)

lemma read_full_Inr: "read_full n rest = Inr (x, y) \<Longrightarrow> rest = x @ y \<and> length x = n"
  by (auto simp: read_full_def split: if_splits)

end
