(* ===== verification/Json.thy ===== *)
theory Json
  imports Prelude
begin

text \<open>
  The part of \<^verbatim>\<open>encoding/json\<close> that the manifest and the command line use: JSON values, the compact
  printer (with the HTML-safe escapes of \<^verbatim>\<open>Marshal\<close>) and the parser (white space, all escapes,
  surrogate pairs, replacement of invalid UTF-8). A number keeps its literal. The parser is
  recursive descent with fuel; twice the length of the input is enough, which the round trip shows
  for everything that is printed. Strings of ASCII bytes survive printing and parsing.
\<close>

subsection \<open>Values\<close>

datatype json = JNull | JBool bool | JNum bytes | JStr bytes | JArr "json list"
  | JObj "(bytes \<times> json) list"

subsection \<open>UTF-8\<close>

text \<open>The length of the valid encoding at the head of the input, 0 if there is none.\<close>

definition cont_byte :: "byte \<Rightarrow> bool" where
  "cont_byte b \<longleftrightarrow> 0x80 \<le> b \<and> b \<le> 0xBF"

fun utf8_len :: "bytes \<Rightarrow> nat" where
  "utf8_len [] = 0"
| "utf8_len (b # bs) =
     (if b < 0x80 then 1
      else if b < 0xC2 then 0
      else
        (case bs of
           [] \<Rightarrow> 0
         | c # cs \<Rightarrow>
             (if b < 0xE0 then (if cont_byte c then 2 else 0)
              else if b < 0xF0 then
                (if cont_byte c \<and> (b = 0xE0 \<longrightarrow> 0xA0 \<le> c) \<and> (b = 0xED \<longrightarrow> c \<le> 0x9F) \<and>
                   (case cs of d # _ \<Rightarrow> cont_byte d | [] \<Rightarrow> False) then 3 else 0)
              else if b < 0xF5 then
                (if cont_byte c \<and> (b = 0xF0 \<longrightarrow> 0x90 \<le> c) \<and> (b = 0xF4 \<longrightarrow> c \<le> 0x8F) \<and>
                   (case cs of d # e # _ \<Rightarrow> cont_byte d \<and> cont_byte e | _ \<Rightarrow> False) then 4 else 0)
              else 0)))"

definition utf8_enc :: "nat \<Rightarrow> bytes" where
  "utf8_enc r =
     (if r < 0x80 then [of_nat r]
      else if r < 0x800 then [of_nat (0xC0 + r div 64), of_nat (0x80 + r mod 64)]
      else if r < 0x10000 then
        [of_nat (0xE0 + r div 4096), of_nat (0x80 + r div 64 mod 64), of_nat (0x80 + r mod 64)]
      else [of_nat (0xF0 + r div 262144), of_nat (0x80 + r div 4096 mod 64),
        of_nat (0x80 + r div 64 mod 64), of_nat (0x80 + r mod 64)])"

definition runeError :: bytes where "runeError = [0xEF, 0xBF, 0xBD]"

subsection \<open>Printing\<close>

definition hex_digit :: "nat \<Rightarrow> byte" where
  "hex_digit k = of_nat (if k < 10 then 48 + k else 87 + k)"

definition ascii_esc :: "byte \<Rightarrow> bytes" where
  "ascii_esc b =
     (if b = 34 \<or> b = 92 then [92, b]
      else if b = 8 then [92, 98] else if b = 12 then [92, 102] else if b = 10 then [92, 110]
      else if b = 13 then [92, 114] else if b = 9 then [92, 116]
      else if b < 32 \<or> b = 60 \<or> b = 62 \<or> b = 38
      then [92, 117, 48, 48, hex_digit (unat b div 16), hex_digit (unat b mod 16)]
      else [b])"

function js_esc :: "bytes \<Rightarrow> bytes" where
  "js_esc [] = []"
| "js_esc (b # bs) =
     (if b < 0x80 then ascii_esc b @ js_esc bs
      else
        (let n = utf8_len (b # bs) in
         if n = 0 then [92, 117, 102, 102, 102, 100] @ js_esc bs
         else if take 3 (b # bs) = [0xE2, 0x80, 0xA8] then [92, 117, 50, 48, 50, 56] @ js_esc (drop n (b # bs))
         else if take 3 (b # bs) = [0xE2, 0x80, 0xA9] then [92, 117, 50, 48, 50, 57] @ js_esc (drop n (b # bs))
         else take n (b # bs) @ js_esc (drop n (b # bs))))"
  by pat_completeness auto
termination
  by (relation "measure length") (auto simp: Let_def)

fun print_val :: "json \<Rightarrow> bytes" and print_elems :: "json list \<Rightarrow> bytes"
  and print_mems :: "(bytes \<times> json) list \<Rightarrow> bytes" where
  "print_val JNull = [110, 117, 108, 108]"
| "print_val (JBool b) = (if b then [116, 114, 117, 101] else [102, 97, 108, 115, 101])"
| "print_val (JNum lit) = lit"
| "print_val (JStr s) = 34 # js_esc s @ [34]"
| "print_val (JArr vs) = 91 # print_elems vs @ [93]"
| "print_val (JObj kvs) = 123 # print_mems kvs @ [125]"
| "print_elems [] = []"
| "print_elems (v # vs) = print_val v @ (if vs = [] then [] else 44 # print_elems vs)"
| "print_mems [] = []"
| "print_mems ((k, v) # kvs) =
     34 # js_esc k @ 34 # 58 # print_val v @ (if kvs = [] then [] else 44 # print_mems kvs)"

text \<open>Decimal literals of integers.\<close>

fun dec_nat :: "nat \<Rightarrow> bytes" where
  "dec_nat n = (if n < 10 then [of_nat (48 + n)] else dec_nat (n div 10) @ [of_nat (48 + n mod 10)])"

declare dec_nat.simps [simp del]

definition dec_int :: "int \<Rightarrow> bytes" where
  "dec_int i = (if i < 0 then 45 # dec_nat (nat (- i)) else dec_nat (nat i))"

subsection \<open>Parsing\<close>

definition skip_ws :: "bytes \<Rightarrow> bytes" where
  "skip_ws bs = dropWhile (\<lambda>b. b = 32 \<or> b = 9 \<or> b = 10 \<or> b = 13) bs"

definition hex_val :: "byte \<Rightarrow> nat option" where
  "hex_val b =
     (if 48 \<le> b \<and> b \<le> 57 then Some (unat b - 48)
      else if 97 \<le> b \<and> b \<le> 102 then Some (unat b - 87)
      else if 65 \<le> b \<and> b \<le> 70 then Some (unat b - 55) else None)"

definition hex4 :: "bytes \<Rightarrow> nat option" where
  "hex4 bs = (case map hex_val (take 4 bs) of
     [Some a, Some b, Some c, Some d] \<Rightarrow> Some (((a * 16 + b) * 16 + c) * 16 + d) | _ \<Rightarrow> None)"

text \<open>A \<^verbatim>\<open>\uXXXX\<close> escape after its \<^verbatim>\<open>u\<close>: the bytes it stands for and how many input bytes it takes.\<close>

definition u_escape :: "bytes \<Rightarrow> (bytes \<times> nat) option" where
  "u_escape bs = (case hex4 bs of
     None \<Rightarrow> None
   | Some r \<Rightarrow>
       (if 0xD800 \<le> r \<and> r < 0xE000 then
          (case (if r < 0xDC00 \<and> take 2 (drop 4 bs) = [92, 117] then hex4 (drop 6 bs) else None) of
             Some r2 \<Rightarrow>
               (if 0xDC00 \<le> r2 \<and> r2 < 0xE000
                then Some (utf8_enc ((r - 0xD800) * 1024 + (r2 - 0xDC00) + 0x10000), 10)
                else Some (runeError, 4))
           | None \<Rightarrow> Some (runeError, 4))
        else Some (utf8_enc r, 4)))"

text \<open>The rest of a string after its opening quote.\<close>

function parse_str :: "bytes \<Rightarrow> (bytes \<times> bytes) option" where
  "parse_str [] = None"
| "parse_str (b # bs) =
     (if b = 34 then Some ([], bs)
      else if b = 92 then
        (case bs of
           [] \<Rightarrow> None
         | c # cs \<Rightarrow>
             (if c = 117 then
                (case u_escape cs of
                   None \<Rightarrow> None
                 | Some (u, n) \<Rightarrow> map_option (\<lambda>(s, r). (u @ s, r)) (parse_str (drop n cs)))
              else if c \<in> {34, 92, 47, 98, 102, 110, 114, 116} then
                map_option (\<lambda>(s, r). ((if c = 98 then 8 else if c = 102 then 12 else if c = 110 then 10
                    else if c = 114 then 13 else if c = 116 then 9 else c) # s, r)) (parse_str cs)
              else None))
      else if b < 32 then None
      else if b < 0x80 then map_option (\<lambda>(s, r). (b # s, r)) (parse_str bs)
      else
        (let n = utf8_len (b # bs) in
         if n = 0 then map_option (\<lambda>(s, r). (runeError @ s, r)) (parse_str bs)
         else map_option (\<lambda>(s, r). (take n (b # bs) @ s, r)) (parse_str (drop n (b # bs)))))"
  by pat_completeness auto
termination
  by (relation "measure length") (auto simp: Let_def)

definition is_digit :: "byte \<Rightarrow> bool" where
  "is_digit b \<longleftrightarrow> 48 \<le> b \<and> b \<le> 57"

text \<open>A number literal: sign, integer part without leading zeros, fraction, exponent.\<close>

definition digits1 :: "bytes \<Rightarrow> (bytes \<times> bytes) option" where
  "digits1 bs = (let ds = takeWhile is_digit bs in if ds = [] then None else Some (ds, dropWhile is_digit bs))"

definition scan_frac :: "bytes \<Rightarrow> (bytes \<times> bytes) option" where
  "scan_frac bs = (case bs of
     b # r \<Rightarrow> if b = 46 then map_option (\<lambda>(d, r). (46 # d, r)) (digits1 r) else Some ([], bs)
   | [] \<Rightarrow> Some ([], []))"

definition scan_exp :: "bytes \<Rightarrow> (bytes \<times> bytes) option" where
  "scan_exp bs = (case bs of
     b # r \<Rightarrow>
       if b = 101 \<or> b = 69 then
         (case r of
            s # r' \<Rightarrow> if s = 43 \<or> s = 45 then map_option (\<lambda>(d, t). (b # s # d, t)) (digits1 r')
              else map_option (\<lambda>(d, t). (b # d, t)) (digits1 r)
          | [] \<Rightarrow> None)
       else Some ([], bs)
   | [] \<Rightarrow> Some ([], []))"

definition scan_num :: "bytes \<Rightarrow> (bytes \<times> bytes) option" where
  "scan_num bs =
     (let (sg, r0) = (case bs of b # r \<Rightarrow> if b = 45 then ([45], r) else ([], bs) | [] \<Rightarrow> ([], []))
      in case (case r0 of b # r \<Rightarrow> if b = 48 then Some ([48], r) else digits1 r0 | [] \<Rightarrow> None) of
           None \<Rightarrow> None
         | Some (i, r1) \<Rightarrow>
             (case scan_frac r1 of
                None \<Rightarrow> None
              | Some (f, r2) \<Rightarrow> map_option (\<lambda>(e, r3). (sg @ i @ f @ e, r3)) (scan_exp r2)))"

definition strip_prefix :: "bytes \<Rightarrow> bytes \<Rightarrow> bytes option" where
  "strip_prefix p bs = (if take (length p) bs = p then Some (drop (length p) bs) else None)"

fun parse_val :: "nat \<Rightarrow> bytes \<Rightarrow> (json \<times> bytes) option"
  and parse_elems :: "nat \<Rightarrow> bytes \<Rightarrow> (json list \<times> bytes) option"
  and parse_mems :: "nat \<Rightarrow> bytes \<Rightarrow> ((bytes \<times> json) list \<times> bytes) option" where
  "parse_val 0 bs = None"
| "parse_val (Suc n) bs = (case skip_ws bs of
     [] \<Rightarrow> None
   | b # r \<Rightarrow>
       if b = 123 then
         (case skip_ws r of
            [] \<Rightarrow> None
          | c # r' \<Rightarrow> if c = 125 then Some (JObj [], r') else map_option (\<lambda>(m, t). (JObj m, t)) (parse_mems n r))
       else if b = 91 then
         (case skip_ws r of
            [] \<Rightarrow> None
          | c # r' \<Rightarrow> if c = 93 then Some (JArr [], r') else map_option (\<lambda>(m, t). (JArr m, t)) (parse_elems n r))
       else if b = 34 then map_option (\<lambda>(s, t). (JStr s, t)) (parse_str r)
       else if b = 116 then map_option (\<lambda>t. (JBool True, t)) (strip_prefix [116, 114, 117, 101] (b # r))
       else if b = 102 then map_option (\<lambda>t. (JBool False, t)) (strip_prefix [102, 97, 108, 115, 101] (b # r))
       else if b = 110 then map_option (\<lambda>t. (JNull, t)) (strip_prefix [110, 117, 108, 108] (b # r))
       else map_option (\<lambda>(l, t). (JNum l, t)) (scan_num (b # r)))"
| "parse_elems 0 bs = None"
| "parse_elems (Suc n) bs = (case parse_val n bs of
     None \<Rightarrow> None
   | Some (v, r) \<Rightarrow>
       (case skip_ws r of
          [] \<Rightarrow> None
        | c # r' \<Rightarrow>
            if c = 44 then map_option (\<lambda>(vs, t). (v # vs, t)) (parse_elems n r')
            else if c = 93 then Some ([v], r') else None))"
| "parse_mems 0 bs = None"
| "parse_mems (Suc n) bs = (case skip_ws bs of
     [] \<Rightarrow> None
   | q # r0 \<Rightarrow>
       if q \<noteq> 34 then None
       else
         (case parse_str r0 of
            None \<Rightarrow> None
          | Some (k, r1) \<Rightarrow>
              (case skip_ws r1 of
                 [] \<Rightarrow> None
               | c # r2 \<Rightarrow>
                   if c \<noteq> 58 then None
                   else
                     (case parse_val n r2 of
                        None \<Rightarrow> None
                      | Some (v, r) \<Rightarrow>
                          (case skip_ws r of
                             [] \<Rightarrow> None
                           | d # r' \<Rightarrow>
                               if d = 44 then map_option (\<lambda>(m, t). ((k, v) # m, t)) (parse_mems n r')
                               else if d = 125 then Some ([(k, v)], r') else None)))))"

definition parse_json :: "bytes \<Rightarrow> json option" where
  "parse_json bs = (case parse_val (2 * length bs + 2) bs of
     None \<Rightarrow> None | Some (v, r) \<Rightarrow> if skip_ws r = [] then Some v else None)"

text \<open>The integer of a number literal; a fraction, an exponent or an empty literal is an error.\<close>

definition lit_nat :: "bytes \<Rightarrow> nat option" where
  "lit_nat ds = (if ds \<noteq> [] \<and> list_all is_digit ds
     then Some (foldl (\<lambda>a d. a * 10 + (unat d - 48)) 0 ds) else None)"

definition lit_int :: "bytes \<Rightarrow> int option" where
  "lit_int lit = (case lit of
     b # ds \<Rightarrow> if b = 45 then map_option (\<lambda>n. - int n) (lit_nat ds) else map_option int (lit_nat lit)
   | [] \<Rightarrow> None)"

subsection \<open>Strings survive\<close>

definition ascii :: "bytes \<Rightarrow> bool" where
  "ascii s \<longleftrightarrow> (\<forall>b \<in> set s. b < 0x80)"

lemma unat_small: "n < 256 \<Longrightarrow> unat (of_nat n :: byte) = n"
  by (simp add: unat_of_nat)

lemma hex_val_digit: "k < 16 \<Longrightarrow> hex_val (hex_digit k) = Some k"
  by (cases "k < 10") (simp_all add: hex_val_def hex_digit_def word_le_nat_alt unat_small
      del: of_nat_add)

lemma u_escape_ascii:
  assumes "b < (0x80 :: byte)"
  shows "u_escape (48 # 48 # hex_digit (unat b div 16) # hex_digit (unat b mod 16) # rest) = Some ([b], 4)"
proof -
  have b: "unat b < 128" using assms by (simp add: word_less_nat_alt)
  have "hex_val 48 = Some 0" by (simp add: hex_val_def)
  moreover have "hex_val (hex_digit (unat b div 16)) = Some (unat b div 16)"
    "hex_val (hex_digit (unat b mod 16)) = Some (unat b mod 16)"
    using b by (simp_all add: hex_val_digit)
  moreover have "unat b div 16 * 16 + unat b mod 16 = unat b" by simp
  ultimately have "hex4 (48 # 48 # hex_digit (unat b div 16) # hex_digit (unat b mod 16) # rest) = Some (unat b)"
    by (simp add: hex4_def)
  then show ?thesis using b by (simp add: u_escape_def utf8_enc_def)
qed

lemma parse_str_ascii_esc:
  assumes "b < (0x80 :: byte)"
  shows "parse_str (ascii_esc b @ rest) = map_option (\<lambda>(s, r). (b # s, r)) (parse_str rest)"
proof -
  consider "b = 34 \<or> b = 92 \<or> b = 8 \<or> b = 12 \<or> b = 10 \<or> b = 13 \<or> b = 9"
    | "b \<notin> {34, 92, 8, 12, 10, 13, 9}" "b < 32 \<or> b = 60 \<or> b = 62 \<or> b = 38"
    | "b \<notin> {34, 92, 8, 12, 10, 13, 9}" "\<not> (b < 32 \<or> b = 60 \<or> b = 62 \<or> b = 38)" by blast
  then show ?thesis
  proof cases
    case 1
    then show ?thesis by (auto simp: ascii_esc_def)
  next
    case 2
    then have "ascii_esc b = [92, 117, 48, 48, hex_digit (unat b div 16), hex_digit (unat b mod 16)]"
      by (auto simp: ascii_esc_def)
    then show ?thesis using u_escape_ascii [OF assms] by simp
  next
    case 3
    then have "ascii_esc b = [b]" by (auto simp: ascii_esc_def)
    then show ?thesis using 3 assms by simp
  qed
qed

lemma parse_str_js_esc:
  assumes "ascii s"
  shows "parse_str (js_esc s @ 34 # rest) = Some (s, rest)"
  using assms
proof (induction s)
  case (Cons b s)
  then have "b < 0x80" "ascii s" by (auto simp: ascii_def)
  with Cons.IH parse_str_ascii_esc [of b "js_esc s @ 34 # rest"] show ?case by simp
qed simp

subsection \<open>Numbers survive\<close>

lemma digit_of_nat: "d < 10 \<Longrightarrow> is_digit (of_nat (48 + d)) \<and> unat (of_nat (48 + d) :: byte) = 48 + d"
  by (simp add: is_digit_def word_le_nat_alt unat_small del: of_nat_add)

lemma dec_nat_digits: "list_all is_digit (dec_nat n)" "dec_nat n \<noteq> []"
proof (induction n rule: dec_nat.induct)
  case (1 n)
  have "list_all is_digit (dec_nat n) \<and> dec_nat n \<noteq> []"
    using 1 digit_of_nat [of n] digit_of_nat [of "n mod 10"]
    by (subst (1 2) dec_nat.simps) auto
  then show "list_all is_digit (dec_nat n)" "dec_nat n \<noteq> []" by auto
qed

lemma foldl_dec_nat: "foldl (\<lambda>a d. a * 10 + (unat d - 48)) 0 (dec_nat n) = n"
proof (induction n rule: dec_nat.induct)
  case (1 n)
  then show ?case
    using digit_of_nat [of n] digit_of_nat [of "n mod 10"]
    by (subst dec_nat.simps) auto
qed

lemma lit_nat_dec_nat [simp]: "lit_nat (dec_nat n) = Some n"
  using dec_nat_digits [of n] foldl_dec_nat [of n] by (simp add: lit_nat_def)

lemma dec_nat_head: "\<exists>b r. dec_nat n = b # r \<and> is_digit b \<and> (b = 48 \<longrightarrow> r = [])"
proof (induction n rule: dec_nat.induct)
  case (1 n)
  show ?case
  proof (cases "n < 10")
    case True
    then show ?thesis using digit_of_nat [of n] by (subst dec_nat.simps) auto
  next
    case False
    with 1 obtain b r where b: "dec_nat (n div 10) = b # r" "is_digit b" "b = 48 \<longrightarrow> r = []" by blast
    have "b \<noteq> 48"
    proof
      assume "b = 48"
      then have "dec_nat (n div 10) = [48]" using b by simp
      then have "n div 10 = 0" using foldl_dec_nat [of "n div 10"] by simp
      then show False using False by simp
    qed
    then show ?thesis using False b by (subst dec_nat.simps) auto
  qed
qed

text \<open>What may follow a number literal.\<close>

definition num_stop :: "bytes \<Rightarrow> bool" where
  "num_stop rest \<longleftrightarrow> (case rest of [] \<Rightarrow> True | b # _ \<Rightarrow> \<not> is_digit b \<and> b \<noteq> 46 \<and> b \<noteq> 101 \<and> b \<noteq> 69)"

lemma scan_tail_stop: "num_stop rest \<Longrightarrow> scan_frac rest = Some ([], rest) \<and> scan_exp rest = Some ([], rest)"
  by (auto simp: num_stop_def scan_frac_def scan_exp_def split: list.splits)

lemma takeWhile_digits:
  assumes "list_all is_digit ds" "num_stop rest"
  shows "takeWhile is_digit (ds @ rest) = ds" "dropWhile is_digit (ds @ rest) = rest"
  using assms by (induction ds) (auto simp: num_stop_def split: list.splits)

lemma scan_num_dec_nat:
  assumes "num_stop rest"
  shows "scan_num (dec_nat n @ rest) = Some (dec_nat n, rest)" "scan_num (45 # dec_nat n @ rest) = Some (45 # dec_nat n, rest)"
proof -
  obtain b r where b: "dec_nat n = b # r" "is_digit b" "b = 48 \<longrightarrow> r = []" using dec_nat_head by blast
  then have ne: "b \<noteq> 45" by (auto simp: is_digit_def)
  have "digits1 (b # r @ rest) = Some (b # r, rest)"
    using takeWhile_digits [OF dec_nat_digits(1) assms, of n] unfolding b(1)
    by (simp add: digits1_def Let_def)
  then show "scan_num (dec_nat n @ rest) = Some (dec_nat n, rest)"
    "scan_num (45 # dec_nat n @ rest) = Some (45 # dec_nat n, rest)"
    using b ne scan_tail_stop [OF assms] by (simp_all add: scan_num_def)
qed

lemma lit_int_dec_int [simp]: "lit_int (dec_int i) = Some i"
proof -
  obtain b r where "dec_nat (nat i) = b # r" "is_digit b" using dec_nat_head by blast
  then have "dec_nat (nat i) = b # r" "b \<noteq> 45" by (auto simp: is_digit_def)
  then show ?thesis using lit_nat_dec_nat [of "nat i"] by (auto simp: lit_int_def dec_int_def)
qed

lemma scan_num_dec_int: "num_stop rest \<Longrightarrow> scan_num (dec_int i @ rest) = Some (dec_int i, rest)"
  by (simp add: dec_int_def scan_num_dec_nat)

lemma dec_int_head: "\<exists>b r. dec_int i = b # r \<and> (is_digit b \<or> b = 45)"
  using dec_nat_head by (auto simp: dec_int_def) blast

subsection \<open>Values survive\<close>

text \<open>Values with ASCII strings and integer literals, and the fuel that parsing them takes.\<close>

fun json_ok :: "json \<Rightarrow> bool" where
  "json_ok JNull = True"
| "json_ok (JBool b) = True"
| "json_ok (JNum lit) = (\<exists>i. lit = dec_int i)"
| "json_ok (JStr s) = ascii s"
| "json_ok (JArr vs) = list_all json_ok vs"
| "json_ok (JObj kvs) = list_all (\<lambda>(k, v). ascii k \<and> json_ok v) kvs"

fun fuel_val :: "json \<Rightarrow> nat" and fuel_elems :: "json list \<Rightarrow> nat"
  and fuel_mems :: "(bytes \<times> json) list \<Rightarrow> nat" where
  "fuel_val (JArr vs) = Suc (fuel_elems vs)"
| "fuel_val (JObj kvs) = Suc (fuel_mems kvs)"
| "fuel_val JNull = 1" | "fuel_val (JBool b) = 1" | "fuel_val (JNum l) = 1" | "fuel_val (JStr s) = 1"
| "fuel_elems [] = 0"
| "fuel_elems (v # vs) = Suc (max (fuel_val v) (fuel_elems vs))"
| "fuel_mems [] = 0"
| "fuel_mems ((k, v) # kvs) = Suc (max (fuel_val v) (fuel_mems kvs))"

lemma skip_ws_id: "b \<notin> {32, 9, 10, 13} \<Longrightarrow> skip_ws (b # bs) = b # bs"
  by (simp add: skip_ws_def)

lemma digit_not_special:
  "is_digit b \<or> b = 45 \<Longrightarrow> b \<notin> {32, 9, 10, 13, 123, 91, 34, 116, 102, 110, 93, 125, 44, 58}"
  by (auto simp: is_digit_def)

text \<open>No printed value begins with white space or a closing bracket.\<close>

lemma print_val_head:
  "json_ok v \<Longrightarrow> \<exists>b r. print_val v = b # r \<and> b \<notin> {32, 9, 10, 13, 93, 125, 44, 58}"
proof (cases v)
  case (JNum lit)
  moreover assume "json_ok v"
  ultimately obtain i where "lit = dec_int i" by auto
  then show ?thesis using JNum dec_int_head [of i] digit_not_special by fastforce
qed auto

lemma parse_num_val:
  assumes "num_stop rest"
  shows "parse_val (Suc n) (dec_int i @ rest) = Some (JNum (dec_int i), rest)"
proof -
  obtain b r where b: "dec_int i = b # r" "is_digit b \<or> b = 45" using dec_int_head by blast
  from digit_not_special [OF b(2)] scan_num_dec_int [OF assms, of i] b(1) show ?thesis
    by (simp add: skip_ws_id)
qed

lemma num_stop_delim [simp]: "num_stop (44 # r)" "num_stop (93 # r)" "num_stop (125 # r)" "num_stop []"
  by (simp_all add: num_stop_def is_digit_def)

lemma parse_print:
  "json_ok v \<Longrightarrow> fuel_val v \<le> n \<Longrightarrow> num_stop rest \<Longrightarrow> parse_val n (print_val v @ rest) = Some (v, rest)"
  "list_all json_ok vs \<Longrightarrow> vs \<noteq> [] \<Longrightarrow> fuel_elems vs \<le> n \<Longrightarrow>
     parse_elems n (print_elems vs @ 93 # rest) = Some (vs, rest)"
  "list_all (\<lambda>(k, v). ascii k \<and> json_ok v) kvs \<Longrightarrow> kvs \<noteq> [] \<Longrightarrow> fuel_mems kvs \<le> n \<Longrightarrow>
     parse_mems n (print_mems kvs @ 125 # rest) = Some (kvs, rest)"
proof (induction v and vs and kvs arbitrary: n rest and n rest and n rest
    rule: print_val_print_elems_print_mems.induct)
  case 1
  then show ?case by (cases n) (simp_all add: skip_ws_id strip_prefix_def)
next
  case (2 b)
  then show ?case by (cases n; cases b) (simp_all add: skip_ws_id strip_prefix_def)
next
  case (3 lit)
  then show ?case by (cases n) (auto simp: parse_num_val simp del: parse_val.simps(2))
next
  case (4 s)
  then show ?case by (cases n) (simp_all add: skip_ws_id parse_str_js_esc)
next
  case (5 vs)
  then obtain m where m: "n = Suc m" "fuel_elems vs \<le> m" by (cases n) auto
  show ?case
  proof (cases vs)
    case Nil
    then show ?thesis using m by (simp add: skip_ws_id)
  next
    case (Cons w ws)
    then obtain b r where b: "print_val w = b # r" "b \<notin> {32, 9, 10, 13, 93, 125, 44, 58}"
      using print_val_head [of w] "5.prems" by auto
    then have "\<exists>t. skip_ws (print_elems vs @ 93 # rest) = b # t" using Cons by (auto simp: skip_ws_id)
    with b m "5.IH" [of m rest] "5.prems" Cons show ?thesis by (auto simp: skip_ws_id)
  qed
next
  case (6 kvs)
  then obtain m where m: "n = Suc m" "fuel_mems kvs \<le> m" by (cases n) auto
  show ?case
  proof (cases kvs)
    case Nil
    then show ?thesis using m by (simp add: skip_ws_id)
  next
    case (Cons w ws)
    then have "\<exists>t. skip_ws (print_mems kvs @ 125 # rest) = 34 # t" by (cases w) (auto simp: skip_ws_id)
    with m "6.IH" [of m rest] "6.prems" Cons show ?thesis by (auto simp: skip_ws_id)
  qed
next
  case (8 v vs)
  then obtain m where m: "n = Suc m" "fuel_val v \<le> m" "fuel_elems vs \<le> m" by (cases n) auto
  then show ?case using 8 by (cases "vs = []") (simp_all add: skip_ws_id)
next
  case (10 k v kvs)
  then obtain m where m: "n = Suc m" "fuel_val v \<le> m" "fuel_mems kvs \<le> m" by (cases n) auto
  then show ?case using 10 by (cases "kvs = []") (simp_all add: skip_ws_id parse_str_js_esc)
qed simp_all

lemma fuel_bound:
  "json_ok v \<Longrightarrow> Suc (fuel_val v) \<le> 2 * length (print_val v)"
  "list_all json_ok vs \<Longrightarrow> fuel_elems vs \<le> 2 * length (print_elems vs)"
  "list_all (\<lambda>(k, v). ascii k \<and> json_ok v) kvs \<Longrightarrow> fuel_mems kvs \<le> 2 * length (print_mems kvs)"
proof (induction v and vs and kvs rule: print_val_print_elems_print_mems.induct)
  case (3 lit)
  then obtain i where "lit = dec_int i" by auto
  then show ?case using dec_int_head [of i] by auto
next
  case (8 v vs)
  then show ?case by (cases "vs = []") auto
qed auto

lemma parse_json_print: "json_ok v \<Longrightarrow> parse_json (print_val v) = Some v"
  using parse_print(1) [of v "2 * length (print_val v) + 2" "[]"] fuel_bound(1) [of v]
  by (simp add: parse_json_def skip_ws_def)

end
