(* ===== verification/Clock.thy ===== *)
theory Clock
  imports Json
begin

text \<open>
  The part of package \<^verbatim>\<open>time\<close> that the command line uses: the calendar, \<^verbatim>\<open>Format\<close> and \<^verbatim>\<open>Parse\<close> for the
  layouts RFC3339 and RFC3339Nano, and the conversions to nanoseconds since the epoch. A layout is the
  list of its chunks, read one after the other, as the library does. The result: every 64-bit
  timestamp survives formatting in UTC and parsing.
\<close>

subsection \<open>The calendar\<close>

definition isLeap :: "nat \<Rightarrow> bool" where
  "isLeap y \<longleftrightarrow> y mod 4 = 0 \<and> (y mod 100 \<noteq> 0 \<or> y mod 400 = 0)"

definition month_days :: "nat \<Rightarrow> nat list" where
  "month_days y = [31, if isLeap y then 29 else 28, 31, 30, 31, 30, 31, 31, 30, 31, 30, 31]"

definition daysIn :: "nat \<Rightarrow> nat \<Rightarrow> nat" where
  "daysIn m y = month_days y ! (m - 1)"

text \<open>The days from the first of January of year 0 to the first of January of a year.\<close>

definition year_start :: "nat \<Rightarrow> nat" where
  "year_start y = 365 * y + (y + 3) div 4 + (y + 399) div 400 - (y + 99) div 100"

definition days_of :: "nat \<Rightarrow> nat \<Rightarrow> nat \<Rightarrow> nat" where
  "days_of y m d = year_start y + sum_list (take (m - 1) (month_days y)) + (d - 1)"

text \<open>The year of a day: the mean length of a year gives it up to one.\<close>

definition year_of :: "nat \<Rightarrow> nat" where
  "year_of n = (let y = 400 * n div 146097 in
     if n < year_start y then y - 1 else if year_start (y + 1) \<le> n then y + 1 else y)"

fun month_split :: "nat list \<Rightarrow> nat \<Rightarrow> nat \<Rightarrow> nat \<times> nat" where
  "month_split [] m n = (m, n + 1)"
| "month_split (k # ks) m n = (if n < k then (m, n + 1) else month_split ks (m + 1) (n - k))"

definition date_of :: "nat \<Rightarrow> nat \<times> nat \<times> nat" where
  "date_of n = (let y = year_of n in (y, month_split (month_days y) 1 (n - year_start y)))"

lemma year_start_bounds:
  "400 * year_start y \<le> 146097 * y + 699" "146097 * y \<le> 400 * year_start y + 396"
proof -
  have "4 * ((y + 3) div 4) \<le> y + 3" "y \<le> 4 * ((y + 3) div 4)" by linarith+
  moreover have "100 * ((y + 99) div 100) \<le> y + 99" "y \<le> 100 * ((y + 99) div 100)" by linarith+
  moreover have "400 * ((y + 399) div 400) \<le> y + 399" "y \<le> 400 * ((y + 399) div 400)" by linarith+
  moreover have "(y + 99) div 100 \<le> 365 * y + (y + 3) div 4 + (y + 399) div 400" by linarith
  ultimately show "400 * year_start y \<le> 146097 * y + 699" "146097 * y \<le> 400 * year_start y + 396"
    unfolding year_start_def by linarith+
qed

lemma round_up_Suc:
  assumes "k = Suc j"
  shows "(Suc y + j) div k = (y + j) div k + (if y mod k = 0 then 1 else 0)"
proof -
  have "(y + Suc j) mod k = y mod k" unfolding assms by (rule mod_add_self2)
  then show ?thesis using div_Suc [of "y + j" k] by simp
qed

lemma year_start_Suc: "year_start (Suc y) = year_start y + sum_list (month_days y)"
proof -
  have a: "(Suc y + 3) div 4 = (y + 3) div 4 + (if y mod 4 = 0 then 1 else 0)" by (rule round_up_Suc) simp
  have b: "(Suc y + 99) div 100 = (y + 99) div 100 + (if y mod 100 = 0 then 1 else 0)" by (rule round_up_Suc) simp
  have c: "(Suc y + 399) div 400 = (y + 399) div 400 + (if y mod 400 = 0 then 1 else 0)" by (rule round_up_Suc) simp
  have "(4 :: nat) dvd 100" "(100 :: nat) dvd 400" by simp_all
  then have m: "y mod 100 = 0 \<Longrightarrow> y mod 4 = 0" "y mod 400 = 0 \<Longrightarrow> y mod 100 = 0"
    by (meson dvd_trans mod_eq_0_iff_dvd)+
  have le: "(y + 99) div 100 \<le> 365 * y + (y + 3) div 4 + (y + 399) div 400" by linarith
  have s: "sum_list (month_days y) = (if isLeap y then 366 else 365)" by (simp add: month_days_def)
  define A B C where "A = (y + 3) div 4" and "B = (y + 99) div 100" and "C = (y + 399) div 400"
  show ?thesis using le m unfolding s year_start_def a b c isLeap_def A_def [symmetric] B_def [symmetric] C_def [symmetric]
    by (cases "y mod 4 = 0"; cases "y mod 100 = 0"; cases "y mod 400 = 0") simp_all
qed

lemma year_of_bounds: "year_start (year_of n) \<le> n \<and> n < year_start (Suc (year_of n))"
proof -
  let ?y = "400 * n div 146097"
  have y: "146097 * ?y \<le> 400 * n" "400 * n < 146097 * (?y + 1)"
    using times_div_less_eq_dividend [of 146097 "400 * n"] div_less_iff_less_mult [of 146097 "400 * n" "?y + 1"]
    by simp_all
  show ?thesis
  proof (cases "n < year_start ?y")
    case True
    then have "?y \<noteq> 0" by (intro notI) (simp add: year_start_def)
    then obtain z where z: "?y = Suc z" by (metis not0_implies_Suc)
    then have "year_start z \<le> n" using y year_start_bounds [of z] by simp
    then show ?thesis using True z by (simp add: year_of_def)
  next
    case False
    have "n < year_start (Suc (Suc ?y))" using y year_start_bounds [of "Suc (Suc ?y)"] by simp
    then show ?thesis using False by (simp add: year_of_def Let_def)
  qed
qed

lemma month_split_ok:
  assumes "n < sum_list ks" "month_split ks m n = (m', d)"
  shows "m \<le> m' \<and> m' - m < length ks \<and> 1 \<le> d \<and> d \<le> ks ! (m' - m) \<and> n = sum_list (take (m' - m) ks) + (d - 1)"
  using assms
proof (induction ks m n rule: month_split.induct)
  case (2 k ks m n)
  show ?case
  proof (cases "n < k")
    case False
    have "n - k < sum_list ks" using "2.prems"(1) False by (simp add: less_diff_conv2)
    with 2 False have "Suc m \<le> m' \<and> m' - Suc m < length ks \<and> 1 \<le> d \<and> d \<le> ks ! (m' - Suc m) \<and>
        n - k = sum_list (take (m' - Suc m) ks) + (d - 1)" by simp
    moreover from this obtain i where "m' - m = Suc i" "m' - Suc m = i" by (metis Suc_diff_Suc Suc_le_lessD)
    ultimately show ?thesis using False by (simp add: le_diff_conv2) linarith
  qed (use 2 in auto)
qed simp

lemma date_of_ok:
  assumes "date_of n = (y, m, d)"
  shows "1 \<le> m \<and> m \<le> 12 \<and> 1 \<le> d \<and> d \<le> daysIn m y \<and> days_of y m d = n \<and> year_start y \<le> n"
proof -
  have y: "y = year_of n" and md: "month_split (month_days y) 1 (n - year_start y) = (m, d)"
    using assms by (auto simp: date_of_def Let_def)
  have n: "year_start y \<le> n" "n - year_start y < sum_list (month_days y)"
    using year_of_bounds [of n] y by (simp_all add: year_start_Suc less_diff_conv2)
  have "length (month_days y) = 12" by (simp add: month_days_def)
  with month_split_ok [OF n(2) md] n(1) show ?thesis by (auto simp: days_of_def daysIn_def)
qed

subsection \<open>Instants\<close>

text \<open>Seconds since the epoch and nanoseconds within the second; the location plays no part.\<close>

record go_time =
  t_sec :: int
  t_nsec :: nat

text \<open>\<^verbatim>\<open>time.Unix(0, ns)\<close> and \<^verbatim>\<open>UnixNano\<close>, which wraps to 64 bits.\<close>

definition time_Unix :: "int \<Rightarrow> go_time" where
  "time_Unix ns = \<lparr>t_sec = ns div 1000000000, t_nsec = nat (ns mod 1000000000)\<rparr>"

definition UnixNano :: "go_time \<Rightarrow> int" where
  "UnixNano t = i64 (t_sec t * 1000000000 + int (t_nsec t))"

text \<open>The epoch, in days from the first of January of year 0.\<close>

abbreviation epoch_day :: nat where "epoch_day \<equiv> 719528"

definition time_Date :: "nat \<Rightarrow> nat \<Rightarrow> nat \<Rightarrow> nat \<Rightarrow> nat \<Rightarrow> nat \<Rightarrow> nat \<Rightarrow> go_time" where
  "time_Date y m d h mi s ns = \<lparr>t_sec = (int (days_of y m d) - int epoch_day) * 86400 +
     int (h * 3600 + mi * 60 + s), t_nsec = ns\<rparr>"

subsection \<open>Formatting\<close>

text \<open>The digits of a number that fits the width; the year of a 64-bit timestamp has four.\<close>

fun append_int :: "nat \<Rightarrow> nat \<Rightarrow> bytes" where
  "append_int 0 x = []"
| "append_int (Suc w) x = append_int w (x div 10) @ [of_nat (48 + x mod 10)]"

text \<open>The fraction of \<^verbatim>\<open>.999999999\<close>: trailing zeros are dropped, and the point if nothing is left.\<close>

definition append_nano :: "nat \<Rightarrow> bytes" where
  "append_nano ns = (let ds = rev (dropWhile (\<lambda>b. b = 48) (rev (append_int 9 ns))) in
     if ds = [] then [] else 46 # ds)"

definition format_time :: "bool \<Rightarrow> go_time \<Rightarrow> bytes" where
  "format_time nano t =
     (let n = nat (t_sec t div 86400 + int epoch_day); s = nat (t_sec t mod 86400) in
      case date_of n of (y, m, d) \<Rightarrow>
        append_int 4 y @ [45] @ append_int 2 m @ [45] @ append_int 2 d @ [84] @
        append_int 2 (s div 3600) @ [58] @ append_int 2 (s div 60 mod 60) @ [58] @ append_int 2 (s mod 60) @
        (if nano then append_nano (t_nsec t) else []) @ [90])"

abbreviation Format_RFC3339Nano :: "go_time \<Rightarrow> bytes" where "Format_RFC3339Nano \<equiv> format_time True"
abbreviation Format_RFC3339 :: "go_time \<Rightarrow> bytes" where "Format_RFC3339 \<equiv> format_time False"

subsection \<open>Parsing\<close>

definition digits_value :: "bytes \<Rightarrow> nat" where
  "digits_value ds = foldl (\<lambda>a d. a * 10 + (unat d - 48)) 0 ds"

text \<open>\<^verbatim>\<open>getnum\<close>: two digits, or one if the width is not fixed.\<close>

definition getnum :: "bool \<Rightarrow> bytes \<Rightarrow> (nat \<times> bytes) option" where
  "getnum fixed v = (case v of
     [] \<Rightarrow> None
   | a # r \<Rightarrow>
       if \<not> is_digit a then None
       else if r \<noteq> [] \<and> is_digit (hd r) then Some (digits_value [a, hd r], tl r)
       else if fixed then None else Some (digits_value [a], r))"

text \<open>
  A fractional second, after a point or a comma: nine digits count, any number is taken. \<open>None\<close> when
  there is no fraction.
\<close>

definition take_frac :: "bytes \<Rightarrow> (nat \<times> bytes) option" where
  "take_frac v = (case v of
     [] \<Rightarrow> None
   | c # r \<Rightarrow>
       if (c = 46 \<or> c = 44) \<and> r \<noteq> [] \<and> is_digit (hd r)
       then (let ds = take 9 (takeWhile is_digit r)
             in Some (digits_value ds * 10 ^ (9 - length ds), dropWhile is_digit r))
       else None)"

datatype std_chunk = stdLongYear | stdZeroMonth | stdZeroDay | stdHour | stdZeroMinute | stdZeroSecond
  | stdFracSecond9 | stdISO8601ColonTZ

record parsed_time =
  p_year :: nat
  p_month :: nat
  p_day :: nat
  p_hour :: nat
  p_min :: nat
  p_sec :: nat
  p_nsec :: nat
  p_zoneOffset :: int

text \<open>\<^verbatim>\<open>Z\<close> or an offset with a colon; offsets of 24 hours and 60 minutes are let through.\<close>

definition parse_zone :: "bytes \<Rightarrow> (int \<times> bytes) option" where
  "parse_zone v =
     (if take 1 v = [90] then Some (0, drop 1 v)
      else if length v < 6 \<or> v ! 3 \<noteq> 58 \<or> (v ! 0 \<noteq> 43 \<and> v ! 0 \<noteq> 45) then None
      else
        (case (getnum True (take 2 (drop 1 v)), getnum True (take 2 (drop 4 v))) of
           (Some (hr, _), Some (mm, _)) \<Rightarrow>
             if hr > 24 \<or> mm > 60 then None
             else Some ((if v ! 0 = 45 then - 1 else 1) * int ((hr * 60 + mm) * 60), drop 6 v)
         | _ \<Rightarrow> None))"

text \<open>A two-digit field within bounds.\<close>

definition parse_field :: "bool \<Rightarrow> nat \<Rightarrow> nat \<Rightarrow> bytes \<Rightarrow> (nat \<times> bytes) option" where
  "parse_field fixed lo hi v = (case getnum fixed v of
     None \<Rightarrow> None | Some (x, r) \<Rightarrow> if lo \<le> x \<and> x \<le> hi then Some (x, r) else None)"

definition frac_step :: "bytes \<Rightarrow> parsed_time \<Rightarrow> parsed_time \<times> bytes" where
  "frac_step v p = (case take_frac v of None \<Rightarrow> (p, v) | Some (ns, r) \<Rightarrow> (p\<lparr>p_nsec := ns\<rparr>, r))"

text \<open>
  One chunk; the flag says that the next chunk is a fractional second. Without it a fraction after the
  seconds is taken all the same.
\<close>

fun parse_chunk :: "std_chunk \<Rightarrow> bool \<Rightarrow> bytes \<Rightarrow> parsed_time \<Rightarrow> (parsed_time \<times> bytes) option" where
  "parse_chunk stdLongYear nf v p =
     (if length v < 4 \<or> \<not> list_all is_digit (take 4 v) then None
      else Some (p\<lparr>p_year := digits_value (take 4 v)\<rparr>, drop 4 v))"
| "parse_chunk stdZeroMonth nf v p = map_option (\<lambda>(x, r). (p\<lparr>p_month := x\<rparr>, r)) (parse_field True 1 12 v)"
| "parse_chunk stdZeroDay nf v p = map_option (\<lambda>(x, r). (p\<lparr>p_day := x\<rparr>, r)) (getnum True v)"
| "parse_chunk stdHour nf v p = map_option (\<lambda>(x, r). (p\<lparr>p_hour := x\<rparr>, r)) (parse_field False 0 23 v)"
| "parse_chunk stdZeroMinute nf v p = map_option (\<lambda>(x, r). (p\<lparr>p_min := x\<rparr>, r)) (parse_field True 0 59 v)"
| "parse_chunk stdZeroSecond nf v p = map_option (\<lambda>(x, r). let p = p\<lparr>p_sec := x\<rparr> in
     if nf then (p, r) else frac_step r p) (parse_field True 0 59 v)"
| "parse_chunk stdFracSecond9 nf v p = Some (frac_step v p)"
| "parse_chunk stdISO8601ColonTZ nf v p = map_option (\<lambda>(x, r). (p\<lparr>p_zoneOffset := x\<rparr>, r)) (parse_zone v)"

type_synonym layout = "(bytes \<times> std_chunk) list"

fun parse_chunks :: "layout \<Rightarrow> bytes \<Rightarrow> parsed_time \<Rightarrow> parsed_time option" where
  "parse_chunks [] v p = (if v = [] then Some p else None)"
| "parse_chunks ((pre, std) # rest) v p =
     (case strip_prefix pre v of
        None \<Rightarrow> None
      | Some v \<Rightarrow>
          (case parse_chunk std (map snd (take 1 rest) = [stdFracSecond9]) v p of
             None \<Rightarrow> None
           | Some (p, v) \<Rightarrow> parse_chunks rest v p))"

definition RFC3339 :: layout where
  "RFC3339 = [([], stdLongYear), ([45], stdZeroMonth), ([45], stdZeroDay), ([84], stdHour),
     ([58], stdZeroMinute), ([58], stdZeroSecond), ([], stdISO8601ColonTZ)]"

definition RFC3339Nano :: layout where
  "RFC3339Nano = [([], stdLongYear), ([45], stdZeroMonth), ([45], stdZeroDay), ([84], stdHour),
     ([58], stdZeroMinute), ([58], stdZeroSecond), ([], stdFracSecond9), ([], stdISO8601ColonTZ)]"

definition parsed_init :: parsed_time where
  "parsed_init = \<lparr>p_year = 0, p_month = 0, p_day = 0, p_hour = 0, p_min = 0, p_sec = 0, p_nsec = 0,
     p_zoneOffset = 0\<rparr>"

text \<open>
  \<^verbatim>\<open>time.Parse\<close>. The library first tries a stricter routine for these two layouts, which gives the
  same instant when it succeeds.
\<close>

definition time_Parse :: "layout \<Rightarrow> bytes \<Rightarrow> go_time option" where
  "time_Parse l v = (case parse_chunks l v parsed_init of
     None \<Rightarrow> None
   | Some p \<Rightarrow>
       if p_day p < 1 \<or> p_day p > daysIn (p_month p) (p_year p) then None
       else
         (let t = time_Date (p_year p) (p_month p) (p_day p) (p_hour p) (p_min p) (p_sec p) (p_nsec p)
          in Some (t\<lparr>t_sec := t_sec t - p_zoneOffset p\<rparr>)))"


subsection \<open>Numbers survive\<close>

lemma digits_value_append: "digits_value (xs @ ys) = digits_value xs * 10 ^ length ys + digits_value ys"
proof (induction ys rule: rev_induct)
  case (snoc y ys)
  have "digits_value (zs @ [y]) = digits_value zs * 10 + digits_value [y]" for zs by (simp add: digits_value_def)
  with snoc [symmetric] show ?case by (metis (no_types, lifting) add.assoc add_mult_distrib append_assoc length_append_singleton
      mult.assoc power_Suc2)
qed (simp add: digits_value_def)

lemma append_int_digits: "length (append_int w x) = w" "list_all is_digit (append_int w x)"
  by (induction w arbitrary: x) (use digit_of_nat in \<open>simp_all del: of_nat_add\<close>)

lemma append_int_value: "x < 10 ^ w \<Longrightarrow> digits_value (append_int w x) = x"
proof (induction w arbitrary: x)
  case (Suc w)
  have "digits_value [of_nat (48 + x mod 10)] = x mod 10"
    using digit_of_nat [of "x mod 10"] by (simp add: digits_value_def)
  then show ?case using Suc by (simp add: digits_value_append)
qed (simp add: digits_value_def)

lemma append_int_2: "append_int 2 x = [of_nat (48 + x div 10 mod 10), of_nat (48 + x mod 10)]"
  by (simp add: numeral_2_eq_2)

lemma getnum_append_int [simp]: "x < 100 \<Longrightarrow> getnum f (append_int 2 x @ r) = Some (x, r)"
  using append_int_value [of x 2] append_int_digits(2) [of 2 x]
  by (simp add: getnum_def append_int_2 del: of_nat_add)

lemma parse_field_append_int [simp]:
  "lo \<le> x \<Longrightarrow> x \<le> hi \<Longrightarrow> hi < 100 \<Longrightarrow> parse_field f lo hi (append_int 2 x @ r) = Some (x, r)"
  by (simp add: parse_field_def)

lemma takeWhile_all_stop:
  "list_all P xs \<Longrightarrow> \<not> P y \<Longrightarrow> takeWhile P (xs @ y # r) = xs \<and> dropWhile P (xs @ y # r) = y # r"
  by (induction xs) auto

lemma take_frac_nano:
  assumes "ns < 10 ^ 9"
  shows "take_frac (append_nano ns @ 90 # r) = (if ns = 0 then None else Some (ns, 90 # r))"
proof -
  define ds where "ds = rev (dropWhile (\<lambda>b. b = 48) (rev (append_int 9 ns)))"
  define k where "k = length (takeWhile (\<lambda>b. b = (48 :: byte)) (rev (append_int 9 ns)))"
  have z: "takeWhile (\<lambda>b. b = (48 :: byte)) xs = replicate (length (takeWhile (\<lambda>b. b = 48) xs)) 48" for xs
    by (induction xs) auto
  have split: "append_int 9 ns = ds @ replicate k 48"
    unfolding ds_def k_def using arg_cong [OF takeWhile_dropWhile_id [of "\<lambda>b. b = 48" "rev (append_int 9 ns)"], of rev]
    by (subst (asm) z) simp
  have len: "length ds + k = 9" using append_int_digits(1) [of 9 ns] unfolding split by simp
  have dig: "list_all is_digit ds" using append_int_digits(2) [of 9 ns] unfolding split by simp
  have "digits_value (replicate k 48) = 0" by (induction k) (simp_all add: digits_value_def)
  then have val: "digits_value ds * 10 ^ k = ns"
    using append_int_value [OF assms] unfolding split by (simp add: digits_value_append)
  have t: "takeWhile is_digit (ds @ 90 # r) = ds \<and> dropWhile is_digit (ds @ 90 # r) = 90 # r"
    using takeWhile_all_stop [OF dig] by (simp add: is_digit_def)
  show ?thesis
  proof (cases "ds = []")
    case True
    then have "ns = 0" using val by (simp add: digits_value_def)
    moreover have "append_nano ns = []" using True unfolding append_nano_def ds_def [symmetric] by simp
    ultimately show ?thesis by (simp add: take_frac_def)
  next
    case False
    then have "dropWhile (\<lambda>b. b = 48) (rev (append_int 9 ns)) \<noteq> []" unfolding ds_def by simp
    from hd_dropWhile [OF this] have "last ds \<noteq> 48" unfolding ds_def last_rev .
    moreover have "is_digit (last ds)" using dig False by (simp add: list_all_iff)
    ultimately have "unat (last ds) \<noteq> 48" "48 \<le> unat (last ds)"
      by (simp_all add: is_digit_def word_le_nat_alt word_unat_eq_iff)
    then have "0 < digits_value [last ds]" by (simp add: digits_value_def)
    then have "ns \<noteq> 0" using val digits_value_append [of "butlast ds" "[last ds]"] False by auto
    moreover have "hd (ds @ 90 # r) = hd ds" "is_digit (hd ds)" using False dig by (simp_all add: list_all_iff)
    moreover have "append_nano ns = 46 # ds" using False unfolding append_nano_def ds_def [symmetric] by simp
    moreover have "k = 9 - length ds" using len by simp
    ultimately show ?thesis using False t len val by (simp add: take_frac_def Let_def)
  qed
qed


subsection \<open>Timestamps survive\<close>

lemma parse_year [simp]: "y < 10000 \<Longrightarrow>
    parse_chunk stdLongYear nf (append_int 4 y @ r) p = Some (p\<lparr>p_year := y\<rparr>, r)"
  using append_int_digits [of 4 y] append_int_value [of y 4] by simp

lemma strip_one [simp]: "strip_prefix [c] (c # r) = Some r" "strip_prefix [] r = Some r"
  by (simp_all add: strip_prefix_def)

lemma append_nano_0 [simp]: "append_nano 0 = []"
proof -
  have "append_int w 0 = replicate w 48" for w by (induction w) (simp_all add: replicate_append_same)
  then show ?thesis by (simp add: append_nano_def)
qed

lemma frac_step_nano: "ns < 10 ^ 9 \<Longrightarrow> p_nsec p = 0 \<Longrightarrow> frac_step (append_nano ns @ 90 # r) p = (p\<lparr>p_nsec := ns\<rparr>, 90 # r)"
  by (auto simp: frac_step_def take_frac_nano)

lemma year_of_less: "year_start y \<le> n \<Longrightarrow> n < 3652425 \<Longrightarrow> y < 10000"
  using year_start_bounds(2) [of y] by linarith

text \<open>Formatting in UTC and parsing, for the years 0 to 9999.\<close>

lemma parse_format:
  assumes "- 719528 * 86400 \<le> t_sec t" "t_sec t < 2932897 * 86400" "t_nsec t < 10 ^ 9"
  shows "time_Parse RFC3339Nano (Format_RFC3339Nano t) = Some t"
proof -
  define n where "n = nat (t_sec t div 86400 + int epoch_day)"
  define s where "s = nat (t_sec t mod 86400)"
  have n: "int n = t_sec t div 86400 + 719528" "n < 3652425" using assms(1,2) unfolding n_def by linarith+
  have s: "int s = t_sec t mod 86400" "s < 86400" unfolding s_def by simp_all
  obtain y m d where d: "date_of n = (y, m, d)" by (metis surj_pair)
  note dk = date_of_ok [OF d]
  have y: "y < 10000" using year_of_less dk n(2) by blast
  have "daysIn m y \<le> 31" using dk by (auto simp: daysIn_def month_days_def nth_Cons' numeral_eq_Suc)
  then have md: "m < 100" "d < 100" using dk by linarith+
  have h: "s div 3600 \<le> 23" "s div 60 mod 60 \<le> 59" "s mod 60 \<le> 59" using s(2) by (simp_all add: less_Suc_eq_le [symmetric] div_less_iff_less_mult)
  let ?p = "\<lparr>p_year = y, p_month = m, p_day = d, p_hour = s div 3600, p_min = s div 60 mod 60, p_sec = s mod 60,
     p_nsec = t_nsec t, p_zoneOffset = 0\<rparr>"
  have f: "Format_RFC3339Nano t = append_int 4 y @ 45 # append_int 2 m @ 45 # append_int 2 d @ 84 #
      append_int 2 (s div 3600) @ 58 # append_int 2 (s div 60 mod 60) @ 58 # append_int 2 (s mod 60) @
      append_nano (t_nsec t) @ 90 # []"
    unfolding format_time_def Let_def n_def [symmetric] s_def [symmetric] d by simp
  have "parse_chunks RFC3339Nano (Format_RFC3339Nano t) parsed_init = Some ?p"
    using y md h dk frac_step_nano [OF assms(3), where r = "[]"] unfolding f
    by (simp add: RFC3339Nano_def parsed_init_def parse_zone_def del: parse_chunk.simps(1))
  moreover have "s div 60 div 60 = s div 3600" by (simp add: div_mult2_eq [symmetric])
  then have "s div 3600 * 60 + s div 60 mod 60 = s div 60" using div_mult_mod_eq [of "s div 60" 60] by simp
  then have "(s div 3600 * 60 + s div 60 mod 60) * 60 + s mod 60 = s div 60 * 60 + s mod 60" by (rule arg_cong)
  then have "s div 3600 * 3600 + s div 60 mod 60 * 60 + s mod 60 = s" by (simp add: distrib_right mult.assoc)
  then have "int (s div 3600 * 3600 + s div 60 mod 60 * 60 + s mod 60) = t_sec t mod 86400" using s(1) by presburger
  moreover have "(t_sec t div 86400) * 86400 + t_sec t mod 86400 = t_sec t" by simp
  ultimately show ?thesis using dk n(1) by (simp add: time_Parse_def time_Date_def)
qed

lemma Parse_Unix:
  assumes "is_i64 ns"
  shows "time_Parse RFC3339Nano (Format_RFC3339Nano (time_Unix ns)) = Some (time_Unix ns)"
    "UnixNano (time_Unix ns) = ns"
proof -
  have "- 719528 * 86400 \<le> ns div 1000000000" "ns div 1000000000 < 2932897 * 86400"
    using assms unfolding is_i64_def by linarith+
  then show "time_Parse RFC3339Nano (Format_RFC3339Nano (time_Unix ns)) = Some (time_Unix ns)"
    by (intro parse_format) (simp_all add: time_Unix_def nat_less_iff)
  show "UnixNano (time_Unix ns) = ns" using assms by (simp add: UnixNano_def time_Unix_def width_simps)
qed


text \<open>The layout without the fraction accepts the same strings, with the same result.\<close>

lemma parse_chunks_frac:
  "parse_chunks (l @ [([58], stdZeroSecond), z]) v p = parse_chunks (l @ [([58], stdZeroSecond), ([], stdFracSecond9), z]) v p"
  if "snd z \<noteq> stdFracSecond9"
proof (induction l arbitrary: v p)
  case Nil
  obtain pre std where "z = (pre, std)" by (cases z)
  with that show ?case by (simp add: Let_def split: option.splits prod.splits)
next
  case (Cons c l)
  have "map snd (take 1 (l @ [([58], stdZeroSecond), z])) =
      map snd (take 1 (l @ [([58], stdZeroSecond), ([], stdFracSecond9), z]))" by (cases l) simp_all
  with Cons show ?case by (cases c) (simp only: append_Cons parse_chunks.simps)
qed

lemma parse_chunks_layouts: "parse_chunks RFC3339 v p = parse_chunks RFC3339Nano v p"
  using parse_chunks_frac [of "([], stdISO8601ColonTZ)" "[([], stdLongYear), ([45], stdZeroMonth), ([45], stdZeroDay),
      ([84], stdHour), ([58], stdZeroMinute)]" v p]
  unfolding RFC3339_def RFC3339Nano_def by (simp only: append.simps snd_conv std_chunk.distinct simp_thms)

lemma Parse_layouts: "time_Parse RFC3339 v = time_Parse RFC3339Nano v"
  by (simp add: time_Parse_def parse_chunks_layouts)


lemma digits_ascii: "list_all is_digit ds \<Longrightarrow> ascii ds"
  by (auto simp: ascii_def list_all_iff is_digit_def word_less_nat_alt word_le_nat_alt)

lemma ascii_app [simp]: "ascii (xs @ ys) \<longleftrightarrow> ascii xs \<and> ascii ys" "ascii (x # xs) \<longleftrightarrow> x < 0x80 \<and> ascii xs" "ascii []"
  by (auto simp: ascii_def)

lemma format_time_ascii: "ascii (format_time nano t)"
proof -
  have i: "ascii (append_int w x)" for w x by (rule digits_ascii [OF append_int_digits(2)])
  have "ascii (append_nano x)" for x
  proof -
    have "set (dropWhile (\<lambda>b. b = 48) (rev (append_int 9 x))) \<subseteq> set (append_int 9 x)" by (metis set_dropWhileD set_rev subsetI)
    then have "ascii (rev (dropWhile (\<lambda>b. b = 48) (rev (append_int 9 x))))" using i [of 9 x] unfolding ascii_def set_rev by blast
    then show ?thesis unfolding append_nano_def Let_def by simp
  qed
  then show ?thesis by (simp add: format_time_def Let_def i split: prod.splits)
qed


end
