(* ===== verification/Base64.thy ===== *)
theory Base64
  imports Prelude
begin

text \<open>
  \<^verbatim>\<open>base64.StdEncoding\<close>: three bytes become four characters of the alphabet, the last group is padded
  with equal signs. Decoding skips line breaks, wants the padding and nothing after it, and does not
  look at the unused bits of the last character.
\<close>

definition b64_char :: "nat \<Rightarrow> byte" where
  "b64_char k = of_nat (if k < 26 then 65 + k else if k < 52 then 71 + k else if k < 62 then k - 4
     else if k = 62 then 43 else 47)"

definition b64_val :: "byte \<Rightarrow> nat option" where
  "b64_val b = (let n = unat b in
     if 65 \<le> n \<and> n \<le> 90 then Some (n - 65) else if 97 \<le> n \<and> n \<le> 122 then Some (n - 71)
     else if 48 \<le> n \<and> n \<le> 57 then Some (n + 4) else if n = 43 then Some 62 else if n = 47 then Some 63
     else None)"

abbreviation b64_pad :: byte where "b64_pad \<equiv> 61"

fun EncodeToString :: "bytes \<Rightarrow> bytes" where
  "EncodeToString (a # b # c # r) =
     (let n = (unat a * 256 + unat b) * 256 + unat c in
      b64_char (n div 262144) # b64_char (n div 4096 mod 64) # b64_char (n div 64 mod 64) #
      b64_char (n mod 64) # EncodeToString r)"
| "EncodeToString [a, b] =
     (let n = (unat a * 256 + unat b) * 4 in
      [b64_char (n div 4096), b64_char (n div 64 mod 64), b64_char (n mod 64), b64_pad])"
| "EncodeToString [a] =
     (let n = unat a * 16 in [b64_char (n div 64), b64_char (n mod 64), b64_pad, b64_pad])"
| "EncodeToString [] = []"

text \<open>The groups of four, after the line breaks are taken out.\<close>

fun decode_quanta :: "bytes \<Rightarrow> bytes option" where
  "decode_quanta [] = Some []"
| "decode_quanta (p # q # r # s # rest) =
     (case (b64_val p, b64_val q) of
        (Some i, Some j) \<Rightarrow>
          (case b64_val r of
             None \<Rightarrow>
               if r = b64_pad \<and> s = b64_pad \<and> rest = [] then Some [of_nat ((i * 64 + j) div 16)] else None
           | Some k \<Rightarrow>
               (case b64_val s of
                  None \<Rightarrow>
                    if s = b64_pad \<and> rest = []
                    then (let n = ((i * 64 + j) * 64 + k) div 4 in Some [of_nat (n div 256), of_nat (n mod 256)])
                    else None
                | Some l \<Rightarrow>
                    (let n = ((i * 64 + j) * 64 + k) * 64 + l in
                     map_option (\<lambda>t. of_nat (n div 65536) # of_nat (n div 256 mod 256) # of_nat (n mod 256) # t)
                       (decode_quanta rest))))
      | _ \<Rightarrow> None)"
| "decode_quanta _ = None"

definition DecodeString :: "bytes \<Rightarrow> bytes option" where
  "DecodeString s = decode_quanta (filter (\<lambda>b. b \<noteq> 10 \<and> b \<noteq> 13) s)"

subsection \<open>Bytes survive\<close>

lemma b64_char_unat: "k < 64 \<Longrightarrow> unat (b64_char k) = (if k < 26 then 65 + k else if k < 52 then 71 + k
    else if k < 62 then k - 4 else if k = 62 then 43 else 47)"
  by (simp add: b64_char_def unat_of_nat del: of_nat_add)

lemma b64_val_char [simp]: "k < 64 \<Longrightarrow> b64_val (b64_char k) = Some k"
  by (auto simp: b64_val_def b64_char_unat Let_def)

lemma b64_val_pad [simp]: "b64_val b64_pad = None"
  by (simp add: b64_val_def)

lemma b64_char_ascii: "k < 64 \<Longrightarrow> b64_char k < 0x80 \<and> b64_char k \<noteq> 10 \<and> b64_char k \<noteq> 13"
  by (auto simp: word_less_nat_alt word_unat_eq_iff b64_char_unat)

lemma base256: "c < 256 \<Longrightarrow> (m * 256 + c) div 256 = m \<and> (m * 256 + c) mod 256 = (c :: nat)"
  by simp

lemma EncodeToString_chars: "\<forall>b \<in> set (EncodeToString bs). b < 0x80 \<and> b \<noteq> 10 \<and> b \<noteq> 13"
proof (induction bs rule: EncodeToString.induct)
  case (1 a b c r)
  have "((unat a * 256 + unat b) * 256 + unat c) div 262144 < 64"
    using unat_byte_less [of a] unat_byte_less [of b] unat_byte_less [of c] by (simp add: div_less_iff_less_mult)
  then show ?case using 1 b64_char_ascii by (simp add: Let_def)
next
  case (2 a b)
  have "((unat a * 256 + unat b) * 4) div 4096 < 64"
    using unat_byte_less [of a] unat_byte_less [of b] by (simp add: div_less_iff_less_mult)
  then show ?case using b64_char_ascii by (simp add: Let_def)
next
  case (3 a)
  have "(unat a * 16) div 64 < 64" using unat_byte_less [of a] by (simp add: div_less_iff_less_mult)
  then show ?case using b64_char_ascii by (simp add: Let_def)
qed simp

lemma split_digits:
  fixes n :: nat
  shows "(n div 64) * 64 + n mod 64 = n" "(n div 4096) * 64 + n div 64 mod 64 = n div 64"
    "(n div 262144) * 64 + n div 4096 mod 64 = n div 4096"
  using div_mult_mod_eq [of "n div 64" 64] div_mult_mod_eq [of "n div 4096" 64]
  by (simp_all add: div_mult2_eq [symmetric])

lemma decode_encode: "decode_quanta (EncodeToString bs) = Some bs"
proof (induction bs rule: EncodeToString.induct)
  case (1 a b c r)
  let ?n = "(unat a * 256 + unat b) * 256 + unat c"
  have "?n div 262144 < 64"
    using unat_byte_less [of a] unat_byte_less [of b] unat_byte_less [of c] by (simp add: div_less_iff_less_mult)
  moreover have "((?n div 262144 * 64 + ?n div 4096 mod 64) * 64 + ?n div 64 mod 64) * 64 + ?n mod 64 = ?n"
    by (simp only: split_digits)
  moreover have "?n div 256 = unat a * 256 + unat b" "?n mod 256 = unat c" using base256 [OF unat_byte_less] by blast+
  moreover from this have "?n div 65536 = unat a" "?n div 256 mod 256 = unat b"
    using base256 [OF unat_byte_less] div_mult2_eq [of ?n 256 256] by simp_all
  ultimately show ?case using 1 by (simp add: Let_def del: of_nat_add of_nat_mult)
next
  case (2 a b)
  let ?n = "(unat a * 256 + unat b) * 4"
  have "?n div 4096 < 64" using unat_byte_less [of a] unat_byte_less [of b] by (simp add: div_less_iff_less_mult)
  moreover have "(?n div 4096 * 64 + ?n div 64 mod 64) * 64 + ?n mod 64 = ?n" by (simp only: split_digits)
  moreover have "?n div 4 div 256 = unat a" "?n div 4 mod 256 = unat b" using unat_byte_less [of b] by simp_all
  ultimately show ?case by (simp add: Let_def del: of_nat_add of_nat_mult)
next
  case (3 a)
  let ?n = "unat a * 16"
  have "?n div 64 < 64" using unat_byte_less [of a] by (simp add: div_less_iff_less_mult)
  moreover have "?n div 64 * 64 + ?n mod 64 = ?n" by (rule split_digits(1))
  ultimately show ?case by (simp add: Let_def del: of_nat_add of_nat_mult)
qed simp

lemma Decode_Encode: "DecodeString (EncodeToString bs) = Some bs"
proof -
  have "filter (\<lambda>b. b \<noteq> 10 \<and> b \<noteq> 13) (EncodeToString bs) = EncodeToString bs"
    using EncodeToString_chars [of bs] by (simp add: filter_id_conv)
  then show ?thesis by (simp add: DecodeString_def decode_encode)
qed

end
