(* ===== verification/Records.thy ===== *)
theory Records
  imports Prelude
begin

text \<open>
  The unit of storage (\<^verbatim>\<open>internal/record/record.go\<close>): a record is a timestamp, a source
  identifier and a payload; records are ordered by \<open>(Timestamp, SourceID)\<close>. The interface
  \<^verbatim>\<open>record.Iterator\<close> is the locale \<open>record_iterator\<close>: its operations are functions on the
  iterator's own state and on an environment that several iterators share (the block cache),
  its laws say which list of records is still to come. The consumer loop \<^verbatim>\<open>for it.Next()\<close> is
  \<open>iter_collect\<close>; the locale proves once that it ends and returns that list.
\<close>

subsection \<open>Records\<close>

record go_record =
  Timestamp :: int
  SourceID :: bytes
  Payload :: bytes

text \<open>
  \<^verbatim>\<open>RecordView\<close> has the same three fields; it differs in owning no memory. \<open>copy_bytes\<close> is
  \<^verbatim>\<open>make\<close> followed by \<^verbatim>\<open>copy\<close>: a fresh array of zero bytes of the source's length,
  overwritten by the source.
\<close>

type_synonym record_view = go_record

definition copy_bytes :: "bytes \<Rightarrow> bytes" where
  "copy_bytes src = (let dst = replicate (length src) 0 in
     take (length dst) src @ drop (length src) dst)"

definition Clone :: "record_view \<Rightarrow> go_record" where
  "Clone v = \<lparr>Timestamp = Timestamp v, SourceID = copy_bytes (SourceID v),
     Payload = copy_bytes (Payload v)\<rparr>"

definition zero_record :: go_record where
  "zero_record = \<lparr>Timestamp = 0, SourceID = [], Payload = []\<rparr>"

text \<open>The sort key, and what Go's types guarantee of a record that fits the wire formats.\<close>

definition rkey :: "go_record \<Rightarrow> int \<times> bytes" where
  "rkey r = (Timestamp r, SourceID r)"

definition rec_sorted :: "go_record list \<Rightarrow> bool" where
  "rec_sorted rs \<longleftrightarrow> sorted (map rkey rs)"

definition rec_ok :: "go_record \<Rightarrow> bool" where
  "rec_ok r \<longleftrightarrow> is_i64 (Timestamp r) \<and> length (SourceID r) < 4294967296 \<and>
     length (Payload r) < 4294967296"

text \<open>
  The specification of a range query: timestamps in \<open>[start, end)\<close>, and the source filter,
  which is absent for a nil slice.
\<close>

definition in_range :: "int \<Rightarrow> int \<Rightarrow> go_record \<Rightarrow> bool" where
  "in_range t0 t1 r \<longleftrightarrow> t0 \<le> Timestamp r \<and> Timestamp r < t1"

definition src_match :: "bytes option \<Rightarrow> go_record \<Rightarrow> bool" where
  "src_match src r \<longleftrightarrow> (case src of None \<Rightarrow> True | Some s \<Rightarrow> SourceID r = s)"

definition query :: "int \<Rightarrow> int \<Rightarrow> bytes option \<Rightarrow> go_record list \<Rightarrow> go_record list" where
  "query t0 t1 src rs = filter (\<lambda>r. in_range t0 t1 r \<and> src_match src r) rs"

subsection \<open>The consumer loop\<close>

partial_function (option) iter_collect ::
  "('it \<Rightarrow> 's \<Rightarrow> bool \<times> 'it \<times> 's) \<Rightarrow> ('it \<Rightarrow> go_record) \<Rightarrow> 'it \<Rightarrow> 's \<Rightarrow>
   (go_record list \<times> 'it \<times> 's) option" where
  "iter_collect nxt view it s =
     (case nxt it s of (b, it', s') \<Rightarrow>
        if b then
          Option.bind (iter_collect nxt view it' s')
            (\<lambda>(rs, it'', s''). Some (view it' # rs, it'', s''))
        else Some ([], it', s'))"

subsection \<open>Lemmas on records\<close>

lemma copy_bytes_id [simp]: "copy_bytes bs = bs"
  by (simp add: copy_bytes_def)

lemma Clone_id [simp]: "Clone v = v"
  by (simp add: Clone_def)

lemma rkey_less: "rkey a < rkey b \<longleftrightarrow>
    Timestamp a < Timestamp b \<or> (Timestamp a = Timestamp b \<and> SourceID a < SourceID b)"
  by (auto simp: rkey_def less_prod_def less_le_not_le)

lemma rkey_le: "rkey a \<le> rkey b \<longleftrightarrow>
    Timestamp a < Timestamp b \<or> (Timestamp a = Timestamp b \<and> SourceID a \<le> SourceID b)"
  by (auto simp: rkey_def less_eq_prod_def less_le_not_le)

lemma rkey_le_ts: "rkey a \<le> rkey b \<Longrightarrow> Timestamp a \<le> Timestamp b"
  by (auto simp: rkey_le)

lemma rec_sorted_simps [simp]:
  "rec_sorted []"
  "rec_sorted (r # rs) \<longleftrightarrow> (\<forall>x \<in> set rs. rkey r \<le> rkey x) \<and> rec_sorted rs"
  by (auto simp: rec_sorted_def)

lemma rec_sorted_append:
  "rec_sorted (xs @ ys) \<longleftrightarrow> rec_sorted xs \<and> rec_sorted ys \<and>
     (\<forall>x \<in> set xs. \<forall>y \<in> set ys. rkey x \<le> rkey y)"
  by (auto simp: rec_sorted_def sorted_append)

lemma rec_sorted_filter: "rec_sorted rs \<Longrightarrow> rec_sorted (filter P rs)"
  by (induction rs) auto

lemma rec_sorted_wrt: "rec_sorted rs \<longleftrightarrow> sorted_wrt (\<lambda>x y. rkey x \<le> rkey y) rs"
  by (simp add: rec_sorted_def sorted_map)

lemma rec_sorted_nth_mono:
  "rec_sorted rs \<Longrightarrow> a \<le> b \<Longrightarrow> b < length rs \<Longrightarrow> rkey (rs ! a) \<le> rkey (rs ! b)"
  using sorted_nth_mono [of "map rkey rs" a b] by (simp add: rec_sorted_def)

lemma rec_sorted_ts_nth_mono:
  "rec_sorted rs \<Longrightarrow> a \<le> b \<Longrightarrow> b < length rs \<Longrightarrow> Timestamp (rs ! a) \<le> Timestamp (rs ! b)"
  by (rule rkey_le_ts [OF rec_sorted_nth_mono])

lemma rec_sorted_ts: "rec_sorted rs \<Longrightarrow> sorted (map Timestamp rs)"
  by (auto simp: sorted_iff_nth_mono intro: rec_sorted_ts_nth_mono)

lemma takeWhile_sorted_ts:
  "rec_sorted rs \<Longrightarrow> takeWhile (\<lambda>r. Timestamp r < t) rs = filter (\<lambda>r. Timestamp r < t) rs"
proof (induction rs)
  case (Cons a rs)
  show ?case
  proof (cases "Timestamp a < t")
    case False
    from Cons.prems have "\<forall>x \<in> set rs. Timestamp a \<le> Timestamp x" by (auto intro: rkey_le_ts)
    with False have "\<forall>x \<in> set rs. \<not> Timestamp x < t" by force
    with False show ?thesis by (simp add: filter_empty_conv)
  qed (use Cons in simp)
qed simp

text \<open>The border that \<^verbatim>\<open>sort.Search\<close> finds for a time bound in a sorted list of records.\<close>

lemma search_ts_border:
  fixes t :: int
  assumes "rec_sorted rs"
  defines "k \<equiv> sort_search (length rs) (\<lambda>i. t \<le> Timestamp (rs ! i))"
  shows "k \<le> length rs" "i < k \<Longrightarrow> Timestamp (rs ! i) < t"
    "k \<le> i \<Longrightarrow> i < length rs \<Longrightarrow> t \<le> Timestamp (rs ! i)"
proof -
  have "\<forall>a b. a \<le> b \<and> b < length rs \<and> t \<le> Timestamp (rs ! a) \<longrightarrow> t \<le> Timestamp (rs ! b)"
    using rec_sorted_ts_nth_mono [OF assms(1)] by (blast intro: order_trans)
  note b = sort_search_border [OF this, folded k_def]
  show "k \<le> length rs" "i < k \<Longrightarrow> Timestamp (rs ! i) < t"
    "k \<le> i \<Longrightarrow> i < length rs \<Longrightarrow> t \<le> Timestamp (rs ! i)"
    using b(1) b(2) [where k = i] b(3) [where k = i] by auto
qed

lemma query_sorted: "rec_sorted rs \<Longrightarrow> rec_sorted (query t0 t1 src rs)"
  by (simp add: query_def rec_sorted_filter)

lemma query_simps [simp]:
  "query t0 t1 src [] = []"
  "query t0 t1 src (r # rs) =
     (if in_range t0 t1 r \<and> src_match src r then r # query t0 t1 src rs else query t0 t1 src rs)"
  "query t0 t1 src (xs @ ys) = query t0 t1 src xs @ query t0 t1 src ys"
  by (simp_all add: query_def)

subsection \<open>The iterator interface\<close>

text \<open>
  \<open>rest s it\<close> is the list of records that \<^verbatim>\<open>Next\<close> will still deliver; \<open>inv\<close> is what an
  iterator and the shared environment must satisfy. Advancing one iterator must not disturb
  another one: \<open>next_frame\<close>.
\<close>

locale record_iterator =
  fixes nxt :: "'it \<Rightarrow> 's \<Rightarrow> bool \<times> 'it \<times> 's"
    and view :: "'it \<Rightarrow> go_record"
    and err :: "'it \<Rightarrow> go_error option"
    and rest :: "'s \<Rightarrow> 'it \<Rightarrow> go_record list"
    and inv :: "'s \<Rightarrow> 'it \<Rightarrow> bool"
  assumes next_done: "inv s it \<Longrightarrow> rest s it = [] \<Longrightarrow>
      \<exists>it' s'. nxt it s = (False, it', s') \<and> err it' = None"
    and next_more: "inv s it \<Longrightarrow> rest s it = r # rs \<Longrightarrow>
      \<exists>it' s'. nxt it s = (True, it', s') \<and> view it' = r \<and> rest s' it' = rs \<and> inv s' it'"
    and next_frame: "inv s it \<Longrightarrow> nxt it s = (b, it', s') \<Longrightarrow> inv s it2 \<Longrightarrow>
      inv s' it2 \<and> rest s' it2 = rest s it2"
begin

lemma collect_frame:
  assumes "inv s it"
  shows "\<exists>it' s'. iter_collect nxt view it s = Some (rest s it, it', s') \<and> err it' = None \<and>
    (\<forall>it2. inv s it2 \<longrightarrow> inv s' it2 \<and> rest s' it2 = rest s it2)"
  using assms
proof (induction "rest s it" arbitrary: s it)
  case Nil
  from next_done [OF Nil.prems] Nil.hyps obtain it' s'
    where n: "nxt it s = (False, it', s')" "err it' = None" by auto
  then show ?case using Nil next_frame [OF Nil.prems n(1)] by (subst iter_collect.simps) simp
next
  case (Cons r rs)
  from next_more [OF Cons.prems Cons.hyps(2) [symmetric]] obtain it1 s1
    where n: "nxt it s = (True, it1, s1)" "view it1 = r" "rest s1 it1 = rs" "inv s1 it1" by auto
  note frame = next_frame [OF Cons.prems n(1)]
  from Cons.hyps(1) [OF n(3) [symmetric] n(4)] obtain it2 s2
    where "iter_collect nxt view it1 s1 = Some (rs, it2, s2)" "err it2 = None"
      "\<forall>it3. inv s1 it3 \<longrightarrow> inv s2 it3 \<and> rest s2 it3 = rest s1 it3"
    using n(3) by auto
  then show ?case using n Cons.hyps(2) frame by (subst iter_collect.simps) simp
qed

lemma collect_rest:
  assumes "inv s it"
  shows "\<exists>it' s'. iter_collect nxt view it s = Some (rest s it, it', s') \<and> err it' = None"
  using collect_frame [OF assms] by blast

end

end
