(* ===== verification/FileSys.thy ===== *)
theory FileSys
  imports Prelude "HOL-Library.Sublist"
begin

text \<open>
  The part of the operating system and of \<^verbatim>\<open>os\<close> and \<^verbatim>\<open>bufio\<close> that the source uses. A file
  system is a directory (names to inodes) and the contents of the inodes, each with the length
  that is known to be on stable storage. A removed name leaves the inode to those who hold it
  open. System calls that write may fail: \<open>fs_faults\<close> is the list of outcomes of the next calls
  (\<open>None\<close> success, \<open>Some k\<close> failure after \<open>k\<close> bytes), and the empty list means that all succeed.
  Reads fail on the inodes of \<open>fs_bad\<close>. A crash keeps the synced bytes of every file and any
  part of what follows them.
\<close>

subsection \<open>State\<close>

type_synonym inode = nat

record file_sys =
  fs_names :: "(path \<times> inode) list"
  fs_data :: "inode \<Rightarrow> bytes"
  fs_synced :: "inode \<Rightarrow> nat"
  fs_next :: inode
  fs_faults :: "nat option list"
  fs_bad :: "inode \<Rightarrow> bool"

definition fs_empty :: file_sys where
  "fs_empty = \<lparr>fs_names = [], fs_data = (\<lambda>_. []), fs_synced = (\<lambda>_. 0), fs_next = 0,
     fs_faults = [], fs_bad = (\<lambda>_. False)\<rparr>"

definition fs_lookup :: "file_sys \<Rightarrow> path \<Rightarrow> inode option" where
  "fs_lookup fs p = map_of (fs_names fs) p"

definition pop_fault :: "file_sys \<Rightarrow> nat option \<times> file_sys" where
  "pop_fault fs = (case fs_faults fs of
     [] \<Rightarrow> (None, fs)
   | f # faults \<Rightarrow> (f, fs\<lparr>fs_faults := faults\<rparr>))"

subsection \<open>System calls\<close>

text \<open>\<^verbatim>\<open>os.OpenFile\<close> with \<^verbatim>\<open>O_CREATE\<close>; \<open>trunc\<close> is \<^verbatim>\<open>O_TRUNC\<close>.\<close>

definition os_open_create :: "bool \<Rightarrow> path \<Rightarrow> file_sys \<Rightarrow> inode result \<times> file_sys" where
  "os_open_create trunc p fs = (case pop_fault fs of
     (Some _, fs) \<Rightarrow> (Inl EIO, fs)
   | (None, fs) \<Rightarrow>
      (case fs_lookup fs p of
         Some i \<Rightarrow>
           (Inr i, if trunc then fs\<lparr>fs_data := (fs_data fs)(i := []), fs_synced := (fs_synced fs)(i := 0)\<rparr>
             else fs)
       | None \<Rightarrow>
           (let i = fs_next fs in
            (Inr i, fs\<lparr>fs_names := (p, i) # fs_names fs, fs_data := (fs_data fs)(i := []),
               fs_synced := (fs_synced fs)(i := 0), fs_next := Suc i\<rparr>))))"

text \<open>\<^verbatim>\<open>os.Open\<close> for reading.\<close>

definition os_open :: "path \<Rightarrow> file_sys \<Rightarrow> inode result" where
  "os_open p fs = (case fs_lookup fs p of None \<Rightarrow> Inl ErrNotExist | Some i \<Rightarrow> Inr i)"

definition file_write :: "inode \<Rightarrow> bytes \<Rightarrow> file_sys \<Rightarrow> nat \<times> go_error option \<times> file_sys" where
  "file_write i bs fs = (case pop_fault fs of
     (Some k, fs) \<Rightarrow>
       (min k (length bs), Some EIO, fs\<lparr>fs_data := (fs_data fs)(i := fs_data fs i @ take k bs)\<rparr>)
   | (None, fs) \<Rightarrow> (length bs, None, fs\<lparr>fs_data := (fs_data fs)(i := fs_data fs i @ bs)\<rparr>))"

definition file_sync :: "inode \<Rightarrow> file_sys \<Rightarrow> go_error option \<times> file_sys" where
  "file_sync i fs = (case pop_fault fs of
     (Some _, fs) \<Rightarrow> (Some EIO, fs)
   | (None, fs) \<Rightarrow> (None, fs\<lparr>fs_synced := (fs_synced fs)(i := length (fs_data fs i))\<rparr>))"

definition file_close :: "inode \<Rightarrow> file_sys \<Rightarrow> go_error option \<times> file_sys" where
  "file_close i fs = (case pop_fault fs of
     (Some _, fs) \<Rightarrow> (Some EIO, fs) | (None, fs) \<Rightarrow> (None, fs))"

definition file_truncate :: "inode \<Rightarrow> nat \<Rightarrow> file_sys \<Rightarrow> go_error option \<times> file_sys" where
  "file_truncate i n fs = (case pop_fault fs of
     (Some _, fs) \<Rightarrow> (Some EIO, fs)
   | (None, fs) \<Rightarrow>
      (let old = fs_data fs i in
       (None, fs\<lparr>fs_data := (fs_data fs)(i := take n old @ replicate (n - length old) 0),
          fs_synced := (fs_synced fs)(i := min n (fs_synced fs i))\<rparr>)))"

definition os_remove :: "path \<Rightarrow> file_sys \<Rightarrow> go_error option \<times> file_sys" where
  "os_remove p fs = (case pop_fault fs of
     (Some _, fs) \<Rightarrow> (Some EIO, fs)
   | (None, fs) \<Rightarrow>
      (if fs_lookup fs p = None then (Some ErrNotExist, fs)
       else (None, fs\<lparr>fs_names := filter (\<lambda>(q, _). q \<noteq> p) (fs_names fs)\<rparr>)))"

text \<open>\<^verbatim>\<open>File.ReadAt\<close> of \<open>n\<close> bytes: a short file is \<open>EOF\<close>.\<close>

definition read_at :: "file_sys \<Rightarrow> inode \<Rightarrow> nat \<Rightarrow> nat \<Rightarrow> bytes result" where
  "read_at fs i off n =
     (if fs_bad fs i then Inl EIO
      else if off + n \<le> length (fs_data fs i) then Inr (go_slice off (off + n) (fs_data fs i))
      else Inl EOF)"

subsection \<open>Buffered writers\<close>

text \<open>
  \<^verbatim>\<open>bufio.Writer\<close>: the buffered bytes, the capacity and the sticky error. \<^verbatim>\<open>Write\<close> fills and
  flushes the buffer while the rest does not fit; a write that does not fit into an empty buffer
  goes to the file directly.
\<close>

record buf_writer =
  bw_file :: inode
  bw_buf :: bytes
  bw_cap :: nat
  bw_err :: "go_error option"

definition bufio_New :: "inode \<Rightarrow> nat \<Rightarrow> buf_writer" where
  "bufio_New i n = \<lparr>bw_file = i, bw_buf = [], bw_cap = n, bw_err = None\<rparr>"

definition bufio_Flush :: "buf_writer \<Rightarrow> file_sys \<Rightarrow> go_error option \<times> buf_writer \<times> file_sys" where
  "bufio_Flush b fs =
     (if bw_err b \<noteq> None then (bw_err b, b, fs)
      else if bw_buf b = [] then (None, b, fs)
      else (case file_write (bw_file b) (bw_buf b) fs of
         (n, Some e, fs) \<Rightarrow> (Some e, b\<lparr>bw_buf := drop n (bw_buf b), bw_err := Some e\<rparr>, fs)
       | (n, None, fs) \<Rightarrow> (None, b\<lparr>bw_buf := []\<rparr>, fs)))"

function bufio_Write :: "bytes \<Rightarrow> buf_writer \<Rightarrow> file_sys \<Rightarrow> go_error option \<times> buf_writer \<times> file_sys"
where
  "bufio_Write p b fs =
     (if bw_err b \<noteq> None then (bw_err b, b, fs)
      else if length p > bw_cap b - length (bw_buf b) then
        (if bw_buf b = [] then
           (case file_write (bw_file b) p fs of
              (n, Some e, fs) \<Rightarrow> (Some e, b\<lparr>bw_err := Some e\<rparr>, fs)
            | (n, None, fs) \<Rightarrow> (None, b, fs))
         else
           (let n = bw_cap b - length (bw_buf b);
                res = bufio_Flush (b\<lparr>bw_buf := bw_buf b @ take n p\<rparr>) fs
            in bufio_Write (drop n p) (fst (snd res)) (snd (snd res))))
      else (None, b\<lparr>bw_buf := bw_buf b @ p\<rparr>, fs))"
  by pat_completeness auto

definition bw_measure :: "bytes \<times> buf_writer \<times> file_sys \<Rightarrow> nat" where
  "bw_measure x = (if bw_err (fst (snd x)) \<noteq> None then 0
     else 2 * length (fst x) + (if bw_buf (fst (snd x)) = [] then 1 else 2))"

lemma bufio_Flush_empties:
  "bw_err (fst (snd (bufio_Flush b fs))) = None \<Longrightarrow> bw_buf (fst (snd (bufio_Flush b fs))) = []"
  by (auto simp: bufio_Flush_def split: prod.splits option.splits if_splits)

termination bufio_Write
  by (relation "measure bw_measure") (auto simp: bw_measure_def bufio_Flush_empties)

declare bufio_Write.simps [simp del]

subsection \<open>Crashes\<close>

text \<open>
  What may be on disk after a power failure: every file keeps at least its synced prefix, and
  whatever follows is a prefix of what had been written. Two things are assumed that a file system need
  not give: the directory itself is on stable storage, so a file that was created or removed stays so
  (the code never syncs a directory), and an unsynced tail is cut, not overwritten with other bytes.
\<close>

definition fs_crash :: "file_sys \<Rightarrow> file_sys \<Rightarrow> bool" where
  "fs_crash fs fs' \<longleftrightarrow> fs_names fs' = fs_names fs \<and> fs_next fs' = fs_next fs \<and>
     fs_bad fs' = fs_bad fs \<and>
     (\<forall>i. \<exists>n. fs_synced fs i \<le> n \<and> n \<le> length (fs_data fs i) \<and>
        fs_data fs' i = take n (fs_data fs i) \<and> fs_synced fs' i = n)"

subsection \<open>Lemmas: calls that succeed\<close>

lemma pop_fault_ok [simp]: "fs_faults fs = [] \<Longrightarrow> pop_fault fs = (None, fs)"
  by (simp add: pop_fault_def)

lemma file_write_ok [simp]:
  "fs_faults fs = [] \<Longrightarrow> file_write i bs fs =
     (length bs, None, fs\<lparr>fs_data := (fs_data fs)(i := fs_data fs i @ bs)\<rparr>)"
  by (simp add: file_write_def)

lemma file_sync_ok [simp]:
  "fs_faults fs = [] \<Longrightarrow> file_sync i fs =
     (None, fs\<lparr>fs_synced := (fs_synced fs)(i := length (fs_data fs i))\<rparr>)"
  by (simp add: file_sync_def)

lemma file_close_ok [simp]: "fs_faults fs = [] \<Longrightarrow> file_close i fs = (None, fs)"
  by (simp add: file_close_def)

text \<open>
  The buffer is transparent: while calls succeed, the bytes of the file followed by the buffered
  bytes are the bytes written, and nothing else of the file system changes.
\<close>

definition bw_view :: "buf_writer \<Rightarrow> file_sys \<Rightarrow> bytes" where
  "bw_view b fs = fs_data fs (bw_file b) @ bw_buf b"

definition only_data :: "inode \<Rightarrow> file_sys \<Rightarrow> file_sys \<Rightarrow> bool" where
  "only_data i fs fs' \<longleftrightarrow> (\<exists>d. fs' = fs\<lparr>fs_data := (fs_data fs)(i := fs_data fs i @ d)\<rparr>)"

lemma only_data_refl [simp]: "only_data i fs fs"
  unfolding only_data_def by (intro exI [of _ "[]"]) simp

lemma only_data_trans: "only_data i fs fs1 \<Longrightarrow> only_data i fs1 fs2 \<Longrightarrow> only_data i fs fs2"
  by (auto simp: only_data_def)

lemma only_data_write: "only_data i fs (fs\<lparr>fs_data := (fs_data fs)(i := fs_data fs i @ d)\<rparr>)"
  by (auto simp: only_data_def)

lemma only_data_frame:
  assumes "only_data i fs fs'"
  shows "fs_faults fs' = fs_faults fs" "fs_names fs' = fs_names fs" "fs_synced fs' = fs_synced fs"
    "fs_next fs' = fs_next fs" "fs_bad fs' = fs_bad fs" "j \<noteq> i \<Longrightarrow> fs_data fs' j = fs_data fs j"
  using assms by (auto simp: only_data_def)

lemma bufio_Flush_ok:
  assumes "fs_faults fs = []" "bw_err b = None"
  shows "\<exists>fs'. bufio_Flush b fs = (None, b\<lparr>bw_buf := []\<rparr>, fs') \<and> only_data (bw_file b) fs fs' \<and>
    fs_data fs' (bw_file b) = bw_view b fs"
  using assms by (cases "bw_buf b = []")
    (auto simp: bufio_Flush_def bw_view_def only_data_write)

lemma bufio_Write_ok:
  assumes "fs_faults fs = []" "bw_err b = None"
  shows "\<exists>buf fs'. bufio_Write p b fs = (None, b\<lparr>bw_buf := buf\<rparr>, fs') \<and>
    only_data (bw_file b) fs fs' \<and> bw_view (b\<lparr>bw_buf := buf\<rparr>) fs' = bw_view b fs @ p"
  using assms
proof (induction p b fs rule: bufio_Write.induct)
  case (1 p b fs)
  show ?case
  proof (cases "length p > bw_cap b - length (bw_buf b)")
    case fits: False
    then have "bufio_Write p b fs = (None, b\<lparr>bw_buf := bw_buf b @ p\<rparr>, fs)"
      using "1.prems" by (subst bufio_Write.simps) simp
    then show ?thesis by (auto simp: bw_view_def)
  next
    case big: True
    show ?thesis
    proof (cases "bw_buf b = []")
      case True
      then have "bufio_Write p b fs =
          (None, b\<lparr>bw_buf := []\<rparr>, fs\<lparr>fs_data := (fs_data fs)(bw_file b := fs_data fs (bw_file b) @ p)\<rparr>)"
        using "1.prems" big by (subst bufio_Write.simps) simp
      with True show ?thesis by (auto simp: bw_view_def only_data_write)
    next
      case False
      define n where "n = bw_cap b - length (bw_buf b)"
      define b1 where "b1 = b\<lparr>bw_buf := bw_buf b @ take n p\<rparr>"
      have "bw_err b1 = None" using "1.prems" by (simp add: b1_def)
      from bufio_Flush_ok [OF "1.prems"(1) this] obtain fs1 where
        fl: "bufio_Flush b1 fs = (None, b1\<lparr>bw_buf := []\<rparr>, fs1)" "only_data (bw_file b) fs fs1"
          "fs_data fs1 (bw_file b) = bw_view b1 fs"
        by (auto simp: b1_def)
      have rec: "bufio_Write p b fs = bufio_Write (drop n p) (b1\<lparr>bw_buf := []\<rparr>) fs1"
        using "1.prems" big False fl(1)
        by (subst bufio_Write.simps) (simp add: n_def b1_def Let_def)
      have "fs_faults fs1 = []" "bw_err (b1\<lparr>bw_buf := []\<rparr>) = None"
        using fl(2) "1.prems" by (auto simp: only_data_frame b1_def)
      then obtain buf fs2 where
        r: "bufio_Write (drop n p) (b1\<lparr>bw_buf := []\<rparr>) fs1 = (None, b1\<lparr>bw_buf := buf\<rparr>, fs2)"
          "only_data (bw_file b) fs1 fs2"
          "bw_view (b1\<lparr>bw_buf := buf\<rparr>) fs2 = bw_view (b1\<lparr>bw_buf := []\<rparr>) fs1 @ drop n p"
        using "1.IH" [of n "bufio_Flush b1 fs"] "1.prems" big False fl(1)
        by (auto simp: n_def b1_def)
      have "bw_view (b1\<lparr>bw_buf := []\<rparr>) fs1 @ drop n p = bw_view b fs @ p"
        using fl(3) by (simp add: bw_view_def b1_def)
      with r rec fl(2) show ?thesis
        by (auto simp: b1_def intro: only_data_trans)
    qed
  qed
qed

subsection \<open>Lemmas: calls that may fail\<close>

text \<open>
  Whatever fails, a buffered writer changes the contents of its own file only, and only by appending
  a prefix of what it was given, in order.
\<close>

definition own_data :: "inode \<Rightarrow> file_sys \<Rightarrow> file_sys \<Rightarrow> bool" where
  "own_data i fs fs' \<longleftrightarrow> fs_names fs' = fs_names fs \<and> fs_synced fs' = fs_synced fs \<and>
     fs_next fs' = fs_next fs \<and> fs_bad fs' = fs_bad fs \<and>
     (\<forall>j. j \<noteq> i \<longrightarrow> fs_data fs' j = fs_data fs j) \<and> prefix (fs_data fs i) (fs_data fs' i)"

lemma own_data_refl [simp]: "own_data i fs fs"
  by (simp add: own_data_def)

lemma own_data_trans: "own_data i fs fs1 \<Longrightarrow> own_data i fs1 fs2 \<Longrightarrow> own_data i fs fs2"
  by (auto simp: own_data_def intro: prefix_order.trans)

lemma file_write_any:
  "file_write i bs fs = (n, e, fs') \<Longrightarrow> own_data i fs fs' \<and> fs_data fs' i = fs_data fs i @ take n bs \<and>
     n \<le> length bs \<and> (e = None \<longrightarrow> n = length bs)"
  by (cases "fs_faults fs")
    (auto simp: file_write_def pop_fault_def own_data_def min_def split: option.splits)

lemma bufio_Flush_any:
  assumes "bufio_Flush b fs = (e, b', fs')" "bw_err b = None"
  shows "own_data (bw_file b) fs fs' \<and> bw_file b' = bw_file b \<and> bw_cap b' = bw_cap b \<and> bw_err b' = e \<and>
    bw_view b' fs' = bw_view b fs \<and> (e = None \<longrightarrow> bw_buf b' = [])"
proof (cases "bw_buf b = []")
  case False
  obtain n e1 fs1 where w: "file_write (bw_file b) (bw_buf b) fs = (n, e1, fs1)" by (metis prod_cases3)
  from file_write_any [OF w] show ?thesis
    using assms False w by (cases e1) (auto simp: bufio_Flush_def bw_view_def)
qed (use assms in \<open>auto simp: bufio_Flush_def\<close>)

lemma bufio_Write_any:
  assumes "bufio_Write p b fs = (e, b', fs')" "bw_err b = None"
  shows "own_data (bw_file b) fs fs' \<and> bw_file b' = bw_file b \<and>
    (\<exists>r. bw_view b fs @ p = fs_data fs' (bw_file b) @ r \<and> (e = None \<longrightarrow> r = bw_buf b' \<and> bw_err b' = None))"
  using assms
proof (induction p b fs rule: bufio_Write.induct)
  case (1 p b fs)
  show ?case
  proof (cases "length p > bw_cap b - length (bw_buf b)")
    case fits: False
    then have "bufio_Write p b fs = (None, b\<lparr>bw_buf := bw_buf b @ p\<rparr>, fs)"
      using "1.prems" by (subst bufio_Write.simps) simp
    then show ?thesis using "1.prems" by (auto simp: bw_view_def)
  next
    case big: True
    show ?thesis
    proof (cases "bw_buf b = []")
      case True
      obtain n e1 fs1 where w: "file_write (bw_file b) p fs = (n, e1, fs1)" by (metis prod_cases3)
      have "bufio_Write p b fs = (e1, if e1 = None then b else b\<lparr>bw_err := e1\<rparr>, fs1)"
        using "1.prems" big True w by (subst bufio_Write.simps) (auto split: option.splits)
      then show ?thesis
        using "1.prems" True file_write_any [OF w] by (auto simp: bw_view_def intro!: exI [of _ "drop n p"] split: if_splits)
    next
      case False
      define n where "n = bw_cap b - length (bw_buf b)"
      define b1 where "b1 = b\<lparr>bw_buf := bw_buf b @ take n p\<rparr>"
      obtain e1 b2 fs1 where fl: "bufio_Flush b1 fs = (e1, b2, fs1)" by (metis prod_cases3)
      have "bw_err b1 = None" using "1.prems" by (simp add: b1_def)
      note f = bufio_Flush_any [OF fl this]
      have rec: "bufio_Write p b fs = bufio_Write (drop n p) b2 fs1"
        using "1.prems" big False fl by (subst bufio_Write.simps) (simp add: n_def b1_def Let_def)
      have "bw_view b fs @ p = bw_view b1 fs @ drop n p" by (simp add: bw_view_def b1_def)
      then have view: "bw_view b fs @ p = bw_view b2 fs1 @ drop n p" using f by simp
      show ?thesis
      proof (cases e1)
        case None
        have "own_data (bw_file b2) fs1 fs' \<and> bw_file b' = bw_file b2 \<and>
          (\<exists>r. bw_view b2 fs1 @ drop n p = fs_data fs' (bw_file b2) @ r \<and>
             (e = None \<longrightarrow> r = bw_buf b' \<and> bw_err b' = None))"
          using "1.IH" [of n "bufio_Flush b1 fs"] "1.prems" big False fl f None rec
          by (auto simp: n_def b1_def)
        then show ?thesis using f view by (auto simp: b1_def intro: own_data_trans)
      next
        case (Some x)
        then have "bufio_Write (drop n p) b2 fs1 = (Some x, b2, fs1)"
          using f by (subst bufio_Write.simps) simp
        then show ?thesis using "1.prems"(1) rec f view by (auto simp: b1_def bw_view_def)
      qed
    qed
  qed
qed

end
