(* ===== verification/Framing.thy ===== *)
theory Framing
  imports Prelude
begin

text \<open>
  The record format that the write-ahead log and the manifest share,
  \<^verbatim>\<open>CRC32(4B) | Len(4B) | body\<close> with the checksum over length and body, and the contract of a
  replay loop over it. The locale \<open>framed_log\<close> states the contract; its lemmas say what a replay
  of a complete log, of a torn log and of an oversized record returns. The two loops of the
  source are interpretations of it. The theory also shows that the checksum detects every change
  that is confined to one byte.
\<close>

subsection \<open>Frames\<close>

definition frame :: "bytes \<Rightarrow> bytes" where
  "frame body = (let len = put_u32 (u32 (length body)) in
     put_u32 (crc32 (len @ body)) @ len @ body)"

datatype frame_res = Stop "go_error option" | Body bytes bytes

text \<open>One round of a replay loop, up to the decoding of the body.\<close>

definition frame_next :: "nat \<Rightarrow> bytes \<Rightarrow> frame_res" where
  "frame_next maxBody br = (case read_full 8 br of
     Inl e \<Rightarrow> Stop None
   | Inr (hdr, br1) \<Rightarrow>
      (if get_u32 hdr 4 > maxBody then Stop None
       else (case read_full (get_u32 hdr 4) br1 of
          Inl e \<Rightarrow> Stop (if e = ErrUnexpectedEOF then None else Some e)
        | Inr (body, br2) \<Rightarrow>
            if crc32 (go_slice 4 8 hdr @ body) \<noteq> get_u32 hdr 0 then Stop None
            else Body body br2)))"

lemma length_frame [simp]: "length (frame body) = 8 + length body"
  by (simp add: frame_def Let_def)

lemma frame_next_frame:
  assumes "length body \<le> maxBody" "length body < 4294967296"
  shows "frame_next maxBody (frame body @ rest) = Body body rest"
  using assms
  by (simp add: frame_next_def frame_def Let_def read_full_def go_slice_def le_nat_put_u32 u32_id)

lemma frame_next_big:
  assumes "maxBody < length body" "length body < 4294967296"
  shows "frame_next maxBody (frame body @ rest) = Stop None"
  using assms
  by (simp add: frame_next_def frame_def Let_def read_full_def go_slice_def le_nat_put_u32 u32_id)

lemma frame_next_torn:
  assumes "k < length (frame body)" "length body \<le> maxBody" "length body < 4294967296"
    "body \<noteq> []"
  shows "frame_next maxBody (take k (frame body)) = Stop (if k = 8 then Some EOF else None)"
proof (cases "k < 8")
  case True
  then show ?thesis by (simp add: frame_next_def read_full_def)
next
  case False
  define len where "len = put_u32 (u32 (length body))"
  define hdr where "hdr = put_u32 (crc32 (len @ body)) @ len"
  have hdr: "length hdr = 8" "get_u32 hdr 4 = length body"
    using assms by (simp_all add: hdr_def len_def go_slice_def le_nat_put_u32 u32_id)
  have "take k (frame body) = hdr @ take (k - 8) body"
    using False hdr(1) by (simp add: frame_def Let_def hdr_def len_def)
  then have "read_full 8 (take k (frame body)) = Inr (hdr, take (k - 8) body)"
    using hdr(1) by simp
  moreover have "read_full (length body) (take (k - 8) body) =
      Inl (if k = 8 then EOF else ErrUnexpectedEOF)"
    using assms(1,4) False by (auto simp: read_full_def)
  ultimately show ?thesis using hdr assms by (simp add: frame_next_def)
qed

lemma frame_next_shorter: "frame_next maxBody br = Body body rest \<Longrightarrow> length rest < length br"
  by (fastforce simp: frame_next_def split: sum.splits if_splits dest!: read_full_Inr)

lemma frame_prefix_split:
  "\<exists>m k. m \<le> length bs \<and> take n (concat (map frame bs)) =
     concat (map frame (take m bs)) @ (if m < length bs then take k (frame (bs ! m)) else []) \<and>
     (m < length bs \<longrightarrow> k < length (frame (bs ! m))) \<and> min n (length (concat (map frame bs))) =
       length (concat (map frame (take m bs))) + (if m < length bs then k else 0)"
proof (induction bs arbitrary: n)
  case (Cons b bs)
  show ?case
  proof (cases "n < length (frame b)")
    case True
    then show ?thesis by (intro exI [of _ 0] exI [of _ n]) simp
  next
    case False
    from Cons.IH [of "n - length (frame b)"] obtain m k where
      "m \<le> length bs" "take (n - length (frame b)) (concat (map frame bs)) =
        concat (map frame (take m bs)) @ (if m < length bs then take k (frame (bs ! m)) else [])"
      "m < length bs \<longrightarrow> k < length (frame (bs ! m))"
      "min (n - length (frame b)) (length (concat (map frame bs))) =
        length (concat (map frame (take m bs))) + (if m < length bs then k else 0)" by blast
    then show ?thesis using False by (intro exI [of _ "Suc m"] exI [of _ k]) (auto split: if_splits)
  qed
qed simp

subsection \<open>The contract of a replay loop\<close>

locale framed_log =
  fixes loop :: "bytes \<Rightarrow> 'a list \<times> go_error option"
    and maxBody :: nat
    and encode :: "'a \<Rightarrow> bytes"
    and decode :: "bytes \<Rightarrow> 'a option"
    and good :: "'a \<Rightarrow> bool"
  assumes loop_unfold: "loop br = (case frame_next maxBody br of
      Stop e \<Rightarrow> ([], e)
    | Body body rest \<Rightarrow> (case decode body of
        None \<Rightarrow> ([], None)
      | Some x \<Rightarrow> (x # fst (loop rest), snd (loop rest))))"
    and maxBody_u32: "maxBody < 4294967296"
    and decode_encode: "good x \<Longrightarrow> decode (encode x) = Some x"
    and encode_size: "good x \<Longrightarrow> encode x \<noteq> [] \<and> length (encode x) \<le> maxBody"
begin

lemma loop_frame:
  "good x \<Longrightarrow> loop (frame (encode x) @ rest) = (x # fst (loop rest), snd (loop rest))"
  using encode_size [of x] maxBody_u32
  by (subst loop_unfold) (simp add: frame_next_frame decode_encode)

lemma loop_log_append:
  assumes "list_all good xs"
  shows "loop (concat (map (\<lambda>x. frame (encode x)) xs) @ rest) =
    (xs @ fst (loop rest), snd (loop rest))"
  using assms by (induction xs) (simp_all add: loop_frame)

lemma loop_Nil: "loop [] = ([], None)"
  by (subst loop_unfold) (simp add: frame_next_def read_full_def)

lemma loop_log: "list_all good xs \<Longrightarrow> loop (concat (map (\<lambda>x. frame (encode x)) xs)) = (xs, None)"
  using loop_log_append [of xs "[]"] by (simp add: loop_Nil)

lemma loop_torn:
  assumes "list_all good xs" "good x" "k < length (frame (encode x))"
  shows "loop (concat (map (\<lambda>x. frame (encode x)) xs) @ take k (frame (encode x))) =
    (xs, if k = 8 then Some EOF else None)"
proof -
  have "loop (take k (frame (encode x))) = ([], if k = 8 then Some EOF else None)"
    using assms(2,3) encode_size [of x] maxBody_u32
    by (subst loop_unfold) (simp add: frame_next_torn)
  then show ?thesis using assms(1) by (simp add: loop_log_append)
qed

lemma loop_oversized:
  assumes "list_all good xs" "maxBody < length body" "length body < 4294967296"
  shows "loop (concat (map (\<lambda>x. frame (encode x)) xs) @ frame body @ rest) = (xs, None)"
proof -
  have "loop (frame body @ rest) = ([], None)"
    using assms(2,3) by (subst loop_unfold) (simp add: frame_next_big)
  then show ?thesis using assms(1) by (simp add: loop_log_append)
qed

text \<open>
  Any prefix of a log replays to a prefix of its records; the count is the number of frames
  that are complete.
\<close>

lemma loop_prefix:
  assumes "list_all good xs"
  shows "\<exists>m \<le> length xs. fst (loop (take n (concat (map (\<lambda>x. frame (encode x)) xs)))) = take m xs \<and>
    (\<forall>j \<le> length xs. length (concat (map (\<lambda>x. frame (encode x)) (take j xs))) \<le> n \<longrightarrow> j \<le> m)"
  using assms
proof (induction xs arbitrary: n)
  case Nil
  then show ?case by (simp add: loop_Nil)
next
  case (Cons x xs)
  show ?case
  proof (cases "n < length (frame (encode x))")
    case True
    then have "fst (loop (take n (frame (encode x)))) = []"
      using loop_torn [of "[]" x n] Cons.prems by simp
    with True show ?thesis
      by (intro exI [of _ 0]) (auto simp: take_Cons' split: if_splits)
  next
    case False
    define n' where "n' = n - length (frame (encode x))"
    from Cons obtain m where m: "m \<le> length xs"
      "fst (loop (take n' (concat (map (\<lambda>x. frame (encode x)) xs)))) = take m xs"
      "\<forall>j \<le> length xs. length (concat (map (\<lambda>x. frame (encode x)) (take j xs))) \<le> n' \<longrightarrow> j \<le> m"
      by fastforce
    have "fst (loop (take n (concat (map (\<lambda>x. frame (encode x)) (x # xs))))) = x # take m xs"
      using False Cons.prems m(2) loop_frame [of x] by (simp add: n'_def)
    moreover have "j \<le> Suc m" if "j \<le> length (x # xs)"
      "length (concat (map (\<lambda>x. frame (encode x)) (take j (x # xs)))) \<le> n" for j
      using that m(3) [rule_format, of "j - 1"] by (cases j) (auto simp: n'_def)
    ultimately show ?thesis using m(1) by (intro exI [of _ "Suc m"]) auto
  qed
qed

end

subsection \<open>The checksum detects a change of one byte\<close>

definition crc_unbit :: "32 word \<Rightarrow> 32 word" where
  "crc_unbit d = (if bit d 31 then push_bit 1 (d XOR 0xEDB88320) OR 1 else push_bit 1 d)"

lemma bit_up_down: "bit (push_bit 1 (drop_bit 1 c)) n \<longleftrightarrow> 0 < n \<and> bit c n" for c :: "32 word"
  unfolding bit_push_bit_iff bit_drop_bit_eq comp_def
  using bit_imp_le_length [of c n] by (cases n) auto

lemma ucast_byte_inj:
  assumes "(ucast (a :: byte) :: 32 word) = ucast b"
  shows "a = b"
proof (rule bit_word_eqI)
  fix n
  assume n: "n < LENGTH(8)"
  have "bit (ucast a :: 32 word) n = bit (ucast b :: 32 word) n" using assms by simp
  then show "bit a n = bit b n" using n by (simp add: bit_ucast_iff)
qed

lemma crc_unbit_bit: "crc_unbit (crc_bit c) = c"
proof (cases "bit c 0")
  case True
  have "bit (drop_bit 1 c XOR 0xEDB88320) 31"
    using bit_imp_le_length [of c 32] by (auto simp: bit_simps)
  then have "crc_unbit (crc_bit c) = push_bit 1 (drop_bit 1 c) OR 1"
    using True by (simp add: crc_unbit_def crc_bit_def xor.assoc)
  also have "\<dots> = c"
    using True by (intro bit_word_eqI, unfold bit_or_iff bit_up_down bit_1_iff) auto
  finally show ?thesis .
next
  case False
  have "\<not> bit (drop_bit 1 c) 31" using bit_imp_le_length [of c 32] by (auto simp: bit_simps)
  then have "crc_unbit (crc_bit c) = push_bit 1 (drop_bit 1 c)"
    using False by (simp add: crc_unbit_def crc_bit_def)
  also have "\<dots> = c"
    using False by (intro bit_word_eqI, unfold bit_up_down) (auto intro: gr0I)
  finally show ?thesis .
qed

lemma crc_bits_inj: "(crc_bit ^^ n) c = (crc_bit ^^ n) d \<Longrightarrow> c = d"
  by (induction n) (auto dest: arg_cong [where f = crc_unbit] simp: crc_unbit_bit)

lemma crc_byte_inj_state: "crc_byte c b = crc_byte d b \<Longrightarrow> c = d"
  unfolding crc_byte_def by (drule crc_bits_inj) (metis bit.xor_left_self word_bw_comms(3))

lemma crc_byte_inj_byte: "crc_byte c a = crc_byte c b \<Longrightarrow> a = b"
  unfolding crc_byte_def by (drule crc_bits_inj) (metis bit.xor_left_self ucast_byte_inj)

lemma crc_update_inj: "crc_update c bs = crc_update d bs \<Longrightarrow> c = d"
  unfolding crc_update_def by (induction bs arbitrary: c d) (auto dest: crc_byte_inj_state)

lemma crc_update_Cons: "crc_update c (b # bs) = crc_update (crc_byte c b) bs"
  by (simp add: crc_update_def)

lemma unat_NOT_inj: "unat (NOT c) = unat (NOT d) \<longleftrightarrow> c = d" for c d :: "32 word"
  by (metis bit.double_compl unsigned_word_eqI)

lemma crc32_one_byte:
  assumes "b \<noteq> b'"
  shows "crc32 (xs @ b # ys) \<noteq> crc32 (xs @ b' # ys)"
proof
  assume "crc32 (xs @ b # ys) = crc32 (xs @ b' # ys)"
  then have "crc_update (crc_byte (crc_update (NOT 0) xs) b) ys
      = crc_update (crc_byte (crc_update (NOT 0) xs) b') ys"
    by (simp only: crc32_def crc_sum32_def crc_update_append crc_update_Cons unat_NOT_inj)
  then show False using assms crc_update_inj crc_byte_inj_byte by blast
qed

end
