(* ===== verification/Wal.thy ===== *)
theory Wal
  imports Records FileSys Framing
begin

text \<open>
  \<^verbatim>\<open>internal/wal/wal.go\<close>: the write-ahead log of records. The encoder, the decoder and the replay
  loop are functions on bytes; the operations of the log (\<^verbatim>\<open>Open\<close>, \<^verbatim>\<open>Append\<close>, \<^verbatim>\<open>Replay\<close>,
  \<^verbatim>\<open>Rotate\<close>, \<^verbatim>\<open>Close\<close>, a tick of \<^verbatim>\<open>periodicSync\<close>) pass the log and the file system. The mutex
  makes each of them one step. The reuse of the encoding buffer is not modelled: the encoder
  overwrites every byte of the result, so its old contents do not matter.
\<close>

subsection \<open>The wire format\<close>

datatype WALSyncMode = SyncAlways | SyncPeriodic | SyncNever

definition maxRecordBodySize :: nat where
  "maxRecordBodySize = 10 * 1024 * 1024"

definition walBody :: "go_record \<Rightarrow> bytes" where
  "walBody r = put_i64 (Timestamp r) @ put_u32 (u32 (length (SourceID r))) @ SourceID r @
     put_u32 (u32 (length (Payload r))) @ Payload r"

definition appendEncodeRecord :: "go_record \<Rightarrow> bytes" where
  "appendEncodeRecord r =
     (let srcIDLen = length (SourceID r);
          payloadLen = length (Payload r);
          bodyLen = 8 + 4 + srcIDLen + 4 + payloadLen;
          len = put_u32 (u32 bodyLen);
          body = walBody r
      in put_u32 (crc_sum32 (crc_update (NOT 0) (len @ body))) @ len @ body)"

definition decodeBody :: "bytes \<Rightarrow> go_record option" where
  "decodeBody body =
     (if length body < 16 then None
      else
        (let ts = get_i64 body 0; srcIDLen = get_u32 body 8 in
         if 12 + srcIDLen + 4 > length body then None
         else
           (let srcID = copy_bytes (go_slice 12 (12 + srcIDLen) body);
                off = 12 + srcIDLen;
                payloadLen = get_u32 body off;
                off = off + 4
            in if off + payloadLen \<noteq> length body then None
               else Some \<lparr>Timestamp = ts, SourceID = srcID,
                 Payload = copy_bytes (go_slice off (off + payloadLen) body)\<rparr>)))"

text \<open>
  The loop of \<^verbatim>\<open>Replay\<close>: the records handed to the callback, and the error returned. The second
  \<^verbatim>\<open>ReadFull\<close> is checked for \<open>ErrUnexpectedEOF\<close> only.
\<close>

function wal_replay_loop :: "bytes \<Rightarrow> go_record list \<times> go_error option" where
  "wal_replay_loop br =
     (case read_full 8 br of
        Inl e \<Rightarrow> if e = EOF \<or> e = ErrUnexpectedEOF then ([], None) else ([], Some e)
      | Inr (header, br1) \<Rightarrow>
          (let bodyLen = get_u32 header 4 in
           if bodyLen > maxRecordBodySize then ([], None)
           else
             (case read_full bodyLen br1 of
                Inl e \<Rightarrow> if e = ErrUnexpectedEOF then ([], None) else ([], Some e)
              | Inr (body, br2) \<Rightarrow>
                  (let h = crc_update (crc_update (NOT 0) (go_slice 4 8 header)) body in
                   if crc_sum32 h \<noteq> get_u32 header 0 then ([], None)
                   else
                     (case decodeBody body of
                        None \<Rightarrow> ([], None)
                      | Some rec \<Rightarrow>
                          (rec # fst (wal_replay_loop br2), snd (wal_replay_loop br2)))))))"
  by pat_completeness auto
termination
  by (relation "measure length") (auto dest!: read_full_Inr)

declare wal_replay_loop.simps [simp del]

subsection \<open>The log\<close>

record wal_state =
  w_file :: inode
  w_path :: path
  w_bw :: buf_writer
  w_syncMode :: WALSyncMode
  w_ticker :: bool

definition wal_Open :: "path \<Rightarrow> WALSyncMode \<Rightarrow> file_sys \<Rightarrow> wal_state result \<times> file_sys" where
  "wal_Open path syncMode fs =
     (case os_open_create False path fs of
        (Inl e, fs) \<Rightarrow> (Inl e, fs)
      | (Inr f, fs) \<Rightarrow>
          (Inr \<lparr>w_file = f, w_path = path, w_bw = bufio_New f (64 * 1024),
             w_syncMode = syncMode, w_ticker = (syncMode = SyncPeriodic)\<rparr>, fs))"

text \<open>One tick of the background goroutine; both errors are only logged.\<close>

definition wal_periodicSync :: "wal_state \<Rightarrow> file_sys \<Rightarrow> wal_state \<times> file_sys" where
  "wal_periodicSync w fs =
     (case bufio_Flush (w_bw w) fs of (_, bw, fs) \<Rightarrow>
        (case file_sync (w_file w) fs of (_, fs) \<Rightarrow> (w\<lparr>w_bw := bw\<rparr>, fs)))"

definition wal_Append :: "wal_state \<Rightarrow> go_record \<Rightarrow> file_sys \<Rightarrow>
    go_error option \<times> wal_state \<times> file_sys" where
  "wal_Append w r fs =
     (case bufio_Write (appendEncodeRecord r) (w_bw w) fs of
        (Some e, bw, fs) \<Rightarrow> (Some e, w\<lparr>w_bw := bw\<rparr>, fs)
      | (None, bw, fs) \<Rightarrow>
          (if w_syncMode w = SyncAlways then
             (case bufio_Flush bw fs of
                (Some e, bw, fs) \<Rightarrow> (Some e, w\<lparr>w_bw := bw\<rparr>, fs)
              | (None, bw, fs) \<Rightarrow>
                  (case file_sync (w_file w) fs of (e, fs) \<Rightarrow> (e, w\<lparr>w_bw := bw\<rparr>, fs)))
           else (None, w\<lparr>w_bw := bw\<rparr>, fs)))"

definition wal_Replay :: "wal_state \<Rightarrow> file_sys \<Rightarrow>
    go_record list \<times> go_error option \<times> wal_state \<times> file_sys" where
  "wal_Replay w fs =
     (case bufio_Flush (w_bw w) fs of
        (Some e, bw, fs) \<Rightarrow> ([], Some e, w\<lparr>w_bw := bw\<rparr>, fs)
      | (None, bw, fs) \<Rightarrow>
          (case os_open (w_path w) fs of
             Inl e \<Rightarrow> ([], Some e, w\<lparr>w_bw := bw\<rparr>, fs)
           | Inr f \<Rightarrow>
               (let (rs, retErr) =
                  (if fs_bad fs f then ([], Some EIO) else wal_replay_loop (fs_data fs f));
                    (cerr, fs') = file_close f fs
                in (rs, if retErr = None then cerr else retErr, w\<lparr>w_bw := bw\<rparr>, fs'))))"

definition wal_Rotate :: "wal_state \<Rightarrow> path \<Rightarrow> file_sys \<Rightarrow>
    go_error option \<times> wal_state \<times> file_sys" where
  "wal_Rotate w newPath fs =
     (case bufio_Flush (w_bw w) fs of
        (Some e, bw, fs) \<Rightarrow> (Some e, w\<lparr>w_bw := bw\<rparr>, fs)
      | (None, bw, fs) \<Rightarrow>
          (case file_sync (w_file w) fs of
             (Some e, fs) \<Rightarrow> (Some e, w\<lparr>w_bw := bw\<rparr>, fs)
           | (None, fs) \<Rightarrow>
               (case os_open_create False newPath fs of
                  (Inl e, fs) \<Rightarrow> (Some e, w\<lparr>w_bw := bw\<rparr>, fs)
                | (Inr newFile, fs) \<Rightarrow>
                    (case file_close (w_file w) fs of
                       (Some e, fs) \<Rightarrow> (Some e, w\<lparr>w_bw := bw\<rparr>, snd (file_close newFile fs))
                     | (None, fs) \<Rightarrow>
                         (None, w\<lparr>w_file := newFile, w_path := newPath,
                            w_bw := bufio_New newFile (64 * 1024)\<rparr>, fs)))))"

definition wal_Close :: "wal_state \<Rightarrow> file_sys \<Rightarrow> go_error option \<times> wal_state \<times> file_sys" where
  "wal_Close w fs =
     (let w = w\<lparr>w_ticker := False\<rparr> in
      case bufio_Flush (w_bw w) fs of
        (Some e, bw, fs) \<Rightarrow> (Some e, w\<lparr>w_bw := bw\<rparr>, fs)
      | (None, bw, fs) \<Rightarrow>
          (case file_sync (w_file w) fs of
             (Some e, fs) \<Rightarrow> (Some e, w\<lparr>w_bw := bw\<rparr>, fs)
           | (None, fs) \<Rightarrow>
               (case file_close (w_file w) fs of (e, fs) \<Rightarrow> (e, w\<lparr>w_bw := bw\<rparr>, fs))))"

text \<open>A caller that appends a list of records and stops at the first error.\<close>

fun wal_Appends :: "go_record list \<Rightarrow> wal_state \<Rightarrow> file_sys \<Rightarrow>
    go_error option \<times> wal_state \<times> file_sys" where
  "wal_Appends [] w fs = (None, w, fs)"
| "wal_Appends (r # rs) w fs =
     (case wal_Append w r fs of
        (Some e, w, fs) \<Rightarrow> (Some e, w, fs)
      | (None, w, fs) \<Rightarrow> wal_Appends rs w fs)"

subsection \<open>Encoding and replay\<close>

definition wal_good :: "go_record \<Rightarrow> bool" where
  "wal_good r \<longleftrightarrow> is_i64 (Timestamp r) \<and>
     16 + length (SourceID r) + length (Payload r) \<le> maxRecordBodySize"

lemma length_walBody [simp]: "length (walBody r) = 16 + length (SourceID r) + length (Payload r)"
  by (simp add: walBody_def)

lemma appendEncodeRecord_frame: "appendEncodeRecord r = frame (walBody r)"
  by (simp add: appendEncodeRecord_def frame_def Let_def crc32_def add.commute add.left_commute)

lemma appendEncodeRecord_eta: "appendEncodeRecord = (\<lambda>r. frame (walBody r))"
  by (rule ext) (rule appendEncodeRecord_frame)

lemma decodeBody_walBody:
  assumes "rec_ok r"
  shows "decodeBody (walBody r) = Some r"
proof -
  have "get_i64 (walBody r) 0 = Timestamp r"
    using assms by (simp add: walBody_def go_slice_def rec_ok_def i64_put_i64)
  moreover have "get_u32 (walBody r) 8 = length (SourceID r)"
    using assms by (simp add: walBody_def go_slice_def rec_ok_def le_nat_put_u32 u32_id)
  moreover have "go_slice 12 (12 + length (SourceID r)) (walBody r) = SourceID r"
    by (simp add: walBody_def go_slice_def)
  moreover have "get_u32 (walBody r) (12 + length (SourceID r)) = length (Payload r)"
    using assms by (simp add: walBody_def go_slice_def rec_ok_def le_nat_put_u32 u32_id)
  moreover have "go_slice (16 + length (SourceID r)) (16 + length (SourceID r) + length (Payload r))
      (walBody r) = Payload r"
    by (simp add: walBody_def go_slice_def)
  ultimately show ?thesis by (simp add: decodeBody_def Let_def add.commute add.left_commute)
qed

interpretation wal: framed_log wal_replay_loop maxRecordBodySize walBody decodeBody wal_good
proof
  show "wal_replay_loop br = (case frame_next maxRecordBodySize br of
      Stop e \<Rightarrow> ([], e)
    | Body body rest \<Rightarrow> (case decodeBody body of
        None \<Rightarrow> ([], None)
      | Some x \<Rightarrow> (x # fst (wal_replay_loop rest), snd (wal_replay_loop rest))))" for br
    by (subst wal_replay_loop.simps)
      (auto simp: frame_next_def Let_def read_full_def crc32_def split: sum.splits)
  show "decodeBody (walBody x) = Some x" if "wal_good x" for x
    using that by (intro decodeBody_walBody) (simp add: wal_good_def rec_ok_def maxRecordBodySize_def)
  show "walBody x \<noteq> [] \<and> length (walBody x) \<le> maxRecordBodySize" if "wal_good x" for x
    using that by (auto simp: wal_good_def simp flip: length_0_conv)
qed (simp add: maxRecordBodySize_def)

abbreviation wal_bytes :: "go_record list \<Rightarrow> bytes" where
  "wal_bytes rs \<equiv> concat (map (\<lambda>r. frame (walBody r)) rs)"

subsection \<open>The log on disk\<close>

text \<open>
  \<open>wal_log w fs rs\<close>: the log holds exactly the records \<open>rs\<close>, some of them perhaps still in the
  buffer; under \<open>SyncAlways\<close> all of them are on stable storage.
\<close>

definition wal_log :: "wal_state \<Rightarrow> file_sys \<Rightarrow> go_record list \<Rightarrow> bool" where
  "wal_log w fs rs \<longleftrightarrow> bw_err (w_bw w) = None \<and> bw_file (w_bw w) = w_file w \<and>
     bw_view (w_bw w) fs = wal_bytes rs \<and>
     (w_syncMode w = SyncAlways \<longrightarrow>
        bw_buf (w_bw w) = [] \<and> fs_synced fs (w_file w) = length (fs_data fs (w_file w)))"

definition wal_frame :: "wal_state \<Rightarrow> file_sys \<Rightarrow> wal_state \<Rightarrow> file_sys \<Rightarrow> bool" where
  "wal_frame w fs w' fs' \<longleftrightarrow> fs_faults fs' = [] \<and> fs_names fs' = fs_names fs \<and>
     fs_bad fs' = fs_bad fs \<and> fs_next fs' = fs_next fs \<and>
     (\<forall>j. j \<noteq> w_file w \<longrightarrow> fs_data fs' j = fs_data fs j \<and> fs_synced fs' j = fs_synced fs j) \<and>
     w_file w' = w_file w \<and> w_path w' = w_path w \<and> w_syncMode w' = w_syncMode w"

lemma wal_Append_ok:
  assumes "fs_faults fs = []" "wal_log w fs rs"
  shows "\<exists>w' fs'. wal_Append w r fs = (None, w', fs') \<and> wal_log w' fs' (rs @ [r]) \<and>
    wal_frame w fs w' fs'"
proof -
  have w: "bw_err (w_bw w) = None" "bw_file (w_bw w) = w_file w"
    "bw_view (w_bw w) fs = wal_bytes rs" using assms(2) by (auto simp: wal_log_def)
  from bufio_Write_ok [OF assms(1) w(1), of "appendEncodeRecord r"] w(2,3) obtain buf fs1 where
    wr: "bufio_Write (appendEncodeRecord r) (w_bw w) fs = (None, (w_bw w)\<lparr>bw_buf := buf\<rparr>, fs1)"
      "only_data (w_file w) fs fs1"
      "bw_view ((w_bw w)\<lparr>bw_buf := buf\<rparr>) fs1 = wal_bytes (rs @ [r])"
    by (auto simp: appendEncodeRecord_frame)
  note fr = only_data_frame [OF wr(2)]
  show ?thesis
  proof (cases "w_syncMode w = SyncAlways")
    case False
    with wr w fr assms(1) show ?thesis
      by (simp add: wal_Append_def wal_log_def wal_frame_def)
  next
    case True
    have "fs_faults fs1 = []" "bw_err ((w_bw w)\<lparr>bw_buf := buf\<rparr>) = None"
      using fr(1) assms(1) w(1) by simp_all
    from bufio_Flush_ok [OF this] wr(3) w(2) obtain fs2 where
      fl: "bufio_Flush ((w_bw w)\<lparr>bw_buf := buf\<rparr>) fs1 = (None, (w_bw w)\<lparr>bw_buf := []\<rparr>, fs2)"
        "only_data (w_file w) fs1 fs2" "fs_data fs2 (w_file w) = wal_bytes (rs @ [r])"
      by auto
    note fr2 = only_data_frame [OF fl(2)]
    have "fs_faults fs2 = []" using fr2(1) fr(1) assms(1) by simp
    then show ?thesis using True wr(1) fl(1,3) w fr fr2
      by (simp add: wal_Append_def wal_log_def wal_frame_def bw_view_def)
  qed
qed

lemma wal_frame_trans:
  "wal_frame w fs w1 fs1 \<Longrightarrow> wal_frame w1 fs1 w2 fs2 \<Longrightarrow> wal_frame w fs w2 fs2"
  by (simp add: wal_frame_def)

lemma wal_Appends_ok:
  assumes "fs_faults fs = []" "wal_log w fs rs0"
  shows "\<exists>w' fs'. wal_Appends rs w fs = (None, w', fs') \<and> wal_log w' fs' (rs0 @ rs) \<and>
    wal_frame w fs w' fs'"
  using assms
proof (induction rs arbitrary: w fs rs0)
  case Nil
  then show ?case by (simp add: wal_frame_def)
next
  case (Cons r rs)
  from wal_Append_ok [OF Cons.prems, of r] obtain w1 fs1 where
    s: "wal_Append w r fs = (None, w1, fs1)" "wal_log w1 fs1 (rs0 @ [r])" "wal_frame w fs w1 fs1"
    by blast
  have "fs_faults fs1 = []" using s(3) by (simp add: wal_frame_def)
  from Cons.IH [OF this s(2)] s show ?case by (auto intro: wal_frame_trans)
qed

lemma wal_log_fresh:
  "fs_data fs (w_file w) = [] \<Longrightarrow> w_bw w = bufio_New (w_file w) n \<Longrightarrow> fs_synced fs (w_file w) = 0 \<Longrightarrow>
   wal_log w fs []"
  by (simp add: wal_log_def bw_view_def bufio_New_def)

lemma fs_crash_synced:
  "fs_crash fs fs' \<Longrightarrow> fs_synced fs i = length (fs_data fs i) \<Longrightarrow> fs_data fs' i = fs_data fs i"
  by (auto simp: fs_crash_def) (metis le_antisym take_all_iff order_refl)

lemma fs_crash_prefix:
  "fs_crash fs fs' \<Longrightarrow> \<exists>n. fs_data fs' i = take n (fs_data fs i) \<and> fs_synced fs i \<le> n"
  by (auto simp: fs_crash_def)

subsection \<open>Properties\<close>

text \<open>
  C30: a torn last record, for records that replay accepts: the body has at most \<^verbatim>\<open>maxRecordBodySize\<close>
  (10 MB) bytes and the timestamp is an \<^verbatim>\<open>int64\<close>. After a complete log of such records and a proper
  prefix of the encoding of one more, replay delivers exactly the complete records; it reports no
  error, except when the tear is exactly after the 8-byte header: then \<^verbatim>\<open>io.ReadFull\<close> of the body
  returns \<open>EOF\<close>, which the loop does not treat as a partial write, and \<^verbatim>\<open>Replay\<close> fails.
\<close>

theorem wal_replay_torn:
  assumes "list_all wal_good rs" "wal_good r" "k < length (appendEncodeRecord r)"
  shows "wal_replay_loop (concat (map appendEncodeRecord rs) @ take k (appendEncodeRecord r)) =
    (rs, if k = 8 then Some EOF else None)"
  using wal.loop_torn [OF assms(1,2), of k] assms(3) by (simp add: appendEncodeRecord_eta)

theorem wal_replay_torn_witness:
  "wal_replay_loop (appendEncodeRecord zero_record @ take 8 (appendEncodeRecord zero_record)) =
     ([zero_record], Some EOF) \<and>
   wal_replay_loop (appendEncodeRecord zero_record @ take 9 (appendEncodeRecord zero_record)) =
     ([zero_record], None)"
  using wal_replay_torn [of "[zero_record]" zero_record 8]
    wal_replay_torn [of "[zero_record]" zero_record 9]
  by (simp add: wal_good_def zero_record_def is_i64_def maxRecordBodySize_def
      appendEncodeRecord_eta)

text \<open>
  \<^verbatim>\<open>Append\<close> accepts a record of any size, but \<^verbatim>\<open>Replay\<close> stops without an error at the first
  body larger than the 10 MB cap: that record and everything logged after it is not replayed.
\<close>

lemma wal_replay_oversized:
  assumes "list_all wal_good rs"
    and "maxRecordBodySize < 16 + length (SourceID r) + length (Payload r)"
    and "16 + length (SourceID r) + length (Payload r) < 4294967296"
  shows "wal_replay_loop (concat (map appendEncodeRecord (rs @ r # later))) = (rs, None)"
  using wal.loop_oversized [OF assms(1), of "walBody r" "wal_bytes later"] assms(2,3)
  by (simp add: appendEncodeRecord_eta)

text \<open>
  C19: durability of acknowledged appends. With \<open>SyncAlways\<close>, records appended to a fresh log by
  calls that all return nil survive any crash, provided that the body of each has at most
  \<^verbatim>\<open>maxRecordBodySize\<close> (10 MB) bytes: whatever a power failure leaves of the contents of the log file,
  at least its synced prefix, replaying it gives exactly these records. A larger record is
  acknowledged too, but replay drops it and everything after it (lemma \<open>wal_replay_oversized\<close>).
\<close>

theorem wal_SyncAlways_durable:
  assumes "fs_faults fs = []" "fs_data fs f = []" "fs_synced fs f = 0" "list_all wal_good rs"
    and "wal_Appends rs \<lparr>w_file = f, w_path = p, w_bw = bufio_New f n, w_syncMode = SyncAlways,
      w_ticker = False\<rparr> fs = (None, w', fs')"
    and "fs_crash fs' fs''"
  shows "wal_replay_loop (fs_data fs'' f) = (rs, None)"
proof -
  let ?w = "\<lparr>w_file = f, w_path = p, w_bw = bufio_New f n, w_syncMode = SyncAlways,
      w_ticker = False\<rparr>"
  have "wal_log ?w fs []" using assms(2,3) by (intro wal_log_fresh) simp_all
  from wal_Appends_ok [OF assms(1) this, of rs] assms(5)
  have "wal_log w' fs' rs" "wal_frame ?w fs w' fs'" by auto
  then have "fs_data fs' f = wal_bytes rs" "fs_synced fs' f = length (fs_data fs' f)"
    by (auto simp: wal_log_def wal_frame_def bw_view_def)
  then have "fs_data fs'' f = wal_bytes rs"
    using fs_crash_synced [OF assms(6)] by simp
  then show ?thesis using wal.loop_log [OF assms(4)] by simp
qed

theorem wal_SyncAlways_durable_witness:
  "\<exists>w' fs'. wal_Appends [zero_record] \<lparr>w_file = 0, w_path = ''w'', w_bw = bufio_New 0 65536,
      w_syncMode = SyncAlways, w_ticker = False\<rparr> fs_empty = (None, w', fs') \<and>
     (\<forall>fs''. fs_crash fs' fs'' \<longrightarrow> wal_replay_loop (fs_data fs'' 0) = ([zero_record], None))"
proof -
  let ?w = "\<lparr>w_file = 0, w_path = ''w'', w_bw = bufio_New 0 65536, w_syncMode = SyncAlways,
      w_ticker = False\<rparr>"
  have ok: "list_all wal_good [zero_record]"
    by (simp add: wal_good_def zero_record_def is_i64_def maxRecordBodySize_def)
  have "wal_log ?w fs_empty []" by (intro wal_log_fresh) (simp_all add: fs_empty_def)
  from wal_Appends_ok [OF _ this, of "[zero_record]"] obtain w' fs' where
    a: "wal_Appends [zero_record] ?w fs_empty = (None, w', fs')" by (auto simp: fs_empty_def)
  from wal_SyncAlways_durable [OF _ _ _ ok a] a show ?thesis
    by (auto simp: fs_empty_def)
qed

text \<open>
  C20: with any sync mode, a crash never produces phantom records, as long as the body of every
  record in the log has at most \<^verbatim>\<open>maxRecordBodySize\<close> (10 MB) bytes: what replay delivers from the log file
  after a crash is a prefix of the records appended, and it contains at least every record whose
  encoding, with all those before it, had been synced.
\<close>

theorem wal_crash_prefix:
  assumes "fs_faults fs = []" "wal_log w fs rs0" "list_all wal_good (rs0 @ rs)"
    and "wal_Appends rs w fs = (None, w', fs')" "fs_crash fs' fs''"
  shows "\<exists>m \<le> length (rs0 @ rs). fst (wal_replay_loop (fs_data fs'' (w_file w))) = take m (rs0 @ rs) \<and>
    (\<forall>j \<le> length (rs0 @ rs). length (concat (map appendEncodeRecord (take j (rs0 @ rs))))
       \<le> fs_synced fs' (w_file w) \<longrightarrow> j \<le> m)"
proof -
  from wal_Appends_ok [OF assms(1,2), of rs] assms(4)
  have log: "wal_log w' fs' (rs0 @ rs)" "w_file w' = w_file w" by (auto simp: wal_frame_def)
  then have view: "bw_view (w_bw w') fs' = wal_bytes (rs0 @ rs)" "bw_file (w_bw w') = w_file w"
    by (auto simp: wal_log_def)
  from fs_crash_prefix [OF assms(5), of "w_file w"] obtain n where
    n: "fs_data fs'' (w_file w) = take n (fs_data fs' (w_file w))" "fs_synced fs' (w_file w) \<le> n"
    by blast
  define d where "d = fs_data fs' (w_file w)"
  have "wal_bytes (rs0 @ rs) = d @ bw_buf (w_bw w')"
    using view by (simp add: bw_view_def d_def)
  then have d: "d = take (length d) (wal_bytes (rs0 @ rs))" by simp
  have pre: "fs_data fs'' (w_file w) = take (min n (length d)) (wal_bytes (rs0 @ rs))"
    using n(1) d by (metis d_def take_take)
  have synced: "fs_synced fs' (w_file w) \<le> min n (length d)"
    using assms(5) n(2) by (auto simp: fs_crash_def d_def) (metis dual_order.trans)
  from wal.loop_prefix [OF assms(3), of "min n (length d)"] obtain m where
    "m \<le> length (rs0 @ rs)" "fst (wal_replay_loop (fs_data fs'' (w_file w))) = take m (rs0 @ rs)"
    "\<forall>j \<le> length (rs0 @ rs). length (wal_bytes (take j (rs0 @ rs))) \<le> min n (length d) \<longrightarrow> j \<le> m"
    unfolding pre by blast
  moreover from this(3) synced have "\<forall>j \<le> length (rs0 @ rs).
      length (wal_bytes (take j (rs0 @ rs))) \<le> fs_synced fs' (w_file w) \<longrightarrow> j \<le> m"
    using le_trans by blast
  ultimately show ?thesis unfolding appendEncodeRecord_eta by blast
qed

theorem wal_crash_prefix_witness:
  "\<exists>w' fs'. wal_Appends [zero_record] \<lparr>w_file = 0, w_path = ''w'', w_bw = bufio_New 0 65536,
      w_syncMode = SyncNever, w_ticker = False\<rparr> fs_empty = (None, w', fs') \<and>
     (\<forall>fs''. fs_crash fs' fs'' \<longrightarrow>
        (\<exists>m \<le> 1. fst (wal_replay_loop (fs_data fs'' 0)) = take m [zero_record]))"
proof -
  let ?w = "\<lparr>w_file = 0, w_path = ''w'', w_bw = bufio_New 0 65536, w_syncMode = SyncNever,
      w_ticker = False\<rparr>"
  have ok: "list_all wal_good ([] @ [zero_record])"
    by (simp add: wal_good_def zero_record_def is_i64_def maxRecordBodySize_def)
  have fresh: "wal_log ?w fs_empty []" by (intro wal_log_fresh) (simp_all add: fs_empty_def)
  from wal_Appends_ok [OF _ fresh, of "[zero_record]"] obtain w' fs' where
    a: "wal_Appends [zero_record] ?w fs_empty = (None, w', fs')" by (auto simp: fs_empty_def)
  from wal_crash_prefix [OF _ fresh ok a] a show ?thesis
    by (fastforce simp: fs_empty_def)
qed

end
