(* ===== verification/Block.thy ===== *)
theory Block
  imports Records Framing
begin

text \<open>
  \<^verbatim>\<open>internal/sstable/block.go\<close>: the row and the columnar encoding of a data block, their decoders,
  the zero-copy record parser and the decoder that reads timestamps only. Decoders keep the
  source's cursor arithmetic; a slice is taken only after the bound the code has checked.
\<close>

subsection \<open>Row blocks\<close>

definition blockRecord :: "go_record \<Rightarrow> bytes" where
  "blockRecord r = put_i64 (Timestamp r) @ put_u32 (u32 (length (SourceID r))) @ SourceID r @
     put_u32 (u32 (length (Payload r))) @ Payload r"

definition encodeBlock :: "go_record list \<Rightarrow> bytes" where
  "encodeBlock records =
     (let buf = put_u32 (u32 (length records)) @ concat (map blockRecord records) in
      buf @ put_u32 (crc32 buf))"

definition validateBlock :: "bytes \<Rightarrow> bytes result" where
  "validateBlock data =
     (if length data < 8 then Inl ErrBlockCorrupt
      else
        (let payload = take (length data - 4) data;
             storedCRC = le_nat (drop (length data - 4) data)
         in if crc32 payload \<noteq> storedCRC then Inl ErrBlockCorrupt else Inr payload))"

text \<open>The parsed view and the advanced cursor.\<close>

definition parseRecordAt :: "bytes \<Rightarrow> nat \<Rightarrow> (record_view \<times> nat) result" where
  "parseRecordAt payload off =
     (let p = off in
      if p + 12 > length payload then Inl ErrBlockCorrupt
      else
        (let ts = get_i64 payload p; p = p + 8;
             srcIDLen = get_u32 payload p; p = p + 4
         in if p + srcIDLen + 4 > length payload then Inl ErrBlockCorrupt
            else
              (let srcID = go_slice p (p + srcIDLen) payload; p = p + srcIDLen;
                   payloadLen = get_u32 payload p; p = p + 4
               in if p + payloadLen > length payload then Inl ErrBlockCorrupt
                  else
                    (let pl = go_slice p (p + payloadLen) payload; p = p + payloadLen
                     in Inr (\<lparr>Timestamp = ts, SourceID = srcID, Payload = pl\<rparr>, p)))))"

text \<open>The loop \<^verbatim>\<open>for range count\<close> of \<^verbatim>\<open>decodeBlock\<close>, which copies the fields.\<close>

fun decodeBlock_loop :: "bytes \<Rightarrow> nat \<Rightarrow> nat \<Rightarrow> go_record list result" where
  "decodeBlock_loop payload 0 off = Inr []"
| "decodeBlock_loop payload (Suc n) off =
     (if off + 12 > length payload then Inl ErrBlockCorrupt
      else
        (let ts = get_i64 payload off; off = off + 8;
             srcIDLen = get_u32 payload off; off = off + 4
         in if off + srcIDLen + 4 > length payload then Inl ErrBlockCorrupt
            else
              (let srcID = copy_bytes (go_slice off (off + srcIDLen) payload); off = off + srcIDLen;
                   payloadLen = get_u32 payload off; off = off + 4
               in if off + payloadLen > length payload then Inl ErrBlockCorrupt
                  else
                    (let p = copy_bytes (go_slice off (off + payloadLen) payload);
                         off = off + payloadLen
                     in case decodeBlock_loop payload n off of
                          Inl e \<Rightarrow> Inl e
                        | Inr rs \<Rightarrow>
                            Inr (\<lparr>Timestamp = ts, SourceID = srcID, Payload = p\<rparr> # rs)))))"

definition decodeBlock :: "bytes \<Rightarrow> go_record list result" where
  "decodeBlock data =
     (if length data < 8 then Inl ErrBlockCorrupt
      else
        (let payload = take (length data - 4) data;
             storedCRC = le_nat (drop (length data - 4) data)
         in if crc32 payload \<noteq> storedCRC then Inl ErrBlockCorrupt
            else decodeBlock_loop payload (get_u32 payload 0) 4))"

subsection \<open>Columnar blocks\<close>

definition lenPrefixed :: "bytes \<Rightarrow> bytes" where
  "lenPrefixed bs = put_u32 (u32 (length bs)) @ bs"

definition encodeColBlock :: "go_record list \<Rightarrow> bytes" where
  "encodeColBlock records =
     (let srcIDsSize = sum_list (map (\<lambda>r. 4 + length (SourceID r)) records);
          payloadsSize = sum_list (map (\<lambda>r. 4 + length (Payload r)) records);
          buf = put_u32 (u32 (length records)) @ put_u32 (u32 srcIDsSize) @
            put_u32 (u32 payloadsSize) @
            concat (map (\<lambda>r. put_i64 (Timestamp r)) records) @
            concat (map (\<lambda>r. lenPrefixed (SourceID r)) records) @
            concat (map (\<lambda>r. lenPrefixed (Payload r)) records)
      in buf @ put_u32 (crc32 buf))"

text \<open>The first loop: the source identifiers, bounded by the end of their section.\<close>

fun decodeCol_srcIDs :: "bytes \<Rightarrow> nat \<Rightarrow> nat \<Rightarrow> nat \<Rightarrow> bytes list result" where
  "decodeCol_srcIDs payload srcIDsEnd 0 off = Inr []"
| "decodeCol_srcIDs payload srcIDsEnd (Suc n) off =
     (if off + 4 > srcIDsEnd then Inl ErrBlockCorrupt
      else
        (let l = get_u32 payload off; off = off + 4 in
         if off + l > srcIDsEnd then Inl ErrBlockCorrupt
         else
           (case decodeCol_srcIDs payload srcIDsEnd n (off + l) of
              Inl e \<Rightarrow> Inl e
            | Inr bs \<Rightarrow> Inr (copy_bytes (go_slice off (off + l) payload) # bs))))"

text \<open>The second loop: timestamps at fixed offsets, payloads from their section.\<close>

fun decodeCol_records :: "bytes \<Rightarrow> nat \<Rightarrow> bytes list \<Rightarrow> nat \<Rightarrow> go_record list result" where
  "decodeCol_records payload i [] off = Inr []"
| "decodeCol_records payload i (s # srcIDs) off =
     (let ts = get_i64 payload (12 + i * 8) in
      if off + 4 > length payload then Inl ErrBlockCorrupt
      else
        (let l = get_u32 payload off; off = off + 4 in
         if off + l > length payload then Inl ErrBlockCorrupt
         else
           (let p = copy_bytes (go_slice off (off + l) payload) in
            case decodeCol_records payload (Suc i) srcIDs (off + l) of
              Inl e \<Rightarrow> Inl e
            | Inr rs \<Rightarrow> Inr (\<lparr>Timestamp = ts, SourceID = s, Payload = p\<rparr> # rs))))"

definition decodeColBlock :: "bytes \<Rightarrow> go_record list result" where
  "decodeColBlock data =
     (if length data < 16 then Inl ErrBlockCorrupt
      else
        (let payload = take (length data - 4) data;
             storedCRC = le_nat (drop (length data - 4) data)
         in if crc32 payload \<noteq> storedCRC then Inl ErrBlockCorrupt
            else
              (let count = get_u32 payload 0;
                   srcIDsSize = get_u32 payload 4;
                   tsStart = 12;
                   tsEnd = tsStart + count * 8
               in if tsEnd > length payload then Inl ErrBlockCorrupt
                  else
                    (let srcIDsEnd = tsEnd + srcIDsSize in
                     if srcIDsEnd > length payload then Inl ErrBlockCorrupt
                     else
                       (case decodeCol_srcIDs payload srcIDsEnd count tsEnd of
                          Inl e \<Rightarrow> Inl e
                        | Inr srcIDs \<Rightarrow> decodeCol_records payload 0 srcIDs srcIDsEnd)))))"

definition decodeColBlockTimestamps :: "bytes \<Rightarrow> int list result" where
  "decodeColBlockTimestamps data =
     (if length data < 16 then Inl ErrBlockCorrupt
      else
        (let payload = take (length data - 4) data;
             storedCRC = le_nat (drop (length data - 4) data)
         in if crc32 payload \<noteq> storedCRC then Inl ErrBlockCorrupt
            else
              (let count = get_u32 payload 0;
                   tsEnd = 12 + count * 8
               in if tsEnd > length payload then Inl ErrBlockCorrupt
                  else Inr (map (\<lambda>i. get_i64 payload (12 + i * 8)) [0..<count]))))"

text \<open>The reference decoder: \<open>n\<close> records parsed one after the other.\<close>

fun parse_n :: "bytes \<Rightarrow> nat \<Rightarrow> nat \<Rightarrow> go_record list result" where
  "parse_n payload 0 off = Inr []"
| "parse_n payload (Suc n) off =
     (case parseRecordAt payload off of
        Inl e \<Rightarrow> Inl e
      | Inr (v, off') \<Rightarrow> (case parse_n payload n off' of Inl e \<Rightarrow> Inl e | Inr rs \<Rightarrow> Inr (Clone v # rs)))"

subsection \<open>Row blocks: lemmas\<close>

lemma length_blockRecord [simp]:
  "length (blockRecord r) = 16 + length (SourceID r) + length (Payload r)"
  by (simp add: blockRecord_def)

lemma slice_shift [le_simps]:
  "go_slice (length xs + a) (length xs + b) (xs @ ys) = go_slice a b ys"
  by (simp add: go_slice_def)

lemma slice_shift0 [le_simps]: "go_slice (length xs) (length xs + b) (xs @ ys) = go_slice 0 b ys"
  by (simp add: go_slice_def)

lemma blockRecord_slices:
  assumes "rec_ok r"
  shows "get_i64 (blockRecord r @ post) 0 = Timestamp r"
    "get_u32 (blockRecord r @ post) 8 = length (SourceID r)"
    "go_slice 12 (12 + length (SourceID r)) (blockRecord r @ post) = SourceID r"
    "get_u32 (blockRecord r @ post) (12 + length (SourceID r)) = length (Payload r)"
    "go_slice (16 + length (SourceID r)) (16 + length (SourceID r) + length (Payload r))
       (blockRecord r @ post) = Payload r"
  using assms
  by (simp_all add: blockRecord_def go_slice_def rec_ok_def i64_put_i64 le_nat_put_u32 u32_id)

lemma parseRecordAt_blockRecord:
  assumes "rec_ok r"
  shows "parseRecordAt (pre @ blockRecord r @ post) (length pre) =
    Inr (r, length pre + length (blockRecord r))"
proof -
  note sl = blockRecord_slices [OF assms, of post]
  have "get_i64 (pre @ blockRecord r @ post) (length pre) = Timestamp r"
    "get_u32 (pre @ blockRecord r @ post) (length pre + 8) = length (SourceID r)"
    "go_slice (length pre + 12) (length pre + 12 + length (SourceID r))
       (pre @ blockRecord r @ post) = SourceID r"
    "get_u32 (pre @ blockRecord r @ post) (length pre + 12 + length (SourceID r)) = length (Payload r)"
    "go_slice (length pre + 16 + length (SourceID r))
       (length pre + 16 + length (SourceID r) + length (Payload r)) (pre @ blockRecord r @ post)
      = Payload r"
    using sl slice_shift [of pre _ _ "blockRecord r @ post"] slice_shift0 [of pre _ "blockRecord r @ post"]
    by (simp_all add: add.assoc)
  then show ?thesis by (simp add: parseRecordAt_def Let_def add.assoc add.commute add.left_commute)
qed

lemma parse_n_blockRecords:
  assumes "list_all rec_ok rs"
  shows "parse_n (pre @ concat (map blockRecord rs)) (length rs) (length pre) = Inr rs"
  using assms
proof (induction rs arbitrary: pre)
  case (Cons r rs)
  then show ?case
    using parseRecordAt_blockRecord [of r pre "concat (map blockRecord rs)"]
      Cons.IH [of "pre @ blockRecord r"]
    by simp
qed simp

lemma decodeBlock_loop_parse: "decodeBlock_loop payload n off = parse_n payload n off"
proof (induction n arbitrary: off)
  case (Suc n)
  then show ?case
    by (simp add: parseRecordAt_def Let_def add.assoc split: sum.splits)
qed simp

text \<open>What every decoder does first: split off the checksum and compare it.\<close>

lemma crc_suffix:
  "take (length (buf @ put_u32 (crc32 buf)) - 4) (buf @ put_u32 (crc32 buf)) = buf"
  "le_nat (drop (length (buf @ put_u32 (crc32 buf)) - 4) (buf @ put_u32 (crc32 buf))) = crc32 buf"
  by (simp_all add: le_nat_put_u32)

lemma validateBlock_crc:
  "4 \<le> length buf \<Longrightarrow> validateBlock (buf @ put_u32 (crc32 buf)) = Inr buf"
  using crc_suffix [of buf] by (simp add: validateBlock_def Let_def)

lemma get_u32_head: "n < 4294967296 \<Longrightarrow> le_nat (go_slice 0 4 (put_u32 n @ rest)) = n"
  by (simp add: go_slice_def le_nat_put_u32)

definition blockPayload :: "go_record list \<Rightarrow> bytes" where
  "blockPayload rs = put_u32 (u32 (length rs)) @ concat (map blockRecord rs)"

lemma encodeBlock_payload: "encodeBlock rs = blockPayload rs @ put_u32 (crc32 (blockPayload rs))"
  by (simp add: encodeBlock_def blockPayload_def Let_def)

lemma validateBlock_encodeBlock: "validateBlock (encodeBlock rs) = Inr (blockPayload rs)"
  unfolding encodeBlock_payload by (rule validateBlock_crc) (simp add: blockPayload_def)

lemma blockPayload_count:
  "length rs < 4294967296 \<Longrightarrow> le_nat (go_slice 0 4 (blockPayload rs)) = length rs"
  by (simp add: blockPayload_def get_u32_head u32_id)

lemma parse_n_blockPayload:
  "list_all rec_ok rs \<Longrightarrow> parse_n (blockPayload rs) (length rs) 4 = Inr rs"
  using parse_n_blockRecords [of rs "put_u32 (u32 (length rs))"] by (simp add: blockPayload_def)

lemma decodeBlock_alt:
  "decodeBlock data = (case validateBlock data of
     Inl e \<Rightarrow> Inl e | Inr payload \<Rightarrow> parse_n payload (get_u32 payload 0) 4)"
  by (simp add: decodeBlock_def validateBlock_def Let_def decodeBlock_loop_parse)

subsection \<open>Columnar blocks: lemmas\<close>

lemma length_lenPrefixed [simp]: "length (lenPrefixed bs) = 4 + length bs"
  by (simp add: lenPrefixed_def)

lemma lenPrefixed_slices:
  assumes "length bs < 4294967296"
  shows "get_u32 (pre @ lenPrefixed bs @ post) (length pre) = length bs"
    "go_slice (length pre + 4) (length pre + 4 + length bs) (pre @ lenPrefixed bs @ post) = bs"
  using assms by (simp_all add: go_slice_def lenPrefixed_def le_nat_put_u32 u32_id)

lemma decodeCol_srcIDs_ok:
  assumes "\<forall>b \<in> set ss. length b < 4294967296"
    and "length pre + length (concat (map lenPrefixed ss)) \<le> srcIDsEnd"
  shows "decodeCol_srcIDs (pre @ concat (map lenPrefixed ss) @ post) srcIDsEnd (length ss)
    (length pre) = Inr ss"
  using assms
proof (induction ss arbitrary: pre)
  case (Cons b ss)
  then show ?case
    using lenPrefixed_slices [of b pre "concat (map lenPrefixed ss) @ post"]
      Cons.IH [of "pre @ lenPrefixed b"]
    by (simp add: Let_def add.assoc)
qed simp

lemma decodeCol_records_ok:
  assumes "\<forall>r \<in> set rs. length (Payload r) < 4294967296"
    and "P = pre @ concat (map (\<lambda>r. lenPrefixed (Payload r)) rs)"
    and "\<forall>j < length rs. get_i64 P (12 + (i + j) * 8) = Timestamp (rs ! j)"
  shows "decodeCol_records P i (map SourceID rs) (length pre) = Inr rs"
  using assms
proof (induction rs arbitrary: pre i)
  case (Cons r rs)
  note sl = lenPrefixed_slices [of "Payload r" pre "concat (map (\<lambda>r. lenPrefixed (Payload r)) rs)"]
  have "\<forall>j < length rs. get_i64 P (12 + (Suc i + j) * 8) = Timestamp (rs ! j)"
  proof (intro allI impI)
    fix j
    assume "j < length rs"
    then show "get_i64 P (12 + (Suc i + j) * 8) = Timestamp (rs ! j)"
      using Cons.prems(3) [rule_format, of "Suc j"] by (simp add: add.commute)
  qed
  then have "decodeCol_records P (Suc i) (map SourceID rs) (length (pre @ lenPrefixed (Payload r))) =
      Inr rs"
    using Cons.prems by (intro Cons.IH) simp_all
  moreover have "get_i64 P (12 + i * 8) = Timestamp r"
    using Cons.prems(3) [rule_format, of 0] by simp
  moreover have "get_u32 P (length pre) = length (Payload r)"
    "go_slice (length pre + 4) (length pre + 4 + length (Payload r)) P = Payload r"
    using sl Cons.prems(1,2) by simp_all
  moreover have "length pre + 4 + length (Payload r) \<le> length P"
    using Cons.prems(2) by simp
  ultimately show ?case by (simp add: Let_def add.assoc)
qed simp

lemma slice_chunk:
  assumes "\<forall>x \<in> set xs. length (f x) = w" "j < length xs"
  shows "go_slice (j * w) (j * w + w) (concat (map f xs) @ tail) = f (xs ! j)"
  using assms
proof (induction xs arbitrary: j)
  case (Cons x xs)
  then show ?case
  proof (cases j)
    case (Suc i)
    have "go_slice (length (f x) + i * w) (length (f x) + (i * w + w))
        (f x @ concat (map f xs) @ tail) = f (xs ! i)"
      unfolding slice_shift using Cons.IH [of i] Cons.prems Suc by simp
    with Suc Cons.prems show ?thesis by (simp add: add.assoc)
  qed (simp add: go_slice_def)
qed simp

definition colPayload :: "go_record list \<Rightarrow> bytes" where
  "colPayload rs = put_u32 (u32 (length rs)) @
     put_u32 (u32 (sum_list (map (\<lambda>r. 4 + length (SourceID r)) rs))) @
     put_u32 (u32 (sum_list (map (\<lambda>r. 4 + length (Payload r)) rs))) @
     concat (map (\<lambda>r. put_i64 (Timestamp r)) rs) @
     concat (map (\<lambda>r. lenPrefixed (SourceID r)) rs) @
     concat (map (\<lambda>r. lenPrefixed (Payload r)) rs)"

lemma encodeColBlock_payload: "encodeColBlock rs = colPayload rs @ put_u32 (crc32 (colPayload rs))"
  by (simp add: encodeColBlock_def colPayload_def Let_def)

lemma length_concat_8: "length (concat (map (\<lambda>r. put_i64 (f r)) rs)) = length rs * 8"
  by (induction rs) auto

lemma length_concat_lenPrefixed:
  "length (concat (map (\<lambda>r. lenPrefixed (f r)) rs)) = sum_list (map (\<lambda>r. 4 + length (f r)) rs)"
  by (induction rs) auto

lemma colPayload_ts:
  assumes "list_all rec_ok rs" "j < length rs"
  shows "get_i64 (colPayload rs) (12 + j * 8) = Timestamp (rs ! j)"
proof -
  let ?h = "put_u32 (u32 (length rs)) @
     put_u32 (u32 (sum_list (map (\<lambda>r. 4 + length (SourceID r)) rs))) @
     put_u32 (u32 (sum_list (map (\<lambda>r. 4 + length (Payload r)) rs)))"
  let ?tail = "concat (map (\<lambda>r. lenPrefixed (SourceID r)) rs) @
     concat (map (\<lambda>r. lenPrefixed (Payload r)) rs)"
  have "go_slice (length ?h + j * 8) (length ?h + (j * 8 + 8)) (colPayload rs) =
      put_i64 (Timestamp (rs ! j))"
    using slice_shift [of ?h "j * 8" "j * 8 + 8"
        "concat (map (\<lambda>r. put_i64 (Timestamp r)) rs) @ ?tail"]
      slice_chunk [of rs "\<lambda>r. put_i64 (Timestamp r)" 8 j ?tail] assms(2)
    by (simp add: colPayload_def)
  moreover have "is_i64 (Timestamp (rs ! j))"
    using assms by (auto simp: list_all_iff rec_ok_def)
  ultimately show ?thesis by (simp add: i64_put_i64 add.assoc)
qed

text \<open>The column sections fit their 32-bit sizes.\<close>

definition col_ok :: "go_record list \<Rightarrow> bool" where
  "col_ok rs \<longleftrightarrow> list_all rec_ok rs \<and> length rs < 4294967296 \<and>
     sum_list (map (\<lambda>r. 4 + length (SourceID r)) rs) < 4294967296"

lemma colPayload_head:
  assumes "col_ok rs"
  shows "le_nat (go_slice 0 4 (colPayload rs)) = length rs"
    "le_nat (go_slice 4 8 (colPayload rs)) = sum_list (map (\<lambda>r. 4 + length (SourceID r)) rs)"
  using assms by (simp_all add: colPayload_def go_slice_def le_nat_put_u32 u32_id col_ok_def)

lemma length_colPayload:
  "length (colPayload rs) = 12 + length rs * 8 + sum_list (map (\<lambda>r. 4 + length (SourceID r)) rs) +
     sum_list (map (\<lambda>r. 4 + length (Payload r)) rs)"
  by (simp add: colPayload_def length_concat_8 length_concat_lenPrefixed)

lemma decodeColBlock_encode:
  assumes "col_ok rs"
  shows "decodeColBlock (encodeColBlock rs) = Inr rs"
proof -
  define n where "n = length rs"
  define S where "S = sum_list (map (\<lambda>r. 4 + length (SourceID r)) rs)"
  define pre where "pre = put_u32 (u32 n) @ put_u32 (u32 S) @
     put_u32 (u32 (sum_list (map (\<lambda>r. 4 + length (Payload r)) rs))) @
     concat (map (\<lambda>r. put_i64 (Timestamp r)) rs)"
  have ok: "list_all rec_ok rs" using assms by (simp add: col_ok_def)
  then have lens: "\<forall>r \<in> set rs. length (SourceID r) < 4294967296 \<and> length (Payload r) < 4294967296"
    by (auto simp: list_all_iff rec_ok_def)
  have lpre: "length pre = 12 + n * 8" by (simp add: pre_def length_concat_8 n_def)
  have P: "colPayload rs = pre @ concat (map lenPrefixed (map SourceID rs)) @
      concat (map (\<lambda>r. lenPrefixed (Payload r)) rs)"
    by (simp add: colPayload_def pre_def S_def n_def comp_def)
  have src: "decodeCol_srcIDs (colPayload rs) (12 + n * 8 + S) n (12 + n * 8) =
      Inr (map SourceID rs)"
    using decodeCol_srcIDs_ok [of "map SourceID rs" pre "12 + n * 8 + S"
        "concat (map (\<lambda>r. lenPrefixed (Payload r)) rs)"] lens
    by (simp add: P lpre n_def S_def length_concat_lenPrefixed comp_def)
  have recs: "decodeCol_records (colPayload rs) 0 (map SourceID rs) (12 + n * 8 + S) = Inr rs"
    using decodeCol_records_ok [of rs "colPayload rs"
        "pre @ concat (map lenPrefixed (map SourceID rs))" 0] lens colPayload_ts [OF ok]
    by (simp add: P lpre S_def length_concat_lenPrefixed comp_def)
  have "4 \<le> length (colPayload rs)" "16 \<le> length (encodeColBlock rs)"
    by (simp_all add: encodeColBlock_payload length_colPayload)
  then show ?thesis
    using src recs crc_suffix [of "colPayload rs"] colPayload_head [OF assms] length_colPayload [of rs]
    by (simp add: decodeColBlock_def Let_def encodeColBlock_payload n_def S_def)
qed

lemma decodeCol_srcIDs_length:
  "decodeCol_srcIDs P E n off = Inr ss \<Longrightarrow> length ss = n"
  by (induction n arbitrary: off ss) (auto simp: Let_def split: if_splits sum.splits)

lemma decodeCol_records_ts:
  "decodeCol_records P i ss off = Inr rs \<Longrightarrow>
   map Timestamp rs = map (\<lambda>j. get_i64 P (12 + j * 8)) [i..<i + length ss]"
proof (induction ss arbitrary: i off rs)
  case (Cons s ss)
  then obtain rs' r off' where
    "decodeCol_records P (Suc i) ss off' = Inr rs'" "rs = r # rs'"
    "Timestamp r = get_i64 P (12 + i * 8)"
    by (auto simp: Let_def split: if_splits sum.splits)
  with Cons.IH [of "Suc i" off' rs'] show ?case by (simp add: upt_conv_Cons del: upt_Suc)
qed simp

lemma decodeColBlockTimestamps_ok:
  "decodeColBlock data = Inr rs \<Longrightarrow> decodeColBlockTimestamps data = Inr (map Timestamp rs)"
  using decodeCol_srcIDs_length decodeCol_records_ts
  by (fastforce simp: decodeColBlock_def decodeColBlockTimestamps_def Let_def
      split: if_splits sum.splits)

subsection \<open>Properties\<close>

text \<open>
  C32: a row block decodes to the records it was encoded from, by \<^verbatim>\<open>decodeBlock\<close> and by the reader's
  zero-copy path (\<^verbatim>\<open>validateBlock\<close>, the record count, then \<^verbatim>\<open>parseRecordAt\<close> once per record).
\<close>

theorem block_roundtrip:
  assumes "list_all rec_ok rs" "length rs < 4294967296"
  shows "decodeBlock (encodeBlock rs) = Inr rs \<and>
    (\<exists>payload. validateBlock (encodeBlock rs) = Inr payload \<and> get_u32 payload 0 = length rs \<and>
       parse_n payload (length rs) 4 = Inr rs)"
  using assms
  by (simp add: decodeBlock_alt validateBlock_encodeBlock blockPayload_count parse_n_blockPayload)

theorem block_roundtrip_witness:
  "decodeBlock (encodeBlock [\<lparr>Timestamp = -1, SourceID = [9], Payload = [1, 2]\<rparr>]) =
     Inr [\<lparr>Timestamp = -1, SourceID = [9], Payload = [1, 2]\<rparr>]"
  using block_roundtrip [of "[\<lparr>Timestamp = -1, SourceID = [9], Payload = [1, 2]\<rparr>]"]
  by (simp add: rec_ok_def is_i64_def)

text \<open>
  C34: on every input, valid or not, the copying decoder \<^verbatim>\<open>decodeBlock\<close> agrees with checksum
  validation followed by the zero-copy parser: same records, same error.
\<close>

theorem decodeBlock_equals_parse:
  "decodeBlock data = (case validateBlock data of
     Inl e \<Rightarrow> Inl e | Inr payload \<Rightarrow> parse_n payload (get_u32 payload 0) 4)"
  by (rule decodeBlock_alt)

text \<open>
  C33: a columnar block decodes to the records it was encoded from, as long as the source-id
  section fits its 32-bit size.
\<close>

theorem colBlock_roundtrip:
  assumes "list_all rec_ok rs" "length rs < 4294967296"
    "sum_list (map (\<lambda>r. 4 + length (SourceID r)) rs) < 4294967296"
  shows "decodeColBlock (encodeColBlock rs) = Inr rs"
  using assms by (intro decodeColBlock_encode) (simp add: col_ok_def)

theorem colBlock_roundtrip_witness:
  "decodeColBlock (encodeColBlock [\<lparr>Timestamp = 7, SourceID = [9], Payload = [1, 2]\<rparr>, zero_record]) =
     Inr [\<lparr>Timestamp = 7, SourceID = [9], Payload = [1, 2]\<rparr>, zero_record]"
  by (rule colBlock_roundtrip) (simp_all add: rec_ok_def is_i64_def zero_record_def)

text \<open>
  C27: corruption of a single byte, anywhere in a block, is always detected: if a block passes
  validation, the same block with one byte changed is rejected with \<open>ErrBlockCorrupt\<close>.
\<close>

theorem block_single_byte_corruption:
  assumes "validateBlock data = Inr payload" "i < length data" "b \<noteq> data ! i"
  shows "validateBlock (data[i := b]) = Inl ErrBlockCorrupt"
proof -
  define k where "k = length data - 4"
  have len: "8 \<le> length data" and crc: "crc32 (take k data) = le_nat (drop k data)"
    using assms(1) by (auto simp: validateBlock_def Let_def k_def split: if_splits)
  have "crc32 (take k (data[i := b])) \<noteq> le_nat (drop k (data[i := b]))"
  proof (cases "i < k")
    case True
    then have i: "i < length (take k data)" using assms(2) by simp
    have "take k (data[i := b]) = take i (take k data) @ b # drop (Suc i) (take k data)"
      unfolding take_update_swap by (rule upd_conv_take_nth_drop [OF i])
    moreover have "take k data = take i (take k data) @ data ! i # drop (Suc i) (take k data)"
      using id_take_nth_drop [OF i] True by simp
    ultimately have "crc32 (take k (data[i := b])) \<noteq> crc32 (take k data)"
      using crc32_one_byte [OF assms(3)] by metis
    then show ?thesis using True crc by simp
  next
    case False
    then have i: "i - k < length (drop k data)" "drop k data ! (i - k) = data ! i"
      using assms(2) by simp_all
    from i have "(drop k data)[i - k := b] \<noteq> drop k data"
      using assms(3) nth_list_update_eq [OF i(1), of b] by metis
    moreover have "drop k (data[i := b]) = (drop k data)[i - k := b]"
      using False by (simp add: drop_update_swap)
    moreover have "length (drop k data) = 4" "length (drop k (data[i := b])) = 4"
      using len by (simp_all add: k_def)
    ultimately have "le_nat (drop k (data[i := b])) \<noteq> le_nat (drop k data)"
      using le_bytes_le_nat by metis
    then show ?thesis using False crc by simp
  qed
  then show ?thesis using len by (simp add: validateBlock_def Let_def k_def)
qed

theorem block_single_byte_corruption_witness:
  "validateBlock ((encodeBlock [])[0 := 1]) = Inl ErrBlockCorrupt"
  by (rule block_single_byte_corruption [OF validateBlock_encodeBlock])
    (simp_all add: encodeBlock_def Let_def le_bytes_4 u32_def)

end
