(* ===== verification/Compress.thy ===== *)
theory Compress
  imports Prelude
begin

text \<open>
  \<^verbatim>\<open>internal/sstable/compress.go\<close>. The Zstandard and Snappy libraries are not part of the source:
  their encoders and decoders are the fields of a parameter of type \<open>codecs\<close>, and \<open>codecs_ok\<close> is
  the documented behaviour the code relies on: decoding reverses encoding, and both formats begin
  with a header, so that the encoding of a non-empty input is not empty. A
  \<^verbatim>\<open>CompressionType\<close> is a \<^verbatim>\<open>uint8\<close>, here a \<open>nat\<close>. The destination buffer that \<^verbatim>\<open>decompress\<close> may
  reuse does not show in the result.
\<close>

record codecs =
  zstd_EncodeAll :: "bytes \<Rightarrow> bytes"
  zstd_DecodeAll :: "bytes \<Rightarrow> bytes option"
  snappy_Encode :: "bytes \<Rightarrow> bytes"
  snappy_Decode :: "bytes \<Rightarrow> bytes option"

definition codecs_ok :: "codecs \<Rightarrow> bool" where
  "codecs_ok cd \<longleftrightarrow> (\<forall>bs. zstd_DecodeAll cd (zstd_EncodeAll cd bs) = Some bs) \<and>
     (\<forall>bs. snappy_Decode cd (snappy_Encode cd bs) = Some bs) \<and>
     (\<forall>bs. bs \<noteq> [] \<longrightarrow> zstd_EncodeAll cd bs \<noteq> [] \<and> snappy_Encode cd bs \<noteq> [])"

definition CompressionNone :: nat where "CompressionNone = 0"

definition CompressionZstd :: nat where "CompressionZstd = 1"

definition CompressionSnappy :: nat where "CompressionSnappy = 2"

definition compress :: "codecs \<Rightarrow> nat \<Rightarrow> bytes \<Rightarrow> bytes result" where
  "compress cd ct src =
     (if ct = CompressionNone then Inr src
      else if ct = CompressionZstd then Inr (zstd_EncodeAll cd src)
      else if ct = CompressionSnappy then Inr (snappy_Encode cd src)
      else Inl (ErrUnknownCompression ct))"

definition decompress :: "codecs \<Rightarrow> nat \<Rightarrow> bytes \<Rightarrow> bytes result" where
  "decompress cd ct src =
     (if ct = CompressionNone then Inr src
      else if ct = CompressionZstd then
        (case zstd_DecodeAll cd src of None \<Rightarrow> Inl EIO | Some bs \<Rightarrow> Inr bs)
      else if ct = CompressionSnappy then
        (case snappy_Decode cd src of None \<Rightarrow> Inl EIO | Some bs \<Rightarrow> Inr bs)
      else Inl (ErrUnknownCompression ct))"

text \<open>A codec that satisfies the hypothesis, for witnesses: each codec prepends a tag byte.\<close>

definition tag_codecs :: codecs where
  "tag_codecs = \<lparr>zstd_EncodeAll = (\<lambda>bs. 40 # bs),
     zstd_DecodeAll = (\<lambda>bs. case bs of b # r \<Rightarrow> if b = 40 then Some r else None | [] \<Rightarrow> None),
     snappy_Encode = (\<lambda>bs. 41 # bs),
     snappy_Decode = (\<lambda>bs. case bs of b # r \<Rightarrow> if b = 41 then Some r else None | [] \<Rightarrow> None)\<rparr>"

lemma codecs_ok_tag: "codecs_ok tag_codecs"
  by (simp add: codecs_ok_def tag_codecs_def)

lemmas compression_types = CompressionNone_def CompressionZstd_def CompressionSnappy_def

lemma compress_known: "ct \<le> 2 \<Longrightarrow> \<exists>bs. compress cd ct src = Inr bs"
  by (auto simp: compress_def compression_types)

lemma decompress_compress:
  "codecs_ok cd \<Longrightarrow> compress cd ct src = Inr bs \<Longrightarrow> decompress cd ct bs = Inr src"
  by (auto simp: compress_def decompress_def codecs_ok_def split: if_splits)

lemma compress_nonempty:
  "codecs_ok cd \<Longrightarrow> compress cd ct src = Inr bs \<Longrightarrow> src \<noteq> [] \<Longrightarrow> bs \<noteq> []"
  by (auto simp: compress_def codecs_ok_def split: if_splits)

end
