(* ===== verification/SSTWriter.thy ===== *)
theory SSTWriter
  imports Block Compress FileSys "HOL-Library.AList"
begin

text \<open>
  \<^verbatim>\<open>internal/sstable/writer.go\<close>: the streaming writer of an SSTable file. State and operations
  follow the source, including the buffered writer below them. The second half states the layout
  of a finished file as a function of the list of blocks (\<open>sst_layout\<close>) and proves that the
  writer produces it; the reader is verified against the layout only.
\<close>

subsection \<open>Types\<close>

definition footerSize :: nat where "footerSize = 80"

definition footerMagic :: nat where "footerMagic = 0x54494D4245524442"

definition headerMagic :: nat where "headerMagic = 0x3152444842524D54"

definition headerSize :: nat where "headerSize = 16"

definition defaultBlockSize :: int where "defaultBlockSize = 32 * 1024"

definition timeIndexEntrySize :: nat where "timeIndexEntrySize = 20"

record WriterOptions =
  wo_BlockSizeBytes :: int
  wo_IndexSources :: bool
  wo_PartitionStart :: int
  wo_PartitionEnd :: int
  wo_CompressionType :: nat
  wo_ColumnOriented :: bool

definition DefaultWriterOptions :: WriterOptions where
  "DefaultWriterOptions = \<lparr>wo_BlockSizeBytes = defaultBlockSize, wo_IndexSources = False,
     wo_PartitionStart = 0, wo_PartitionEnd = 0, wo_CompressionType = CompressionNone,
     wo_ColumnOriented = False\<rparr>"

record SSTableMeta =
  sm_Path :: path
  sm_MinTimestamp :: int
  sm_MaxTimestamp :: int
  sm_TimeIndexOffset :: nat
  sm_TimeIndexSize :: nat
  sm_SrcIndexOffset :: nat
  sm_SrcIndexSize :: nat
  sm_RecordCount :: nat
  sm_PartitionStart :: int
  sm_PartitionEnd :: int

record timeIndexEntry =
  ti_minTimestamp :: int
  ti_offset :: nat
  ti_size :: nat

record srcEntry =
  se_firstBlockOffset :: nat
  se_recordCount :: nat

record sst_writer =
  sw_opts :: WriterOptions
  sw_file :: inode
  sw_path :: path
  sw_bw :: buf_writer
  sw_offset :: nat
  sw_recordCount :: nat
  sw_minTS :: int
  sw_maxTS :: int
  sw_hasRecords :: bool
  sw_pending :: "go_record list"
  sw_pendingSize :: int
  sw_lastTS :: int
  sw_lastSrcID :: bytes
  sw_timeIndex :: "timeIndexEntry list"
  sw_srcIndex :: "(bytes \<times> srcEntry) list"
  sw_newSrcIDs :: "bytes list"

subsection \<open>Operations\<close>

definition fileHeader :: "WriterOptions \<Rightarrow> bytes" where
  "fileHeader opts =
     (if wo_CompressionType opts \<noteq> CompressionNone \<or> wo_ColumnOriented opts then
        put_u64 headerMagic @ put_u16 (if wo_ColumnOriented opts then 2 else 1) @
        put_u16 (wo_CompressionType opts) @ replicate 4 0
      else [])"

definition NewWriter :: "path \<Rightarrow> WriterOptions \<Rightarrow> file_sys \<Rightarrow> sst_writer result \<times> file_sys" where
  "NewWriter path opts fs =
     (let opts = (if wo_BlockSizeBytes opts \<le> 0 then opts\<lparr>wo_BlockSizeBytes := defaultBlockSize\<rparr>
        else opts)
      in case os_open_create True path fs of
        (Inl e, fs) \<Rightarrow> (Inl e, fs)
      | (Inr f, fs) \<Rightarrow>
          (let w = \<lparr>sw_opts = opts, sw_file = f, sw_path = path, sw_bw = bufio_New f (256 * 1024),
             sw_offset = 0, sw_recordCount = 0, sw_minTS = 0, sw_maxTS = 0, sw_hasRecords = False,
             sw_pending = [], sw_pendingSize = 0, sw_lastTS = 0, sw_lastSrcID = [],
             sw_timeIndex = [], sw_srcIndex = [], sw_newSrcIDs = []\<rparr>
           in if wo_CompressionType opts \<noteq> CompressionNone \<or> wo_ColumnOriented opts then
                (case bufio_Write (fileHeader opts) (sw_bw w) fs of
                   (Some e, bw, fs) \<Rightarrow> (Inl e, snd (file_close f fs))
                 | (None, bw, fs) \<Rightarrow> (Inr (w\<lparr>sw_bw := bw, sw_offset := headerSize\<rparr>), fs))
              else (Inr w, fs)))"

text \<open>\<^verbatim>\<open>w.srcIndex[key].firstBlockOffset = blockOffset\<close> for every new key.\<close>

definition setFirstOffset :: "nat \<Rightarrow> bytes list \<Rightarrow> (bytes \<times> srcEntry) list \<Rightarrow> (bytes \<times> srcEntry) list" where
  "setFirstOffset off keys idx = map (\<lambda>(k, e).
     (k, if k \<in> set keys then e\<lparr>se_firstBlockOffset := off\<rparr> else e)) idx"

definition flushBlock :: "codecs \<Rightarrow> sst_writer \<Rightarrow> file_sys \<Rightarrow> go_error option \<times> sst_writer \<times> file_sys" where
  "flushBlock cd w fs =
     (if sw_pending w = [] then (None, w, fs)
      else
        (let blockOffset = sw_offset w;
             w = w\<lparr>sw_srcIndex := setFirstOffset blockOffset (sw_newSrcIDs w) (sw_srcIndex w),
               sw_newSrcIDs := []\<rparr>;
             encoded = (if wo_ColumnOriented (sw_opts w) then encodeColBlock (sw_pending w)
               else encodeBlock (sw_pending w));
             out = (if wo_CompressionType (sw_opts w) \<noteq> CompressionNone
               then compress cd (wo_CompressionType (sw_opts w)) encoded else Inr encoded)
         in case out of
              Inl e \<Rightarrow> (Some e, w, fs)
            | Inr encoded \<Rightarrow>
                (case bufio_Write encoded (sw_bw w) fs of
                   (Some e, bw, fs) \<Rightarrow> (Some e, w\<lparr>sw_bw := bw\<rparr>, fs)
                 | (None, bw, fs) \<Rightarrow>
                     (None, w\<lparr>sw_bw := bw,
                        sw_timeIndex := sw_timeIndex w @
                          [\<lparr>ti_minTimestamp = Timestamp (hd (sw_pending w)),
                            ti_offset = blockOffset, ti_size = u32 (length encoded)\<rparr>],
                        sw_offset := u64 (sw_offset w + length encoded),
                        sw_pending := [], sw_pendingSize := 0\<rparr>, fs))))"

text \<open>The entry of a source: created with zero fields when the key is new, then counted up.\<close>

definition countSource :: "bytes \<Rightarrow> (bytes \<times> srcEntry) list \<Rightarrow> (bytes \<times> srcEntry) list" where
  "countSource key idx =
     (let e = (case map_of idx key of None \<Rightarrow> \<lparr>se_firstBlockOffset = 0, se_recordCount = 0\<rparr>
         | Some e \<Rightarrow> e)
      in AList.update key (e\<lparr>se_recordCount := u64 (se_recordCount e + 1)\<rparr>) idx)"

definition sst_Add :: "codecs \<Rightarrow> sst_writer \<Rightarrow> go_record \<Rightarrow> file_sys \<Rightarrow>
    go_error option \<times> sst_writer \<times> file_sys" where
  "sst_Add cd w r fs =
     (if sw_hasRecords w \<and> (Timestamp r < sw_lastTS w \<or>
          (Timestamp r = sw_lastTS w \<and> bytes_compare (SourceID r) (sw_lastSrcID w) < 0))
      then (Some ErrOutOfOrder, w, fs)
      else
        (let w = (if \<not> sw_hasRecords w then w\<lparr>sw_minTS := Timestamp r, sw_hasRecords := True\<rparr> else w);
             w = w\<lparr>sw_maxTS := Timestamp r, sw_recordCount := u64 (sw_recordCount w + 1),
               sw_lastTS := Timestamp r, sw_lastSrcID := SourceID r\<rparr>;
             w = (if wo_IndexSources (sw_opts w) then
                 w\<lparr>sw_newSrcIDs := (if map_of (sw_srcIndex w) (SourceID r) = None
                     then sw_newSrcIDs w @ [SourceID r] else sw_newSrcIDs w),
                   sw_srcIndex := countSource (SourceID r) (sw_srcIndex w)\<rparr>
               else w);
             w = w\<lparr>sw_pending := sw_pending w @ [r],
               sw_pendingSize := sw_pendingSize w +
                 int (8 + 4 + length (SourceID r) + 4 + length (Payload r))\<rparr>
         in if sw_pendingSize w \<ge> wo_BlockSizeBytes (sw_opts w) then flushBlock cd w fs
            else (None, w, fs)))"

definition timeIndexBytes :: "timeIndexEntry list \<Rightarrow> bytes" where
  "timeIndexBytes es = concat (map (\<lambda>e. put_i64 (ti_minTimestamp e) @ put_u64 (ti_offset e) @
     put_u32 (ti_size e)) es)"

definition srcIndexEntry :: "bytes \<times> srcEntry \<Rightarrow> bytes" where
  "srcIndexEntry ke = put_u32 (u32 (length (fst ke))) @ fst ke @
     put_u64 (se_firstBlockOffset (snd ke)) @ put_u64 (se_recordCount (snd ke))"

text \<open>The keys of the map, sorted by \<^verbatim>\<open>sort.Strings\<close>, with their entries.\<close>

definition sortedSources :: "(bytes \<times> srcEntry) list \<Rightarrow> (bytes \<times> srcEntry) list" where
  "sortedSources idx = map (\<lambda>k. (k, the (map_of idx k))) (sort (remdups (map fst idx)))"

text \<open>The loop that writes the entries one by one and adds up their sizes.\<close>

fun writeSources :: "(bytes \<times> srcEntry) list \<Rightarrow> nat \<Rightarrow> buf_writer \<Rightarrow> file_sys \<Rightarrow>
    go_error option \<times> nat \<times> buf_writer \<times> file_sys" where
  "writeSources [] sz bw fs = (None, sz, bw, fs)"
| "writeSources (ke # rest) sz bw fs =
     (case bufio_Write (srcIndexEntry ke) bw fs of
        (Some e, bw, fs) \<Rightarrow> (Some e, sz, bw, fs)
      | (None, bw, fs) \<Rightarrow> writeSources rest (u64 (sz + length (srcIndexEntry ke))) bw fs)"

definition footerBytes :: "SSTableMeta \<Rightarrow> bytes" where
  "footerBytes m = put_i64 (sm_MinTimestamp m) @ put_i64 (sm_MaxTimestamp m) @
     put_u64 (sm_TimeIndexOffset m) @ put_u64 (sm_TimeIndexSize m) @
     put_u64 (sm_SrcIndexOffset m) @ put_u64 (sm_SrcIndexSize m) @
     put_u64 (sm_RecordCount m) @ put_i64 (sm_PartitionStart m) @ put_i64 (sm_PartitionEnd m) @
     put_u64 footerMagic"

text \<open>
  Every error path of \<^verbatim>\<open>Finish\<close> closes the file in the deferred function (\<open>finish_fail\<close>).
\<close>

definition finish_fail :: "go_error \<Rightarrow> sst_writer \<Rightarrow> file_sys \<Rightarrow> SSTableMeta result \<times> file_sys" where
  "finish_fail e w fs = (Inl e, snd (file_close (sw_file w) fs))"

definition sst_Finish :: "codecs \<Rightarrow> sst_writer \<Rightarrow> file_sys \<Rightarrow> SSTableMeta result \<times> file_sys" where
  "sst_Finish cd w fs =
     (case flushBlock cd w fs of
        (Some e, w, fs) \<Rightarrow> finish_fail e w fs
      | (None, w, fs) \<Rightarrow>
     (let timeIdxOffset = sw_offset w; timeIdxBuf = timeIndexBytes (sw_timeIndex w) in
      case bufio_Write timeIdxBuf (sw_bw w) fs of
        (Some e, bw, fs) \<Rightarrow> finish_fail e w fs
      | (None, bw, fs) \<Rightarrow>
     (let timeIdxSize = u64 (length timeIdxBuf);
          offset = u64 (sw_offset w + timeIdxSize);
          srcIdxOffset = offset
      in case (if wo_IndexSources (sw_opts w) \<and> sw_srcIndex w \<noteq> []
          then writeSources (sortedSources (sw_srcIndex w)) 0 bw fs else (None, 0, bw, fs)) of
        (Some e, _, bw, fs) \<Rightarrow> finish_fail e w fs
      | (None, srcIdxSize, bw, fs) \<Rightarrow>
     (let meta = \<lparr>sm_Path = sw_path w, sm_MinTimestamp = sw_minTS w, sm_MaxTimestamp = sw_maxTS w,
            sm_TimeIndexOffset = timeIdxOffset, sm_TimeIndexSize = timeIdxSize,
            sm_SrcIndexOffset = srcIdxOffset, sm_SrcIndexSize = srcIdxSize,
            sm_RecordCount = sw_recordCount w,
            sm_PartitionStart = wo_PartitionStart (sw_opts w),
            sm_PartitionEnd = wo_PartitionEnd (sw_opts w)\<rparr>
      in case bufio_Write (footerBytes meta) bw fs of
        (Some e, bw, fs) \<Rightarrow> finish_fail e w fs
      | (None, bw, fs) \<Rightarrow>
     (case bufio_Flush bw fs of
        (Some e, bw, fs) \<Rightarrow> finish_fail e w fs
      | (None, bw, fs) \<Rightarrow>
     (case file_sync (sw_file w) fs of
        (Some e, fs) \<Rightarrow> finish_fail e w fs
      | (None, fs) \<Rightarrow>
     (case file_close (sw_file w) fs of
        (Some e, fs) \<Rightarrow> (Inl e, fs)
      | (None, fs) \<Rightarrow> (Inr meta, fs))))))))"

text \<open>The use of the writer by a flush and by a merge: add every record, stop at the first error.\<close>

fun sst_AddAll :: "codecs \<Rightarrow> go_record list \<Rightarrow> sst_writer \<Rightarrow> file_sys \<Rightarrow>
    go_error option \<times> sst_writer \<times> file_sys" where
  "sst_AddAll cd [] w fs = (None, w, fs)"
| "sst_AddAll cd (r # rs) w fs =
     (case sst_Add cd w r fs of
        (Some e, w, fs) \<Rightarrow> (Some e, w, fs)
      | (None, w, fs) \<Rightarrow> sst_AddAll cd rs w fs)"

definition sst_write :: "codecs \<Rightarrow> path \<Rightarrow> WriterOptions \<Rightarrow> go_record list \<Rightarrow> file_sys \<Rightarrow>
    SSTableMeta result \<times> file_sys" where
  "sst_write cd path opts rs fs =
     (case NewWriter path opts fs of
        (Inl e, fs) \<Rightarrow> (Inl e, fs)
      | (Inr w, fs) \<Rightarrow>
          (case sst_AddAll cd rs w fs of
             (Some e, w, fs) \<Rightarrow> (Inl e, fs)
           | (None, w, fs) \<Rightarrow> sst_Finish cd w fs))"

subsection \<open>The layout of a finished file\<close>

definition rowSize :: "go_record \<Rightarrow> int" where
  "rowSize r = int (8 + 4 + length (SourceID r) + 4 + length (Payload r))"

text \<open>How a list of records is cut into blocks of at least \<open>n\<close> bytes; \<open>p\<close> is the open block.\<close>

fun cut_blocks :: "int \<Rightarrow> go_record list \<Rightarrow> go_record list \<Rightarrow> go_record list list" where
  "cut_blocks n p [] = (if p = [] then [] else [p])"
| "cut_blocks n p (r # rs) =
     (if sum_list (map rowSize (p @ [r])) \<ge> n then (p @ [r]) # cut_blocks n [] rs
      else cut_blocks n (p @ [r]) rs)"

definition encBlock :: "codecs \<Rightarrow> WriterOptions \<Rightarrow> go_record list \<Rightarrow> bytes result" where
  "encBlock cd opts rs =
     (let e = (if wo_ColumnOriented opts then encodeColBlock rs else encodeBlock rs) in
      if wo_CompressionType opts \<noteq> CompressionNone then compress cd (wo_CompressionType opts) e
      else Inr e)"

definition blk :: "codecs \<Rightarrow> WriterOptions \<Rightarrow> go_record list \<Rightarrow> bytes" where
  "blk cd opts rs = (case encBlock cd opts rs of Inl _ \<Rightarrow> [] | Inr b \<Rightarrow> b)"

definition dataBytes :: "codecs \<Rightarrow> WriterOptions \<Rightarrow> go_record list list \<Rightarrow> bytes" where
  "dataBytes cd opts bs = fileHeader opts @ concat (map (blk cd opts) bs)"

fun layout_index :: "(go_record list \<Rightarrow> nat) \<Rightarrow> nat \<Rightarrow> go_record list list \<Rightarrow> timeIndexEntry list" where
  "layout_index len off [] = []"
| "layout_index len off (b # bs) =
     \<lparr>ti_minTimestamp = Timestamp (hd b), ti_offset = u64 off, ti_size = u32 (len b)\<rparr>
       # layout_index len (off + len b) bs"

fun first_off :: "(go_record list \<Rightarrow> nat) \<Rightarrow> nat \<Rightarrow> go_record list list \<Rightarrow> bytes \<Rightarrow> nat" where
  "first_off len off [] k = 0"
| "first_off len off (b # bs) k =
     (if k \<in> SourceID ` set b then off else first_off len (off + len b) bs k)"

text \<open>
  Abbreviations for the lengths that positions in the file are computed from, and the entry that
  the source index has for a source.
\<close>

abbreviation blkLen :: "codecs \<Rightarrow> WriterOptions \<Rightarrow> go_record list \<Rightarrow> nat" where
  "blkLen cd opts \<equiv> (\<lambda>b. length (blk cd opts b))"

abbreviation hdrLen :: "WriterOptions \<Rightarrow> nat" where
  "hdrLen opts \<equiv> length (fileHeader opts)"

definition src_count :: "bytes \<Rightarrow> go_record list \<Rightarrow> nat" where
  "src_count k rs = length (filter (\<lambda>r. SourceID r = k) rs)"

definition layout_source :: "codecs \<Rightarrow> WriterOptions \<Rightarrow> go_record list list \<Rightarrow> bytes \<Rightarrow> srcEntry" where
  "layout_source cd opts bs k =
     \<lparr>se_firstBlockOffset = u64 (first_off (blkLen cd opts) (hdrLen opts) bs k),
      se_recordCount = u64 (src_count k (concat bs))\<rparr>"

definition layout_sources :: "codecs \<Rightarrow> WriterOptions \<Rightarrow> go_record list list \<Rightarrow> (bytes \<times> srcEntry) list" where
  "layout_sources cd opts bs =
     (if wo_IndexSources opts then
        map (\<lambda>k. (k, layout_source cd opts bs k)) (sort (remdups (map SourceID (concat bs))))
      else [])"

definition timeIndexOf :: "codecs \<Rightarrow> WriterOptions \<Rightarrow> go_record list list \<Rightarrow> timeIndexEntry list" where
  "timeIndexOf cd opts bs = layout_index (blkLen cd opts) (hdrLen opts) bs"

definition srcIndexBytes :: "codecs \<Rightarrow> WriterOptions \<Rightarrow> go_record list list \<Rightarrow> bytes" where
  "srcIndexBytes cd opts bs = concat (map srcIndexEntry (layout_sources cd opts bs))"

definition layout_meta :: "codecs \<Rightarrow> path \<Rightarrow> WriterOptions \<Rightarrow> go_record list list \<Rightarrow> SSTableMeta" where
  "layout_meta cd path opts bs =
     (let d = length (dataBytes cd opts bs); t = length (timeIndexBytes (timeIndexOf cd opts bs));
          rs = concat bs
      in \<lparr>sm_Path = path,
          sm_MinTimestamp = (if rs = [] then 0 else Timestamp (hd rs)),
          sm_MaxTimestamp = (if rs = [] then 0 else Timestamp (last rs)),
          sm_TimeIndexOffset = u64 d, sm_TimeIndexSize = u64 t,
          sm_SrcIndexOffset = u64 (d + t),
          sm_SrcIndexSize = u64 (length (srcIndexBytes cd opts bs)),
          sm_RecordCount = u64 (length rs),
          sm_PartitionStart = wo_PartitionStart opts, sm_PartitionEnd = wo_PartitionEnd opts\<rparr>)"

definition sst_layout :: "codecs \<Rightarrow> path \<Rightarrow> WriterOptions \<Rightarrow> go_record list list \<Rightarrow> bytes" where
  "sst_layout cd path opts bs = dataBytes cd opts bs @ timeIndexBytes (timeIndexOf cd opts bs) @
     srcIndexBytes cd opts bs @ footerBytes (layout_meta cd path opts bs)"

subsection \<open>The writer's invariant\<close>

definition src_inv :: "codecs \<Rightarrow> sst_writer \<Rightarrow> go_record list list \<Rightarrow> bool" where
  "src_inv cd w bs \<longleftrightarrow>
     (if wo_IndexSources (sw_opts w) then
        distinct (map fst (sw_srcIndex w)) \<and>
        set (sw_newSrcIDs w) = SourceID ` set (sw_pending w) - SourceID ` set (concat bs) \<and>
        (\<forall>k. map_of (sw_srcIndex w) k =
           (if k \<in> SourceID ` set (concat bs @ sw_pending w) then
              Some \<lparr>se_firstBlockOffset = (if k \<in> set (sw_newSrcIDs w) then 0
                 else u64 (first_off (blkLen cd (sw_opts w)) (hdrLen (sw_opts w)) bs k)),
               se_recordCount = u64 (src_count k (concat bs @ sw_pending w))\<rparr>
            else None))
      else sw_srcIndex w = [] \<and> sw_newSrcIDs w = [])"

definition sw_base :: "codecs \<Rightarrow> sst_writer \<Rightarrow> file_sys \<Rightarrow> go_record list list \<Rightarrow> go_record list \<Rightarrow> bool" where
  "sw_base cd w fs bs rs \<longleftrightarrow>
     fs_faults fs = [] \<and> wo_CompressionType (sw_opts w) \<le> 2 \<and>
     bw_err (sw_bw w) = None \<and> bw_file (sw_bw w) = sw_file w \<and>
     bw_view (sw_bw w) fs = dataBytes cd (sw_opts w) bs \<and>
     sw_offset w = u64 (length (dataBytes cd (sw_opts w) bs)) \<and>
     sw_timeIndex w = timeIndexOf cd (sw_opts w) bs \<and>
     rs = concat bs @ sw_pending w \<and> [] \<notin> set bs \<and>
     sw_recordCount w = u64 (length rs) \<and> sw_hasRecords w = (rs \<noteq> []) \<and>
     sw_pendingSize w = sum_list (map rowSize (sw_pending w)) \<and>
     (if rs = [] then sw_minTS w = 0 \<and> sw_maxTS w = 0
      else sw_minTS w = Timestamp (hd rs) \<and> sw_maxTS w = Timestamp (last rs) \<and>
        sw_lastTS w = Timestamp (last rs) \<and> sw_lastSrcID w = SourceID (last rs)) \<and>
     src_inv cd w bs"

text \<open>What a call leaves untouched: all but the contents of the file that is being written.\<close>

definition sw_frame :: "sst_writer \<Rightarrow> file_sys \<Rightarrow> sst_writer \<Rightarrow> file_sys \<Rightarrow> bool" where
  "sw_frame w fs w' fs' \<longleftrightarrow> sw_opts w' = sw_opts w \<and> sw_file w' = sw_file w \<and>
     sw_path w' = sw_path w \<and> only_data (sw_file w) fs fs'"

lemma u64_u64_add [simp]: "u64 (u64 a + b) = u64 (a + b)" "u64 (a + u64 b) = u64 (a + b)"
  "u64 (Suc (u64 a)) = u64 (Suc a)"
  by (simp_all add: u64_def mod_simps)

lemma u64_0 [simp]: "u64 0 = 0"
  by (simp add: u64_def)

lemma layout_index_append:
  "layout_index len off (bs @ [b]) = layout_index len off bs @
     [\<lparr>ti_minTimestamp = Timestamp (hd b), ti_offset = u64 (off + sum_list (map len bs)),
       ti_size = u32 (len b)\<rparr>]"
  by (induction bs arbitrary: off) (auto simp: add.assoc)

lemma first_off_append:
  "first_off len off (bs @ [b]) k =
     (if k \<in> SourceID ` set (concat bs) then first_off len off bs k
      else if k \<in> SourceID ` set b then off + sum_list (map len bs) else 0)"
  by (induction bs arbitrary: off) (auto simp: add.assoc)

lemma length_dataBytes:
  "length (dataBytes cd opts bs) = hdrLen opts + sum_list (map (blkLen cd opts) bs)"
  by (simp add: dataBytes_def length_concat comp_def)

lemma encBlock_known: "wo_CompressionType opts \<le> 2 \<Longrightarrow> encBlock cd opts rs = Inr (blk cd opts rs)"
  by (auto simp: blk_def encBlock_def Let_def compress_def compression_types)

lemma map_of_setFirstOffset:
  "map_of (setFirstOffset off keys idx) k =
     map_option (\<lambda>e. if k \<in> set keys then e\<lparr>se_firstBlockOffset := off\<rparr> else e) (map_of idx k)"
  by (induction idx) (auto simp: setFirstOffset_def)

lemma fst_setFirstOffset [simp]: "map fst (setFirstOffset off keys idx) = map fst idx"
  by (auto simp: setFirstOffset_def)

lemma src_inv_flush:
  assumes "src_inv cd w bs" "sw_offset w = u64 (length (dataBytes cd (sw_opts w) bs))"
  shows "src_inv cd (w\<lparr>sw_srcIndex := setFirstOffset (sw_offset w) (sw_newSrcIDs w) (sw_srcIndex w),
      sw_newSrcIDs := [], sw_bw := x1, sw_timeIndex := x2, sw_offset := x3, sw_pending := [],
      sw_pendingSize := x4\<rparr>) (bs @ [sw_pending w])"
proof (cases "wo_IndexSources (sw_opts w)")
  case False
  then show ?thesis using assms by (simp add: src_inv_def setFirstOffset_def)
next
  case True
  then show ?thesis using assms
    by (auto simp: src_inv_def map_of_setFirstOffset first_off_append length_dataBytes)
qed

lemma flushBlock_ok:
  assumes "sw_base cd w fs bs rs" "sw_pending w \<noteq> []"
  shows "\<exists>w' fs'. flushBlock cd w fs = (None, w', fs') \<and>
    sw_base cd w' fs' (bs @ [sw_pending w]) rs \<and> sw_pending w' = [] \<and> sw_frame w fs w' fs'"
proof -
  note b = assms(1) [unfolded sw_base_def]
  let ?e = "blk cd (sw_opts w) (sw_pending w)"
  from bufio_Write_ok [of fs "sw_bw w" ?e] b obtain buf fs1 where
    wr: "bufio_Write ?e (sw_bw w) fs = (None, (sw_bw w)\<lparr>bw_buf := buf\<rparr>, fs1)"
      "only_data (sw_file w) fs fs1"
      "bw_view ((sw_bw w)\<lparr>bw_buf := buf\<rparr>) fs1 = dataBytes cd (sw_opts w) bs @ ?e" by auto
  have "encBlock cd (sw_opts w) (sw_pending w) = Inr ?e" using b by (simp add: encBlock_known)
  then have "flushBlock cd w fs = (None, w\<lparr>sw_srcIndex := setFirstOffset (sw_offset w)
       (sw_newSrcIDs w) (sw_srcIndex w), sw_newSrcIDs := [], sw_bw := (sw_bw w)\<lparr>bw_buf := buf\<rparr>,
       sw_timeIndex := sw_timeIndex w @ [\<lparr>ti_minTimestamp = Timestamp (hd (sw_pending w)),
         ti_offset = sw_offset w, ti_size = u32 (length ?e)\<rparr>],
       sw_offset := u64 (sw_offset w + length ?e), sw_pending := [], sw_pendingSize := 0\<rparr>, fs1)"
    (is "_ = (None, ?w', _)")
    using assms(2) wr(1) by (simp add: flushBlock_def Let_def encBlock_def cong: if_cong)
  moreover have "sw_base cd ?w' fs1 (bs @ [sw_pending w]) rs"
    using b assms(2) wr(3) only_data_frame(1) [OF wr(2)] src_inv_flush [of cd w bs]
    by (simp add: sw_base_def dataBytes_def timeIndexOf_def layout_index_append length_concat
        comp_def add.assoc)
  ultimately show ?thesis using wr(2) by (simp add: sw_frame_def)
qed

lemma src_count_snoc: "src_count k (rs @ [r]) = src_count k rs + (if SourceID r = k then 1 else 0)"
  by (simp add: src_count_def)

lemma src_count_0: "k \<notin> SourceID ` set rs \<Longrightarrow> src_count k rs = 0"
  by (auto simp: src_count_def filter_empty_conv)

text \<open>The part of \<^verbatim>\<open>Add\<close> before the block is flushed.\<close>

definition add_pending :: "sst_writer \<Rightarrow> go_record \<Rightarrow> sst_writer" where
  "add_pending w r =
     (let w = (if \<not> sw_hasRecords w then w\<lparr>sw_minTS := Timestamp r, sw_hasRecords := True\<rparr> else w);
          w = w\<lparr>sw_maxTS := Timestamp r, sw_recordCount := u64 (sw_recordCount w + 1),
            sw_lastTS := Timestamp r, sw_lastSrcID := SourceID r\<rparr>;
          w = (if wo_IndexSources (sw_opts w) then
              w\<lparr>sw_newSrcIDs := (if map_of (sw_srcIndex w) (SourceID r) = None
                  then sw_newSrcIDs w @ [SourceID r] else sw_newSrcIDs w),
                sw_srcIndex := countSource (SourceID r) (sw_srcIndex w)\<rparr>
            else w)
      in w\<lparr>sw_pending := sw_pending w @ [r], sw_pendingSize := sw_pendingSize w + rowSize r\<rparr>)"

lemma sst_Add_pending:
  "sst_Add cd w r fs =
     (if sw_hasRecords w \<and> (Timestamp r < sw_lastTS w \<or>
          (Timestamp r = sw_lastTS w \<and> SourceID r < sw_lastSrcID w))
      then (Some ErrOutOfOrder, w, fs)
      else if wo_BlockSizeBytes (sw_opts w) \<le> sw_pendingSize (add_pending w r)
      then flushBlock cd (add_pending w r) fs else (None, add_pending w r, fs))"
  by (simp add: sst_Add_def add_pending_def Let_def rowSize_def)

lemma add_pending_fields [simp]:
  "sw_opts (add_pending w r) = sw_opts w" "sw_file (add_pending w r) = sw_file w"
  "sw_path (add_pending w r) = sw_path w" "sw_bw (add_pending w r) = sw_bw w"
  "sw_offset (add_pending w r) = sw_offset w" "sw_timeIndex (add_pending w r) = sw_timeIndex w"
  "sw_pending (add_pending w r) = sw_pending w @ [r]"
  "sw_pendingSize (add_pending w r) = sw_pendingSize w + rowSize r"
  "sw_hasRecords (add_pending w r)"
  "sw_recordCount (add_pending w r) = u64 (sw_recordCount w + 1)"
  "sw_minTS (add_pending w r) = (if sw_hasRecords w then sw_minTS w else Timestamp r)"
  "sw_maxTS (add_pending w r) = Timestamp r" "sw_lastTS (add_pending w r) = Timestamp r"
  "sw_lastSrcID (add_pending w r) = SourceID r"
  "wo_IndexSources (sw_opts w) \<Longrightarrow>
     sw_srcIndex (add_pending w r) = countSource (SourceID r) (sw_srcIndex w)"
  "wo_IndexSources (sw_opts w) \<Longrightarrow> sw_newSrcIDs (add_pending w r) =
     (if map_of (sw_srcIndex w) (SourceID r) = None then sw_newSrcIDs w @ [SourceID r]
      else sw_newSrcIDs w)"
  "\<not> wo_IndexSources (sw_opts w) \<Longrightarrow> sw_srcIndex (add_pending w r) = sw_srcIndex w"
  "\<not> wo_IndexSources (sw_opts w) \<Longrightarrow> sw_newSrcIDs (add_pending w r) = sw_newSrcIDs w"
  by (simp_all add: add_pending_def Let_def)

lemma map_of_countSource:
  "map_of (countSource key idx) k =
     (if k = key then Some (case map_of idx key of
          None \<Rightarrow> \<lparr>se_firstBlockOffset = 0, se_recordCount = u64 1\<rparr>
        | Some e \<Rightarrow> e\<lparr>se_recordCount := u64 (se_recordCount e + 1)\<rparr>)
      else map_of idx k)"
  by (simp add: countSource_def Let_def update_conv split: option.split)

lemma src_inv_add:
  assumes "src_inv cd w bs"
  shows "src_inv cd (add_pending w r) bs"
proof (cases "wo_IndexSources (sw_opts w)")
  case False
  then show ?thesis using assms by (simp add: src_inv_def)
next
  case True
  let ?rs = "concat bs @ sw_pending w"
  have idx: "\<forall>k. map_of (sw_srcIndex w) k =
      (if k \<in> SourceID ` set ?rs then
         Some \<lparr>se_firstBlockOffset = (if k \<in> set (sw_newSrcIDs w) then 0
            else u64 (first_off (blkLen cd (sw_opts w)) (hdrLen (sw_opts w)) bs k)),
          se_recordCount = u64 (src_count k ?rs)\<rparr>
       else None)"
    and new: "set (sw_newSrcIDs w) = SourceID ` set (sw_pending w) - SourceID ` set (concat bs)"
    and dist: "distinct (map fst (sw_srcIndex w))"
    using assms True by (simp_all only: src_inv_def if_True simp_thms)
  have cnt: "src_count k (?rs @ [r]) = src_count k ?rs + (if SourceID r = k then 1 else 0)" for k
    by (rule src_count_snoc)
  have "map_of (sw_srcIndex w) (SourceID r) = None \<longleftrightarrow> SourceID r \<notin> SourceID ` set ?rs"
    using idx by simp
  then have new': "set (sw_newSrcIDs (add_pending w r)) =
      SourceID ` set (sw_pending w @ [r]) - SourceID ` set (concat bs)"
    using True new by auto
  have "map_of (countSource (SourceID r) (sw_srcIndex w)) k =
      (if k \<in> SourceID ` set (?rs @ [r]) then
         Some \<lparr>se_firstBlockOffset = (if k \<in> set (sw_newSrcIDs (add_pending w r)) then 0
            else u64 (first_off (blkLen cd (sw_opts w)) (hdrLen (sw_opts w)) bs k)),
          se_recordCount = u64 (src_count k (?rs @ [r]))\<rparr>
       else None)" for k
    unfolding new' cnt map_of_countSource using idx new src_count_0 [of "SourceID r" ?rs]
    by (auto simp: add.commute)
  moreover have "distinct (map fst (countSource (SourceID r) (sw_srcIndex w)))"
    using dist by (simp add: countSource_def Let_def distinct_update)
  ultimately show ?thesis using True new' by (simp add: src_inv_def)
qed

lemma sw_base_add:
  assumes "sw_base cd w fs bs rs"
  shows "sw_base cd (add_pending w r) fs bs (rs @ [r])"
  using assms src_inv_add [of cd w bs r]
  by (cases "rs = []") (auto simp: sw_base_def hd_append)

definition cut_ok :: "sst_writer \<Rightarrow> go_record list list \<Rightarrow> go_record list \<Rightarrow> bool" where
  "cut_ok w bs rs \<longleftrightarrow> (\<forall>later. cut_blocks (wo_BlockSizeBytes (sw_opts w)) [] (rs @ later) =
     bs @ cut_blocks (wo_BlockSizeBytes (sw_opts w)) (sw_pending w) later)"

lemma sst_Add_ok:
  assumes "sw_base cd w fs bs rs" "cut_ok w bs rs" "rec_sorted (rs @ [r])"
  shows "\<exists>w' fs' bs'. sst_Add cd w r fs = (None, w', fs') \<and> sw_base cd w' fs' bs' (rs @ [r]) \<and>
    cut_ok w' bs' (rs @ [r]) \<and> sw_frame w fs w' fs'"
proof -
  note b = assms(1) [unfolded sw_base_def]
  have inorder: "\<not> (sw_hasRecords w \<and> (Timestamp r < sw_lastTS w \<or>
      (Timestamp r = sw_lastTS w \<and> SourceID r < sw_lastSrcID w)))"
  proof
    assume bad: "sw_hasRecords w \<and> (Timestamp r < sw_lastTS w \<or>
      (Timestamp r = sw_lastTS w \<and> SourceID r < sw_lastSrcID w))"
    then have "rs \<noteq> []" using b by simp
    then have "rkey (last rs) \<le> rkey r" using assms(3) by (simp add: rec_sorted_append)
    moreover have "rkey r < rkey (last rs)" using bad b \<open>rs \<noteq> []\<close> by (simp add: rkey_less)
    ultimately show False by simp
  qed
  note add = sw_base_add [OF assms(1), of r]
  have size: "sw_pendingSize (add_pending w r) = sum_list (map rowSize (sw_pending w @ [r]))"
    using b by simp
  show ?thesis
  proof (cases "wo_BlockSizeBytes (sw_opts w) \<le> sw_pendingSize (add_pending w r)")
    case False
    then have "cut_ok (add_pending w r) bs (rs @ [r])"
      using assms(2) size by (simp add: cut_ok_def)
    then show ?thesis using False inorder add by (auto simp: sst_Add_pending sw_frame_def)
  next
    case True
    from flushBlock_ok [OF add] obtain w' fs' where
      fl: "flushBlock cd (add_pending w r) fs = (None, w', fs')"
        "sw_base cd w' fs' (bs @ [sw_pending w @ [r]]) (rs @ [r])" "sw_pending w' = []"
        "sw_frame (add_pending w r) fs w' fs'" by auto
    then have "cut_ok w' (bs @ [sw_pending w @ [r]]) (rs @ [r])"
      using assms(2) size True by (simp add: cut_ok_def sw_frame_def)
    moreover have "sst_Add cd w r fs = (None, w', fs')"
      using True inorder fl(1) by (simp add: sst_Add_pending)
    ultimately show ?thesis using fl by (auto simp: sw_frame_def)
  qed
qed

lemma sw_frame_trans: "sw_frame w fs w1 fs1 \<Longrightarrow> sw_frame w1 fs1 w2 fs2 \<Longrightarrow> sw_frame w fs w2 fs2"
  by (auto simp: sw_frame_def intro: only_data_trans)

lemma sst_AddAll_ok:
  assumes "sw_base cd w fs bs rs0" "cut_ok w bs rs0" "rec_sorted (rs0 @ rs)"
  shows "\<exists>w' fs' bs'. sst_AddAll cd rs w fs = (None, w', fs') \<and> sw_base cd w' fs' bs' (rs0 @ rs) \<and>
    cut_ok w' bs' (rs0 @ rs) \<and> sw_frame w fs w' fs'"
  using assms
proof (induction rs arbitrary: w fs bs rs0)
  case Nil
  then show ?case by (auto simp: sw_frame_def)
next
  case (Cons r rs)
  have "rec_sorted (rs0 @ [r])" using Cons.prems(3) by (simp add: rec_sorted_append)
  from sst_Add_ok [OF Cons.prems(1,2) this] obtain w1 fs1 bs1 where
    s: "sst_Add cd w r fs = (None, w1, fs1)" "sw_base cd w1 fs1 bs1 (rs0 @ [r])"
      "cut_ok w1 bs1 (rs0 @ [r])" "sw_frame w fs w1 fs1" by blast
  from Cons.IH [OF s(2,3)] Cons.prems(3) s show ?case by (auto intro: sw_frame_trans)
qed

subsection \<open>Finishing a file\<close>

lemma writeSources_ok:
  assumes "fs_faults fs = []" "bw_err bw = None"
  shows "\<exists>buf fs'. writeSources kes (u64 n) bw fs =
      (None, u64 (n + length (concat (map srcIndexEntry kes))), bw\<lparr>bw_buf := buf\<rparr>, fs') \<and>
    only_data (bw_file bw) fs fs' \<and>
    bw_view (bw\<lparr>bw_buf := buf\<rparr>) fs' = bw_view bw fs @ concat (map srcIndexEntry kes)"
  using assms
proof (induction kes arbitrary: n bw fs)
  case Nil
  then show ?case by (intro exI [of _ "bw_buf bw"] exI [of _ fs]) simp
next
  case (Cons ke kes)
  from bufio_Write_ok [OF Cons.prems, of "srcIndexEntry ke"] obtain buf1 fs1 where
    w: "bufio_Write (srcIndexEntry ke) bw fs = (None, bw\<lparr>bw_buf := buf1\<rparr>, fs1)"
      "only_data (bw_file bw) fs fs1"
      "bw_view (bw\<lparr>bw_buf := buf1\<rparr>) fs1 = bw_view bw fs @ srcIndexEntry ke" by blast
  have "fs_faults fs1 = []" using Cons.prems(1) only_data_frame(1) [OF w(2)] by simp
  from Cons.IH [OF this, of "bw\<lparr>bw_buf := buf1\<rparr>" "n + length (srcIndexEntry ke)"] Cons.prems(2)
  obtain buf2 fs2 where
    "writeSources kes (u64 (n + length (srcIndexEntry ke))) (bw\<lparr>bw_buf := buf1\<rparr>) fs1 =
      (None, u64 (n + length (srcIndexEntry ke) + length (concat (map srcIndexEntry kes))),
        bw\<lparr>bw_buf := buf2\<rparr>, fs2)"
    "only_data (bw_file bw) fs1 fs2"
    "bw_view (bw\<lparr>bw_buf := buf2\<rparr>) fs2 = (bw_view bw fs @ srcIndexEntry ke) @
      concat (map srcIndexEntry kes)"
    unfolding w(3) [symmetric] by auto
  with w show ?case by (auto simp: add.assoc intro: only_data_trans)
qed

lemma sortedSources_layout:
  assumes "src_inv cd w bs" "sw_pending w = []"
  shows "sortedSources (sw_srcIndex w) = layout_sources cd (sw_opts w) bs"
proof (cases "wo_IndexSources (sw_opts w)")
  case False
  then show ?thesis using assms by (simp add: src_inv_def sortedSources_def layout_sources_def)
next
  case True
  have look: "map_of (sw_srcIndex w) k =
      (if k \<in> SourceID ` set (concat bs) then Some (layout_source cd (sw_opts w) bs k) else None)" for k
    using assms True by (simp add: src_inv_def layout_source_def)
  have "set (map fst (sw_srcIndex w)) = dom (map_of (sw_srcIndex w))"
    by (simp add: dom_map_of_conv_image_fst)
  also have "\<dots> = set (map SourceID (concat bs))" using look by (auto simp: dom_def split: if_splits)
  finally have "sort (remdups (map fst (sw_srcIndex w))) = sort (remdups (map SourceID (concat bs)))"
    by (intro sorted_distinct_set_unique) simp_all
  then show ?thesis using True look by (simp add: sortedSources_def layout_sources_def)
qed

text \<open>Flushing the last block leaves exactly the cut of all records.\<close>

lemma flushBlock_final:
  assumes "sw_base cd w fs bs rs" "cut_ok w bs rs"
  shows "\<exists>w' fs'. flushBlock cd w fs = (None, w', fs') \<and> sw_pending w' = [] \<and>
    sw_base cd w' fs' (cut_blocks (wo_BlockSizeBytes (sw_opts w)) [] rs) rs \<and> sw_frame w fs w' fs'"
proof (cases "sw_pending w = []")
  case True
  then have "cut_blocks (wo_BlockSizeBytes (sw_opts w)) [] rs = bs"
    using assms(2) [unfolded cut_ok_def, rule_format, of "[]"] by simp
  with True assms(1) show ?thesis by (simp add: flushBlock_def sw_frame_def)
next
  case False
  then have "cut_blocks (wo_BlockSizeBytes (sw_opts w)) [] rs = bs @ [sw_pending w]"
    using assms(2) [unfolded cut_ok_def, rule_format, of "[]"] by simp
  with flushBlock_ok [OF assms(1) False] show ?thesis by auto
qed

lemma sst_Finish_ok:
  assumes "sw_base cd w fs bs rs" "cut_ok w bs rs"
  defines "bs' \<equiv> cut_blocks (wo_BlockSizeBytes (sw_opts w)) [] rs"
  shows "\<exists>fs'. sst_Finish cd w fs = (Inr (layout_meta cd (sw_path w) (sw_opts w) bs'),
      fs'\<lparr>fs_synced := (fs_synced fs')(sw_file w := length (fs_data fs' (sw_file w)))\<rparr>) \<and>
    only_data (sw_file w) fs fs' \<and>
    fs_data fs' (sw_file w) = sst_layout cd (sw_path w) (sw_opts w) bs'"
proof -
  let ?o = "sw_opts w" let ?f = "sw_file w"
  from flushBlock_final [OF assms(1,2)] obtain w1 fs1 where
    fl: "flushBlock cd w fs = (None, w1, fs1)" "sw_pending w1 = []" "sw_base cd w1 fs1 bs' rs"
      and fr: "sw_opts w1 = ?o" "sw_file w1 = ?f" "sw_path w1 = sw_path w" "only_data ?f fs fs1"
    unfolding bs'_def sw_frame_def by blast
  note b = fl(3) [unfolded sw_base_def fr(1,2)]
  let ?ti = "timeIndexBytes (timeIndexOf cd ?o bs')" let ?m = "layout_meta cd (sw_path w) ?o bs'"
  from bufio_Write_ok [of fs1 "sw_bw w1" ?ti] b obtain b2 fs2 where
    w2: "bufio_Write ?ti (sw_bw w1) fs1 = (None, (sw_bw w1)\<lparr>bw_buf := b2\<rparr>, fs2)"
      "only_data ?f fs1 fs2" "bw_view ((sw_bw w1)\<lparr>bw_buf := b2\<rparr>) fs2 = dataBytes cd ?o bs' @ ?ti"
    by auto
  have f2: "fs_faults fs2 = []" "bw_err ((sw_bw w1)\<lparr>bw_buf := b2\<rparr>) = None"
    using b only_data_frame(1) [OF w2(2)] by simp_all
  from writeSources_ok [OF f2, of "layout_sources cd ?o bs'" 0] b w2(3) obtain b3 fs3 where
    w3: "writeSources (layout_sources cd ?o bs') 0 ((sw_bw w1)\<lparr>bw_buf := b2\<rparr>) fs2 =
        (None, u64 (length (srcIndexBytes cd ?o bs')), (sw_bw w1)\<lparr>bw_buf := b3\<rparr>, fs3)"
      "only_data ?f fs2 fs3" "bw_view ((sw_bw w1)\<lparr>bw_buf := b3\<rparr>) fs3 =
        dataBytes cd ?o bs' @ ?ti @ srcIndexBytes cd ?o bs'"
    by (auto simp: srcIndexBytes_def)
  have f3: "fs_faults fs3 = []" "bw_err ((sw_bw w1)\<lparr>bw_buf := b3\<rparr>) = None"
    using f2 only_data_frame(1) [OF w3(2)] by simp_all
  from bufio_Write_ok [OF f3, of "footerBytes ?m"] b w3(3) obtain b4 fs4 where
    w4: "bufio_Write (footerBytes ?m) ((sw_bw w1)\<lparr>bw_buf := b3\<rparr>) fs3 =
        (None, (sw_bw w1)\<lparr>bw_buf := b4\<rparr>, fs4)" "only_data ?f fs3 fs4"
      "bw_view ((sw_bw w1)\<lparr>bw_buf := b4\<rparr>) fs4 = sst_layout cd (sw_path w) ?o bs'"
    by (auto simp: sst_layout_def)
  have f4: "fs_faults fs4 = []" "bw_err ((sw_bw w1)\<lparr>bw_buf := b4\<rparr>) = None"
    using f3 only_data_frame(1) [OF w4(2)] by simp_all
  from bufio_Flush_ok [OF f4] b w4(3) obtain fs5 where
    w5: "bufio_Flush ((sw_bw w1)\<lparr>bw_buf := b4\<rparr>) fs4 = (None, (sw_bw w1)\<lparr>bw_buf := []\<rparr>, fs5)"
      "only_data ?f fs4 fs5" "fs_data fs5 ?f = sst_layout cd (sw_path w) ?o bs'"
    by auto
  have f5: "fs_faults fs5 = []" using f4 only_data_frame(1) [OF w5(2)] by simp
  have rs: "concat bs' = rs" and ti: "sw_timeIndex w1 = timeIndexOf cd ?o bs'"
    using b fl(2) by simp_all
  have src: "sortedSources (sw_srcIndex w1) = layout_sources cd ?o bs'"
    using sortedSources_layout [of cd w1 bs'] b fl(2) fr(1) by simp
  have branch: "(if wo_IndexSources ?o \<and> sw_srcIndex w1 \<noteq> []
      then writeSources (sortedSources (sw_srcIndex w1)) 0 bw' fs' else (None, 0, bw', fs')) =
    writeSources (layout_sources cd ?o bs') 0 bw' fs'" for bw' fs'
    using src by (auto simp: layout_sources_def sortedSources_def)
  have meta: "\<lparr>sm_Path = sw_path w, sm_MinTimestamp = sw_minTS w1, sm_MaxTimestamp = sw_maxTS w1,
      sm_TimeIndexOffset = sw_offset w1, sm_TimeIndexSize = u64 (length ?ti),
      sm_SrcIndexOffset = u64 (sw_offset w1 + length ?ti),
      sm_SrcIndexSize = u64 (length (srcIndexBytes cd ?o bs')),
      sm_RecordCount = sw_recordCount w1, sm_PartitionStart = wo_PartitionStart ?o,
      sm_PartitionEnd = wo_PartitionEnd ?o\<rparr> = ?m"
    using b rs fr(3) by (auto simp: layout_meta_def Let_def split: if_splits)
  have "sst_Finish cd w fs =
      (Inr ?m, fs5\<lparr>fs_synced := (fs_synced fs5)(?f := length (fs_data fs5 ?f))\<rparr>)"
    by (simp add: sst_Finish_def fl(1) fr Let_def ti w2(1) branch w3(1) meta w4(1) w5(1) f5)
  moreover have "only_data ?f fs fs5"
    using fr(4) w2(2) w3(2) w4(2) w5(2) by (blast intro: only_data_trans)
  ultimately show ?thesis using w5(3) by blast
qed

subsection \<open>Opening a file\<close>

definition eff_opts :: "WriterOptions \<Rightarrow> WriterOptions" where
  "eff_opts opts = (if wo_BlockSizeBytes opts \<le> 0 then opts\<lparr>wo_BlockSizeBytes := defaultBlockSize\<rparr>
     else opts)"

text \<open>The effect on the file system of creating or truncating a file.\<close>

definition fs_created :: "path \<Rightarrow> inode \<Rightarrow> file_sys \<Rightarrow> file_sys \<Rightarrow> bool" where
  "fs_created p f fs fs' \<longleftrightarrow> fs_lookup fs' p = Some f \<and>
     f = (case fs_lookup fs p of Some i \<Rightarrow> i | None \<Rightarrow> fs_next fs) \<and>
     fs_next fs' = (if fs_lookup fs p = None then Suc (fs_next fs) else fs_next fs) \<and>
     (\<forall>q. q \<noteq> p \<longrightarrow> fs_lookup fs' q = fs_lookup fs q) \<and>
     (\<forall>j. j \<noteq> f \<longrightarrow> fs_data fs' j = fs_data fs j \<and> fs_synced fs' j = fs_synced fs j) \<and>
     fs_faults fs' = fs_faults fs \<and> fs_bad fs' = fs_bad fs"

lemma os_open_create_ok:
  assumes "fs_faults fs = []"
  shows "\<exists>f fs'. os_open_create True p fs = (Inr f, fs') \<and> fs_created p f fs fs' \<and>
    fs_data fs' f = [] \<and> fs_synced fs' f = 0"
  using assms by (cases "fs_lookup fs p")
    (auto simp: os_open_create_def fs_created_def fs_lookup_def Let_def)

lemma fileHeader_none:
  "\<not> (wo_CompressionType opts \<noteq> CompressionNone \<or> wo_ColumnOriented opts) \<Longrightarrow> fileHeader opts = []"
  by (simp add: fileHeader_def)

lemma length_fileHeader:
  "wo_CompressionType opts \<noteq> CompressionNone \<or> wo_ColumnOriented opts \<Longrightarrow>
   length (fileHeader opts) = headerSize"
  by (auto simp: fileHeader_def headerSize_def)

lemma sw_base_new:
  assumes "fs_faults fs = []" "wo_CompressionType opts \<le> 2" "bw_err bw = None" "bw_file bw = f"
    "bw_view bw fs = fileHeader opts" "off = length (fileHeader opts)"
  shows "sw_base cd \<lparr>sw_opts = opts, sw_file = f, sw_path = path, sw_bw = bw,
     sw_offset = off, sw_recordCount = 0, sw_minTS = 0, sw_maxTS = 0, sw_hasRecords = False,
     sw_pending = [], sw_pendingSize = 0, sw_lastTS = 0, sw_lastSrcID = [],
     sw_timeIndex = [], sw_srcIndex = [], sw_newSrcIDs = []\<rparr> fs [] []"
proof -
  have "length (fileHeader opts) < 18446744073709551616"
    using length_fileHeader [of opts] fileHeader_none [of opts]
    by (cases "wo_CompressionType opts \<noteq> CompressionNone \<or> wo_ColumnOriented opts")
      (auto simp: headerSize_def)
  then show ?thesis using assms
    by (simp add: sw_base_def dataBytes_def timeIndexOf_def src_inv_def u64_id)
qed

lemma NewWriter_ok:
  assumes "fs_faults fs = []" "wo_CompressionType opts \<le> 2"
  shows "\<exists>w f fs1 fs'. NewWriter path opts fs = (Inr w, fs') \<and> sw_base cd w fs' [] [] \<and> cut_ok w [] [] \<and>
    sw_opts w = eff_opts opts \<and> sw_path w = path \<and> sw_file w = f \<and>
    fs_created path f fs fs1 \<and> fs_data fs1 f = [] \<and> only_data f fs1 fs'"
proof -
  let ?o = "eff_opts opts"
  from os_open_create_ok [OF assms(1), of path] obtain f fs1 where
    op: "os_open_create True path fs = (Inr f, fs1)" "fs_created path f fs fs1" "fs_data fs1 f = []"
    by blast
  have f1: "fs_faults fs1 = []" using op(2) assms(1) by (simp add: fs_created_def)
  have ct: "wo_CompressionType ?o = wo_CompressionType opts"
    "wo_ColumnOriented ?o = wo_ColumnOriented opts" by (simp_all add: eff_opts_def)
  let ?w = "\<lambda>bw off. \<lparr>sw_opts = ?o, sw_file = f, sw_path = path, sw_bw = bw,
     sw_offset = off, sw_recordCount = 0, sw_minTS = 0, sw_maxTS = 0, sw_hasRecords = False,
     sw_pending = [], sw_pendingSize = 0, sw_lastTS = 0, sw_lastSrcID = [],
     sw_timeIndex = [], sw_srcIndex = [], sw_newSrcIDs = []\<rparr>"
  let ?bw = "bufio_New f (256 * 1024)"
  have cut: "cut_ok (?w bw off) [] []" for bw off by (simp add: cut_ok_def)
  show ?thesis
  proof (cases "wo_CompressionType opts \<noteq> CompressionNone \<or> wo_ColumnOriented opts")
    case False
    have "NewWriter path opts fs = (Inr (?w ?bw 0), fs1)"
      using False ct op(1) by (simp add: NewWriter_def Let_def flip: eff_opts_def)
    moreover have "sw_base cd (?w ?bw 0) fs1 [] []"
      using False ct f1 assms(2) op(3)
      by (intro sw_base_new) (simp_all add: fileHeader_none bufio_New_def bw_view_def)
    ultimately show ?thesis using op cut by fastforce
  next
    case True
    have "bw_err ?bw = None" by (simp add: bufio_New_def)
    from bufio_Write_ok [OF f1 this, of "fileHeader ?o"] op(3) obtain buf fs2 where
      wr: "bufio_Write (fileHeader ?o) ?bw fs1 = (None, ?bw\<lparr>bw_buf := buf\<rparr>, fs2)"
        "only_data f fs1 fs2" "bw_view (?bw\<lparr>bw_buf := buf\<rparr>) fs2 = fileHeader ?o"
      by (auto simp: bufio_New_def bw_view_def)
    have "NewWriter path opts fs = (Inr (?w (?bw\<lparr>bw_buf := buf\<rparr>) headerSize), fs2)"
      using True ct op(1) wr(1) by (simp add: NewWriter_def Let_def flip: eff_opts_def)
    moreover have "sw_base cd (?w (?bw\<lparr>bw_buf := buf\<rparr>) headerSize) fs2 [] []"
      using True ct f1 assms(2) wr only_data_frame(1) [OF wr(2)]
      by (intro sw_base_new) (simp_all add: length_fileHeader bufio_New_def)
    ultimately show ?thesis using op cut wr(2) by fastforce
  qed
qed

definition fs_written :: "path \<Rightarrow> bytes \<Rightarrow> file_sys \<Rightarrow> file_sys \<Rightarrow> bool" where
  "fs_written p bs fs fs' \<longleftrightarrow> (\<exists>f. fs_created p f fs fs' \<and> fs_data fs' f = bs \<and>
     fs_synced fs' f = length bs)"

lemma finish_written:
  assumes "fs_created p f fs fs1" "only_data f fs1 fs2" "sw_base cd w fs2 bs0 rs" "cut_ok w bs0 rs"
    "sw_path w = p" "sw_file w = f"
  defines "bs \<equiv> cut_blocks (wo_BlockSizeBytes (sw_opts w)) [] rs"
  shows "\<exists>fs'. sst_Finish cd w fs2 = (Inr (layout_meta cd p (sw_opts w) bs), fs') \<and>
    fs_written p (sst_layout cd p (sw_opts w) bs) fs fs'"
proof -
  from sst_Finish_ok [OF assms(3,4)] assms(5,6) obtain fs4 where
    fin: "sst_Finish cd w fs2 = (Inr (layout_meta cd p (sw_opts w) bs),
        fs4\<lparr>fs_synced := (fs_synced fs4)(f := length (fs_data fs4 f))\<rparr>)"
      "only_data f fs2 fs4" "fs_data fs4 f = sst_layout cd p (sw_opts w) bs"
    by (auto simp: bs_def)
  have "only_data f fs1 fs4" using assms(2) fin(2) by (rule only_data_trans)
  then have "fs_written p (sst_layout cd p (sw_opts w) bs) fs
      (fs4\<lparr>fs_synced := (fs_synced fs4)(f := length (fs_data fs4 f))\<rparr>)"
    using assms(1) fin(3) by (auto simp: fs_written_def fs_created_def fs_lookup_def only_data_frame)
  with fin(1) show ?thesis by auto
qed

lemma sst_write_ok:
  assumes "fs_faults fs = []" "wo_CompressionType opts \<le> 2" "rec_sorted rs"
  defines "bs \<equiv> cut_blocks (wo_BlockSizeBytes (eff_opts opts)) [] rs"
  shows "\<exists>fs'. sst_write cd path opts rs fs = (Inr (layout_meta cd path (eff_opts opts) bs), fs') \<and>
    fs_written path (sst_layout cd path (eff_opts opts) bs) fs fs'"
proof -
  from NewWriter_ok [OF assms(1,2), of path cd] obtain w f fs1 fs2 where
    n: "NewWriter path opts fs = (Inr w, fs2)" "sw_base cd w fs2 [] []" "cut_ok w [] []"
      "sw_opts w = eff_opts opts" "sw_path w = path" "sw_file w = f"
      "fs_created path f fs fs1" "fs_data fs1 f = []" "only_data f fs1 fs2" by blast
  from sst_AddAll_ok [OF n(2,3), of rs] assms(3) obtain w3 fs3 bs3 where
    a: "sst_AddAll cd rs w fs2 = (None, w3, fs3)" "sw_base cd w3 fs3 bs3 rs" "cut_ok w3 bs3 rs"
      "sw_frame w fs2 w3 fs3" by auto
  have "only_data f fs1 fs3" using n(6,9) a(4) by (auto simp: sw_frame_def intro: only_data_trans)
  from finish_written [OF n(7) this a(2,3)] a(4) n(4-6)
  have "\<exists>fs'. sst_Finish cd w3 fs3 = (Inr (layout_meta cd path (eff_opts opts) bs), fs') \<and>
      fs_written path (sst_layout cd path (eff_opts opts) bs) fs fs'"
    by (simp add: sw_frame_def bs_def)
  moreover have "sst_write cd path opts rs fs = sst_Finish cd w3 fs3"
    by (simp add: sst_write_def n(1) a(1))
  ultimately show ?thesis by simp
qed

end
