(* ===== verification/BlockCache.thy ===== *)
theory BlockCache
  imports Prelude "HOL-Library.AList"
begin

text \<open>
  \<^verbatim>\<open>internal/sstable/blockcache.go\<close>: the size-bounded LRU cache of decompressed block payloads.
  The map \<^verbatim>\<open>items\<close> is an association list and the linked list \<^verbatim>\<open>lru\<close> a list of keys with the most
  recently used key first; \<^verbatim>\<open>cacheEntry.elem\<close>, the pointer into that list, is the key itself. The
  cache is shown to implement an abstract recency list: a hit moves the entry to the front, an
  insertion keeps the longest prefix that fits the capacity.
\<close>

subsection \<open>State and operations\<close>

type_synonym cacheKey = "path \<times> nat"

record block_cache =
  bc_maxBytes :: int
  bc_usedBytes :: int
  bc_items :: "(cacheKey \<times> bytes) list"
  bc_lru :: "cacheKey list"

definition NewBlockCache :: "int \<Rightarrow> block_cache" where
  "NewBlockCache maxBytes = \<lparr>bc_maxBytes = maxBytes, bc_usedBytes = 0, bc_items = [], bc_lru = []\<rparr>"

definition cache_get :: "block_cache \<Rightarrow> path \<Rightarrow> nat \<Rightarrow> bytes option \<times> block_cache" where
  "cache_get c path offset =
     (case map_of (bc_items c) (path, offset) of
        None \<Rightarrow> (None, c)
      | Some data \<Rightarrow>
          (Some data, c\<lparr>bc_lru := (path, offset) # remove1 (path, offset) (bc_lru c)\<rparr>))"

text \<open>The eviction loop of \<^verbatim>\<open>put\<close>.\<close>

function cache_evict :: "block_cache \<Rightarrow> block_cache" where
  "cache_evict c =
     (if bc_usedBytes c > bc_maxBytes c \<and> bc_lru c \<noteq> [] then
        (let old = last (bc_lru c); c = c\<lparr>bc_lru := butlast (bc_lru c)\<rparr> in
         case map_of (bc_items c) old of
           Some data \<Rightarrow>
             cache_evict (c\<lparr>bc_usedBytes := bc_usedBytes c - int (length data),
               bc_items := AList.delete old (bc_items c)\<rparr>)
         | None \<Rightarrow> cache_evict c)
      else c)"
  by pat_completeness auto
termination
  by (relation "measure (\<lambda>c. length (bc_lru c))") auto

declare cache_evict.simps [simp del]

definition cache_put :: "block_cache \<Rightarrow> path \<Rightarrow> nat \<Rightarrow> bytes \<Rightarrow> block_cache" where
  "cache_put c path offset data =
     (let k = (path, offset) in
      if map_of (bc_items c) k \<noteq> None then c
      else cache_evict (c\<lparr>bc_lru := k # bc_lru c, bc_items := AList.update k data (bc_items c),
        bc_usedBytes := bc_usedBytes c + int (length data)\<rparr>))"

definition cache_Metrics :: "block_cache \<Rightarrow> nat \<times> int" where
  "cache_Metrics c = (length (bc_items c), bc_usedBytes c)"

subsection \<open>Invariant and abstraction\<close>

definition cache_inv :: "block_cache \<Rightarrow> bool" where
  "cache_inv c \<longleftrightarrow> distinct (bc_lru c) \<and> distinct (map fst (bc_items c)) \<and>
     set (bc_lru c) = fst ` set (bc_items c) \<and>
     bc_usedBytes c = (\<Sum>k\<leftarrow>bc_lru c. int (length (the (map_of (bc_items c) k))))"

text \<open>The abstract cache: entries in order of recency.\<close>

definition cache_abs :: "block_cache \<Rightarrow> (cacheKey \<times> bytes) list" where
  "cache_abs c = map (\<lambda>k. (k, the (map_of (bc_items c) k))) (bc_lru c)"

definition total_size :: "(cacheKey \<times> bytes) list \<Rightarrow> int" where
  "total_size xs = (\<Sum>(k, d)\<leftarrow>xs. int (length d))"

fun fit :: "int \<Rightarrow> (cacheKey \<times> bytes) list \<Rightarrow> (cacheKey \<times> bytes) list" where
  "fit m [] = []"
| "fit m ((k, d) # xs) = (if int (length d) \<le> m then (k, d) # fit (m - int (length d)) xs else [])"

lemma cache_inv_New: "cache_inv (NewBlockCache n)"
  by (simp add: cache_inv_def NewBlockCache_def)

lemma used_total: "cache_inv c \<Longrightarrow> bc_usedBytes c = total_size (cache_abs c)"
  by (simp add: cache_inv_def total_size_def cache_abs_def comp_def)

lemma map_of_cache_abs: "cache_inv c \<Longrightarrow> map_of (cache_abs c) = map_of (bc_items c)"
proof
  fix k
  assume inv: "cache_inv c"
  show "map_of (cache_abs c) k = map_of (bc_items c) k"
  proof (cases "k \<in> set (bc_lru c)")
    case True
    with inv obtain d where "map_of (bc_items c) k = Some d"
      by (auto simp: cache_inv_def image_iff dest!: weak_map_of_SomeI)
    with True show ?thesis by (simp add: cache_abs_def map_of_map_restrict)
  next
    case False
    then have "map_of (bc_items c) k = None" using inv by (simp add: cache_inv_def map_of_eq_None_iff)
    with False show ?thesis by (simp add: cache_abs_def map_of_map_restrict)
  qed
qed

lemma total_size_nonneg: "0 \<le> total_size xs"
  by (induction xs) (auto simp: total_size_def)

lemma total_size_append: "total_size (xs @ ys) = total_size xs + total_size ys"
  by (simp add: total_size_def)

lemma fit_all: "total_size xs \<le> m \<Longrightarrow> fit m xs = xs"
proof (induction xs arbitrary: m)
  case (Cons x xs)
  obtain k d where x: "x = (k, d)" by (rule prod.exhaust)
  have "total_size (x # xs) = int (length d) + total_size xs" by (simp add: total_size_def x)
  with Cons total_size_nonneg [of xs] show ?case by (simp add: x)
qed simp

lemma fit_snoc: "m < total_size (xs @ [x]) \<Longrightarrow> fit m (xs @ [x]) = fit m xs"
proof (induction xs arbitrary: m)
  case Nil
  then show ?case by (cases x) (simp add: total_size_def)
next
  case (Cons y xs)
  then show ?case by (cases y) (simp add: total_size_def)
qed

lemma fit_total: "0 \<le> m \<Longrightarrow> total_size (fit m xs) \<le> m"
proof (induction xs arbitrary: m)
  case (Cons x xs)
  obtain k d where x: "x = (k, d)" by (rule prod.exhaust)
  show ?case
    using Cons.IH [of "m - int (length d)"] Cons.prems by (auto simp: x total_size_def)
qed (simp add: total_size_def)

lemma cache_evict_abs:
  assumes "cache_inv c"
  shows "cache_inv (cache_evict c) \<and> bc_maxBytes (cache_evict c) = bc_maxBytes c \<and>
    cache_abs (cache_evict c) = fit (bc_maxBytes c) (cache_abs c)"
  using assms
proof (induction c rule: cache_evict.induct)
  case (1 c)
  show ?case
  proof (cases "bc_usedBytes c > bc_maxBytes c \<and> bc_lru c \<noteq> []")
    case False
    then have "cache_evict c = c" by (subst cache_evict.simps) (simp only: if_False)
    moreover have "fit (bc_maxBytes c) (cache_abs c) = cache_abs c"
      using False used_total [OF "1.prems"] by (cases "bc_lru c = []") (auto simp: fit_all cache_abs_def)
    ultimately show ?thesis using "1.prems" by simp
  next
    case True
    define old where "old = last (bc_lru c)"
    obtain ks where ks: "bc_lru c = ks @ [old]" using True by (metis append_butlast_last_id old_def)
    have "old \<in> fst ` set (bc_items c)" using "1.prems" ks by (auto simp: cache_inv_def)
    then obtain data where data: "map_of (bc_items c) old = Some data"
      by (metis map_of_eq_None_iff option.exhaust)
    define c' where "c' = c\<lparr>bc_lru := butlast (bc_lru c),
      bc_usedBytes := bc_usedBytes c - int (length data), bc_items := AList.delete old (bc_items c)\<rparr>"
    have step: "cache_evict c = cache_evict c'"
      using True data by (subst cache_evict.simps) (simp add: Let_def old_def c'_def)
    have notin: "old \<notin> set ks" "distinct ks" using "1.prems" ks by (auto simp: cache_inv_def)
    have keep: "map_of (AList.delete old (bc_items c)) k = map_of (bc_items c) k" if "k \<in> set ks" for k
      using that notin by (auto simp: delete_conv)
    have abs': "cache_abs c = cache_abs c' @ [(old, data)]"
      using ks data keep by (simp add: cache_abs_def c'_def)
    have "set (AList.delete old (bc_items c)) = {(k, v) \<in> set (bc_items c). k \<noteq> old}"
      by (auto simp: AList.delete_eq)
    then have "fst ` set (AList.delete old (bc_items c)) = fst ` set (bc_items c) - {old}"
      by force
    moreover have "distinct (map fst (AList.delete old (bc_items c)))"
      using "1.prems" by (auto simp: cache_inv_def intro: distinct_delete)
    ultimately have inv': "cache_inv c'"
      using "1.prems" ks notin data keep
      by (auto simp: cache_inv_def c'_def cong: map_cong)
    have "cache_abs (cache_evict c') = fit (bc_maxBytes c) (cache_abs c')"
      "cache_inv (cache_evict c')" "bc_maxBytes (cache_evict c') = bc_maxBytes c"
      using "1.IH" [OF True old_def refl] inv' data by (auto simp: c'_def)
    moreover have "fit (bc_maxBytes c) (cache_abs c) = fit (bc_maxBytes c) (cache_abs c')"
      using True used_total [OF "1.prems"] abs' by (simp add: fit_snoc)
    ultimately show ?thesis using step by simp
  qed
qed

lemma cache_put_abs:
  assumes "cache_inv c"
  shows "cache_inv (cache_put c p off d) \<and> bc_maxBytes (cache_put c p off d) = bc_maxBytes c \<and>
    cache_abs (cache_put c p off d) =
      (if map_of (cache_abs c) (p, off) \<noteq> None then cache_abs c
       else fit (bc_maxBytes c) (((p, off), d) # cache_abs c))"
proof (cases "map_of (bc_items c) (p, off)")
  case (Some x)
  then show ?thesis using assms by (simp add: cache_put_def map_of_cache_abs)
next
  case None
  let ?k = "(p, off)"
  define c' where "c' = c\<lparr>bc_lru := ?k # bc_lru c, bc_items := AList.update ?k d (bc_items c),
        bc_usedBytes := bc_usedBytes c + int (length d)\<rparr>"
  have new: "?k \<notin> set (bc_lru c)" "?k \<notin> fst ` set (bc_items c)"
    using None assms by (auto simp: cache_inv_def map_of_eq_None_iff)
  have keep: "map_of (AList.update ?k d (bc_items c)) k = map_of (bc_items c) k"
    if "k \<in> set (bc_lru c)" for k
    using that new by (auto simp: update_conv)
  have abs': "cache_abs c' = (?k, d) # cache_abs c"
    using keep by (simp add: cache_abs_def c'_def update_conv)
  have "fst ` set (AList.update ?k d (bc_items c)) = insert ?k (fst ` set (bc_items c))"
    using dom_update [of ?k d "bc_items c"] by (simp add: dom_map_of_conv_image_fst)
  moreover have "(\<Sum>k\<leftarrow>bc_lru c. int (length (the (map_of (AList.update ?k d (bc_items c)) k)))) =
      (\<Sum>k\<leftarrow>bc_lru c. int (length (the (map_of (bc_items c) k))))"
    using keep by (intro arg_cong [where f = sum_list] map_cong) auto
  moreover have "map_of (AList.update ?k d (bc_items c)) ?k = Some d"
    by (simp add: update_conv)
  ultimately have "cache_inv c'"
    using assms new by (simp add: cache_inv_def c'_def distinct_update)
  moreover have "cache_put c p off d = cache_evict c'"
    using None by (simp add: cache_put_def Let_def c'_def)
  ultimately show ?thesis
    using cache_evict_abs [of c'] None assms abs' by (simp add: map_of_cache_abs) (simp add: c'_def)
qed

lemma map_pair_remove1:
  "map (\<lambda>k. (k, g k)) (remove1 a xs) = remove1 (a, g a) (map (\<lambda>k. (k, g k)) xs)"
  by (induction xs) auto

lemma cache_get_abs:
  assumes "cache_inv c"
  shows "fst (cache_get c p off) = map_of (cache_abs c) (p, off) \<and> cache_inv (snd (cache_get c p off)) \<and>
    bc_maxBytes (snd (cache_get c p off)) = bc_maxBytes c \<and>
    cache_abs (snd (cache_get c p off)) =
      (case map_of (cache_abs c) (p, off) of
         None \<Rightarrow> cache_abs c
       | Some d \<Rightarrow> ((p, off), d) # remove1 ((p, off), d) (cache_abs c))"
proof (cases "map_of (bc_items c) (p, off)")
  case None
  then show ?thesis using assms by (simp add: cache_get_def map_of_cache_abs)
next
  case (Some d)
  let ?k = "(p, off)"
  have mem: "?k \<in> set (bc_lru c)" using map_of_SomeD [OF Some] assms
    by (force simp: cache_inv_def)
  have dist: "distinct (bc_lru c)" using assms by (simp add: cache_inv_def)
  have rem: "map (\<lambda>k. (k, the (map_of (bc_items c) k))) (remove1 ?k (bc_lru c)) =
      remove1 (?k, d) (cache_abs c)"
    using Some by (simp add: cache_abs_def map_pair_remove1)
  have "(\<Sum>k\<leftarrow>?k # remove1 ?k (bc_lru c). int (length (the (map_of (bc_items c) k)))) =
      (\<Sum>k\<leftarrow>bc_lru c. int (length (the (map_of (bc_items c) k))))"
    using sum_list_map_remove1 [OF mem, of "\<lambda>k. int (length (the (map_of (bc_items c) k)))"] by simp
  then have "cache_inv (c\<lparr>bc_lru := ?k # remove1 ?k (bc_lru c)\<rparr>)"
    using assms mem dist by (auto simp: cache_inv_def)
  then show ?thesis using assms Some rem
    by (simp add: cache_get_def map_of_cache_abs) (simp add: cache_abs_def)
qed

lemma set_fit: "set (fit m xs) \<subseteq> set xs"
  by (induction m xs rule: fit.induct) auto

lemma fit_prefix: "\<exists>n. fit m xs = take n xs"
proof (induction m xs rule: fit.induct)
  case (2 m k d xs)
  then obtain n where "int (length d) \<le> m \<Longrightarrow> fit (m - int (length d)) xs = take n xs" by auto
  then show ?case
    by (cases "int (length d) \<le> m") (auto intro: exI [of _ "Suc n"] exI [of _ 0])
qed simp

lemma distinct_cache_abs: "cache_inv c \<Longrightarrow> distinct (map fst (cache_abs c))"
  by (simp add: cache_inv_def cache_abs_def comp_def)

text \<open>What a lookup can find after an insertion: the new entry or an old one, never anything else.\<close>

lemma cache_put_lookup:
  assumes "cache_inv c" "map_of (cache_abs (cache_put c p off d)) k = Some x"
  shows "map_of (cache_abs c) k = Some x \<or> (k = (p, off) \<and> x = d)"
proof (cases "map_of (cache_abs c) (p, off)")
  case (Some y)
  then show ?thesis using assms cache_put_abs [OF assms(1), of p off d] by simp
next
  case None
  then have "cache_abs (cache_put c p off d) = fit (bc_maxBytes c) (((p, off), d) # cache_abs c)"
    using cache_put_abs [OF assms(1), of p off d] by simp
  then have "(k, x) \<in> set (fit (bc_maxBytes c) (((p, off), d) # cache_abs c))"
    using map_of_SomeD [OF assms(2)] by simp
  then have "(k, x) \<in> set (((p, off), d) # cache_abs c)" using set_fit by blast
  then show ?thesis using distinct_cache_abs [OF assms(1)] by auto
qed

lemma cache_get_lookup:
  assumes "cache_inv c"
  shows "map_of (cache_abs (snd (cache_get c p off))) = map_of (cache_abs c)"
proof -
  have "cache_inv (snd (cache_get c p off))" using cache_get_abs [OF assms] by blast
  moreover have "bc_items (snd (cache_get c p off)) = bc_items c"
    by (simp add: cache_get_def split: option.split)
  ultimately show ?thesis using assms by (simp add: map_of_cache_abs)
qed

subsection \<open>Properties\<close>

text \<open>
  C26: the block cache refines an abstract LRU list. \<^verbatim>\<open>get\<close> returns the abstract entry and moves it to
  the front; \<^verbatim>\<open>put\<close> of a new key keeps the longest most-recent prefix that fits the capacity, \<^verbatim>\<open>put\<close>
  of a cached key changes nothing; both keep the invariant (map and list hold the same keys, and
  the byte counter is the sum of the entries).
\<close>

theorem cache_refines_lru:
  assumes "cache_inv c"
  shows "cache_inv (snd (cache_get c p off)) \<and>
    fst (cache_get c p off) = map_of (cache_abs c) (p, off) \<and>
    cache_abs (snd (cache_get c p off)) =
      (case map_of (cache_abs c) (p, off) of
         None \<Rightarrow> cache_abs c
       | Some e \<Rightarrow> ((p, off), e) # remove1 ((p, off), e) (cache_abs c)) \<and>
    cache_inv (cache_put c p off d) \<and>
    cache_abs (cache_put c p off d) =
      (if map_of (cache_abs c) (p, off) \<noteq> None then cache_abs c
       else fit (bc_maxBytes c) (((p, off), d) # cache_abs c))"
  using cache_get_abs [OF assms, of p off] cache_put_abs [OF assms, of p off d] by blast

theorem cache_refines_lru_witness:
  "cache_abs (cache_put (NewBlockCache 4) ''a'' 0 [1, 2]) = [((''a'', 0), [1, 2])]"
  using cache_refines_lru [OF cache_inv_New, of 4 "''a''" 0 "[1, 2]"]
  by (simp add: cache_abs_def NewBlockCache_def)

text \<open>
  C35: the capacity is respected: after an insertion the cache never holds more than \<^verbatim>\<open>maxBytes\<close>, and
  an entry that fits on its own is a hit right after it was inserted.
\<close>

theorem cache_put_bounded:
  assumes "cache_inv c" "0 \<le> bc_maxBytes c" "bc_usedBytes c \<le> bc_maxBytes c"
  shows "bc_usedBytes (cache_put c p off d) \<le> bc_maxBytes c \<and>
    (map_of (cache_abs c) (p, off) = None \<and> int (length d) \<le> bc_maxBytes c \<longrightarrow>
       fst (cache_get (cache_put c p off d) p off) = Some d)"
proof -
  note put = cache_put_abs [OF assms(1), of p off d]
  have inv: "cache_inv (cache_put c p off d)" using put by blast
  have "bc_usedBytes (cache_put c p off d) \<le> bc_maxBytes c"
    using put used_total [OF inv] used_total [OF assms(1)] assms(2,3)
      fit_total [OF assms(2), of "((p, off), d) # cache_abs c"]
    by (auto split: if_splits)
  moreover have "fst (cache_get (cache_put c p off d) p off) =
      map_of (cache_abs (cache_put c p off d)) (p, off)"
    using cache_get_abs [OF inv, of p off] by blast
  ultimately show ?thesis using put by auto
qed

theorem cache_put_bounded_witness:
  "bc_usedBytes (cache_put (NewBlockCache 4) ''a'' 0 [1, 2]) \<le> 4 \<and>
   fst (cache_get (cache_put (NewBlockCache 4) ''a'' 0 [1, 2]) ''a'' 0) = Some [1, 2]"
  using cache_put_bounded [OF cache_inv_New, of 4 "''a''" 0 "[1, 2]"]
  by (simp add: cache_abs_def NewBlockCache_def)

end
