(* ===== verification/SSTReader.thy ===== *)
theory SSTReader
  imports SSTWriter BlockCache
begin

text \<open>
  \<^verbatim>\<open>internal/sstable/reader.go\<close> with \<^verbatim>\<open>reader_mmap_unix.go\<close> and \<^verbatim>\<open>reader_mmap_windows.go\<close>: opening
  a file, the indexes, the row and the columnar scan iterators and the timestamps-only scan. The
  iterators read through a \<open>store\<close>, the file system and the block cache that all readers of an
  engine share. The flag \<open>mm\<close> is the build tag: true where data blocks are memory-mapped. A
  run-time panic (an index or a slice out of range, a read of a mapped page that the file no
  longer has) is the error \<open>GoPanic\<close>.

  A file that the writer finished is opened to a reader that \<^emph>\<open>reads as\<close> the writer's blocks; a
  scan of such a reader delivers the records of the query, whatever the cache holds.
\<close>

subsection \<open>Types\<close>

type_synonym store = "file_sys \<times> block_cache"

record sst_reader =
  r_file :: inode
  r_meta :: SSTableMeta
  r_timeIndex :: "timeIndexEntry list"
  r_srcIndex :: "(bytes \<times> srcEntry) list option"
  r_mmap :: "nat option"
  r_compressionType :: nat
  r_columnar :: bool
  r_cached :: bool

record scan_iter =
  si_r :: sst_reader
  si_start :: int
  si_end :: int
  si_sourceID :: "bytes option"
  si_blockIdx :: nat
  si_blockData :: bytes
  si_blockOff :: nat
  si_blockRem :: nat
  si_current :: record_view
  si_err :: "go_error option"

record col_iter =
  ci_r :: sst_reader
  ci_start :: int
  ci_end :: int
  ci_sourceID :: "bytes option"
  ci_blockIdx :: nat
  ci_blockRecs :: "go_record list"
  ci_recIdx :: nat
  ci_current :: record_view
  ci_err :: "go_error option"

text \<open>What \<^verbatim>\<open>Scan\<close> returns as a \<^verbatim>\<open>record.Iterator\<close>.\<close>

datatype sst_iter = EmptyIter | ScanIter scan_iter | ColScanIter col_iter

subsection \<open>System calls of the reader\<close>

text \<open>\<^verbatim>\<open>File.ReadAt\<close> with the offset as the \<^verbatim>\<open>int64\<close> it is, and \<^verbatim>\<open>make([]byte, n)\<close>.\<close>

definition file_ReadAt :: "file_sys \<Rightarrow> inode \<Rightarrow> int \<Rightarrow> nat \<Rightarrow> bytes result" where
  "file_ReadAt fs i off n =
     (if off < 0 then Inl (ErrWrapped ''negative offset'' EIO)
      else if n = 0 then Inr [] else read_at fs i (nat off) n)"

definition maxAlloc :: nat where "maxAlloc = 2 ^ 48"

text \<open>\<^verbatim>\<open>unix.Mmap\<close>: the length of the mapping; a length that is not positive is \<^verbatim>\<open>EINVAL\<close>.\<close>

definition unix_Mmap :: "int \<Rightarrow> nat result" where
  "unix_Mmap len = (if len \<le> 0 \<or> len > 2 ^ 47 then Inl EIO else Inr (nat len))"

subsection \<open>Opening a file\<close>

definition timeIndexEntryAt :: "bytes \<Rightarrow> nat \<Rightarrow> timeIndexEntry" where
  "timeIndexEntryAt buf i =
     (let off = i * timeIndexEntrySize in
      \<lparr>ti_minTimestamp = get_i64 buf off, ti_offset = get_u64 buf (off + 8),
       ti_size = get_u32 buf (off + 16)\<rparr>)"

definition loadTimeIndex :: "file_sys \<Rightarrow> inode \<Rightarrow> SSTableMeta \<Rightarrow> timeIndexEntry list result" where
  "loadTimeIndex fs f meta =
     (if sm_TimeIndexSize meta = 0 then Inr []
      else if sm_TimeIndexSize meta > maxAlloc then Inl GoPanic
      else
        (case file_ReadAt fs f (i64_of_u64 (sm_TimeIndexOffset meta)) (sm_TimeIndexSize meta) of
           Inl e \<Rightarrow> Inl e
         | Inr buf \<Rightarrow> Inr (map (timeIndexEntryAt buf) [0..<length buf div timeIndexEntrySize])))"

text \<open>The loop \<^verbatim>\<open>for off < len(buf)\<close>, with the rest of the buffer in place of the cursor.\<close>

function loadSrcIndex_loop :: "bytes \<Rightarrow> (bytes \<times> srcEntry) list \<Rightarrow> (bytes \<times> srcEntry) list result" where
  "loadSrcIndex_loop buf index =
     (if buf = [] then Inr index
      else if length buf < 4 then Inl ErrCorruptSrcIndex
      else
        (let idLen = le_nat (take 4 buf); buf = drop 4 buf in
         if idLen + 16 > length buf then Inl ErrCorruptSrcIndex
         else
           (let srcID = take idLen buf; buf = drop idLen buf in
            loadSrcIndex_loop (drop 16 buf)
              (AList.update srcID \<lparr>se_firstBlockOffset = le_nat (take 8 buf),
                se_recordCount = le_nat (take 8 (drop 8 buf))\<rparr> index))))"
  by pat_completeness auto
termination
  by (relation "measure (\<lambda>(buf, _). length buf)") auto

declare loadSrcIndex_loop.simps [simp del]

definition loadSrcIndex :: "file_sys \<Rightarrow> inode \<Rightarrow> SSTableMeta \<Rightarrow>
    (bytes \<times> srcEntry) list option result" where
  "loadSrcIndex fs f meta =
     (if sm_SrcIndexSize meta = 0 then Inr None
      else if sm_SrcIndexSize meta > maxAlloc then Inl GoPanic
      else
        (case file_ReadAt fs f (i64_of_u64 (sm_SrcIndexOffset meta)) (sm_SrcIndexSize meta) of
           Inl e \<Rightarrow> Inl e
         | Inr buf \<Rightarrow> map_sum id Some (loadSrcIndex_loop buf [])))"

definition footerMeta :: "path \<Rightarrow> bytes \<Rightarrow> SSTableMeta" where
  "footerMeta path b = \<lparr>sm_Path = path, sm_MinTimestamp = get_i64 b 0, sm_MaxTimestamp = get_i64 b 8,
     sm_TimeIndexOffset = get_u64 b 16, sm_TimeIndexSize = get_u64 b 24,
     sm_SrcIndexOffset = get_u64 b 32, sm_SrcIndexSize = get_u64 b 40,
     sm_RecordCount = get_u64 b 48, sm_PartitionStart = get_i64 b 56, sm_PartitionEnd = get_i64 b 64\<rparr>"

text \<open>\<^verbatim>\<open>initMmap\<close> on the platform \<open>mm\<close>.\<close>

definition initMmap :: "bool \<Rightarrow> sst_reader \<Rightarrow> sst_reader result" where
  "initMmap mm r =
     (if \<not> mm \<or> sm_TimeIndexOffset (r_meta r) = 0 then Inr r
      else
        (case unix_Mmap (i64_of_u64 (sm_TimeIndexOffset (r_meta r))) of
           Inl e \<Rightarrow> Inl e
         | Inr n \<Rightarrow> Inr (r\<lparr>r_mmap := Some n\<rparr>)))"

text \<open>The format header: the compression type and whether the file is columnar.\<close>

definition detectHeader :: "file_sys \<Rightarrow> sst_reader \<Rightarrow> sst_reader result" where
  "detectHeader fs r =
     (if sm_TimeIndexOffset (r_meta r) < headerSize then Inr r
      else
        (case file_ReadAt fs (r_file r) 0 8 of
           Inl e \<Rightarrow> Inl e
         | Inr first8 \<Rightarrow>
             (if le_nat first8 \<noteq> headerMagic then Inr r
              else
                (case file_ReadAt fs (r_file r) 0 headerSize of
                   Inl e \<Rightarrow> Inl e
                 | Inr hdr \<Rightarrow>
                     Inr (r\<lparr>r_compressionType := get_u16 hdr 10 mod 256,
                       r_columnar := get_u16 hdr 8 \<ge> 2\<rparr>)))))"

text \<open>The body of \<^verbatim>\<open>NewReader\<close> after the file is open.\<close>

definition readFile :: "bool \<Rightarrow> path \<Rightarrow> bool \<Rightarrow> inode \<Rightarrow> file_sys \<Rightarrow> sst_reader result" where
  "readFile mm path cached f fs =
     (let size = length (fs_data fs f) in
      if size < footerSize then Inl ErrInvalidMagic
      else
        (case file_ReadAt fs f (int (size - footerSize)) footerSize of
           Inl e \<Rightarrow> Inl e
         | Inr footerBuf \<Rightarrow>
             (if get_u64 footerBuf 72 \<noteq> footerMagic then Inl ErrInvalidMagic
              else
                (let meta = footerMeta path footerBuf in
                 if sm_RecordCount meta > 0 \<and> sm_TimeIndexSize meta = 0 then Inl ErrInvalidMagic
                 else
                   (case loadTimeIndex fs f meta of
                      Inl e \<Rightarrow> Inl e
                    | Inr timeIndex \<Rightarrow>
                   (case loadSrcIndex fs f meta of
                      Inl e \<Rightarrow> Inl e
                    | Inr srcIndex \<Rightarrow>
                   (case detectHeader fs \<lparr>r_file = f, r_meta = meta, r_timeIndex = timeIndex,
                        r_srcIndex = srcIndex, r_mmap = None, r_compressionType = CompressionNone,
                        r_columnar = False, r_cached = cached\<rparr> of
                      Inl e \<Rightarrow> Inl e
                    | Inr r \<Rightarrow> initMmap mm r)))))))"

definition NewReader :: "bool \<Rightarrow> path \<Rightarrow> bool \<Rightarrow> file_sys \<Rightarrow> sst_reader result \<times> file_sys" where
  "NewReader mm path cached fs =
     (case os_open path fs of
        Inl e \<Rightarrow> (Inl e, fs)
      | Inr f \<Rightarrow>
          (case readFile mm path cached f fs of
             Inl e \<Rightarrow> (Inl e, snd (file_close f fs))
           | Inr r \<Rightarrow> (Inr r, fs)))"

text \<open>\<^verbatim>\<open>Close\<close>: unmapping cannot fail for a mapping that \<^verbatim>\<open>initMmap\<close> made.\<close>

definition reader_Close :: "sst_reader \<Rightarrow> file_sys \<Rightarrow> go_error option \<times> file_sys" where
  "reader_Close r fs = file_close (r_file r) fs"

definition reader_Meta :: "sst_reader \<Rightarrow> SSTableMeta" where "reader_Meta r = r_meta r"

definition IsColumnar :: "sst_reader \<Rightarrow> bool" where "IsColumnar r = r_columnar r"

definition TimeIndexLen :: "sst_reader \<Rightarrow> nat" where "TimeIndexLen r = length (r_timeIndex r)"

definition TimeIndexEntry :: "sst_reader \<Rightarrow> nat \<Rightarrow> int result" where
  "TimeIndexEntry r i = (if i < length (r_timeIndex r) then Inr (ti_minTimestamp (r_timeIndex r ! i))
     else Inl GoPanic)"

subsection \<open>Reading a block\<close>

text \<open>
  The bytes of a block, from the mapping or by \<^verbatim>\<open>ReadAt\<close>: the first lines of \<^verbatim>\<open>readBlockRaw\<close>,
  \<^verbatim>\<open>readColBlock\<close> and \<^verbatim>\<open>ScanTimestamps\<close>. A fault of the mapping is raised here already, where the code
  only slices it and would fault at the first access to the bytes.
\<close>

definition blockBytes :: "sst_reader \<Rightarrow> file_sys \<Rightarrow> nat \<Rightarrow> bytes result" where
  "blockBytes r fs idx =
     (if length (r_timeIndex r) \<le> idx then Inl GoPanic
      else
        (let e = r_timeIndex r ! idx in
         case r_mmap r of
           Some n \<Rightarrow>
             (let hi = u64 (ti_offset e + ti_size e) in
              if ti_offset e \<le> hi \<and> hi \<le> n \<and> hi \<le> length (fs_data fs (r_file r)) \<and>
                \<not> fs_bad fs (r_file r)
              then Inr (go_slice (ti_offset e) hi (fs_data fs (r_file r)))
              else Inl GoPanic)
         | None \<Rightarrow> file_ReadAt fs (r_file r) (i64_of_u64 (ti_offset e)) (ti_size e)))"

text \<open>Checksum and length check of a payload, with its record count.\<close>

definition checkPayload :: "bytes \<Rightarrow> (bytes \<times> nat) result" where
  "checkPayload buf =
     (case validateBlock buf of
        Inl e \<Rightarrow> Inl e
      | Inr payload \<Rightarrow>
          (if length payload < 4 then Inl ErrBlockCorrupt
           else Inr (payload, le_nat (take 4 payload))))"

definition readBlockRaw :: "codecs \<Rightarrow> sst_reader \<Rightarrow> store \<Rightarrow> nat \<Rightarrow> (bytes \<times> nat) result \<times> store" where
  "readBlockRaw cd r s idx =
     (case blockBytes r (fst s) idx of
        Inl e \<Rightarrow> (Inl e, s)
      | Inr buf \<Rightarrow>
          (if r_compressionType r = CompressionNone then (checkPayload buf, s)
           else
             (let path = sm_Path (r_meta r); off = ti_offset (r_timeIndex r ! idx);
                  (hit, c) = (if r_cached r then cache_get (snd s) path off else (None, snd s));
                  s = (fst s, c)
              in case hit of
                   Some payload \<Rightarrow>
                     (if length payload < 4 then (Inl GoPanic, s)
                      else (Inr (payload, le_nat (take 4 payload)), s))
                 | None \<Rightarrow>
                     (case decompress cd (r_compressionType r) buf of
                        Inl e \<Rightarrow> (Inl ErrBlockCorrupt, s)
                      | Inr decompressed \<Rightarrow>
                          (case checkPayload decompressed of
                             Inl e \<Rightarrow> (Inl e, s)
                           | Inr (payload, cnt) \<Rightarrow>
                               (Inr (payload, cnt),
                                (fst s, if r_cached r then cache_put c path off payload else c)))))))"

text \<open>The bytes of a columnar block after decompression.\<close>

definition colBytes :: "codecs \<Rightarrow> sst_reader \<Rightarrow> file_sys \<Rightarrow> nat \<Rightarrow> bytes result" where
  "colBytes cd r fs idx =
     (case blockBytes r fs idx of
        Inl e \<Rightarrow> Inl e
      | Inr buf \<Rightarrow>
          (if r_compressionType r = CompressionNone then Inr buf
           else
             (case decompress cd (r_compressionType r) buf of
                Inl e \<Rightarrow> Inl ErrBlockCorrupt
              | Inr decompressed \<Rightarrow> Inr decompressed)))"

definition readColBlock :: "codecs \<Rightarrow> sst_reader \<Rightarrow> file_sys \<Rightarrow> nat \<Rightarrow> go_record list result" where
  "readColBlock cd r fs idx =
     (case colBytes cd r fs idx of Inl e \<Rightarrow> Inl e | Inr buf \<Rightarrow> decodeColBlock buf)"

definition ScanTimestamps :: "codecs \<Rightarrow> sst_reader \<Rightarrow> file_sys \<Rightarrow> nat \<Rightarrow> int \<Rightarrow> int \<Rightarrow> int list result" where
  "ScanTimestamps cd r fs idx t0 t1 =
     (case colBytes cd r fs idx of
        Inl e \<Rightarrow> Inl e
      | Inr buf \<Rightarrow>
          (case decodeColBlockTimestamps buf of
             Inl e \<Rightarrow> Inl e
           | Inr ts \<Rightarrow> Inr (filter (\<lambda>t. t0 \<le> t \<and> t < t1) ts)))"

subsection \<open>Iterators\<close>

text \<open>\<^verbatim>\<open>len(sourceID) > 0 && !bytes.Equal(view.SourceID, sourceID)\<close>: the record is skipped.\<close>

definition src_skip :: "bytes option \<Rightarrow> record_view \<Rightarrow> bool" where
  "src_skip src v = (case src of None \<Rightarrow> False | Some s \<Rightarrow> s \<noteq> [] \<and> SourceID v \<noteq> s)"

function scan_Next :: "codecs \<Rightarrow> scan_iter \<Rightarrow> store \<Rightarrow> bool \<times> scan_iter \<times> store" where
  "scan_Next cd it s =
     (if si_blockRem it > 0 then
        (case parseRecordAt (si_blockData it) (si_blockOff it) of
           Inl e \<Rightarrow> (False, it\<lparr>si_err := Some e\<rparr>, s)
         | Inr (view, off) \<Rightarrow>
             (let it = it\<lparr>si_blockOff := off, si_blockRem := si_blockRem it - 1\<rparr> in
              if Timestamp view \<ge> si_end it then (False, it, s)
              else if Timestamp view < si_start it then scan_Next cd it s
              else if src_skip (si_sourceID it) view then scan_Next cd it s
              else (True, it\<lparr>si_current := view\<rparr>, s)))
      else
        (let it = it\<lparr>si_blockIdx := si_blockIdx it + 1\<rparr> in
         if si_blockIdx it \<ge> length (r_timeIndex (si_r it)) then (False, it, s)
         else if ti_minTimestamp (r_timeIndex (si_r it) ! si_blockIdx it) \<ge> si_end it
         then (False, it, s)
         else
           (let res = readBlockRaw cd (si_r it) s (si_blockIdx it) in
            case fst res of
              Inl e \<Rightarrow> (False, it\<lparr>si_err := Some e\<rparr>, snd res)
            | Inr (payload, cnt) \<Rightarrow>
                scan_Next cd (it\<lparr>si_blockData := payload, si_blockOff := 4, si_blockRem := cnt\<rparr>)
                  (snd res))))"
  by pat_completeness auto
termination
  by (relation "measures [\<lambda>(_, it, _). length (r_timeIndex (si_r it)) - si_blockIdx it,
    \<lambda>(_, it, _). si_blockRem it]") auto

declare scan_Next.simps [simp del]

function col_Next :: "codecs \<Rightarrow> col_iter \<Rightarrow> store \<Rightarrow> bool \<times> col_iter \<times> store" where
  "col_Next cd it s =
     (if ci_recIdx it < length (ci_blockRecs it) then
        (let r = ci_blockRecs it ! ci_recIdx it; it = it\<lparr>ci_recIdx := ci_recIdx it + 1\<rparr> in
         if Timestamp r \<ge> ci_end it then (False, it, s)
         else if Timestamp r < ci_start it then col_Next cd it s
         else if src_skip (ci_sourceID it) r then col_Next cd it s
         else (True, it\<lparr>ci_current := r\<rparr>, s))
      else
        (let it = it\<lparr>ci_blockIdx := ci_blockIdx it + 1\<rparr> in
         if ci_blockIdx it \<ge> length (r_timeIndex (ci_r it)) then (False, it, s)
         else if ti_minTimestamp (r_timeIndex (ci_r it) ! ci_blockIdx it) \<ge> ci_end it
         then (False, it, s)
         else
           (case readColBlock cd (ci_r it) (fst s) (ci_blockIdx it) of
              Inl e \<Rightarrow> (False, it\<lparr>ci_err := Some e\<rparr>, s)
            | Inr recs \<Rightarrow> col_Next cd (it\<lparr>ci_blockRecs := recs, ci_recIdx := 0\<rparr>) s)))"
  by pat_completeness auto
termination
  by (relation "measures [\<lambda>(_, it, _). length (r_timeIndex (ci_r it)) - ci_blockIdx it,
    \<lambda>(_, it, _). length (ci_blockRecs it) - ci_recIdx it]") auto

declare col_Next.simps [simp del]

fun sst_Next :: "codecs \<Rightarrow> sst_iter \<Rightarrow> store \<Rightarrow> bool \<times> sst_iter \<times> store" where
  "sst_Next cd EmptyIter s = (False, EmptyIter, s)"
| "sst_Next cd (ScanIter it) s =
     (case scan_Next cd it s of (b, it, s) \<Rightarrow> (b, ScanIter it, s))"
| "sst_Next cd (ColScanIter it) s =
     (case col_Next cd it s of (b, it, s) \<Rightarrow> (b, ColScanIter it, s))"

fun sst_View :: "sst_iter \<Rightarrow> record_view" where
  "sst_View EmptyIter = zero_record"
| "sst_View (ScanIter it) = si_current it"
| "sst_View (ColScanIter it) = ci_current it"

fun sst_Record :: "sst_iter \<Rightarrow> go_record" where
  "sst_Record EmptyIter = zero_record"
| "sst_Record (ScanIter it) = Clone (si_current it)"
| "sst_Record (ColScanIter it) = Clone (ci_current it)"

fun sst_Err :: "sst_iter \<Rightarrow> go_error option" where
  "sst_Err EmptyIter = None"
| "sst_Err (ScanIter it) = si_err it"
| "sst_Err (ColScanIter it) = ci_err it"

text \<open>The last block whose first timestamp is not after \<open>t\<close>, or the first block.\<close>

definition startBlock :: "sst_reader \<Rightarrow> int \<Rightarrow> nat" where
  "startBlock r t =
     (let k = sort_search (length (r_timeIndex r)) (\<lambda>i. ti_minTimestamp (r_timeIndex r ! i) > t)
      in if k > 0 then k - 1 else k)"

definition reader_Scan :: "codecs \<Rightarrow> sst_reader \<Rightarrow> int \<Rightarrow> int \<Rightarrow> bytes option \<Rightarrow> store \<Rightarrow>
    sst_iter result \<times> store" where
  "reader_Scan cd r t0 t1 src s =
     (if sm_RecordCount (r_meta r) = 0 \<or> sm_MaxTimestamp (r_meta r) < t0 \<or>
        sm_MinTimestamp (r_meta r) \<ge> t1 then (Inr EmptyIter, s)
      else if (case (src, r_srcIndex r) of
          (Some k, Some index) \<Rightarrow> k \<noteq> [] \<and> map_of index k = None | _ \<Rightarrow> False)
      then (Inr EmptyIter, s)
      else
        (let sb = startBlock r t0 in
         if r_columnar r then
           (case readColBlock cd r (fst s) sb of
              Inl e \<Rightarrow> (Inl e, s)
            | Inr recs \<Rightarrow>
                (Inr (ColScanIter \<lparr>ci_r = r, ci_start = t0, ci_end = t1, ci_sourceID = src,
                   ci_blockIdx = sb, ci_blockRecs = recs, ci_recIdx = 0, ci_current = zero_record,
                   ci_err = None\<rparr>), s))
         else
           (case readBlockRaw cd r s sb of
              (Inl e, s) \<Rightarrow> (Inl e, s)
            | (Inr (blockData, blockRem), s) \<Rightarrow>
                (Inr (ScanIter \<lparr>si_r = r, si_start = t0, si_end = t1, si_sourceID = src,
                   si_blockIdx = sb, si_blockData = blockData, si_blockOff = 4,
                   si_blockRem = blockRem, si_current = zero_record, si_err = None\<rparr>), s))))"

end
