(* ===== verification/Heap.thy ===== *)
theory Heap
  imports Records
begin

text \<open>
  The binary heaps of the two merges: \<^verbatim>\<open>minHeap\<close> of \<^verbatim>\<open>internal/engine/merge.go\<close> and \<^verbatim>\<open>mergeHeap\<close> of
  \<^verbatim>\<open>internal/compaction/merge.go\<close>. Both have the same five operations on a slice and the same order,
  by \<open>(Timestamp, SourceID)\<close>; the operations are written once over the comparison \<^verbatim>\<open>Less\<close> and
  instantiated for the two item types. What a client may rely on is the locale \<open>priority_queue\<close>,
  interpreted for both heaps.
\<close>

subsection \<open>Heap operations over a comparison\<close>

definition swap :: "'a list \<Rightarrow> nat \<Rightarrow> nat \<Rightarrow> 'a list" where
  "swap h i j = h[i := h ! j, j := h ! i]"

function heap_up :: "('a \<Rightarrow> 'a \<Rightarrow> bool) \<Rightarrow> 'a list \<Rightarrow> nat \<Rightarrow> 'a list" where
  "heap_up lt h j =
     (let i = (j - 1) div 2 in
      if i = j \<or> \<not> lt (h ! j) (h ! i) then h else heap_up lt (swap h i j) i)"
  by pat_completeness auto
termination
  by (relation "measure (\<lambda>(_, _, j). j)") auto

declare heap_up.simps [simp del]

function heap_down :: "('a \<Rightarrow> 'a \<Rightarrow> bool) \<Rightarrow> 'a list \<Rightarrow> nat \<Rightarrow> nat \<Rightarrow> 'a list" where
  "heap_down lt h i n =
     (let j1 = 2 * i + 1 in
      if j1 \<ge> n then h
      else
        (let j2 = j1 + 1; j = (if j2 < n \<and> lt (h ! j2) (h ! j1) then j2 else j1) in
         if \<not> lt (h ! j) (h ! i) then h else heap_down lt (swap h i j) j n))"
  by pat_completeness auto
termination
  by (relation "measure (\<lambda>(_, _, i, n). n - i)") (auto simp: Let_def split: if_splits)

declare heap_down.simps [simp del]

text \<open>
  The loop of \<^verbatim>\<open>init\<close>, over the heap's own \<^verbatim>\<open>down\<close>: positions \<open>n/2 - 1\<close> to 0.
\<close>

fun heap_init_loop :: "('a list \<Rightarrow> nat \<Rightarrow> nat \<Rightarrow> 'a list) \<Rightarrow> 'a list \<Rightarrow> nat \<Rightarrow> nat \<Rightarrow> 'a list" where
  "heap_init_loop down h n 0 = h"
| "heap_init_loop down h n (Suc i) = heap_init_loop down (down h i n) n i"

definition heap_push :: "('a \<Rightarrow> 'a \<Rightarrow> bool) \<Rightarrow> 'a list \<Rightarrow> 'a \<Rightarrow> 'a list" where
  "heap_push lt h item = (let h = h @ [item] in heap_up lt h (length h - 1))"

text \<open>\<^verbatim>\<open>pop\<close> on an empty slice panics; both clients call it on a non-empty heap only.\<close>

definition heap_pop :: "('a \<Rightarrow> 'a \<Rightarrow> bool) \<Rightarrow> 'a list \<Rightarrow> 'a \<times> 'a list" where
  "heap_pop lt h =
     (let n = length h - 1; h = swap h 0 n; h = heap_down lt h 0 n in (h ! n, take n h))"

definition heap_init :: "('a \<Rightarrow> 'a \<Rightarrow> bool) \<Rightarrow> 'a list \<Rightarrow> 'a list" where
  "heap_init lt h = (let n = length h in heap_init_loop (heap_down lt) h n (n div 2))"

subsection \<open>The two heaps\<close>

record heapItem =
  hi_ts :: int
  hi_sourceID :: bytes
  hi_index :: nat

definition minHeap_Less :: "heapItem \<Rightarrow> heapItem \<Rightarrow> bool" where
  "minHeap_Less a b = (if hi_ts a \<noteq> hi_ts b then hi_ts a < hi_ts b
     else bytes_compare (hi_sourceID a) (hi_sourceID b) < 0)"

definition minHeap_up :: "heapItem list \<Rightarrow> nat \<Rightarrow> heapItem list" where
  "minHeap_up = heap_up minHeap_Less"

definition minHeap_down :: "heapItem list \<Rightarrow> nat \<Rightarrow> nat \<Rightarrow> heapItem list" where
  "minHeap_down = heap_down minHeap_Less"

definition minHeap_push :: "heapItem list \<Rightarrow> heapItem \<Rightarrow> heapItem list" where
  "minHeap_push h item = (let h = h @ [item] in minHeap_up h (length h - 1))"

definition minHeap_pop :: "heapItem list \<Rightarrow> heapItem \<times> heapItem list" where
  "minHeap_pop h = (let n = length h - 1; h = swap h 0 n; h = minHeap_down h 0 n in (h ! n, take n h))"

definition minHeap_init :: "heapItem list \<Rightarrow> heapItem list" where
  "minHeap_init h = (let n = length h in heap_init_loop minHeap_down h n (n div 2))"

text \<open>The item of the compaction heap holds its iterator; here, the iterator's position.\<close>

record mergeItem =
  mgi_ts :: int
  mgi_sourceID :: bytes
  mgi_iter :: nat

definition mergeHeap_Less :: "mergeItem \<Rightarrow> mergeItem \<Rightarrow> bool" where
  "mergeHeap_Less a b = (if mgi_ts a \<noteq> mgi_ts b then mgi_ts a < mgi_ts b
     else bytes_compare (mgi_sourceID a) (mgi_sourceID b) < 0)"

definition mergeHeap_up :: "mergeItem list \<Rightarrow> nat \<Rightarrow> mergeItem list" where
  "mergeHeap_up = heap_up mergeHeap_Less"

definition mergeHeap_down :: "mergeItem list \<Rightarrow> nat \<Rightarrow> nat \<Rightarrow> mergeItem list" where
  "mergeHeap_down = heap_down mergeHeap_Less"

definition mergeHeap_push :: "mergeItem list \<Rightarrow> mergeItem \<Rightarrow> mergeItem list" where
  "mergeHeap_push h item = (let h = h @ [item] in mergeHeap_up h (length h - 1))"

definition mergeHeap_pop :: "mergeItem list \<Rightarrow> mergeItem \<times> mergeItem list" where
  "mergeHeap_pop h = (let n = length h - 1; h = swap h 0 n; h = mergeHeap_down h 0 n in (h ! n, take n h))"

definition mergeHeap_init :: "mergeItem list \<Rightarrow> mergeItem list" where
  "mergeHeap_init h = (let n = length h in heap_init_loop mergeHeap_down h n (n div 2))"

subsection \<open>The heap order\<close>

definition par :: "nat \<Rightarrow> nat" where "par k = (k - 1) div 2"

lemma par_less: "0 < k \<Longrightarrow> par k < k"
  by (simp add: par_def)

lemma par_children: "0 < k \<Longrightarrow> par k = i \<longleftrightarrow> k = 2 * i + 1 \<or> k = 2 * i + 2"
  by (auto simp: par_def)

text \<open>The order on all edges whose parent is at \<open>lo\<close> or later, in the first \<open>n\<close> elements.\<close>

definition heap_from :: "('a \<Rightarrow> 'k :: linorder) \<Rightarrow> 'a list \<Rightarrow> nat \<Rightarrow> nat \<Rightarrow> bool" where
  "heap_from key h lo n \<longleftrightarrow> (\<forall>k. 0 < k \<and> k < n \<and> lo \<le> par k \<longrightarrow> key (h ! par k) \<le> key (h ! k))"

abbreviation heap_inv :: "('a \<Rightarrow> 'k :: linorder) \<Rightarrow> 'a list \<Rightarrow> bool" where
  "heap_inv key h \<equiv> heap_from key h 0 (length h)"

lemma length_swap [simp]: "length (swap h i j) = length h"
  by (simp add: swap_def)

lemma nth_swap: "i < length h \<Longrightarrow> j < length h \<Longrightarrow> k < length h \<Longrightarrow>
    swap h i j ! k = (if k = i then h ! j else if k = j then h ! i else h ! k)"
  by (auto simp: swap_def nth_list_update)

lemma mset_swap' [simp]: "i < length h \<Longrightarrow> j < length h \<Longrightarrow> mset (swap h i j) = mset h"
  by (cases "i = j") (simp_all add: swap_def mset_swap)

lemma heap_min:
  assumes "heap_inv key h" "k < length h"
  shows "key (h ! 0) \<le> key (h ! k)"
  using assms(2)
proof (induction k rule: less_induct)
  case (less k)
  show ?case
  proof (cases "k = 0")
    case False
    then have "par k < k" by (simp add: par_less)
    then have "key (h ! 0) \<le> key (h ! par k)" using less by simp
    also have "\<dots> \<le> key (h ! k)" using assms(1) False less.prems by (simp add: heap_from_def)
    finally show ?thesis .
  qed simp
qed

subsection \<open>Sifting up\<close>

definition up_inv :: "('a \<Rightarrow> 'k :: linorder) \<Rightarrow> 'a list \<Rightarrow> nat \<Rightarrow> bool" where
  "up_inv key h j \<longleftrightarrow> j < length h \<and>
     (\<forall>k. 0 < k \<and> k < length h \<and> k \<noteq> j \<longrightarrow> key (h ! par k) \<le> key (h ! k)) \<and>
     (\<forall>k. 0 < k \<and> k < length h \<and> par k = j \<and> 0 < j \<longrightarrow> key (h ! par j) \<le> key (h ! k))"

lemma up_inv_swap:
  fixes key :: "'a \<Rightarrow> 'k :: linorder"
  assumes "up_inv key h j" "0 < j" "key (h ! j) < key (h ! par j)"
  shows "up_inv key (swap h (par j) j) (par j)"
proof -
  let ?h = "swap h (par j) j"
  have j: "j < length h" "par j < j" "par j < length h"
    using assms(1) par_less [OF assms(2)] by (simp_all add: up_inv_def)
  have edge: "key (h ! par k) \<le> key (h ! k)" if "0 < k" "k < length h" "k \<noteq> j" for k
    using assms(1) that by (simp add: up_inv_def)
  have hole: "key (h ! par j) \<le> key (h ! k)" if "0 < k" "k < length h" "par k = j" for k
    using assms(1,2) that by (simp add: up_inv_def)
  have sw: "?h ! k = (if k = par j then h ! j else if k = j then h ! par j else h ! k)"
    if "k < length h" for k using that j by (simp add: nth_swap)
  have 1: "key (?h ! par k) \<le> key (?h ! k)" if k: "0 < k" "k < length h" "k \<noteq> par j" for k
  proof -
    have pk: "par k < length h" using par_less [OF k(1)] k(2) by simp
    show ?thesis
      using sw [OF pk] sw [OF k(2)] k edge [OF k(1,2)] hole [OF k(1,2)] assms(3)
      by (auto split: if_splits)
  qed
  have 2: "key (?h ! par (par j)) \<le> key (?h ! k)"
    if k: "0 < k" "k < length h" "par k = par j" "0 < par j" for k
  proof -
    have p: "key (h ! par (par j)) \<le> key (h ! par j)" using edge [OF k(4) j(3)] j by simp
    have ppj: "par (par j) < par j" using k(4) by (rule par_less)
    have "k \<noteq> par j" using par_less [OF k(1)] k(3) by auto
    moreover have "key (h ! par j) \<le> key (h ! k)" if "k \<noteq> j" using edge [OF k(1,2) that] k(3) by simp
    ultimately show ?thesis
      using sw [of "par (par j)"] sw [OF k(2)] ppj j p by (auto split: if_splits)
  qed
  show ?thesis using 1 2 j by (simp add: up_inv_def)
qed

lemma heap_up_correct:
  fixes key :: "'a \<Rightarrow> 'k :: linorder"
  assumes "\<And>a b. lt a b \<longleftrightarrow> key a < key b"
  shows "up_inv key h j \<Longrightarrow> heap_inv key (heap_up lt h j) \<and> mset (heap_up lt h j) = mset h"
proof (induction j arbitrary: h rule: less_induct)
  case (less j)
  have step: "heap_up lt h j = (if par j = j \<or> \<not> key (h ! j) < key (h ! par j) then h
      else heap_up lt (swap h (par j) j) (par j))"
    by (subst heap_up.simps) (simp add: Let_def assms par_def)
  show ?case
  proof (cases "par j = j \<or> \<not> key (h ! j) < key (h ! par j)")
    case True
    have "key (h ! par k) \<le> key (h ! k)" if "0 < k" "k < length h" for k
      using less.prems that True par_less [of j] by (cases "k = j") (auto simp: up_inv_def)
    then show ?thesis using True step by (simp add: heap_from_def)
  next
    case False
    then have "j \<noteq> 0" by (auto simp: par_def)
    then have j: "0 < j" "par j < j" by (simp_all add: par_less)
    from less.IH [OF j(2) up_inv_swap [OF less.prems j(1)]] False step less.prems j
    show ?thesis by (simp add: up_inv_def)
  qed
qed

subsection \<open>Sifting down\<close>

definition down_inv :: "('a \<Rightarrow> 'k :: linorder) \<Rightarrow> 'a list \<Rightarrow> nat \<Rightarrow> nat \<Rightarrow> nat \<Rightarrow> bool" where
  "down_inv key h lo i n \<longleftrightarrow> n \<le> length h \<and>
     (\<forall>k. 0 < k \<and> k < n \<and> lo \<le> par k \<and> par k \<noteq> i \<longrightarrow> key (h ! par k) \<le> key (h ! k)) \<and>
     (\<forall>k. 0 < k \<and> k < n \<and> par k = i \<and> 0 < i \<and> lo \<le> par i \<longrightarrow> key (h ! par i) \<le> key (h ! k))"

lemma down_inv_swap:
  fixes key :: "'a \<Rightarrow> 'k :: linorder"
  assumes "down_inv key h lo i n" "0 < j" "j < n" "par j = i" "lo \<le> i"
    "\<And>k. 0 < k \<Longrightarrow> k < n \<Longrightarrow> par k = i \<Longrightarrow> key (h ! j) \<le> key (h ! k)" "key (h ! j) < key (h ! i)"
  shows "down_inv key (swap h i j) lo j n"
proof -
  let ?h = "swap h i j"
  have i: "i < j" "i < length h" "j < length h" "n \<le> length h"
    using assms(1,3) par_less [OF assms(2)] assms(4) by (auto simp: down_inv_def)
  have edge: "key (h ! par k) \<le> key (h ! k)" if "0 < k" "k < n" "lo \<le> par k" "par k \<noteq> i" for k
    using assms(1) that by (simp add: down_inv_def)
  have hole: "key (h ! par i) \<le> key (h ! k)" if "0 < k" "k < n" "par k = i" "0 < i" "lo \<le> par i" for k
    using assms(1) that by (simp add: down_inv_def)
  have sw: "?h ! k = (if k = i then h ! j else if k = j then h ! i else h ! k)"
    if "k < length h" for k using that i by (simp add: nth_swap)
  have 1: "key (?h ! par k) \<le> key (?h ! k)"
    if k: "0 < k" "k < n" "lo \<le> par k" "par k \<noteq> j" for k
  proof -
    have pk: "par k < k" "par k < length h" "k < length h" using par_less [OF k(1)] k(2) i by simp_all
    consider "k = j" | "k = i" | "k \<noteq> j" "k \<noteq> i" "par k = i" | "k \<noteq> j" "k \<noteq> i" "par k \<noteq> i" by blast
    then show ?thesis
    proof cases
      case 1
      then have "?h ! k = h ! i" "?h ! par k = h ! j" using sw [OF pk(3)] sw [OF pk(2)] i assms(4) by simp_all
      then show ?thesis using assms(7) by simp
    next
      case 2
      then have "?h ! k = h ! j" "?h ! par k = h ! par i" using sw [OF pk(3)] sw [OF pk(2)] pk(1) k(4) by simp_all
      then show ?thesis using hole [OF assms(2,3,4)] 2 k by simp
    next
      case 3
      then have "?h ! k = h ! k" "?h ! par k = h ! j" using sw [OF pk(3)] sw [OF pk(2)] by simp_all
      then show ?thesis using assms(6) [OF k(1,2) 3(3)] by simp
    next
      case 4
      then have "?h ! k = h ! k" "?h ! par k = h ! par k" using sw [OF pk(3)] sw [OF pk(2)] k(4) by simp_all
      then show ?thesis using edge [OF k(1-3) 4(3)] by simp
    qed
  qed
  have 2: "key (?h ! par j) \<le> key (?h ! k)" if k: "0 < k" "k < n" "par k = j" for k
  proof -
    have "j < k" using par_less [OF k(1)] k(3) by simp
    moreover have "key (h ! j) \<le> key (h ! k)" using edge [OF k(1,2)] k(3) assms(5) i by simp
    ultimately show ?thesis using sw [of i] sw [of k] i k(2) assms(4) by simp
  qed
  show ?thesis using 1 2 i by (simp add: down_inv_def)
qed

lemma heap_down_correct:
  fixes key :: "'a \<Rightarrow> 'k :: linorder"
  assumes "\<And>a b. lt a b \<longleftrightarrow> key a < key b"
  shows "down_inv key h lo i n \<Longrightarrow> lo \<le> i \<Longrightarrow> heap_from key (heap_down lt h i n) lo n \<and>
    mset (heap_down lt h i n) = mset h \<and> drop n (heap_down lt h i n) = drop n h"
proof (induction "n - i" arbitrary: h i rule: less_induct)
  case less
  define j where "j = (if 2 * i + 2 < n \<and> key (h ! (2 * i + 2)) < key (h ! (2 * i + 1))
    then 2 * i + 2 else 2 * i + 1)"
  have step: "heap_down lt h i n = (if n \<le> 2 * i + 1 then h
      else if \<not> key (h ! j) < key (h ! i) then h else heap_down lt (swap h i j) j n)"
    by (subst heap_down.simps) (simp add: Let_def assms j_def)
  have edge: "key (h ! par k) \<le> key (h ! k)" if "0 < k" "k < n" "lo \<le> par k" "par k \<noteq> i" for k
    using less.prems that by (simp add: down_inv_def)
  show ?case
  proof (cases "n \<le> 2 * i + 1")
    case True
    have "par k \<noteq> i" if "0 < k" "k < n" for k using that True par_children [OF that(1), of i] by linarith
    then have "heap_from key h lo n" using edge by (simp add: heap_from_def)
    then show ?thesis using True step by simp
  next
    case False
    have "j = 2 * i + 1 \<or> j = 2 * i + 2 \<and> 2 * i + 2 < n" by (simp add: j_def)
    then have j: "0 < j" "j < n" "par j = i" "i < j" using False by (auto simp: par_def)
    have least: "key (h ! j) \<le> key (h ! k)" if "0 < k" "k < n" "par k = i" for k
    proof -
      have "k = 2 * i + 1 \<or> k = 2 * i + 2" using par_children [OF that(1), of i] that(3) by blast
      then show ?thesis
      proof
        assume "k = 2 * i + 1"
        then show ?thesis by (simp add: j_def less_imp_le)
      next
        assume "k = 2 * i + 2"
        then show ?thesis using that(2) by (simp add: j_def not_less)
      qed
    qed
    show ?thesis
    proof (cases "key (h ! j) < key (h ! i)")
      case True
      have dec: "n - j < n - i" using j by simp
      have dn: "down_inv key (swap h i j) lo j n"
        by (rule down_inv_swap [OF less.prems(1) j(1-3) less.prems(2)]) (rule least True; assumption)+
      have "j < length h" "i < length h" using j less.prems by (auto simp: down_inv_def)
      then have m: "mset (swap h i j) = mset h" by simp
      have dr: "drop n (swap h i j) = drop n h" using j by (simp add: swap_def)
      have "lo \<le> j" using j(4) less.prems(2) by simp
      note ih = less.hyps [OF dec dn this]
      have eq: "heap_down lt h i n = heap_down lt (swap h i j) j n"
        using step False True by (simp only: if_False simp_thms)
      show ?thesis unfolding eq using ih unfolding m dr .
    next
      case nl: False
      have "key (h ! par k) \<le> key (h ! k)" if "0 < k" "k < n" "lo \<le> par k" for k
        using edge [OF that] least [OF that(1,2)] nl by (cases "par k = i") auto
      then show ?thesis using step False nl by (simp add: heap_from_def)
    qed
  qed
qed

subsection \<open>The operations\<close>

lemma heap_push_correct:
  fixes key :: "'a \<Rightarrow> 'k :: linorder"
  assumes "\<And>a b. lt a b \<longleftrightarrow> key a < key b" "heap_inv key h"
  shows "heap_inv key (heap_push lt h x) \<and> mset (heap_push lt h x) = add_mset x (mset h)"
proof -
  have "up_inv key (h @ [x]) (length h)"
    unfolding up_inv_def
  proof (intro conjI allI impI)
    fix k
    assume "0 < k \<and> k < length (h @ [x]) \<and> k \<noteq> length h"
    then show "key ((h @ [x]) ! par k) \<le> key ((h @ [x]) ! k)"
      using assms(2) par_less [of k] by (simp add: heap_from_def nth_append)
  next
    fix k
    assume "0 < k \<and> k < length (h @ [x]) \<and> par k = length h \<and> 0 < length h"
    then show "key ((h @ [x]) ! par (length h)) \<le> key ((h @ [x]) ! k)" using par_less [of k] by simp
  qed simp
  from heap_up_correct [OF assms(1) this] show ?thesis by (simp add: heap_push_def Let_def)
qed

lemma heap_pop_correct:
  fixes key :: "'a \<Rightarrow> 'k :: linorder"
  assumes "\<And>a b. lt a b \<longleftrightarrow> key a < key b" "heap_inv key h" "h \<noteq> []" "heap_pop lt h = (x, h')"
  shows "heap_inv key h' \<and> mset h = add_mset x (mset h') \<and> (\<forall>y \<in> set h. key x \<le> key y)"
proof -
  define n where "n = length h - 1"
  have n: "length h = Suc n" using assms(3) by (cases h) (simp_all add: n_def)
  define d where "d = heap_down lt (swap h 0 n) 0 n"
  have "down_inv key (swap h 0 n) 0 0 n"
    unfolding down_inv_def
  proof (intro conjI allI impI)
    fix k
    assume k: "0 < k \<and> k < n \<and> 0 \<le> par k \<and> par k \<noteq> 0"
    moreover have "par k < k" using k par_less by blast
    ultimately show "key (swap h 0 n ! par k) \<le> key (swap h 0 n ! k)"
      using assms(2) n by (simp add: nth_swap heap_from_def)
  qed (simp_all add: n)
  note dn = heap_down_correct [OF assms(1) this, folded d_def, simplified]
  have len: "length d = Suc n" using dn n by (metis mset_eq_length length_swap)
  have "d ! n = hd (drop n d)" using len by (simp add: hd_drop_conv_nth)
  also have "\<dots> = h ! 0" using dn n by (simp add: hd_drop_conv_nth nth_swap)
  finally have x: "x = h ! 0" "h' = take n d" "d ! n = h ! 0"
    using assms(4) by (simp_all add: heap_pop_def Let_def n_def d_def)
  have "key (h' ! par k) \<le> key (h' ! k)" if "0 < k" "k < n" for k
    using dn x(2) that par_less [of k] by (simp add: heap_from_def)
  then have "heap_inv key h'" using x(2) len by (simp add: heap_from_def)
  moreover have "d = h' @ [x]" using x len take_Suc_conv_app_nth [of n d] by simp
  then have "mset h = add_mset x (mset h')" using dn n by simp
  moreover have "\<forall>y \<in> set h. key x \<le> key y"
    using heap_min [OF assms(2)] x(1) by (auto simp: in_set_conv_nth)
  ultimately show ?thesis by blast
qed

lemma heap_init_loop_correct:
  fixes key :: "'a \<Rightarrow> 'k :: linorder"
  assumes "\<And>a b. lt a b \<longleftrightarrow> key a < key b"
  shows "heap_from key h i (length h) \<Longrightarrow>
    heap_inv key (heap_init_loop (heap_down lt) h (length h) i) \<and> mset (heap_init_loop (heap_down lt) h (length h) i) = mset h"
proof (induction i arbitrary: h)
  case (Suc i)
  have "down_inv key h i i (length h)"
    using Suc.prems par_less [of i] by (auto simp: down_inv_def heap_from_def)
  note dn = heap_down_correct [OF assms this, simplified]
  then have "length (heap_down lt h i (length h)) = length h" by (metis mset_eq_length)
  with Suc.IH [of "heap_down lt h i (length h)"] dn show ?case by simp
qed simp

lemma heap_init_correct:
  fixes key :: "'a \<Rightarrow> 'k :: linorder"
  assumes "\<And>a b. lt a b \<longleftrightarrow> key a < key b"
  shows "heap_inv key (heap_init lt h) \<and> mset (heap_init lt h) = mset h"
proof -
  have "heap_from key h (length h div 2) (length h)"
    by (auto simp: heap_from_def par_def)
  from heap_init_loop_correct [OF assms this] show ?thesis by (simp add: heap_init_def Let_def)
qed

subsection \<open>The interface\<close>

text \<open>
  What the merges rely on: \<open>push\<close> and \<open>pop\<close> keep the invariant and the multiset of items, and \<open>pop\<close>
  returns an item with the least key.
\<close>

locale priority_queue =
  fixes init :: "'a list \<Rightarrow> 'a list" and push :: "'a list \<Rightarrow> 'a \<Rightarrow> 'a list"
    and pop :: "'a list \<Rightarrow> 'a \<times> 'a list" and key :: "'a \<Rightarrow> 'k :: linorder" and ok :: "'a list \<Rightarrow> bool"
  assumes init_ok: "ok (init h)" and init_items: "mset (init h) = mset h"
    and push_ok: "ok h \<Longrightarrow> ok (push h x)" and push_items: "ok h \<Longrightarrow> mset (push h x) = add_mset x (mset h)"
    and pop_ok: "ok h \<Longrightarrow> h \<noteq> [] \<Longrightarrow> pop h = (x, h') \<Longrightarrow> ok h'"
    and pop_items: "ok h \<Longrightarrow> h \<noteq> [] \<Longrightarrow> pop h = (x, h') \<Longrightarrow> mset h = add_mset x (mset h')"
    and pop_least: "ok h \<Longrightarrow> h \<noteq> [] \<Longrightarrow> pop h = (x, h') \<Longrightarrow> y \<in> set h \<Longrightarrow> key x \<le> key y"
begin

lemma pop_cases:
  assumes "ok h" "h \<noteq> []"
  obtains x h' where "pop h = (x, h')" "ok h'" "mset h = add_mset x (mset h')" "x \<in> set h"
    "set h' \<subseteq> set h" "\<forall>y \<in> set h. key x \<le> key y"
proof -
  obtain x h' where p: "pop h = (x, h')" by force
  note m = pop_items [OF assms p]
  have "set h = insert x (set h')" using arg_cong [OF m, of set_mset] by simp
  then show ?thesis using that [OF p pop_ok [OF assms p] m] pop_least [OF assms p] by auto
qed

lemma push_set: "ok h \<Longrightarrow> set (push h x) = insert x (set h)"
  using push_items by (metis set_mset_add_mset_insert set_mset_mset)

text \<open>Draining a queue sorts it.\<close>

fun drain :: "nat \<Rightarrow> 'a list \<Rightarrow> 'a list" where
  "drain 0 h = []"
| "drain (Suc n) h = (case pop h of (x, h') \<Rightarrow> x # drain n h')"

lemma drain_sorted:
  "ok h \<Longrightarrow> length h = n \<Longrightarrow> mset (drain n h) = mset h \<and> sorted (map key (drain n h))"
proof (induction n arbitrary: h)
  case (Suc n)
  then have "h \<noteq> []" by auto
  from pop_cases [OF Suc.prems(1) this] obtain x h' where
    p: "pop h = (x, h')" "ok h'" "mset h = add_mset x (mset h')" "x \<in> set h" "set h' \<subseteq> set h"
      "\<forall>y \<in> set h. key x \<le> key y" .
  have "length h' = n" using p(3) Suc.prems(2) by (metis diff_Suc_1 size_add_mset size_mset)
  from Suc.IH [OF p(2) this] have "mset (drain n h') = mset h'" "sorted (map key (drain n h'))" by auto
  moreover from this have "set (drain n h') = set h'" by (metis set_mset_mset)
  ultimately show ?case using p by auto
qed simp

end

definition hi_key :: "heapItem \<Rightarrow> int \<times> bytes" where
  "hi_key a = (hi_ts a, hi_sourceID a)"

definition mgi_key :: "mergeItem \<Rightarrow> int \<times> bytes" where
  "mgi_key a = (mgi_ts a, mgi_sourceID a)"

lemma minHeap_simps:
  "minHeap_init = heap_init minHeap_Less" "minHeap_push = heap_push minHeap_Less"
  "minHeap_pop = heap_pop minHeap_Less"
  by (simp_all add: fun_eq_iff Let_def minHeap_init_def heap_init_def minHeap_push_def heap_push_def
      minHeap_pop_def heap_pop_def minHeap_up_def minHeap_down_def)

lemma mergeHeap_simps:
  "mergeHeap_init = heap_init mergeHeap_Less" "mergeHeap_push = heap_push mergeHeap_Less"
  "mergeHeap_pop = heap_pop mergeHeap_Less"
  by (simp_all add: fun_eq_iff Let_def mergeHeap_init_def heap_init_def mergeHeap_push_def heap_push_def
      mergeHeap_pop_def heap_pop_def mergeHeap_up_def mergeHeap_down_def)

lemma minHeap_Less_key: "minHeap_Less a b \<longleftrightarrow> hi_key a < hi_key b"
  by (auto simp: minHeap_Less_def hi_key_def less_prod_def)

lemma mergeHeap_Less_key: "mergeHeap_Less a b \<longleftrightarrow> mgi_key a < mgi_key b"
  by (auto simp: mergeHeap_Less_def mgi_key_def less_prod_def)

interpretation minHeap: priority_queue minHeap_init minHeap_push minHeap_pop hi_key "heap_inv hi_key"
  by unfold_locales
    (use heap_init_correct [of minHeap_Less hi_key, OF minHeap_Less_key]
        heap_push_correct [of minHeap_Less hi_key, OF minHeap_Less_key]
        heap_pop_correct [of minHeap_Less hi_key, OF minHeap_Less_key]
      in \<open>auto simp: minHeap_simps\<close>)

interpretation mergeHeap: priority_queue mergeHeap_init mergeHeap_push mergeHeap_pop mgi_key "heap_inv mgi_key"
  by unfold_locales
    (use heap_init_correct [of mergeHeap_Less mgi_key, OF mergeHeap_Less_key]
        heap_push_correct [of mergeHeap_Less mgi_key, OF mergeHeap_Less_key]
        heap_pop_correct [of mergeHeap_Less mgi_key, OF mergeHeap_Less_key]
      in \<open>auto simp: mergeHeap_simps\<close>)

end
