(* ===== verification/MergeIter.thy ===== *)
theory MergeIter
  imports Heap
begin

text \<open>
  \<^verbatim>\<open>mergeIterator\<close> of \<^verbatim>\<open>internal/engine/merge.go\<close>: the k-way merge of sorted iterators. The operations
  of the merged iterators are parameters, as the interface \<^verbatim>\<open>record.Iterator\<close> is in the source; the
  correctness of the merge is proved once in the locale \<open>record_iterator\<close>, for whatever satisfies
  its laws: the merge delivers all records of all iterators, in \<open>(Timestamp, SourceID)\<close> order.
\<close>

subsection \<open>Operations\<close>

record 'it merge_iter =
  mg_iters :: "'it list"
  mg_h :: "heapItem list"
  mg_curIdx :: int
  mg_err :: "go_error option"
  mg_closed :: bool

definition head_item :: "record_view \<Rightarrow> nat \<Rightarrow> heapItem" where
  "head_item v i = \<lparr>hi_ts = Timestamp v, hi_sourceID = SourceID v, hi_index = i\<rparr>"

text \<open>\<^verbatim>\<open>if err := it.Err(); err != nil && m.err == nil { m.err = err }\<close>\<close>

definition keep_err :: "go_error option \<Rightarrow> go_error option \<Rightarrow> go_error option" where
  "keep_err old new = (if new \<noteq> None \<and> old = None then new else old)"

text \<open>The loop of \<^verbatim>\<open>newMergeIterator\<close> over the iterators from position \<open>i\<close> on.\<close>

fun merge_seed :: "('it \<Rightarrow> 's \<Rightarrow> bool \<times> 'it \<times> 's) \<Rightarrow> ('it \<Rightarrow> record_view) \<Rightarrow> ('it \<Rightarrow> go_error option) \<Rightarrow>
    nat \<Rightarrow> 'it list \<Rightarrow> heapItem list \<Rightarrow> go_error option \<Rightarrow> 's \<Rightarrow>
    'it list \<times> heapItem list \<times> go_error option \<times> 's" where
  "merge_seed nxt view err i [] h e s = ([], h, e, s)"
| "merge_seed nxt view err i (it # its) h e s =
     (case nxt it s of (b, it, s) \<Rightarrow>
        let h = (if b then minHeap_push h (head_item (view it) i) else h);
            e = (if b then e else keep_err e (err it))
        in case merge_seed nxt view err (Suc i) its h e s of (its, h, e, s) \<Rightarrow> (it # its, h, e, s))"

definition newMergeIterator :: "('it \<Rightarrow> 's \<Rightarrow> bool \<times> 'it \<times> 's) \<Rightarrow> ('it \<Rightarrow> record_view) \<Rightarrow>
    ('it \<Rightarrow> go_error option) \<Rightarrow> 'it list \<Rightarrow> 's \<Rightarrow> 'it merge_iter \<times> 's" where
  "newMergeIterator nxt view err iters s =
     (case merge_seed nxt view err 0 iters (minHeap_init []) None s of (its, h, e, s) \<Rightarrow>
        (\<lparr>mg_iters = its, mg_h = h, mg_curIdx = -1, mg_err = e, mg_closed = False\<rparr>, s))"

text \<open>The first half of \<^verbatim>\<open>Next\<close>: advance the iterator of the previous record.\<close>

definition merge_advance :: "('it \<Rightarrow> 's \<Rightarrow> bool \<times> 'it \<times> 's) \<Rightarrow> ('it \<Rightarrow> record_view) \<Rightarrow>
    ('it \<Rightarrow> go_error option) \<Rightarrow> 'it merge_iter \<Rightarrow> 's \<Rightarrow> 'it merge_iter \<times> 's" where
  "merge_advance nxt view err m s =
     (if mg_curIdx m < 0 then (m, s)
      else
        (let c = nat (mg_curIdx m) in
         case nxt (mg_iters m ! c) s of (b, it, s) \<Rightarrow>
           (m\<lparr>mg_iters := (mg_iters m)[c := it],
              mg_h := (if b then minHeap_push (mg_h m) (head_item (view it) c) else mg_h m),
              mg_err := (if b then mg_err m else keep_err (mg_err m) (err it))\<rparr>, s)))"

definition merge_Next :: "('it \<Rightarrow> 's \<Rightarrow> bool \<times> 'it \<times> 's) \<Rightarrow> ('it \<Rightarrow> record_view) \<Rightarrow>
    ('it \<Rightarrow> go_error option) \<Rightarrow> 'it merge_iter \<Rightarrow> 's \<Rightarrow> bool \<times> 'it merge_iter \<times> 's" where
  "merge_Next nxt view err m s =
     (if mg_err m \<noteq> None then (False, m, s)
      else
        (case merge_advance nxt view err m s of (m, s) \<Rightarrow>
           if mg_h m = [] then (False, m, s)
           else
             (case minHeap_pop (mg_h m) of (item, h) \<Rightarrow>
                (True, m\<lparr>mg_h := h, mg_curIdx := int (hi_index item)\<rparr>, s))))"

definition merge_View :: "('it \<Rightarrow> record_view) \<Rightarrow> 'it merge_iter \<Rightarrow> record_view" where
  "merge_View view m = (if mg_curIdx m < 0 then zero_record else view (mg_iters m ! nat (mg_curIdx m)))"

definition merge_Record :: "('it \<Rightarrow> record_view) \<Rightarrow> 'it merge_iter \<Rightarrow> go_record" where
  "merge_Record view m =
     (if mg_curIdx m < 0 then zero_record else Clone (view (mg_iters m ! nat (mg_curIdx m))))"

definition merge_Err :: "'it merge_iter \<Rightarrow> go_error option" where
  "merge_Err m = mg_err m"

text \<open>\<^verbatim>\<open>Close\<close> closes every iterator once and returns the first error; \<open>close\<close> is theirs.\<close>

definition merge_Close :: "('it \<Rightarrow> go_error option) \<Rightarrow> 'it merge_iter \<Rightarrow> go_error option \<times> 'it merge_iter" where
  "merge_Close close m =
     (if mg_closed m then (None, m)
      else (fold (\<lambda>it e. keep_err e (close it)) (mg_iters m) None, m\<lparr>mg_closed := True\<rparr>))"

subsection \<open>Iterators on a heap\<close>

context record_iterator
begin

text \<open>Moving on in one iterator must not disturb the others.\<close>

definition frame :: "'s \<Rightarrow> 's \<Rightarrow> bool" where
  "frame s s' \<longleftrightarrow> (\<forall>it. inv s it \<longrightarrow> inv s' it \<and> rest s' it = rest s it)"

lemma frame_refl: "frame s s"
  by (simp add: frame_def)

lemma frame_trans: "frame s s1 \<Longrightarrow> frame s1 s2 \<Longrightarrow> frame s s2"
  by (simp add: frame_def)

lemma nxt_cases:
  assumes "inv s it" "rec_sorted (rest s it)"
  obtains (fin) it' s' where "nxt it s = (False, it', s')" "rest s it = []" "err it' = None" "frame s s'"
  | (more) it' s' where "nxt it s = (True, it', s')" "rest s it = view it' # rest s' it'" "inv s' it'"
      "rec_sorted (view it' # rest s' it')" "frame s s'"
proof (cases "rest s it")
  case Nil
  from next_done [OF assms(1) Nil] obtain it' s' where n: "nxt it s = (False, it', s')" "err it' = None"
    by blast
  moreover have "frame s s'" using next_frame [OF assms(1) n(1)] by (simp add: frame_def)
  ultimately show ?thesis using fin Nil by blast
next
  case (Cons r rs)
  from next_more [OF assms(1) Cons] obtain it' s' where
    n: "nxt it s = (True, it', s')" "view it' = r" "rest s' it' = rs" "inv s' it'" by blast
  moreover have "frame s s'" using next_frame [OF assms(1) n(1)] by (simp add: frame_def)
  ultimately show ?thesis using more Cons assms(2) by auto
qed

end

text \<open>
  What both merges of the source maintain: a priority queue that holds, for iterators of a list, the
  key of the record an iterator stands at and its position. \<open>mk\<close> builds an item, \<open>idx\<close> is the
  position in it.
\<close>

locale merge_heap = record_iterator nxt view err rest inv + pq: priority_queue init push pop key ok
  for nxt :: "'it \<Rightarrow> 's \<Rightarrow> bool \<times> 'it \<times> 's" and view :: "'it \<Rightarrow> go_record"
    and err :: "'it \<Rightarrow> go_error option" and rest :: "'s \<Rightarrow> 'it \<Rightarrow> go_record list"
    and inv :: "'s \<Rightarrow> 'it \<Rightarrow> bool" and init :: "'i list \<Rightarrow> 'i list" and push :: "'i list \<Rightarrow> 'i \<Rightarrow> 'i list"
    and pop :: "'i list \<Rightarrow> 'i \<times> 'i list" and key :: "'i \<Rightarrow> int \<times> bytes" and ok :: "'i list \<Rightarrow> bool" +
  fixes mk :: "record_view \<Rightarrow> nat \<Rightarrow> 'i" and idx :: "'i \<Rightarrow> nat"
  assumes key_mk: "key (mk v i) = rkey v" and idx_mk [simp]: "idx (mk v i) = i"
begin

text \<open>
  The records that an item of the heap stands for, the iterators that are still in use, and the
  records still to come.
\<close>

definition item_recs :: "'s \<Rightarrow> 'it list \<Rightarrow> nat \<Rightarrow> go_record list" where
  "item_recs s its i = view (its ! i) # rest s (its ! i)"

definition heap_ok :: "'s \<Rightarrow> 'it list \<Rightarrow> 'i list \<Rightarrow> bool" where
  "heap_ok s its h \<longleftrightarrow> ok h \<and> distinct (map idx h) \<and>
     (\<forall>x \<in> set h. idx x < length its \<and> x = mk (view (its ! idx x)) (idx x) \<and>
        inv s (its ! idx x) \<and> rec_sorted (item_recs s its (idx x)))"

definition heap_recs :: "'s \<Rightarrow> 'it list \<Rightarrow> 'i list \<Rightarrow> go_record multiset" where
  "heap_recs s its h = (\<Sum>x \<in># mset h. mset (item_recs s its (idx x)))"

lemma heap_ok_empty: "heap_ok s its (init [])"
  using pq.init_ok [of "[]"] pq.init_items [of "[]"] by (simp add: heap_ok_def)

lemma heap_frame:
  assumes "heap_ok s its h" "frame s s'" "\<forall>x \<in> set h. its' ! idx x = its ! idx x"
    "length its' = length its"
  shows "heap_ok s' its' h" "heap_recs s' its' h = heap_recs s its h"
proof -
  have *: "item_recs s' its' (idx x) = item_recs s its (idx x)" if "x \<in> set h" for x
    using assms that by (simp add: heap_ok_def frame_def item_recs_def)
  then show "heap_recs s' its' h = heap_recs s its h"
    unfolding heap_recs_def by (intro arg_cong [where f = sum_mset] image_mset_cong) simp
  show "heap_ok s' its' h" using assms * unfolding heap_ok_def by (simp add: frame_def)
qed

lemma heap_ok_push:
  assumes "heap_ok s its h" "i < length its" "inv s (its ! i)" "rec_sorted (item_recs s its i)"
    "i \<notin> idx ` set h"
  defines "h' \<equiv> push h (mk (view (its ! i)) i)"
  shows "heap_ok s its h'" "heap_recs s its h' = mset (item_recs s its i) + heap_recs s its h"
proof -
  let ?x = "mk (view (its ! i)) i"
  have inv: "ok h" using assms(1) by (simp add: heap_ok_def)
  have m: "mset h' = add_mset ?x (mset h)" unfolding h'_def by (rule pq.push_items [OF inv])
  then have st: "set h' = insert ?x (set h)" by (metis set_mset_add_mset_insert set_mset_mset)
  have "mset (map idx h') = add_mset i (mset (map idx h))"
    using m by simp
  then have "distinct (map idx h')"
    using assms(1,5) by (metis (no_types, lifting) distinct.simps(2) heap_ok_def list.set_map mset.simps(2)
        mset_eq_imp_distinct_iff)
  then show "heap_ok s its h'"
    using assms(1-4) st pq.push_ok [OF inv, of ?x]
    by (auto simp: heap_ok_def h'_def )
  show "heap_recs s its h' = mset (item_recs s its i) + heap_recs s its h"
    using m by (simp add: heap_recs_def )
qed

lemma heap_ok_pop:
  assumes "heap_ok s its h" "h \<noteq> []"
  obtains x h' where "pop h = (x, h')" "heap_ok s its h'" "idx x < length its"
    "inv s (its ! idx x)" "rec_sorted (item_recs s its (idx x))"
    "idx x \<notin> idx ` set h'"
    "heap_recs s its h = mset (item_recs s its (idx x)) + heap_recs s its h'"
    "\<forall>r \<in># heap_recs s its h. rkey (view (its ! idx x)) \<le> rkey r"
proof -
  have inv: "ok h" using assms(1) by (simp add: heap_ok_def)
  from pq.pop_cases [OF inv assms(2)] obtain x h' where
    p: "pop h = (x, h')" "ok h'" "mset h = add_mset x (mset h')" "x \<in> set h"
      "set h' \<subseteq> set h" "\<forall>y \<in> set h. key x \<le> key y" .
  have "distinct (map idx (x # h'))"
    using assms(1) p(3) by (metis heap_ok_def mset.simps(2) mset_eq_imp_distinct_iff mset_map)
  then have d: "idx x \<notin> idx ` set h'" "distinct (map idx h')" by auto
  have ok: "heap_ok s its h'" using assms(1) p d by (auto simp: heap_ok_def)
  have sum: "heap_recs s its h = mset (item_recs s its (idx x)) + heap_recs s its h'"
    using p(3) by (simp add: heap_recs_def)
  have key: "key y = rkey (view (its ! idx y))" if "y \<in> set h" for y
  proof -
    have "y = mk (view (its ! idx y)) (idx y)"
      using assms(1) that by (simp add: heap_ok_def)
    then show ?thesis by (metis key_mk)
  qed
  have "rkey (view (its ! idx x)) \<le> rkey r" if r: "r \<in># heap_recs s its h" for r
  proof -
    from r obtain y where y: "y \<in> set h" "r \<in> set (item_recs s its (idx y))"
      by (auto simp: heap_recs_def)
    have "rec_sorted (item_recs s its (idx y))" using assms(1) y(1) by (simp add: heap_ok_def)
    then have "rkey (view (its ! idx y)) \<le> rkey r" using y(2) by (auto simp: item_recs_def)
    then show ?thesis using p(4,6) y(1) key by force
  qed
  then show ?thesis using that [OF p(1) ok _ _ _ d(1) sum] assms(1) p(4) by (simp add: heap_ok_def)
qed

end

subsection \<open>Correctness of the merge iterator\<close>

lemma head_item_fields [simp]: "hi_index (head_item v i) = i" "hi_key (head_item v i) = rkey v"
  by (simp_all add: head_item_def hi_key_def rkey_def)

sublocale record_iterator \<subseteq> mh: merge_heap nxt view err rest inv minHeap_init minHeap_push minHeap_pop
    hi_key "heap_inv hi_key" head_item hi_index
  by unfold_locales (simp_all add: minHeap.init_ok minHeap.init_items minHeap.push_ok minHeap.push_items)

context record_iterator
begin

text \<open>
  The invariant between calls: the heap holds the heads of all iterators but the current one. The
  records still to come are those of the heap and the rest of the current iterator.
\<close>

definition cur_ok :: "'s \<Rightarrow> 'it merge_iter \<Rightarrow> bool" where
  "cur_ok s m \<longleftrightarrow> mg_curIdx m = -1 \<or>
     (0 \<le> mg_curIdx m \<and> nat (mg_curIdx m) < length (mg_iters m) \<and>
      nat (mg_curIdx m) \<notin> hi_index ` set (mg_h m) \<and> inv s (mg_iters m ! nat (mg_curIdx m)) \<and>
      rec_sorted (rest s (mg_iters m ! nat (mg_curIdx m))))"

definition merge_inv :: "'s \<Rightarrow> 'it merge_iter \<Rightarrow> bool" where
  "merge_inv s m \<longleftrightarrow> mg_err m = None \<and> mh.heap_ok s (mg_iters m) (mg_h m) \<and> cur_ok s m"

definition merge_todo :: "'s \<Rightarrow> 'it merge_iter \<Rightarrow> go_record multiset" where
  "merge_todo s m = mh.heap_recs s (mg_iters m) (mg_h m) +
     (if mg_curIdx m < 0 then {#} else mset (rest s (mg_iters m ! nat (mg_curIdx m))))"

lemma merge_advance_ok:
  assumes "merge_inv s m"
  shows "\<exists>m' s'. merge_advance nxt view err m s = (m', s') \<and> mg_err m' = None \<and>
    mh.heap_ok s' (mg_iters m') (mg_h m') \<and> mh.heap_recs s' (mg_iters m') (mg_h m') = merge_todo s m \<and> frame s s'"
proof (cases "mg_curIdx m < 0")
  case True
  then show ?thesis using assms
    by (simp add: merge_advance_def merge_inv_def merge_todo_def frame_refl)
next
  case False
  define c where "c = nat (mg_curIdx m)"
  let ?it = "mg_iters m ! c"
  have ok: "mh.heap_ok s (mg_iters m) (mg_h m)" "mg_err m = None" using assms by (simp_all add: merge_inv_def)
  have c: "c < length (mg_iters m)" "c \<notin> hi_index ` set (mg_h m)" "inv s ?it" "rec_sorted (rest s ?it)"
    using assms False by (auto simp: merge_inv_def cur_ok_def c_def)
  have others: "\<forall>x \<in> set (mg_h m). (mg_iters m)[c := it] ! hi_index x = mg_iters m ! hi_index x" for it
    using c(2) by (auto intro: nth_list_update_neq)
  show ?thesis
    using c(3,4)
  proof (cases rule: nxt_cases)
    case (fin it' s')
    note fr = mh.heap_frame [OF ok(1) fin(4) others [of it']]
    show ?thesis using False fin ok fr
      by (simp add: merge_advance_def merge_todo_def keep_err_def flip: c_def)
  next
    case (more it' s')
    let ?its = "(mg_iters m)[c := it']"
    note fr = mh.heap_frame [OF ok(1) more(5) others [of it']]
    have it': "?its ! c = it'" using c(1) by simp
    have "mh.heap_ok s' ?its (minHeap_push (mg_h m) (head_item (view it') c))"
      "mh.heap_recs s' ?its (minHeap_push (mg_h m) (head_item (view it') c)) =
        mset (rest s ?it) + mh.heap_recs s (mg_iters m) (mg_h m)"
      using mh.heap_ok_push [of s' ?its "mg_h m" c] fr more c it' by (simp_all add: mh.item_recs_def)
    then show ?thesis using False more ok
      by (simp add: merge_advance_def merge_todo_def flip: c_def)
  qed
qed

lemma merge_Next_ok:
  assumes "merge_inv s m"
  shows "\<exists>b m' s'. merge_Next nxt view err m s = (b, m', s') \<and> frame s s' \<and> mg_err m' = None \<and>
    (if merge_todo s m = {#} then \<not> b
     else b \<and> merge_inv s' m' \<and> merge_todo s m = add_mset (merge_View view m') (merge_todo s' m') \<and>
       (\<forall>r \<in># merge_todo s m. rkey (merge_View view m') \<le> rkey r))"
proof -
  from merge_advance_ok [OF assms] obtain m1 s1 where
    a: "merge_advance nxt view err m s = (m1, s1)" "mg_err m1 = None" "mh.heap_ok s1 (mg_iters m1) (mg_h m1)"
      "mh.heap_recs s1 (mg_iters m1) (mg_h m1) = merge_todo s m" "frame s s1" by blast
  have e: "mg_err m = None" using assms by (simp add: merge_inv_def)
  show ?thesis
  proof (cases "mg_h m1 = []")
    case True
    then have "merge_todo s m = {#}" using a(4) by (simp add: mh.heap_recs_def)
    with True a e show ?thesis by (intro exI [of _ False] exI [of _ m1] exI [of _ s1])
        (simp add: merge_Next_def)
  next
    case False
    from mh.heap_ok_pop [OF a(3) False] obtain x h' where
      p: "minHeap_pop (mg_h m1) = (x, h')" "mh.heap_ok s1 (mg_iters m1) h'"
        "hi_index x < length (mg_iters m1)" "inv s1 (mg_iters m1 ! hi_index x)"
        "rec_sorted (mh.item_recs s1 (mg_iters m1) (hi_index x))" "hi_index x \<notin> hi_index ` set h'"
        "merge_todo s m = mset (mh.item_recs s1 (mg_iters m1) (hi_index x)) + mh.heap_recs s1 (mg_iters m1) h'"
        "\<forall>r \<in># merge_todo s m. rkey (view (mg_iters m1 ! hi_index x)) \<le> rkey r"
      unfolding a(4) by blast
    let ?m = "m1\<lparr>mg_h := h', mg_curIdx := int (hi_index x)\<rparr>"
    have "merge_Next nxt view err m s = (True, ?m, s1)"
      using e a(1) False p(1) by (simp add: merge_Next_def)
    moreover have "merge_View view ?m = view (mg_iters m1 ! hi_index x)" by (simp add: merge_View_def)
    moreover have "merge_inv s1 ?m"
      using a(2) p by (simp add: merge_inv_def cur_ok_def mh.item_recs_def)
    moreover have "merge_todo s m = add_mset (view (mg_iters m1 ! hi_index x)) (merge_todo s1 ?m)"
      using p(7) by (simp add: merge_todo_def mh.item_recs_def)
    ultimately show ?thesis using a(2,5) p(8) by auto
  qed
qed

lemma merge_collect:
  assumes "merge_inv s m"
  shows "\<exists>rs m' s'. iter_collect (merge_Next nxt view err) (merge_View view) m s = Some (rs, m', s') \<and>
    mset rs = merge_todo s m \<and> rec_sorted rs \<and> merge_Err m' = None \<and> frame s s'"
  using assms
proof (induction "size (merge_todo s m)" arbitrary: s m)
  case 0
  then have "merge_todo s m = {#}" by simp
  with merge_Next_ok [OF "0.prems"] show ?case
    by (subst iter_collect.simps) (auto simp: merge_Err_def)
next
  case (Suc n)
  then have "merge_todo s m \<noteq> {#}" by auto
  with merge_Next_ok [OF Suc.prems] obtain m1 s1 where
    n: "merge_Next nxt view err m s = (True, m1, s1)" "frame s s1" "merge_inv s1 m1"
      "merge_todo s m = add_mset (merge_View view m1) (merge_todo s1 m1)"
      "\<forall>r \<in># merge_todo s m. rkey (merge_View view m1) \<le> rkey r" by auto
  have "n = size (merge_todo s1 m1)" using Suc.hyps(2) n(4) by simp
  from Suc.hyps(1) [OF this n(3)] obtain rs m' s' where
    r: "iter_collect (merge_Next nxt view err) (merge_View view) m1 s1 = Some (rs, m', s')"
      "mset rs = merge_todo s1 m1" "rec_sorted rs" "merge_Err m' = None" "frame s1 s'" by blast
  have "\<forall>x \<in> set rs. rkey (merge_View view m1) \<le> rkey x"
    using n(4,5) r(2) by (metis insert_iff set_mset_add_mset_insert set_mset_mset)
  then show ?case using n r frame_trans [OF n(2) r(5)] by (subst iter_collect.simps) simp
qed

subsubsection \<open>Construction\<close>

lemma merge_seed_ok:
  assumes "mh.heap_ok s (pre @ its) h" "\<forall>x \<in> set h. hi_index x < length pre"
    "\<forall>it \<in> set its. inv s it \<and> rec_sorted (rest s it)"
  shows "\<exists>its' h' s'. merge_seed nxt view err (length pre) its h None s = (its', h', None, s') \<and>
    length its' = length its \<and> mh.heap_ok s' (pre @ its') h' \<and> frame s s' \<and>
    mh.heap_recs s' (pre @ its') h' = mh.heap_recs s (pre @ its) h + (\<Sum>it \<in># mset its. mset (rest s it))"
  using assms
proof (induction its arbitrary: pre h s)
  case Nil
  then show ?case by (simp add: frame_refl)
next
  case (Cons it its)
  have it: "inv s it" "rec_sorted (rest s it)" using Cons.prems by auto
  have idx: "x \<in> set h \<Longrightarrow> hi_index x < length pre" for x using Cons.prems(2) by blast
  then have fresh: "length pre \<notin> hi_index ` set h" by fastforce
  have pre: "\<forall>x \<in> set h. (pre @ it' # its) ! hi_index x = (pre @ it # its) ! hi_index x" for it'
    using idx by (simp add: nth_append)
  have later: "(\<Sum>it \<in># mset its. mset (rest s' it)) = (\<Sum>it \<in># mset its. mset (rest s it))"
    "\<forall>it \<in> set its. inv s' it \<and> rec_sorted (rest s' it)" if "frame s s'" for s'
    using that Cons.prems(3)
    by (auto simp: frame_def intro!: arg_cong [where f = sum_mset] image_mset_cong)
  show ?case
    using it
  proof (cases rule: nxt_cases)
    case (fin it1 s1)
    note fr = mh.heap_frame [OF Cons.prems(1) fin(4) pre [of it1]]
    have ok: "mh.heap_ok s1 ((pre @ [it1]) @ its) h" using fr(1) by simp
    have "\<forall>x \<in> set h. hi_index x < length (pre @ [it1])" using idx by fastforce
    from Cons.IH [OF ok this later(2) [OF fin(4)]] obtain its' h' s' where
      "merge_seed nxt view err (Suc (length pre)) its h None s1 = (its', h', None, s')"
      "length its' = length its" "mh.heap_ok s' ((pre @ [it1]) @ its') h'" "frame s1 s'"
      "mh.heap_recs s' ((pre @ [it1]) @ its') h' =
        mh.heap_recs s1 ((pre @ [it1]) @ its) h + (\<Sum>it \<in># mset its. mset (rest s1 it))" by auto
    then show ?thesis using fin fr later(1) [OF fin(4)] frame_trans [OF fin(4)]
      by (auto simp: Let_def keep_err_def)
  next
    case (more it1 s1)
    note fr = mh.heap_frame [OF Cons.prems(1) more(5) pre [of it1]]
    let ?h = "minHeap_push h (head_item (view it1) (length pre))"
    have nth: "(pre @ it1 # its) ! length pre = it1" by simp
    have ps: "mh.heap_ok s1 ((pre @ [it1]) @ its) ?h"
      "mh.heap_recs s1 ((pre @ [it1]) @ its) ?h = mset (rest s it) + mh.heap_recs s (pre @ it # its) h"
      using mh.heap_ok_push [of s1 "pre @ it1 # its" h "length pre"] fr more nth fresh
      by (simp_all add: mh.item_recs_def)
    have "heap_inv hi_key h" using Cons.prems(1) by (simp add: mh.heap_ok_def)
    from minHeap.push_set [OF this]
    have "\<forall>x \<in> set ?h. hi_index x < length (pre @ [it1])" using idx
      by (auto simp: head_item_def less_Suc_eq)
    from Cons.IH [OF ps(1) this later(2) [OF more(5)]] obtain its' h' s' where
      "merge_seed nxt view err (Suc (length pre)) its ?h None s1 = (its', h', None, s')"
      "length its' = length its" "mh.heap_ok s' ((pre @ [it1]) @ its') h'" "frame s1 s'"
      "mh.heap_recs s' ((pre @ [it1]) @ its') h' =
        mh.heap_recs s1 ((pre @ [it1]) @ its) ?h + (\<Sum>it \<in># mset its. mset (rest s1 it))" by auto
    then show ?thesis using more ps(2) later(1) [OF more(5)] frame_trans [OF more(5)]
      by (auto simp: Let_def ac_simps)
  qed
qed

lemma newMergeIterator_ok:
  assumes "\<forall>it \<in> set its. inv s it \<and> rec_sorted (rest s it)"
  shows "\<exists>m s'. newMergeIterator nxt view err its s = (m, s') \<and> merge_inv s' m \<and> frame s s' \<and>
    merge_todo s' m = (\<Sum>it \<in># mset its. mset (rest s it))"
proof -
  have h0: "minHeap_init [] = []" using minHeap.init_items [of "[]"] by simp
  have "mh.heap_ok s ([] @ its) []" using mh.heap_ok_empty h0 by simp
  from merge_seed_ok [OF this _ assms] obtain its' h' s' where
    "merge_seed nxt view err 0 its [] None s = (its', h', None, s')" "mh.heap_ok s' its' h'" "frame s s'"
    "mh.heap_recs s' its' h' = (\<Sum>it \<in># mset its. mset (rest s it))" by (auto simp: mh.heap_recs_def)
  then show ?thesis by (simp add: newMergeIterator_def h0 merge_inv_def cur_ok_def merge_todo_def)
qed

text \<open>Merging sorted iterators and draining the merge.\<close>

lemma merge_correct:
  assumes "\<forall>it \<in> set its. inv s it \<and> rec_sorted (rest s it)"
  shows "\<exists>m s1 rs m' s'. newMergeIterator nxt view err its s = (m, s1) \<and>
    iter_collect (merge_Next nxt view err) (merge_View view) m s1 = Some (rs, m', s') \<and>
    merge_Err m' = None \<and> rec_sorted rs \<and> mset rs = (\<Sum>it \<in># mset its. mset (rest s it)) \<and> frame s s'"
proof -
  from newMergeIterator_ok [OF assms] obtain m s1 where
    m: "newMergeIterator nxt view err its s = (m, s1)" "merge_inv s1 m" "frame s s1"
      "merge_todo s1 m = (\<Sum>it \<in># mset its. mset (rest s it))" by blast
  from merge_collect [OF m(2)] m frame_trans [OF m(3)] show ?thesis by metis
qed

end

end
