(* ===== verification/SSTScan.thy ===== *)
theory SSTScan
  imports SSTReader MergeIter
begin

text \<open>
  The scan of an SSTable reader. \<open>reads_as\<close> says which blocks of records a reader stands for, and
  \<open>cache_ok\<close> that every payload in the shared cache is what its block holds. Under them the row and
  the columnar iterator satisfy the laws of \<open>record_iterator\<close>: what they deliver depends on the
  blocks only, and never on the state of the cache.
\<close>

subsection \<open>What a reader stands for\<close>

definition freshPayload :: "codecs \<Rightarrow> sst_reader \<Rightarrow> file_sys \<Rightarrow> nat \<Rightarrow> (bytes \<times> nat) result" where
  "freshPayload cd r fs i = (case colBytes cd r fs i of Inl e \<Rightarrow> Inl e | Inr b \<Rightarrow> checkPayload b)"

definition block_recs :: "codecs \<Rightarrow> sst_reader \<Rightarrow> file_sys \<Rightarrow> nat \<Rightarrow> go_record list result" where
  "block_recs cd r fs i =
     (if r_columnar r then readColBlock cd r fs i
      else (case freshPayload cd r fs i of Inl e \<Rightarrow> Inl e | Inr (p, n) \<Rightarrow> parse_n p n 4))"

definition reads_as :: "codecs \<Rightarrow> sst_reader \<Rightarrow> file_sys \<Rightarrow> go_record list list \<Rightarrow> bool" where
  "reads_as cd r fs bs \<longleftrightarrow> length (r_timeIndex r) = length bs \<and>
     (\<forall>i < length bs. block_recs cd r fs i = Inr (bs ! i) \<and> bs ! i \<noteq> [] \<and>
        ti_minTimestamp (r_timeIndex r ! i) = Timestamp (hd (bs ! i))) \<and>
     rec_sorted (concat bs) \<and> distinct (map ti_offset (r_timeIndex r)) \<and>
     (sm_RecordCount (r_meta r) = 0 \<longleftrightarrow> bs = []) \<and>
     (bs \<noteq> [] \<longrightarrow> sm_MinTimestamp (r_meta r) = Timestamp (hd (concat bs)) \<and>
        sm_MaxTimestamp (r_meta r) = Timestamp (last (concat bs))) \<and>
     (case r_srcIndex r of None \<Rightarrow> True
      | Some m \<Rightarrow> (\<forall>k. map_of m k = None \<longleftrightarrow> k \<notin> SourceID ` set (concat bs)))"

text \<open>\<open>G\<close> is the reader that has been opened for a path; a path is opened once.\<close>

definition cache_ok :: "codecs \<Rightarrow> (path \<rightharpoonup> sst_reader) \<Rightarrow> store \<Rightarrow> bool" where
  "cache_ok cd G s \<longleftrightarrow> cache_inv (snd s) \<and>
     (\<forall>p off d. map_of (cache_abs (snd s)) (p, off) = Some d \<longrightarrow>
        (\<exists>r i n. G p = Some r \<and> i < length (r_timeIndex r) \<and> ti_offset (r_timeIndex r ! i) = off \<and>
           freshPayload cd r (fst s) i = Inr (d, n)))"

text \<open>\<^verbatim>\<open>len(sourceID) > 0\<close>: an empty source filter is no filter in an SSTable.\<close>

definition src_norm :: "bytes option \<Rightarrow> bytes option" where
  "src_norm src = (case src of Some [] \<Rightarrow> None | _ \<Rightarrow> src)"

definition ok_list :: "'a list result \<Rightarrow> 'a list" where
  "ok_list x = (case x of Inl _ \<Rightarrow> [] | Inr xs \<Rightarrow> xs)"

definition later_recs :: "codecs \<Rightarrow> sst_reader \<Rightarrow> file_sys \<Rightarrow> nat \<Rightarrow> go_record list" where
  "later_recs cd r fs i =
     concat (map (\<lambda>j. ok_list (block_recs cd r fs j)) [i..<length (r_timeIndex r)])"

lemma ok_list_Inr [simp]: "ok_list (Inr xs) = xs"
  by (simp add: ok_list_def)

lemma src_skip_match: "src_skip src v \<longleftrightarrow> \<not> src_match (src_norm src) v"
  by (auto simp: src_skip_def src_match_def src_norm_def split: option.splits list.splits)

lemma later_recs_Suc:
  assumes "reads_as cd r fs bs" "i < length bs"
  shows "later_recs cd r fs i = bs ! i @ later_recs cd r fs (Suc i)"
  using assms by (simp add: later_recs_def reads_as_def upt_conv_Cons)

lemma later_recs_drop:
  assumes "reads_as cd r fs bs"
  shows "later_recs cd r fs i = concat (drop i bs)"
proof -
  have "map (\<lambda>j. ok_list (block_recs cd r fs j)) [i..<length bs] = map ((!) bs) [i..<length bs]"
    using assms by (simp add: reads_as_def)
  also have "\<dots> = drop i bs"
    by (metis drop_map drop_upt map_nth plus_nat.add_0)
  finally show ?thesis using assms by (simp add: later_recs_def reads_as_def)
qed

lemma checkPayload_count:
  "checkPayload b = Inr (p, n) \<Longrightarrow> n = le_nat (take 4 p) \<and> \<not> length p < 4"
  by (auto simp: checkPayload_def split: sum.splits if_splits)

lemma freshPayload_count:
  "freshPayload cd r fs i = Inr (p, n) \<Longrightarrow> n = le_nat (take 4 p) \<and> \<not> length p < 4"
  by (auto simp: freshPayload_def split: sum.splits dest: checkPayload_count)

text \<open>A block read through the cache is the block of the file, and the cache stays right.\<close>

lemma readBlockRaw_ok:
  assumes "cache_ok cd G s" "G (sm_Path (r_meta r)) = Some r" "distinct (map ti_offset (r_timeIndex r))"
    "freshPayload cd r (fst s) i = Inr (p, n)"
  shows "\<exists>c. readBlockRaw cd r s i = (Inr (p, n), fst s, c) \<and> cache_ok cd G (fst s, c)"
proof -
  obtain buf where buf: "blockBytes r (fst s) i = Inr buf" and i: "i < length (r_timeIndex r)"
    using assms(4) by (auto simp: freshPayload_def colBytes_def blockBytes_def split: sum.splits if_splits)
  show ?thesis
  proof (cases "r_compressionType r = CompressionNone")
    case True
    then have "readBlockRaw cd r s i = (Inr (p, n), fst s, snd s)"
      using assms(4) buf by (simp add: readBlockRaw_def freshPayload_def colBytes_def)
    then show ?thesis using assms(1) by (intro exI [of _ "snd s"]) simp
  next
    case False
    then obtain d where d: "decompress cd (r_compressionType r) buf = Inr d" "checkPayload d = Inr (p, n)"
      using assms(4) buf by (auto simp: freshPayload_def colBytes_def split: sum.splits)
    let ?p = "sm_Path (r_meta r)" and ?off = "ti_offset (r_timeIndex r ! i)"
    show ?thesis
    proof (cases "r_cached r")
      case False
      then show ?thesis using \<open>r_compressionType r \<noteq> CompressionNone\<close> buf d assms(1)
        by (intro exI [of _ "snd s"]) (simp add: readBlockRaw_def Let_def)
    next
      case True
      have inv: "cache_inv (snd s)" using assms(1) by (simp add: cache_ok_def)
      show ?thesis
      proof (cases "map_of (cache_abs (snd s)) (?p, ?off)")
        case None
        then have "map_of (bc_items (snd s)) (?p, ?off) = None" by (simp add: map_of_cache_abs [OF inv])
        then have "readBlockRaw cd r s i = (Inr (p, n), fst s, cache_put (snd s) ?p ?off p)"
          using False True buf d by (simp add: readBlockRaw_def Let_def cache_get_def)
        moreover have "cache_inv (cache_put (snd s) ?p ?off p)"
          using cache_put_abs [OF inv, of ?p ?off p] by blast
        then have "cache_ok cd G (fst s, cache_put (snd s) ?p ?off p)"
          using assms i by (auto simp: cache_ok_def dest!: cache_put_lookup [OF inv])
        ultimately show ?thesis by blast
      next
        case (Some x)
        then have "map_of (bc_items (snd s)) (?p, ?off) = Some x" by (simp add: map_of_cache_abs [OF inv])
        then have g: "fst (cache_get (snd s) ?p ?off) = Some x" by (simp add: cache_get_def)
        from Some assms(1,2) obtain j m where j: "j < length (r_timeIndex r)"
          "ti_offset (r_timeIndex r ! j) = ?off" "freshPayload cd r (fst s) j = Inr (x, m)"
          by (force simp: cache_ok_def)
        then have "j = i" using assms(3) i by (auto simp: distinct_conv_nth)
        then have x: "x = p" "le_nat (take 4 p) = n" "\<not> length p < 4"
          using j(3) assms(4) freshPayload_count [of cd r "fst s" i p n] by auto
        have "readBlockRaw cd r s i = (Inr (p, n), fst s, snd (cache_get (snd s) ?p ?off))"
          using False True buf g x
          by (cases "cache_get (snd s) ?p ?off") (simp add: readBlockRaw_def Let_def)
        moreover have "cache_inv (snd (cache_get (snd s) ?p ?off))"
          using cache_get_abs [OF inv, of ?p ?off] by blast
        then have "cache_ok cd G (fst s, snd (cache_get (snd s) ?p ?off))"
          using assms(1) cache_get_lookup [OF inv] by (simp add: cache_ok_def)
        ultimately show ?thesis by blast
      qed
    qed
  qed
qed

subsection \<open>The row iterator\<close>

definition row_todo :: "codecs \<Rightarrow> store \<Rightarrow> scan_iter \<Rightarrow> go_record list" where
  "row_todo cd s it = ok_list (parse_n (si_blockData it) (si_blockRem it) (si_blockOff it)) @
     later_recs cd (si_r it) (fst s) (Suc (si_blockIdx it))"

definition row_rest :: "codecs \<Rightarrow> store \<Rightarrow> scan_iter \<Rightarrow> go_record list" where
  "row_rest cd s it = query (si_start it) (si_end it) (src_norm (si_sourceID it)) (row_todo cd s it)"

definition row_inv :: "codecs \<Rightarrow> (path \<rightharpoonup> sst_reader) \<Rightarrow> store \<Rightarrow> scan_iter \<Rightarrow> bool" where
  "row_inv cd G s it \<longleftrightarrow> cache_ok cd G s \<and> G (sm_Path (r_meta (si_r it))) = Some (si_r it) \<and>
     \<not> r_columnar (si_r it) \<and> si_err it = None \<and> (\<exists>bs. reads_as cd (si_r it) (fst s) bs) \<and>
     si_blockIdx it < length (r_timeIndex (si_r it)) \<and>
     (\<exists>xs. parse_n (si_blockData it) (si_blockRem it) (si_blockOff it) = Inr xs) \<and>
     rec_sorted (row_todo cd s it)"

lemma query_past:
  "rec_sorted (x # xs) \<Longrightarrow> t1 \<le> Timestamp x \<Longrightarrow> query t0 t1 src (x # xs) = []"
  by (force simp: query_def filter_empty_conv in_range_def dest: rkey_le_ts)

lemma row_inv_parse:
  assumes "row_inv cd G s it" "si_blockRem it > 0"
  obtains v off where "parseRecordAt (si_blockData it) (si_blockOff it) = Inr (v, off)"
    "row_todo cd s it = v # row_todo cd s (it\<lparr>si_blockOff := off, si_blockRem := si_blockRem it - 1\<rparr>)"
    "row_inv cd G s (it\<lparr>si_blockOff := off, si_blockRem := si_blockRem it - 1\<rparr>)"
proof -
  obtain n where n: "si_blockRem it = Suc n" using assms(2) by (cases "si_blockRem it") auto
  obtain xs where "parse_n (si_blockData it) (Suc n) (si_blockOff it) = Inr xs"
    using assms(1) n by (auto simp: row_inv_def)
  then obtain v off ys where p: "parseRecordAt (si_blockData it) (si_blockOff it) = Inr (v, off)"
    "parse_n (si_blockData it) n off = Inr ys" "xs = v # ys"
    by (auto split: sum.splits)
  then have "row_todo cd s it = v # row_todo cd s (it\<lparr>si_blockOff := off, si_blockRem := si_blockRem it - 1\<rparr>)"
    using n by (simp add: row_todo_def)
  with p assms(1) n that show ?thesis by (auto simp: row_inv_def)
qed

lemma row_inv_block:
  assumes "row_inv cd G s it" "si_blockRem it = 0"
    "Suc (si_blockIdx it) < length (r_timeIndex (si_r it))"
  obtains p n c xs x ys where
    "readBlockRaw cd (si_r it) s (Suc (si_blockIdx it)) = (Inr (p, n), fst s, c)"
    "row_todo cd s it = row_todo cd (fst s, c) (it\<lparr>si_blockIdx := Suc (si_blockIdx it),
       si_blockData := p, si_blockOff := 4, si_blockRem := n\<rparr>)"
    "row_inv cd G (fst s, c) (it\<lparr>si_blockIdx := Suc (si_blockIdx it),
       si_blockData := p, si_blockOff := 4, si_blockRem := n\<rparr>)"
    "row_todo cd s it = x # ys"
    "ti_minTimestamp (r_timeIndex (si_r it) ! Suc (si_blockIdx it)) = Timestamp x"
proof -
  note inv = assms(1) [unfolded row_inv_def]
  let ?i = "Suc (si_blockIdx it)"
  from inv obtain bs where bs: "reads_as cd (si_r it) (fst s) bs" by blast
  with assms(3) inv have i: "?i < length bs" "block_recs cd (si_r it) (fst s) ?i = Inr (bs ! ?i)"
    "bs ! ?i \<noteq> []" "ti_minTimestamp (r_timeIndex (si_r it) ! ?i) = Timestamp (hd (bs ! ?i))"
    by (simp_all add: reads_as_def)
  then obtain p n where pn: "freshPayload cd (si_r it) (fst s) ?i = Inr (p, n)" "parse_n p n 4 = Inr (bs ! ?i)"
    using inv by (auto simp: block_recs_def split: sum.splits)
  have "distinct (map ti_offset (r_timeIndex (si_r it)))" using bs by (simp add: reads_as_def)
  from readBlockRaw_ok [OF _ _ this pn(1), of G] inv obtain c where
    c: "readBlockRaw cd (si_r it) s ?i = (Inr (p, n), fst s, c)" "cache_ok cd G (fst s, c)" by blast
  have todo: "row_todo cd s it = bs ! ?i @ later_recs cd (si_r it) (fst s) (Suc ?i)"
    using assms(2) later_recs_Suc [OF bs i(1)] by (simp add: row_todo_def)
  then have eq: "row_todo cd s it = row_todo cd (fst s, c) (it\<lparr>si_blockIdx := ?i,
      si_blockData := p, si_blockOff := 4, si_blockRem := n\<rparr>)"
    using pn(2) by (simp add: row_todo_def)
  moreover have "row_inv cd G (fst s, c) (it\<lparr>si_blockIdx := ?i,
      si_blockData := p, si_blockOff := 4, si_blockRem := n\<rparr>)"
    using inv c(2) bs pn(2) assms(3) eq by (auto simp: row_inv_def)
  moreover obtain x ys where "row_todo cd s it = x # ys" "x = hd (bs ! ?i)"
    using todo i(3) by (cases "bs ! ?i") auto
  ultimately show ?thesis using that c(1) i(4) by blast
qed

lemma row_todo_done:
  assumes "row_inv cd G s it" "si_blockRem it = 0"
    "length (r_timeIndex (si_r it)) \<le> Suc (si_blockIdx it)"
  shows "row_todo cd s it = []"
  using assms by (simp add: row_todo_def later_recs_def)

lemma row_fields [simp]:
  "row_todo cd s (it\<lparr>si_current := v\<rparr>) = row_todo cd s it"
  "row_rest cd s (it\<lparr>si_current := v\<rparr>) = row_rest cd s it"
  "row_inv cd G s (it\<lparr>si_current := v\<rparr>) = row_inv cd G s it"
  by (simp_all add: row_todo_def row_rest_def row_inv_def)

text \<open>What one call of \<^verbatim>\<open>Next\<close> does, in the form that both iterators have.\<close>

definition next_spec :: "('it \<Rightarrow> go_record) \<Rightarrow> ('it \<Rightarrow> go_error option) \<Rightarrow> (store \<Rightarrow> 'it \<Rightarrow> go_record list) \<Rightarrow>
    (store \<Rightarrow> 'it \<Rightarrow> bool) \<Rightarrow> (store \<Rightarrow> bool) \<Rightarrow> store \<Rightarrow> go_record list \<Rightarrow> bool \<times> 'it \<times> store \<Rightarrow> bool" where
  "next_spec view err rest I ok s todo res = (case res of (b, it', s') \<Rightarrow>
     fst s' = fst s \<and> ok s' \<and> err it' = None \<and>
     (case todo of [] \<Rightarrow> \<not> b | r # rs \<Rightarrow> b \<and> view it' = r \<and> rest s' it' = rs \<and> I s' it'))"

lemma next_spec_done:
  "ok s \<Longrightarrow> err it' = None \<Longrightarrow> todo = [] \<Longrightarrow> next_spec view err rest I ok s todo (False, it', s)"
  by (simp add: next_spec_def)

lemma next_spec_fst: "next_spec view err rest I ok (fst s, c) todo res = next_spec view err rest I ok s todo res"
  by (simp add: next_spec_def)

lemma scan_Next_spec:
  "row_inv cd G s it \<Longrightarrow> next_spec si_current si_err (row_rest cd) (row_inv cd G) (cache_ok cd G) s
     (row_rest cd s it) (scan_Next cd it s)"
proof (induction cd it s rule: scan_Next.induct)
  case (1 cd it s)
  have ok: "cache_ok cd G s" "si_err it = None" using "1.prems" by (auto simp: row_inv_def)
  show ?case
  proof (cases "si_blockRem it > 0")
    case True
    from row_inv_parse [OF "1.prems" True] obtain v off where
      p: "parseRecordAt (si_blockData it) (si_blockOff it) = Inr (v, off)" and
      q: "row_todo cd s it = v # row_todo cd s (it\<lparr>si_blockOff := off, si_blockRem := si_blockRem it - 1\<rparr>)"
        "row_inv cd G s (it\<lparr>si_blockOff := off, si_blockRem := si_blockRem it - 1\<rparr>)" by blast
    let ?it = "it\<lparr>si_blockOff := off, si_blockRem := si_blockRem it - 1\<rparr>"
    have rest: "row_rest cd s it = (if in_range (si_start it) (si_end it) v \<and>
        \<not> src_skip (si_sourceID it) v then v # row_rest cd s ?it else row_rest cd s ?it)"
      by (simp add: row_rest_def q(1) src_skip_match)
    have sorted: "rec_sorted (row_todo cd s it)" using "1.prems" by (simp add: row_inv_def)
    consider "si_end it \<le> Timestamp v" | "Timestamp v < si_end it" "Timestamp v < si_start it"
      | "Timestamp v < si_end it" "\<not> Timestamp v < si_start it" "src_skip (si_sourceID it) v"
      | "Timestamp v < si_end it" "\<not> Timestamp v < si_start it" "\<not> src_skip (si_sourceID it) v"
      by linarith
    then show ?thesis
    proof cases
      case 1
      then have "row_rest cd s it = []"
        unfolding row_rest_def q(1) using sorted q(1) by (intro query_past) simp_all
      then show ?thesis using 1 True p ok
        by (subst scan_Next.simps) (simp add: Let_def next_spec_done)
    next
      case 2
      then show ?thesis using "1.IH"(1) [OF True p refl refl] True p q(2) rest
        by (subst scan_Next.simps) (simp add: Let_def in_range_def)
    next
      case 3
      then show ?thesis using "1.IH"(2) [OF True p refl refl] True p q(2) rest
        by (subst scan_Next.simps) (simp add: Let_def in_range_def)
    next
      case 4
      then show ?thesis using True p q(2) rest ok
        by (subst scan_Next.simps) (simp add: Let_def in_range_def next_spec_def)
    qed
  next
    case False
    then have rem: "si_blockRem it = 0" by simp
    show ?thesis
    proof (cases "length (r_timeIndex (si_r it)) \<le> Suc (si_blockIdx it)")
      case True
      then show ?thesis using rem ok row_todo_done [OF "1.prems" rem True]
        by (subst scan_Next.simps) (simp add: next_spec_done row_rest_def)
    next
      case more: False
      then have "Suc (si_blockIdx it) < length (r_timeIndex (si_r it))" by simp
      from row_inv_block [OF "1.prems" rem this] obtain p n c x ys where
        b: "readBlockRaw cd (si_r it) s (Suc (si_blockIdx it)) = (Inr (p, n), fst s, c)"
          "row_todo cd s it = row_todo cd (fst s, c) (it\<lparr>si_blockIdx := Suc (si_blockIdx it),
             si_blockData := p, si_blockOff := 4, si_blockRem := n\<rparr>)"
          "row_inv cd G (fst s, c) (it\<lparr>si_blockIdx := Suc (si_blockIdx it),
             si_blockData := p, si_blockOff := 4, si_blockRem := n\<rparr>)"
          "row_todo cd s it = x # ys"
          "ti_minTimestamp (r_timeIndex (si_r it) ! Suc (si_blockIdx it)) = Timestamp x" by metis
      show ?thesis
      proof (cases "si_end it \<le> Timestamp x")
        case True
        have "row_rest cd s it = []"
          unfolding row_rest_def b(4) using True "1.prems" b(4)
          by (intro query_past) (simp_all add: row_inv_def)
        then show ?thesis using rem more ok b True
          by (subst scan_Next.simps) (simp add: next_spec_done)
      next
        case False
        let ?it = "it\<lparr>si_blockIdx := Suc (si_blockIdx it)\<rparr>"
        have "row_rest cd s it = row_rest cd (fst s, c) (it\<lparr>si_blockIdx := Suc (si_blockIdx it),
             si_blockData := p, si_blockOff := 4, si_blockRem := n\<rparr>)"
          by (simp add: row_rest_def b(2))
        then show ?thesis
          using "1.IH"(3) [of ?it "readBlockRaw cd (si_r it) s (Suc (si_blockIdx it))" "(p, n)" p n]
            rem more b False
          by (subst scan_Next.simps) (simp add: Let_def next_spec_fst)
      qed
    qed
  qed
qed

subsection \<open>The columnar iterator\<close>

definition col_todo :: "codecs \<Rightarrow> store \<Rightarrow> col_iter \<Rightarrow> go_record list" where
  "col_todo cd s it = drop (ci_recIdx it) (ci_blockRecs it) @
     later_recs cd (ci_r it) (fst s) (Suc (ci_blockIdx it))"

definition col_rest :: "codecs \<Rightarrow> store \<Rightarrow> col_iter \<Rightarrow> go_record list" where
  "col_rest cd s it = query (ci_start it) (ci_end it) (src_norm (ci_sourceID it)) (col_todo cd s it)"

definition col_inv :: "codecs \<Rightarrow> (path \<rightharpoonup> sst_reader) \<Rightarrow> store \<Rightarrow> col_iter \<Rightarrow> bool" where
  "col_inv cd G s it \<longleftrightarrow> cache_ok cd G s \<and> G (sm_Path (r_meta (ci_r it))) = Some (ci_r it) \<and>
     r_columnar (ci_r it) \<and> ci_err it = None \<and>
     (\<exists>bs. reads_as cd (ci_r it) (fst s) bs) \<and>
     ci_blockIdx it < length (r_timeIndex (ci_r it)) \<and> rec_sorted (col_todo cd s it)"

lemma col_fields [simp]:
  "col_todo cd s (it\<lparr>ci_current := v\<rparr>) = col_todo cd s it"
  "col_rest cd s (it\<lparr>ci_current := v\<rparr>) = col_rest cd s it"
  "col_inv cd G s (it\<lparr>ci_current := v\<rparr>) = col_inv cd G s it"
  by (simp_all add: col_todo_def col_rest_def col_inv_def)

lemma col_step:
  assumes "col_inv cd G s it" "ci_recIdx it < length (ci_blockRecs it)"
  defines "v \<equiv> ci_blockRecs it ! ci_recIdx it" and "it1 \<equiv> it\<lparr>ci_recIdx := Suc (ci_recIdx it)\<rparr>"
  shows "col_todo cd s it = v # col_todo cd s it1" "col_inv cd G s it1"
proof -
  show "col_todo cd s it = v # col_todo cd s it1"
    using assms(2) by (simp add: v_def it1_def col_todo_def Cons_nth_drop_Suc)
  then show "col_inv cd G s it1" using assms(1) by (simp add: col_inv_def it1_def)
qed

lemma col_block:
  assumes "col_inv cd G s it" "\<not> ci_recIdx it < length (ci_blockRecs it)"
    "Suc (ci_blockIdx it) < length (r_timeIndex (ci_r it))"
  obtains b x ys where "readColBlock cd (ci_r it) (fst s) (Suc (ci_blockIdx it)) = Inr b"
    "col_todo cd s it = col_todo cd s (it\<lparr>ci_blockIdx := Suc (ci_blockIdx it),
       ci_blockRecs := b, ci_recIdx := 0\<rparr>)"
    "col_inv cd G s (it\<lparr>ci_blockIdx := Suc (ci_blockIdx it), ci_blockRecs := b, ci_recIdx := 0\<rparr>)"
    "col_todo cd s it = x # ys"
    "ti_minTimestamp (r_timeIndex (ci_r it) ! Suc (ci_blockIdx it)) = Timestamp x"
proof -
  note inv = assms(1) [unfolded col_inv_def]
  let ?i = "Suc (ci_blockIdx it)"
  from inv obtain bs where bs: "reads_as cd (ci_r it) (fst s) bs" by blast
  with assms(3) inv have i: "?i < length bs" "readColBlock cd (ci_r it) (fst s) ?i = Inr (bs ! ?i)"
    "bs ! ?i \<noteq> []" "ti_minTimestamp (r_timeIndex (ci_r it) ! ?i) = Timestamp (hd (bs ! ?i))"
    by (simp_all add: reads_as_def block_recs_def)
  have todo: "col_todo cd s it = bs ! ?i @ later_recs cd (ci_r it) (fst s) (Suc ?i)"
    using assms(2) later_recs_Suc [OF bs i(1)] by (simp add: col_todo_def)
  let ?it = "it\<lparr>ci_blockIdx := ?i, ci_blockRecs := bs ! ?i, ci_recIdx := 0\<rparr>"
  have eq: "col_todo cd s it = col_todo cd s ?it" using todo by (simp add: col_todo_def)
  moreover have "col_inv cd G s ?it"
    using inv bs assms(3) eq by (auto simp: col_inv_def)
  moreover obtain x ys where "col_todo cd s it = x # ys" "x = hd (bs ! ?i)"
    using todo i(3) by (cases "bs ! ?i") auto
  ultimately show ?thesis using that i by blast
qed

lemma col_Next_spec:
  "col_inv cd G s it \<Longrightarrow> next_spec ci_current ci_err (col_rest cd) (col_inv cd G) (cache_ok cd G) s
     (col_rest cd s it) (col_Next cd it s)"
proof (induction cd it s rule: col_Next.induct)
  case (1 cd it s)
  have ok: "cache_ok cd G s" "ci_err it = None" "rec_sorted (col_todo cd s it)"
    using "1.prems" by (auto simp: col_inv_def)
  show ?case
  proof (cases "ci_recIdx it < length (ci_blockRecs it)")
    case True
    let ?v = "ci_blockRecs it ! ci_recIdx it" and ?it = "it\<lparr>ci_recIdx := Suc (ci_recIdx it)\<rparr>"
    note q = col_step [OF "1.prems" True]
    have rest: "col_rest cd s it = (if in_range (ci_start it) (ci_end it) ?v \<and>
        \<not> src_skip (ci_sourceID it) ?v then ?v # col_rest cd s ?it else col_rest cd s ?it)"
      by (simp add: col_rest_def q(1) src_skip_match)
    consider "ci_end it \<le> Timestamp ?v" | "Timestamp ?v < ci_end it" "Timestamp ?v < ci_start it"
      | "Timestamp ?v < ci_end it" "\<not> Timestamp ?v < ci_start it" "src_skip (ci_sourceID it) ?v"
      | "Timestamp ?v < ci_end it" "\<not> Timestamp ?v < ci_start it" "\<not> src_skip (ci_sourceID it) ?v"
      by linarith
    then show ?thesis
    proof cases
      case 1
      then have "col_rest cd s it = []"
        unfolding col_rest_def q(1) using ok(3) q(1) by (intro query_past) simp_all
      then show ?thesis using 1 True ok
        by (subst col_Next.simps) (simp add: Let_def next_spec_done)
    next
      case 2
      then show ?thesis using "1.IH"(1) [OF True refl refl] True q(2) rest
        by (subst col_Next.simps) (simp add: Let_def in_range_def)
    next
      case 3
      then show ?thesis using "1.IH"(2) [OF True refl refl] True q(2) rest
        by (subst col_Next.simps) (simp add: Let_def in_range_def)
    next
      case 4
      then show ?thesis using True q(2) rest ok
        by (subst col_Next.simps) (simp add: Let_def in_range_def next_spec_def)
    qed
  next
    case fin: False
    show ?thesis
    proof (cases "length (r_timeIndex (ci_r it)) \<le> Suc (ci_blockIdx it)")
      case True
      then have "col_todo cd s it = []" using fin by (simp add: col_todo_def later_recs_def)
      then show ?thesis using fin ok True
        by (subst col_Next.simps) (simp add: next_spec_done col_rest_def)
    next
      case more: False
      then have "Suc (ci_blockIdx it) < length (r_timeIndex (ci_r it))" by simp
      from col_block [OF "1.prems" fin this] obtain b x ys where
        b: "readColBlock cd (ci_r it) (fst s) (Suc (ci_blockIdx it)) = Inr b"
          "col_todo cd s it = col_todo cd s (it\<lparr>ci_blockIdx := Suc (ci_blockIdx it),
             ci_blockRecs := b, ci_recIdx := 0\<rparr>)"
          "col_inv cd G s (it\<lparr>ci_blockIdx := Suc (ci_blockIdx it), ci_blockRecs := b, ci_recIdx := 0\<rparr>)"
          "col_todo cd s it = x # ys"
          "ti_minTimestamp (r_timeIndex (ci_r it) ! Suc (ci_blockIdx it)) = Timestamp x" by metis
      show ?thesis
      proof (cases "ci_end it \<le> Timestamp x")
        case True
        have "col_rest cd s it = []"
          unfolding col_rest_def b(4) using True ok(3) b(4) by (intro query_past) simp_all
        then show ?thesis using fin more ok b True
          by (subst col_Next.simps) (simp add: next_spec_done)
      next
        case False
        have "col_rest cd s it = col_rest cd s (it\<lparr>ci_blockIdx := Suc (ci_blockIdx it),
             ci_blockRecs := b, ci_recIdx := 0\<rparr>)"
          by (simp add: col_rest_def b(2))
        then show ?thesis
          using "1.IH"(3) [of "it\<lparr>ci_blockIdx := Suc (ci_blockIdx it)\<rparr>" b] fin more b False
          by (subst col_Next.simps) (simp add: Let_def)
      qed
    qed
  qed
qed

subsection \<open>The iterators behind \<^verbatim>\<open>record.Iterator\<close>\<close>

fun sst_rest :: "codecs \<Rightarrow> store \<Rightarrow> sst_iter \<Rightarrow> go_record list" where
  "sst_rest cd s EmptyIter = []"
| "sst_rest cd s (ScanIter it) = row_rest cd s it"
| "sst_rest cd s (ColScanIter it) = col_rest cd s it"

fun sst_inv :: "codecs \<Rightarrow> (path \<rightharpoonup> sst_reader) \<Rightarrow> store \<Rightarrow> sst_iter \<Rightarrow> bool" where
  "sst_inv cd G s EmptyIter = cache_ok cd G s"
| "sst_inv cd G s (ScanIter it) = row_inv cd G s it"
| "sst_inv cd G s (ColScanIter it) = col_inv cd G s it"

lemma sst_Next_spec:
  assumes "sst_inv cd G s it"
  shows "next_spec sst_View sst_Err (sst_rest cd) (sst_inv cd G) (cache_ok cd G) s
    (sst_rest cd s it) (sst_Next cd it s)"
proof (cases it)
  case EmptyIter
  then show ?thesis using assms by (simp add: next_spec_def)
next
  case (ScanIter x)
  then show ?thesis using scan_Next_spec [of cd G s x] assms
    by (auto simp: next_spec_def split: prod.splits list.splits)
next
  case (ColScanIter x)
  then show ?thesis using col_Next_spec [of cd G s x] assms
    by (auto simp: next_spec_def split: prod.splits list.splits)
qed

lemma sst_inv_store:
  assumes "sst_inv cd G s it" "fst s' = fst s" "cache_ok cd G s'"
  shows "sst_inv cd G s' it \<and> sst_rest cd s' it = sst_rest cd s it"
  using assms by (cases it) (auto simp: row_inv_def col_inv_def row_rest_def col_rest_def
      row_todo_def col_todo_def)

text \<open>
  What readers and iterators stand for depends on the contents of the files of the opened readers
  only: changes elsewhere in the file system do not matter.
\<close>

definition same_file :: "inode \<Rightarrow> file_sys \<Rightarrow> file_sys \<Rightarrow> bool" where
  "same_file i fs fs' \<longleftrightarrow> fs_data fs' i = fs_data fs i \<and> fs_bad fs' i = fs_bad fs i"

definition same_files :: "(path \<rightharpoonup> sst_reader) \<Rightarrow> file_sys \<Rightarrow> file_sys \<Rightarrow> bool" where
  "same_files G fs fs' \<longleftrightarrow> (\<forall>p r. G p = Some r \<longrightarrow> same_file (r_file r) fs fs')"

lemma same_files_refl [simp]: "same_files G fs fs"
  by (simp add: same_files_def same_file_def)

lemma same_files_trans: "same_files G fs fs1 \<Longrightarrow> same_files G fs1 fs2 \<Longrightarrow> same_files G fs fs2"
  by (auto simp: same_files_def same_file_def)

lemma colBytes_same:
  assumes "same_file (r_file r) fs fs'"
  shows "colBytes cd r fs' i = colBytes cd r fs i"
proof -
  have d: "fs_data fs' (r_file r) = fs_data fs (r_file r)" "fs_bad fs' (r_file r) = fs_bad fs (r_file r)"
    using assms by (simp_all add: same_file_def)
  have "blockBytes r fs' i = blockBytes r fs i"
    by (simp only: blockBytes_def file_ReadAt_def read_at_def d)
  then show ?thesis by (simp add: colBytes_def)
qed

lemma block_recs_same:
  "same_file (r_file r) fs fs' \<Longrightarrow> block_recs cd r fs' i = block_recs cd r fs i"
  "same_file (r_file r) fs fs' \<Longrightarrow> freshPayload cd r fs' i = freshPayload cd r fs i"
  by (simp_all add: block_recs_def freshPayload_def readColBlock_def colBytes_same)

lemma reads_as_same: "same_file (r_file r) fs fs' \<Longrightarrow> reads_as cd r fs' bs = reads_as cd r fs bs"
  by (simp add: reads_as_def block_recs_same)

lemma cache_ok_same:
  assumes "cache_ok cd G (fs, c)" "same_files G fs fs'"
  shows "cache_ok cd G (fs', c)"
proof -
  have "freshPayload cd r fs' i = freshPayload cd r fs i" if "G p = Some r" for p r i
    using assms(2) that by (intro block_recs_same(2)) (auto simp: same_files_def)
  then show ?thesis using assms(1) by (fastforce simp: cache_ok_def)
qed

lemma sst_inv_same:
  assumes "sst_inv cd G (fs, c) it" "same_files G fs fs'"
  shows "sst_inv cd G (fs', c) it \<and> sst_rest cd (fs', c) it = sst_rest cd (fs, c) it"
proof (cases it)
  case EmptyIter
  then show ?thesis using assms cache_ok_same by simp
next
  case (ScanIter x)
  then have r: "same_file (r_file (si_r x)) fs fs'" "cache_ok cd G (fs', c)"
    using assms cache_ok_same by (auto simp: row_inv_def same_files_def)
  show ?thesis using assms(1) ScanIter r(2) reads_as_same [OF r(1)] block_recs_same [OF r(1)]
    by (simp add: row_inv_def row_rest_def row_todo_def later_recs_def)
next
  case (ColScanIter x)
  then have r: "same_file (r_file (ci_r x)) fs fs'" "cache_ok cd G (fs', c)"
    using assms cache_ok_same by (auto simp: col_inv_def same_files_def)
  show ?thesis using assms(1) ColScanIter r(2) reads_as_same [OF r(1)] block_recs_same [OF r(1)]
    by (simp add: col_inv_def col_rest_def col_todo_def later_recs_def)
qed

interpretation sst: record_iterator "sst_Next cd" sst_View sst_Err "sst_rest cd" "sst_inv cd G" for cd G
proof
  fix s it
  assume "sst_inv cd G s it" "sst_rest cd s it = []"
  then show "\<exists>it' s'. sst_Next cd it s = (False, it', s') \<and> sst_Err it' = None"
    using sst_Next_spec [of cd G s it] by (auto simp: next_spec_def split: prod.splits)
next
  fix s it r rs
  assume "sst_inv cd G s it" "sst_rest cd s it = r # rs"
  then show "\<exists>it' s'. sst_Next cd it s = (True, it', s') \<and> sst_View it' = r \<and>
      sst_rest cd s' it' = rs \<and> sst_inv cd G s' it'"
    using sst_Next_spec [of cd G s it] by (auto simp: next_spec_def split: prod.splits)
next
  fix s it b it' s' it2
  assume "sst_inv cd G s it" "sst_Next cd it s = (b, it', s')" "sst_inv cd G s it2"
  then show "sst_inv cd G s' it2 \<and> sst_rest cd s' it2 = sst_rest cd s it2"
    using sst_Next_spec [of cd G s it] by (intro sst_inv_store) (auto simp: next_spec_def)
qed

subsection \<open>\<^verbatim>\<open>Scan\<close>\<close>

lemma startBlock_less: "r_timeIndex r \<noteq> [] \<Longrightarrow> startBlock r t < length (r_timeIndex r)"
  using sort_search_le [of "length (r_timeIndex r)" "\<lambda>i. t < ti_minTimestamp (r_timeIndex r ! i)"]
  by (auto simp: startBlock_def Let_def)

lemma startBlock_bound: "reads_as cd r fs bs \<Longrightarrow> bs \<noteq> [] \<Longrightarrow> startBlock r t < length bs"
  using startBlock_less [of r t] by (cases "r_timeIndex r = []") (auto simp: reads_as_def)

lemma query_none: "\<forall>x \<in> set rs. \<not> (in_range t0 t1 x \<and> src_match src x) \<Longrightarrow> query t0 t1 src rs = []"
  by (simp add: query_def filter_empty_conv)

lemma rec_sorted_bounds:
  assumes "rec_sorted rs" "x \<in> set rs"
  shows "Timestamp (hd rs) \<le> Timestamp x" "Timestamp x \<le> Timestamp (last rs)"
proof -
  obtain i where i: "i < length rs" "rs ! i = x" using assms(2) by (auto simp: in_set_conv_nth)
  then have "rs \<noteq> []" by auto
  then show "Timestamp (hd rs) \<le> Timestamp x" "Timestamp x \<le> Timestamp (last rs)"
    using i rec_sorted_ts_nth_mono [OF assms(1), of 0 i]
      rec_sorted_ts_nth_mono [OF assms(1), of i "length rs - 1"]
    by (auto simp: hd_conv_nth last_conv_nth)
qed

text \<open>The cases in which \<^verbatim>\<open>Scan\<close> returns the empty iterator.\<close>

lemma Scan_empty_cases:
  assumes "reads_as cd r fs bs"
    "sm_RecordCount (r_meta r) = 0 \<or> sm_MaxTimestamp (r_meta r) < t0 \<or> sm_MinTimestamp (r_meta r) \<ge> t1 \<or>
     (case (src, r_srcIndex r) of (Some k, Some index) \<Rightarrow> k \<noteq> [] \<and> map_of index k = None | _ \<Rightarrow> False)"
  shows "query t0 t1 (src_norm src) (concat bs) = []"
proof (cases "bs = []")
  case False
  note ra = assms(1) [unfolded reads_as_def]
  have b: "Timestamp (hd (concat bs)) \<le> Timestamp x" "Timestamp x \<le> Timestamp (last (concat bs))"
    if "x \<in> set (concat bs)" for x
    using rec_sorted_bounds [OF _ that] ra by auto
  from assms(2) consider "sm_MaxTimestamp (r_meta r) < t0" | "sm_MinTimestamp (r_meta r) \<ge> t1"
    | k index where "src = Some k" "k \<noteq> []" "r_srcIndex r = Some index" "map_of index k = None"
    using False ra by (auto split: option.splits)
  then show ?thesis
  proof cases
    case 1
    then show ?thesis using False ra b by (intro query_none) (force simp: in_range_def)
  next
    case 2
    then show ?thesis using False ra b by (intro query_none) (force simp: in_range_def)
  next
    case 3
    then have "src_norm src = Some k" by (simp add: src_norm_def split: list.split)
    then show ?thesis using 3 ra by (intro query_none) (force simp: src_match_def)
  qed
qed simp

lemma reader_Scan_ok:
  assumes "reads_as cd r (fst s) bs" "cache_ok cd G s" "G (sm_Path (r_meta r)) = Some r"
  shows "\<exists>it c. reader_Scan cd r t0 t1 src s = (Inr it, fst s, c) \<and> cache_ok cd G (fst s, c) \<and>
    sst_inv cd G (fst s, c) it \<and>
    sst_rest cd (fst s, c) it = query t0 t1 (src_norm src) (concat (drop (startBlock r t0) bs))"
proof (cases "sm_RecordCount (r_meta r) = 0 \<or> sm_MaxTimestamp (r_meta r) < t0 \<or>
    sm_MinTimestamp (r_meta r) \<ge> t1 \<or>
    (case (src, r_srcIndex r) of (Some k, Some index) \<Rightarrow> k \<noteq> [] \<and> map_of index k = None | _ \<Rightarrow> False)")
  case True
  have "query t0 t1 (src_norm src) (concat (take (startBlock r t0) bs) @
      concat (drop (startBlock r t0) bs)) = []"
    using Scan_empty_cases [OF assms(1) True] by (simp flip: concat_append del: query_simps)
  then have "query t0 t1 (src_norm src) (concat (drop (startBlock r t0) bs)) = []" by simp
  then show ?thesis using True assms(2) unfolding reader_Scan_def
    by (intro exI [of _ EmptyIter] exI [of _ "snd s"]) auto
next
  case False
  note ra = assms(1) [unfolded reads_as_def]
  let ?sb = "startBlock r t0"
  have sb: "?sb < length bs" using startBlock_bound [OF assms(1)] False ra by blast
  have later: "later_recs cd r (fst s) (Suc ?sb) = concat (drop (Suc ?sb) bs)"
    by (rule later_recs_drop [OF assms(1)])
  have cat: "bs ! ?sb @ concat (drop (Suc ?sb) bs) = concat (drop ?sb bs)"
    using Cons_nth_drop_Suc [OF sb] by (metis concat.simps(2))
  have "rec_sorted (concat (take ?sb bs) @ concat (drop ?sb bs))" using ra by (simp flip: concat_append)
  then have srt: "rec_sorted (concat (drop ?sb bs))" by (simp add: rec_sorted_append)
  have blk: "block_recs cd r (fst s) ?sb = Inr (bs ! ?sb)" using ra sb by simp
  show ?thesis
  proof (cases "r_columnar r")
    case True
    let ?it = "\<lparr>ci_r = r, ci_start = t0, ci_end = t1, ci_sourceID = src, ci_blockIdx = ?sb,
      ci_blockRecs = bs ! ?sb, ci_recIdx = 0, ci_current = zero_record, ci_err = None\<rparr>"
    have todo: "col_todo cd s ?it = concat (drop ?sb bs)" by (simp add: col_todo_def later cat)
    have "reader_Scan cd r t0 t1 src s = (Inr (ColScanIter ?it), fst s, snd s)"
      using False True blk by (auto simp: reader_Scan_def block_recs_def Let_def)
    moreover have "col_inv cd G s ?it"
      using assms True sb srt ra todo by (auto simp: col_inv_def)
    ultimately show ?thesis using assms(2) todo
      by (intro exI [of _ "ColScanIter ?it"] exI [of _ "snd s"]) (simp add: col_rest_def)
  next
    case row: False
    from blk row obtain p n where pn: "freshPayload cd r (fst s) ?sb = Inr (p, n)"
      "parse_n p n 4 = Inr (bs ! ?sb)" by (auto simp: block_recs_def split: sum.splits)
    from readBlockRaw_ok [OF assms(2,3) _ pn(1)] ra obtain c where
      c: "readBlockRaw cd r s ?sb = (Inr (p, n), fst s, c)" "cache_ok cd G (fst s, c)" by blast
    let ?it = "\<lparr>si_r = r, si_start = t0, si_end = t1, si_sourceID = src, si_blockIdx = ?sb,
      si_blockData = p, si_blockOff = 4, si_blockRem = n, si_current = zero_record, si_err = None\<rparr>"
    have todo: "row_todo cd (fst s, c) ?it = concat (drop ?sb bs)"
      by (simp add: row_todo_def later cat pn(2))
    have "reader_Scan cd r t0 t1 src s = (Inr (ScanIter ?it), fst s, c)"
      using False row c(1) by (auto simp: reader_Scan_def Let_def)
    moreover have "row_inv cd G (fst s, c) ?it"
      using assms row c sb srt ra todo pn(2) by (auto simp: row_inv_def)
    ultimately show ?thesis using c(2) todo by (auto simp: row_rest_def)
  qed
qed

lemma block_heads_mono:
  assumes "rec_sorted (concat bs)" "\<forall>b \<in> set bs. b \<noteq> []" "a \<le> b" "b < length bs"
  shows "Timestamp (hd (bs ! a)) \<le> Timestamp (hd (bs ! b))"
proof (cases "a = b")
  case False
  with assms(3,4) have a: "a < b" "a < length bs" by auto
  have "concat bs = concat (take b bs) @ concat (drop b bs)" by (simp flip: concat_append)
  then have "rec_sorted (concat (take b bs) @ concat (drop b bs))" using assms(1) by metis
  moreover have "hd (bs ! a) \<in> set (concat (take b bs))"
    using a assms(2) nth_mem [of a "take b bs"] by (auto intro!: bexI [of _ "bs ! a"])
  moreover have "hd (bs ! b) \<in> set (concat (drop b bs))"
    using assms(2,4) Cons_nth_drop_Suc [OF assms(4), symmetric] by auto
  ultimately show ?thesis by (auto simp: rec_sorted_append intro: rkey_le_ts)
qed simp

text \<open>
  The blocks before the start block hold no record of the range, except records at exactly the
  start of the range.
\<close>

text \<open>The first timestamps of the blocks grow, so the search for the start block finds the border.\<close>

lemma timeIndex_mono:
  assumes "reads_as cd r fs bs"
  shows "\<forall>a b. a \<le> b \<and> b < length (r_timeIndex r) \<and> t < ti_minTimestamp (r_timeIndex r ! a) \<longrightarrow>
      t < ti_minTimestamp (r_timeIndex r ! b)"
proof (intro allI impI, elim conjE)
  note ra = assms [unfolded reads_as_def]
  fix a b
  assume "a \<le> b" "b < length (r_timeIndex r)" "t < ti_minTimestamp (r_timeIndex r ! a)"
  moreover have "\<forall>b \<in> set bs. b \<noteq> []" using ra by (metis in_set_conv_nth)
  ultimately show "t < ti_minTimestamp (r_timeIndex r ! b)"
    using ra block_heads_mono [of bs a b] by auto
qed

lemma startBlock_reaches:
  assumes "reads_as cd r fs bs" "j < length bs" "Timestamp (hd (bs ! j)) \<le> t"
  shows "j \<le> startBlock r t"
proof -
  let ?n = "length (r_timeIndex r)" let ?f = "\<lambda>i. t < ti_minTimestamp (r_timeIndex r ! i)"
  have "\<not> ?f j" "j < ?n" using assms by (auto simp: reads_as_def)
  then have "j < sort_search ?n ?f" using sort_search_border(3) [OF timeIndex_mono [OF assms(1), of t], of j] by (meson not_le)
  then show ?thesis by (simp add: startBlock_def Let_def)
qed

lemma startBlock_prefix:
  assumes "reads_as cd r fs bs" "x \<in> set (concat (take (startBlock r t0) bs))"
  shows "Timestamp x \<le> t0"
proof -
  note ra = assms(1) [unfolded reads_as_def]
  let ?sb = "startBlock r t0" and ?n = "length (r_timeIndex r)"
  let ?k = "sort_search ?n (\<lambda>i. ti_minTimestamp (r_timeIndex r ! i) > t0)"
  have "bs \<noteq> []" using assms(2) by auto
  then have sb: "?sb < length bs" by (rule startBlock_bound [OF assms(1)])
  have "?sb \<noteq> 0" using assms(2) by (cases "?sb = 0") auto
  then have k: "?sb < ?k" by (auto simp: startBlock_def Let_def split: if_splits)
  have cat: "rec_sorted (concat (take ?sb bs) @ concat (drop ?sb bs))"
    using ra by (simp flip: concat_append)
  have hd_min: "ti_minTimestamp (r_timeIndex r ! ?sb) = Timestamp (hd (bs ! ?sb))" "bs ! ?sb \<noteq> []"
    using ra sb by auto
  have "\<not> t0 < ti_minTimestamp (r_timeIndex r ! ?sb)"
    using sort_search_border(2) [OF timeIndex_mono [OF assms(1)] k] .
  moreover have "hd (bs ! ?sb) \<in> set (concat (drop ?sb bs))"
    using hd_min(2) Cons_nth_drop_Suc [OF sb, symmetric] by auto
  then have "Timestamp x \<le> Timestamp (hd (bs ! ?sb))"
    using cat assms(2) by (auto simp: rec_sorted_append intro: rkey_le_ts)
  ultimately show ?thesis using hd_min(1) by simp
qed

lemma query_startBlock:
  assumes "reads_as cd r fs bs" "\<forall>x \<in> set (concat (take (startBlock r t0) bs)). Timestamp x \<noteq> t0"
  shows "query t0 t1 src (concat (drop (startBlock r t0) bs)) = query t0 t1 src (concat bs)"
proof -
  have "query t0 t1 src (concat (take (startBlock r t0) bs)) = []"
    using startBlock_prefix [OF assms(1), of _ t0] assms(2)
    by (intro query_none) (force simp: in_range_def)
  then have "query t0 t1 src (concat (take (startBlock r t0) bs) @ concat (drop (startBlock r t0) bs)) =
      query t0 t1 src (concat (drop (startBlock r t0) bs))" by simp
  then show ?thesis by (simp flip: concat_append del: query_simps)
qed

end
