(* ===== verification/SSTOpen.thy ===== *)
theory SSTOpen
  imports SSTScan
begin

text \<open>
  Opening what the writer wrote. \<open>layout_ok\<close> collects the size limits under which no length or
  offset of the file wraps around; a file with the layout \<open>sst_layout cd p opts bs\<close> is opened by
  \<^verbatim>\<open>NewReader\<close>, on either platform, to a reader that \<open>reads_as\<close> the blocks \<open>bs\<close>.
\<close>

definition layout_ok :: "codecs \<Rightarrow> path \<Rightarrow> WriterOptions \<Rightarrow> go_record list list \<Rightarrow> bool" where
  "layout_ok cd p opts bs \<longleftrightarrow> codecs_ok cd \<and> wo_CompressionType opts \<le> 2 \<and>
     is_i64 (wo_PartitionStart opts) \<and> is_i64 (wo_PartitionEnd opts) \<and>
     length (sst_layout cd p opts bs) \<le> 2 ^ 47 \<and> length (concat bs) < 2 ^ 63 \<and>
     rec_sorted (concat bs) \<and>
     (\<forall>b \<in> set bs. b \<noteq> [] \<and> col_ok b \<and> length (blk cd opts b) < 4294967296)"

lemma layout_lengths:
  "length (sst_layout cd p opts bs) = length (dataBytes cd opts bs) +
     length (timeIndexBytes (timeIndexOf cd opts bs)) + length (srcIndexBytes cd opts bs) + 80"
  by (simp add: sst_layout_def footerBytes_def)

lemma length_timeIndexBytes [simp]: "length (timeIndexBytes es) = 20 * length es"
  by (induction es) (simp_all add: timeIndexBytes_def)

lemma length_layout_index [simp]: "length (layout_index len off bs) = length bs"
  by (induction bs arbitrary: off) simp_all

lemma length_timeIndexOf [simp]: "length (timeIndexOf cd opts bs) = length bs"
  by (simp add: timeIndexOf_def)

subsection \<open>The footer\<close>

lemma footer_roundtrip:
  assumes "is_i64 (sm_MinTimestamp m)" "is_i64 (sm_MaxTimestamp m)" "is_i64 (sm_PartitionStart m)"
    "is_i64 (sm_PartitionEnd m)" "sm_TimeIndexOffset m < 2 ^ 64" "sm_TimeIndexSize m < 2 ^ 64"
    "sm_SrcIndexOffset m < 2 ^ 64" "sm_SrcIndexSize m < 2 ^ 64" "sm_RecordCount m < 2 ^ 64"
  shows "footerMeta (sm_Path m) (footerBytes m) = m" "get_u64 (footerBytes m) 72 = footerMagic"
  using assms by (simp_all add: footerMeta_def footerBytes_def go_slice_def i64_of_u64_of_i64
      le_nat_put_u64 footerMagic_def)

lemma layout_meta_ranges:
  assumes "layout_ok cd p opts bs"
  defines "m \<equiv> layout_meta cd p opts bs"
  shows "is_i64 (sm_MinTimestamp m)" "is_i64 (sm_MaxTimestamp m)" "is_i64 (sm_PartitionStart m)"
    "is_i64 (sm_PartitionEnd m)" "sm_TimeIndexOffset m = length (dataBytes cd opts bs)"
    "sm_TimeIndexSize m = 20 * length bs"
    "sm_SrcIndexOffset m = length (dataBytes cd opts bs) + 20 * length bs"
    "sm_SrcIndexSize m = length (srcIndexBytes cd opts bs)"
    "sm_RecordCount m = length (concat bs)"
proof -
  have ok: "r \<in> set (concat bs) \<Longrightarrow> is_i64 (Timestamp r)" for r
    using assms by (auto simp: layout_ok_def col_ok_def list_all_iff rec_ok_def)
  have "is_i64 0" by (simp add: is_i64_def)
  then show "is_i64 (sm_MinTimestamp m)" "is_i64 (sm_MaxTimestamp m)"
    using ok [of "hd (concat bs)"] ok [of "last (concat bs)"]
    by (auto simp: m_def layout_meta_def Let_def simp del: set_concat)
  show "is_i64 (sm_PartitionStart m)" "is_i64 (sm_PartitionEnd m)"
    using assms by (simp_all add: m_def layout_meta_def layout_ok_def Let_def)
  show "sm_TimeIndexOffset m = length (dataBytes cd opts bs)" "sm_TimeIndexSize m = 20 * length bs"
    "sm_SrcIndexOffset m = length (dataBytes cd opts bs) + 20 * length bs"
    "sm_SrcIndexSize m = length (srcIndexBytes cd opts bs)" "sm_RecordCount m = length (concat bs)"
    using assms by (simp_all add: m_def layout_meta_def layout_ok_def Let_def layout_lengths u64_id)
qed

lemma layout_footer:
  assumes "layout_ok cd p opts bs"
  shows "footerMeta p (footerBytes (layout_meta cd p opts bs)) = layout_meta cd p opts bs"
    "get_u64 (footerBytes (layout_meta cd p opts bs)) 72 = footerMagic"
proof -
  have "length (sst_layout cd p opts bs) \<le> 2 ^ 47" "length (concat bs) < 2 ^ 63"
    using assms by (auto simp: layout_ok_def)
  moreover have "sm_Path (layout_meta cd p opts bs) = p" by (simp add: layout_meta_def Let_def)
  ultimately show "footerMeta p (footerBytes (layout_meta cd p opts bs)) = layout_meta cd p opts bs"
    "get_u64 (footerBytes (layout_meta cd p opts bs)) 72 = footerMagic"
    using footer_roundtrip [of "layout_meta cd p opts bs"] layout_meta_ranges [OF assms]
    by (simp_all add: layout_lengths)
qed

subsection \<open>The time index\<close>

lemma timeIndexEntryAt_nth:
  assumes "\<forall>e \<in> set es. is_i64 (ti_minTimestamp e) \<and> ti_offset e < 2 ^ 64 \<and> ti_size e < 2 ^ 32"
    "i < length es"
  shows "timeIndexEntryAt (timeIndexBytes es) i = es ! i"
proof -
  let ?enc = "\<lambda>e. put_i64 (ti_minTimestamp e) @ put_u64 (ti_offset e) @ put_u32 (ti_size e)"
  let ?pre = "timeIndexBytes (take i es)" and ?e = "es ! i"
  have split: "timeIndexBytes es = ?pre @ ?enc ?e @ timeIndexBytes (drop (Suc i) es)"
  proof -
    have "timeIndexBytes es = timeIndexBytes (take i es @ ?e # drop (Suc i) es)"
      using assms(2) by (simp add: id_take_nth_drop [symmetric])
    then show ?thesis by (simp add: timeIndexBytes_def)
  qed
  have len: "length ?pre = i * 20" using assms(2) by simp
  have ok: "is_i64 (ti_minTimestamp ?e)" "ti_offset ?e < 2 ^ 64" "ti_size ?e < 2 ^ 32"
    using assms by simp_all
  show ?thesis
    unfolding timeIndexEntryAt_def split timeIndexEntrySize_def Let_def len [symmetric]
    using ok by (simp add: go_slice_def i64_of_u64_of_i64 le_nat_put_u64 le_nat_put_u32)
qed

lemma layout_index_nth:
  "i < length bs \<Longrightarrow> layout_index len off bs ! i =
     \<lparr>ti_minTimestamp = Timestamp (hd (bs ! i)), ti_offset = u64 (off + sum_list (map len (take i bs))),
      ti_size = u32 (len (bs ! i))\<rparr>"
proof (induction bs arbitrary: off i)
  case (Cons b bs)
  then show ?case by (cases i) (simp_all add: add.assoc)
qed simp

lemma read_at_exact:
  assumes "fs_data fs f = xs @ ys @ zs" "\<not> fs_bad fs f" "off = int (length xs)" "n = length ys"
  shows "file_ReadAt fs f off n = Inr ys"
  using assms by (simp add: file_ReadAt_def read_at_def go_slice_def)

lemma i64_of_u64_small: "n < 2 ^ 63 \<Longrightarrow> i64_of_u64 n = int n"
  by (simp add: i64_of_u64_def i64_def)

lemma layout_ok_hd:
  assumes "layout_ok cd p opts bs" "i < length bs"
  shows "is_i64 (Timestamp (hd (bs ! i)))"
proof -
  have "bs ! i \<noteq> []" "list_all rec_ok (bs ! i)" using assms by (auto simp: layout_ok_def col_ok_def)
  then show ?thesis by (simp add: list_all_iff rec_ok_def)
qed

lemma layout_timeIndex:
  assumes "layout_ok cd p opts bs" "fs_data fs f = sst_layout cd p opts bs" "\<not> fs_bad fs f"
  shows "loadTimeIndex fs f (layout_meta cd p opts bs) = Inr (timeIndexOf cd opts bs)"
proof (cases "bs = []")
  case True
  then show ?thesis using layout_meta_ranges [OF assms(1)]
    by (simp add: loadTimeIndex_def timeIndexOf_def)
next
  case False
  let ?es = "timeIndexOf cd opts bs"
  have small: "length (sst_layout cd p opts bs) \<le> 2 ^ 47" using assms by (simp add: layout_ok_def)
  have "\<forall>e \<in> set ?es. is_i64 (ti_minTimestamp e) \<and> ti_offset e < 2 ^ 64 \<and> ti_size e < 2 ^ 32"
    using layout_ok_hd [OF assms(1)]
    by (auto simp: in_set_conv_nth timeIndexOf_def layout_index_nth u64_def u32_def)
  then have "map (timeIndexEntryAt (timeIndexBytes ?es)) [0..<length bs] = ?es"
    by (intro nth_equalityI) (simp_all add: timeIndexEntryAt_nth)
  moreover have "file_ReadAt fs f (int (length (dataBytes cd opts bs))) (20 * length bs) =
      Inr (timeIndexBytes ?es)"
    by (rule read_at_exact [where xs = "dataBytes cd opts bs"]) (use assms in \<open>simp_all add: sst_layout_def\<close>)
  ultimately show ?thesis
    using False small layout_meta_ranges [OF assms(1)]
    by (simp add: loadTimeIndex_def layout_lengths maxAlloc_def i64_of_u64_small timeIndexEntrySize_def)
qed

subsection \<open>The source index\<close>

lemma loadSrcIndex_loop_entries:
  assumes "\<forall>(k, e) \<in> set kes. length k < 4294967296 \<and> se_firstBlockOffset e < 2 ^ 64 \<and>
    se_recordCount e < 2 ^ 64"
  shows "loadSrcIndex_loop (concat (map srcIndexEntry kes)) idx =
    Inr (fold (\<lambda>(k, e). AList.update k e) kes idx)"
  using assms
proof (induction kes arbitrary: idx)
  case Nil
  then show ?case by (simp add: loadSrcIndex_loop.simps)
next
  case (Cons ke kes)
  obtain k e where ke: "ke = (k, e)" by force
  let ?rest = "concat (map srcIndexEntry kes)"
  have e: "length k < 4294967296" "se_firstBlockOffset e < 2 ^ 64" "se_recordCount e < 2 ^ 64"
    using Cons.prems ke by auto
  have "length (put_u32 (length k)) \<noteq> 0" by (simp only: length_le_bytes)
  then have ne: "put_u32 (length k) \<noteq> []" by (metis length_0_conv)
  have "loadSrcIndex_loop (srcIndexEntry (k, e) @ ?rest) idx =
      loadSrcIndex_loop ?rest (AList.update k e idx)"
    using e ne by (subst loadSrcIndex_loop.simps) (cases e,
      simp add: srcIndexEntry_def Let_def le_nat_put_u32 u32_id le_nat_put_u64)
  then show ?case using Cons ke by simp
qed

lemma map_of_fold_update:
  "map_of (fold (\<lambda>(k, e). AList.update k e) kes idx) x = None \<longleftrightarrow>
     map_of idx x = None \<and> x \<notin> fst ` set kes"
  by (induction kes arbitrary: idx) (auto simp: update_conv split: if_splits)

lemma layout_srcIndex:
  assumes "layout_ok cd p opts bs" "fs_data fs f = sst_layout cd p opts bs" "\<not> fs_bad fs f"
  shows "\<exists>si. loadSrcIndex fs f (layout_meta cd p opts bs) = Inr si \<and>
    (case si of None \<Rightarrow> True | Some m \<Rightarrow> (\<forall>k. map_of m k = None \<longleftrightarrow> k \<notin> SourceID ` set (concat bs)))"
proof (cases "srcIndexBytes cd opts bs = []")
  case True
  then show ?thesis using layout_meta_ranges(8) [OF assms(1)] by (simp add: loadSrcIndex_def)
next
  case False
  then have idx: "wo_IndexSources opts" by (auto simp: srcIndexBytes_def layout_sources_def split: if_splits)
  have small: "length (sst_layout cd p opts bs) \<le> 2 ^ 47" using assms by (simp add: layout_ok_def)
  let ?kes = "layout_sources cd opts bs"
  have "\<forall>(k, e) \<in> set ?kes. length k < 4294967296 \<and> se_firstBlockOffset e < 2 ^ 64 \<and>
      se_recordCount e < 2 ^ 64"
    using assms(1) by (fastforce simp: layout_sources_def layout_source_def u64_def layout_ok_def
        col_ok_def list_all_iff rec_ok_def)
  from loadSrcIndex_loop_entries [OF this, of "[]"] obtain m where
    m: "loadSrcIndex_loop (srcIndexBytes cd opts bs) [] = Inr m"
      "\<forall>k. map_of m k = None \<longleftrightarrow> k \<notin> fst ` set ?kes"
    by (auto simp: srcIndexBytes_def map_of_fold_update)
  have keys: "fst ` set ?kes = SourceID ` set (concat bs)"
    using idx by (force simp: layout_sources_def)
  have "file_ReadAt fs f (int (length (dataBytes cd opts bs) + 20 * length bs))
      (length (srcIndexBytes cd opts bs)) = Inr (srcIndexBytes cd opts bs)"
    by (rule read_at_exact [where xs = "dataBytes cd opts bs @ timeIndexBytes (timeIndexOf cd opts bs)"])
      (use assms in \<open>simp_all add: sst_layout_def\<close>)
  then have "loadSrcIndex fs f (layout_meta cd p opts bs) = Inr (Some m)"
    using m(1) False small layout_meta_ranges [OF assms(1)]
    by (simp add: loadSrcIndex_def layout_lengths maxAlloc_def i64_of_u64_small)
  then show ?thesis using m(2) keys by auto
qed

subsection \<open>The header\<close>

lemma encodeBlock_bounds:
  "rs \<noteq> [] \<Longrightarrow> 24 \<le> length (encodeBlock rs)" "16 * length rs \<le> length (encodeBlock rs)"
proof -
  have "16 * length rs \<le> length (concat (map blockRecord rs))"
    by (induction rs) simp_all
  then show "16 * length rs \<le> length (encodeBlock rs)"
    by (simp add: encodeBlock_payload blockPayload_def)
  show "24 \<le> length (encodeBlock rs)" if "rs \<noteq> []"
    using that by (cases rs) (simp_all add: encodeBlock_payload blockPayload_def)
qed

lemma layout_header:
  assumes "layout_ok cd p opts bs" "fs_data fs (r_file r) = sst_layout cd p opts bs"
    "\<not> fs_bad fs (r_file r)" "r_meta r = layout_meta cd p opts bs"
    "r_compressionType r = 0" "\<not> r_columnar r"
  shows "detectHeader fs r = Inr (r\<lparr>r_compressionType := wo_CompressionType opts,
    r_columnar := wo_ColumnOriented opts\<rparr>)"
proof (cases "wo_CompressionType opts \<noteq> CompressionNone \<or> wo_ColumnOriented opts")
  case True
  have len: "length (fileHeader opts) = 16" using length_fileHeader [OF True] by (simp add: headerSize_def)
  have ct: "wo_CompressionType opts \<le> 2" using assms by (simp add: layout_ok_def)
  obtain rest where rest: "fs_data fs (r_file r) = fileHeader opts @ rest"
    using assms(2) by (simp add: sst_layout_def dataBytes_def)
  have h: "fileHeader opts = put_u64 headerMagic @
      (put_u16 (if wo_ColumnOriented opts then 2 else 1) @ put_u16 (wo_CompressionType opts) @ replicate 4 0)"
    using True by (simp add: fileHeader_def)
  have "file_ReadAt fs (r_file r) 0 8 = Inr (put_u64 headerMagic)"
    by (rule read_at_exact [where xs = "[]"]) (use assms(3) rest h in simp_all)
  moreover have "file_ReadAt fs (r_file r) 0 16 = Inr (fileHeader opts)"
    by (rule read_at_exact [where xs = "[]" and zs = rest]) (use assms(3) rest len in simp_all)
  moreover have "get_u16 (fileHeader opts) 10 = wo_CompressionType opts"
    "get_u16 (fileHeader opts) 8 = (if wo_ColumnOriented opts then 2 else 1)"
    using ct by (simp_all add: h go_slice_def le_nat_put_u16)
  moreover have "16 \<le> length (dataBytes cd opts bs)" by (simp add: dataBytes_def len)
  ultimately show ?thesis
    using assms(4) layout_meta_ranges(5) [OF assms(1)] ct
    by (simp add: detectHeader_def headerSize_def le_nat_put_u64 headerMagic_def)
next
  case False
  show ?thesis
  proof (cases bs)
    case Nil
    then show ?thesis using False assms layout_meta_ranges(5) [OF assms(1)]
      by (simp add: detectHeader_def dataBytes_def fileHeader_none headerSize_def CompressionNone_def)
  next
    case (Cons b bs')
    have b: "blk cd opts b = encodeBlock b"
      using False by (simp add: blk_def encBlock_def Let_def)
    have ok: "b \<noteq> []" "length (encodeBlock b) < 4294967296"
      using assms(1) Cons b by (auto simp: layout_ok_def)
    have n: "length b < 0x10000000" using ok encodeBlock_bounds(2) [of b] by simp
    obtain rest where rest: "fs_data fs (r_file r) = encodeBlock b @ rest"
      using assms(2) Cons b False by (simp add: sst_layout_def dataBytes_def fileHeader_none)
    let ?f8 = "take 8 (encodeBlock b)"
    have l8: "length ?f8 = 8" using encodeBlock_bounds(1) [OF ok(1)] by simp
    have "file_ReadAt fs (r_file r) 0 8 = Inr ?f8"
      by (rule read_at_exact [where xs = "[]" and zs = "drop 8 (encodeBlock b) @ rest"])
        (use assms(3) rest l8 in simp_all)
    moreover have "le_nat ?f8 \<noteq> headerMagic"
    proof
      assume eq: "le_nat ?f8 = headerMagic"
      have "take 4 ?f8 = put_u32 (length b)"
        using n by (simp add: encodeBlock_payload blockPayload_def u32_id min_def)
      moreover have "?f8 = put_u64 headerMagic" using le_bytes_le_nat [of ?f8] l8 eq by simp
      ultimately have "put_u32 (length b) = take 4 (put_u64 headerMagic)" by simp
      then have "le_nat (put_u32 (length b)) = le_nat (take 4 (put_u64 headerMagic))" by simp
      moreover have "le_nat (take 4 (put_u64 headerMagic)) = 0x42524D54"
        by (simp add: headerMagic_def take_le_bytes le_nat_le_bytes)
      ultimately show False using n by (simp add: le_nat_put_u32)
    qed
    ultimately show ?thesis
      using False assms(4-) by (simp add: detectHeader_def CompressionNone_def)
  qed
qed

subsection \<open>The blocks\<close>

text \<open>The position of a block, and the bytes that are there.\<close>

lemma dataBytes_split:
  assumes "i < length bs"
  obtains pre post where "dataBytes cd opts bs = pre @ blk cd opts (bs ! i) @ post"
    "length pre = hdrLen opts + sum_list (map (blkLen cd opts) (take i bs))"
proof -
  have "bs = take i bs @ bs ! i # drop (Suc i) bs" using assms by (simp add: id_take_nth_drop)
  then have "map (blk cd opts) bs = map (blk cd opts) (take i bs) @ blk cd opts (bs ! i) #
      map (blk cd opts) (drop (Suc i) bs)" by (metis list.map(2) map_append)
  then show ?thesis
    by (intro that [of "fileHeader opts @ concat (map (blk cd opts) (take i bs))"
          "concat (map (blk cd opts) (drop (Suc i) bs))"])
      (simp_all add: dataBytes_def length_concat comp_def)
qed

text \<open>A reader whose fields are those of the layout.\<close>

definition layout_reader :: "codecs \<Rightarrow> path \<Rightarrow> WriterOptions \<Rightarrow> go_record list list \<Rightarrow> sst_reader \<Rightarrow> bool" where
  "layout_reader cd p opts bs r \<longleftrightarrow> r_meta r = layout_meta cd p opts bs \<and>
     r_timeIndex r = timeIndexOf cd opts bs \<and> r_compressionType r = wo_CompressionType opts \<and>
     r_columnar r = wo_ColumnOriented opts \<and>
     r_mmap r \<in> {None, Some (length (dataBytes cd opts bs))} \<and>
     (case r_srcIndex r of None \<Rightarrow> True
      | Some m \<Rightarrow> (\<forall>k. map_of m k = None \<longleftrightarrow> k \<notin> SourceID ` set (concat bs)))"

lemma layout_blockBytes:
  assumes "layout_ok cd p opts bs" "layout_reader cd p opts bs r" "i < length bs"
    "fs_data fs (r_file r) = sst_layout cd p opts bs" "\<not> fs_bad fs (r_file r)"
  shows "blockBytes r fs i = Inr (blk cd opts (bs ! i))"
proof -
  from dataBytes_split [OF assms(3)] obtain pre post where
    pp: "dataBytes cd opts bs = pre @ blk cd opts (bs ! i) @ post"
      "length pre = hdrLen opts + sum_list (map (blkLen cd opts) (take i bs))" .
  have len: "length pre + blkLen cd opts (bs ! i) \<le> length (dataBytes cd opts bs)"
    "length (dataBytes cd opts bs) \<le> 2 ^ 47" "blkLen cd opts (bs ! i) < 4294967296"
    using pp assms(1,3) by (auto simp: layout_ok_def layout_lengths)
  have e: "r_timeIndex r ! i = \<lparr>ti_minTimestamp = Timestamp (hd (bs ! i)), ti_offset = length pre,
      ti_size = blkLen cd opts (bs ! i)\<rparr>"
    using assms(2,3) len pp(2)
    by (simp add: layout_reader_def timeIndexOf_def layout_index_nth u64_id u32_id)
  have data: "fs_data fs (r_file r) = pre @ blk cd opts (bs ! i) @ post @
      timeIndexBytes (timeIndexOf cd opts bs) @ srcIndexBytes cd opts bs @
      footerBytes (layout_meta cd p opts bs)"
    using assms(4) pp(1) by (simp add: sst_layout_def)
  have "i < length (r_timeIndex r)" using assms(2,3) by (simp add: layout_reader_def)
  moreover have "r_mmap r = None \<or> r_mmap r = Some (length (dataBytes cd opts bs))"
    using assms(2) by (auto simp: layout_reader_def)
  moreover have "file_ReadAt fs (r_file r) (int (length pre)) (blkLen cd opts (bs ! i)) =
      Inr (blk cd opts (bs ! i))"
    by (rule read_at_exact [OF data assms(5)]) simp_all
  moreover have "go_slice (length pre) (length pre + blkLen cd opts (bs ! i)) (fs_data fs (r_file r)) =
      blk cd opts (bs ! i)" unfolding data by (simp add: go_slice_def)
  moreover have "length pre + blkLen cd opts (bs ! i) \<le> length (fs_data fs (r_file r))"
    unfolding data by simp
  ultimately show ?thesis
    using e len assms(5) by (auto simp: blockBytes_def Let_def u64_id i64_of_u64_small)
qed

lemma layout_colBytes:
  assumes "layout_ok cd p opts bs" "layout_reader cd p opts bs r" "i < length bs"
    "fs_data fs (r_file r) = sst_layout cd p opts bs" "\<not> fs_bad fs (r_file r)"
  shows "colBytes cd r fs i =
    Inr (if wo_ColumnOriented opts then encodeColBlock (bs ! i) else encodeBlock (bs ! i))"
proof -
  let ?e = "if wo_ColumnOriented opts then encodeColBlock (bs ! i) else encodeBlock (bs ! i)"
  have "encBlock cd opts (bs ! i) = Inr (blk cd opts (bs ! i))"
    using assms(1) by (intro encBlock_known) (simp add: layout_ok_def)
  then have "if wo_CompressionType opts \<noteq> CompressionNone
      then compress cd (wo_CompressionType opts) ?e = Inr (blk cd opts (bs ! i))
      else ?e = blk cd opts (bs ! i)"
    by (simp add: encBlock_def Let_def split: if_splits)
  moreover have "codecs_ok cd" using assms(1) by (simp add: layout_ok_def)
  ultimately show ?thesis
    using layout_blockBytes [OF assms] assms(2)
    by (auto simp: colBytes_def layout_reader_def decompress_compress split: if_splits)
qed

lemma layout_block_recs:
  assumes "layout_ok cd p opts bs" "layout_reader cd p opts bs r" "i < length bs"
    "fs_data fs (r_file r) = sst_layout cd p opts bs" "\<not> fs_bad fs (r_file r)"
  shows "block_recs cd r fs i = Inr (bs ! i)"
proof -
  have ok: "col_ok (bs ! i)" using assms(1,3) by (simp add: layout_ok_def)
  then have ok2: "list_all rec_ok (bs ! i)" "length (bs ! i) < 4294967296" by (simp_all add: col_ok_def)
  have "le_nat (take 4 (blockPayload (bs ! i))) = length (bs ! i)"
    using blockPayload_count [OF ok2(2)] by (simp add: slice_zero)
  then have "checkPayload (encodeBlock (bs ! i)) = Inr (blockPayload (bs ! i), length (bs ! i))"
    by (simp add: checkPayload_def validateBlock_encodeBlock blockPayload_def)
  then show ?thesis
    using layout_colBytes [OF assms] assms(2) ok ok2
    by (simp add: block_recs_def freshPayload_def readColBlock_def layout_reader_def
        decodeColBlock_encode parse_n_blockPayload)
qed

lemma blk_nonempty:
  assumes "layout_ok cd p opts bs" "b \<in> set bs"
  shows "blk cd opts b \<noteq> []"
proof -
  have ne: "encodeBlock b \<noteq> []" "encodeColBlock b \<noteq> []"
    by (simp_all flip: length_greater_0_conv add: encodeBlock_payload encodeColBlock_payload)
  have "encBlock cd opts b = Inr (blk cd opts b)"
    using assms(1) by (intro encBlock_known) (simp add: layout_ok_def)
  then show ?thesis using ne assms(1) compress_nonempty [of cd "wo_CompressionType opts"]
    by (auto simp: encBlock_def Let_def layout_ok_def split: if_splits)
qed

lemma layout_offsets_distinct:
  assumes "layout_ok cd p opts bs"
  shows "distinct (map ti_offset (timeIndexOf cd opts bs))"
proof -
  let ?pos = "\<lambda>i. hdrLen opts + sum_list (map (blkLen cd opts) (take i bs))"
  have small: "length (dataBytes cd opts bs) \<le> 2 ^ 47"
    using assms by (simp add: layout_ok_def layout_lengths)
  have pos: "ti_offset (timeIndexOf cd opts bs ! i) = ?pos i" if "i < length bs" for i
  proof -
    from dataBytes_split [OF that] obtain pre post where
      "dataBytes cd opts bs = pre @ blk cd opts (bs ! i) @ post" "length pre = ?pos i" .
    then have "?pos i \<le> length (dataBytes cd opts bs)" by simp
    then show ?thesis using small that by (simp add: timeIndexOf_def layout_index_nth u64_id)
  qed
  have mono: "?pos i < ?pos j" if "i < j" "j < length bs" for i j
  proof -
    have "take j bs = take i (take j bs) @ take j bs ! i # drop (Suc i) (take j bs)"
      using that by (intro id_take_nth_drop) simp
    then have "take j bs = take i bs @ bs ! i # drop (Suc i) (take j bs)"
      using that by (simp add: min_absorb1)
    moreover have "blk cd opts (bs ! i) \<noteq> []" using that by (intro blk_nonempty [OF assms]) simp
    ultimately show ?thesis by (metis (no_types, lifting) add_less_cancel_left length_greater_0_conv
        less_add_same_cancel1 list.map(2) map_append sum_list.append sum_list.Cons trans_less_add1)
  qed
  show ?thesis
    unfolding distinct_conv_nth using pos mono by (metis length_map length_timeIndexOf nat_neq_iff nth_map)
qed

lemma layout_reads_as:
  assumes "layout_ok cd p opts bs" "layout_reader cd p opts bs r"
    "fs_data fs (r_file r) = sst_layout cd p opts bs" "\<not> fs_bad fs (r_file r)"
  shows "reads_as cd r fs bs"
proof -
  have ne: "\<forall>b \<in> set bs. b \<noteq> []" using assms(1) by (auto simp: layout_ok_def)
  then have cat: "concat bs = [] \<longleftrightarrow> bs = []" by (cases bs) auto
  have "ti_minTimestamp (timeIndexOf cd opts bs ! i) = Timestamp (hd (bs ! i))" if "i < length bs" for i
    using that by (simp add: timeIndexOf_def layout_index_nth)
  moreover have "sm_MinTimestamp (layout_meta cd p opts bs) = Timestamp (hd (concat bs))"
    "sm_MaxTimestamp (layout_meta cd p opts bs) = Timestamp (last (concat bs))" if "bs \<noteq> []"
    using that cat by (auto simp: layout_meta_def Let_def)
  moreover have "sm_RecordCount (layout_meta cd p opts bs) = 0 \<longleftrightarrow> bs = []"
    using layout_meta_ranges(9) [OF assms(1)] cat by simp
  moreover have "rec_sorted (concat bs)" using assms(1) by (simp add: layout_ok_def)
  ultimately show ?thesis
    using assms(2) ne layout_offsets_distinct [OF assms(1)] layout_block_recs [OF assms(1,2) _ assms(3,4)]
    by (simp add: reads_as_def layout_reader_def)
qed

lemma NewReader_layout:
  assumes "layout_ok cd p opts bs" "fs_lookup fs p = Some f" "fs_data fs f = sst_layout cd p opts bs"
    "\<not> fs_bad fs f"
  shows "\<exists>r. NewReader mm p cached fs = (Inr r, fs) \<and> layout_reader cd p opts bs r \<and>
    r_file r = f \<and> r_cached r = cached \<and> reads_as cd r fs bs"
proof -
  let ?m = "layout_meta cd p opts bs"
  note rg = layout_meta_ranges [OF assms(1)]
  from layout_srcIndex [OF assms(1,3,4)] obtain si where
    si: "loadSrcIndex fs f ?m = Inr si"
      "case si of None \<Rightarrow> True | Some m \<Rightarrow> (\<forall>k. map_of m k = None \<longleftrightarrow> k \<notin> SourceID ` set (concat bs))"
    by blast
  let ?r0 = "\<lparr>r_file = f, r_meta = ?m, r_timeIndex = timeIndexOf cd opts bs, r_srcIndex = si,
    r_mmap = None, r_compressionType = 0, r_columnar = False, r_cached = cached\<rparr>"
  let ?r1 = "?r0\<lparr>r_compressionType := wo_CompressionType opts, r_columnar := wo_ColumnOriented opts\<rparr>"
  have det: "detectHeader fs ?r0 = Inr ?r1"
    using layout_header [OF assms(1), of fs ?r0] assms(3,4) by simp
  have small: "length (dataBytes cd opts bs) \<le> 2 ^ 47"
    using assms(1) by (simp add: layout_ok_def layout_lengths)
  have "\<exists>r. initMmap mm ?r1 = Inr r \<and> layout_reader cd p opts bs r \<and> r_file r = f \<and> r_cached r = cached"
    using si(2) small rg(5)
    by (simp add: initMmap_def unix_Mmap_def i64_of_u64_small layout_reader_def)
  then obtain r where r: "initMmap mm ?r1 = Inr r" "layout_reader cd p opts bs r" "r_file r = f"
    "r_cached r = cached" by blast
  have foot: "file_ReadAt fs f (int (length (fs_data fs f) - 80)) 80 = Inr (footerBytes ?m)"
    by (rule read_at_exact [where zs = "[]" and
          xs = "dataBytes cd opts bs @ timeIndexBytes (timeIndexOf cd opts bs) @ srcIndexBytes cd opts bs"])
      (use assms(3,4) in \<open>simp_all add: sst_layout_def footerBytes_def\<close>)
  have ne: "\<not> (0 < sm_RecordCount ?m \<and> sm_TimeIndexSize ?m = 0)" using rg(6,9) by (cases bs) auto
  have "readFile mm p cached f fs = Inr r"
    unfolding readFile_def Let_def footerSize_def
    using foot layout_footer [OF assms(1)] ne layout_timeIndex [OF assms(1,3,4)] si(1) det r(1) assms(3)
    by (simp add: layout_lengths CompressionNone_def)
  then have "NewReader mm p cached fs = (Inr r, fs)"
    using assms(2) by (simp add: NewReader_def os_open_def)
  moreover have "reads_as cd r fs bs" using layout_reads_as [OF assms(1) r(2)] assms(3,4) r(3) by simp
  ultimately show ?thesis using r by blast
qed

subsection \<open>How the writer cuts blocks\<close>

lemma concat_cut_blocks: "concat (cut_blocks n p rs) = p @ rs"
  by (induction n p rs rule: cut_blocks.induct) simp_all

lemma cut_blocks_nonempty: "b \<in> set (cut_blocks n p rs) \<Longrightarrow> b \<noteq> []"
  by (induction n p rs rule: cut_blocks.induct) (auto split: if_splits)

lemma cut_blocks_full:
  "b \<in> set (butlast (cut_blocks n p rs)) \<Longrightarrow> n \<le> sum_list (map rowSize b)"
proof (induction n p rs rule: cut_blocks.induct)
  case (2 n p r rs)
  then show ?case by (cases "cut_blocks n [] rs = []") (auto split: if_splits)
qed (auto split: if_splits)

lemma cut_blocks_small:
  assumes "sum_list (map rowSize p) < n \<or> p = []" "b \<in> set (cut_blocks n p rs)"
  shows "sum_list (map rowSize (butlast b)) < n \<or> butlast b = []"
  using assms
proof (induction n p rs rule: cut_blocks.induct)
  case (1 n p)
  have "0 \<le> rowSize r" for r by (simp add: rowSize_def)
  then have "sum_list (map rowSize (butlast p)) \<le> sum_list (map rowSize p)"
    by (cases p rule: rev_cases) simp_all
  with 1 show ?case by (auto split: if_splits)
next
  case (2 n p r rs)
  show ?case
  proof (cases "n \<le> sum_list (map rowSize (p @ [r]))")
    case True
    with "2.prems" "2.IH"(1) [OF True] show ?thesis by auto
  next
    case False
    with "2.prems" "2.IH"(2) [OF False] show ?thesis by simp
  qed
qed

subsection \<open>Properties\<close>

text \<open>
  C18: the streaming writer. Without I/O faults, writing records in \<open>(Timestamp, SourceID)\<close> order
  succeeds; the file that \<^verbatim>\<open>Finish\<close> leaves, synced in full, is exactly the specified layout of the
  records cut into blocks (header, blocks, time index, sorted source index, footer), the returned
  metadata is that of the layout, and no other file is touched. The blocks partition the records in
  order; all but the last have reached the block size, and none exceeds it before its last record.
\<close>

theorem sst_write_layout:
  assumes "fs_faults fs = []" "wo_CompressionType opts \<le> 2" "rec_sorted rs"
  shows "\<exists>fs' bs. bs = cut_blocks (wo_BlockSizeBytes (eff_opts opts)) [] rs \<and>
    sst_write cd path opts rs fs = (Inr (layout_meta cd path (eff_opts opts) bs), fs') \<and>
    fs_written path (sst_layout cd path (eff_opts opts) bs) fs fs' \<and>
    concat bs = rs \<and> [] \<notin> set bs \<and>
    (\<forall>b \<in> set (butlast bs). wo_BlockSizeBytes (eff_opts opts) \<le> sum_list (map rowSize b)) \<and>
    (\<forall>b \<in> set bs. sum_list (map rowSize (butlast b)) < wo_BlockSizeBytes (eff_opts opts) \<or> butlast b = [])"
  using sst_write_ok [OF assms] concat_cut_blocks [of _ "[]" rs] cut_blocks_nonempty cut_blocks_full
    cut_blocks_small [of "[]"]
  by (metis (no_types, lifting) append_Nil)

theorem sst_write_layout_witness:
  "\<exists>fs' bs. sst_write tag_codecs ''p'' (DefaultWriterOptions\<lparr>wo_CompressionType := 1\<rparr>)
     [zero_record, zero_record] fs_empty =
     (Inr (layout_meta tag_codecs ''p'' (eff_opts (DefaultWriterOptions\<lparr>wo_CompressionType := 1\<rparr>)) bs), fs')
    \<and> concat bs = [zero_record, zero_record]"
  using sst_write_layout [of fs_empty "DefaultWriterOptions\<lparr>wo_CompressionType := 1\<rparr>"
      "[zero_record, zero_record]" tag_codecs "''p''"]
  by (fastforce simp: fs_empty_def DefaultWriterOptions_def)

text \<open>
  C28: the order check of \<^verbatim>\<open>Add\<close>. In a writer without I/O faults that has accepted the records \<open>rs\<close>,
  \<^verbatim>\<open>Add\<close> fails exactly when the new record sorts before the last one; it then reports
  \<open>ErrOutOfOrder\<close> and changes neither the writer nor the file. Otherwise the record is accepted.
\<close>

theorem sst_Add_order:
  assumes "sw_base cd w fs bs rs" "cut_ok w bs rs" "rec_sorted rs"
  shows "if rs \<noteq> [] \<and> rkey r < rkey (last rs) then sst_Add cd w r fs = (Some ErrOutOfOrder, w, fs)
    else (\<exists>w' fs' bs'. sst_Add cd w r fs = (None, w', fs') \<and> sw_base cd w' fs' bs' (rs @ [r]) \<and>
      cut_ok w' bs' (rs @ [r]) \<and> rec_sorted (rs @ [r]))"
proof (cases "rs \<noteq> [] \<and> rkey r < rkey (last rs)")
  case True
  then show ?thesis using assms(1) by (simp add: sst_Add_pending sw_base_def rkey_less)
next
  case False
  then have srt: "rec_sorted (rs @ [r])"
    using assms(3) by (cases rs rule: rev_cases) (auto simp: rec_sorted_append intro: order_trans)
  show ?thesis unfolding if_not_P [OF False] using sst_Add_ok [OF assms(1,2) srt] srt by blast
qed

theorem sst_Add_order_witness:
  "\<exists>w fs w1 fs1. NewWriter ''p'' DefaultWriterOptions fs_empty = (Inr w, fs) \<and>
     sst_Add tag_codecs w \<lparr>Timestamp = 5, SourceID = [], Payload = []\<rparr> fs = (None, w1, fs1) \<and>
     sst_Add tag_codecs w1 zero_record fs1 = (Some ErrOutOfOrder, w1, fs1)"
proof -
  let ?r = "\<lparr>Timestamp = 5, SourceID = [], Payload = []\<rparr>"
  from NewWriter_ok [of fs_empty DefaultWriterOptions "''p''" tag_codecs] obtain w fs where
    w: "NewWriter ''p'' DefaultWriterOptions fs_empty = (Inr w, fs)" "sw_base tag_codecs w fs [] []"
      "cut_ok w [] []" by (auto simp: fs_empty_def DefaultWriterOptions_def CompressionNone_def)
  from sst_Add_order [OF w(2,3), of ?r] obtain w1 fs1 bs1 where
    w1: "sst_Add tag_codecs w ?r fs = (None, w1, fs1)" "sw_base tag_codecs w1 fs1 bs1 [?r]"
      "cut_ok w1 bs1 [?r]" by auto
  from sst_Add_order [OF w1(2,3), of zero_record]
  have "sst_Add tag_codecs w1 zero_record fs1 = (Some ErrOutOfOrder, w1, fs1)"
    by (simp add: rkey_less zero_record_def)
  with w(1) w1(1) show ?thesis by blast
qed

text \<open>
  C17: opening a file. For every layout within the size limits, with any compression and either
  block format, with or without memory mapping, \<^verbatim>\<open>NewReader\<close> succeeds, returns the metadata that
  \<^verbatim>\<open>Finish\<close> returned, detects compression and format, and every block decodes to its records.
\<close>

theorem NewReader_roundtrip:
  assumes "layout_ok cd p opts bs" "fs_lookup fs p = Some f" "fs_data fs f = sst_layout cd p opts bs"
    "\<not> fs_bad fs f"
  shows "\<exists>r. NewReader mm p cached fs = (Inr r, fs) \<and> reader_Meta r = layout_meta cd p opts bs \<and>
    r_compressionType r = wo_CompressionType opts \<and> IsColumnar r = wo_ColumnOriented opts \<and>
    TimeIndexLen r = length bs \<and> (\<forall>i < length bs. block_recs cd r fs i = Inr (bs ! i)) \<and>
    reads_as cd r fs bs"
  using NewReader_layout [OF assms, of mm cached]
  by (auto simp: layout_reader_def reads_as_def reader_Meta_def IsColumnar_def TimeIndexLen_def)

theorem NewReader_roundtrip_witness:
  "\<exists>r. let o1 = DefaultWriterOptions\<lparr>wo_CompressionType := 2, wo_ColumnOriented := True\<rparr>;
     fs = fs_empty\<lparr>fs_names := [(''p'', 3)], fs_data := (\<lambda>_. sst_layout tag_codecs ''p'' o1 [[zero_record]])\<rparr>
   in NewReader True ''p'' True fs = (Inr r, fs) \<and> IsColumnar r \<and>
     block_recs tag_codecs r fs 0 = Inr [zero_record]"
proof -
  let ?o = "DefaultWriterOptions\<lparr>wo_CompressionType := 2, wo_ColumnOriented := True\<rparr>"
  let ?fs = "fs_empty\<lparr>fs_names := [(''p'', 3)], fs_data := (\<lambda>_. sst_layout tag_codecs ''p'' ?o [[zero_record]])\<rparr>"
  have "length (encodeColBlock [zero_record]) = 32"
    by (simp add: encodeColBlock_payload length_colPayload zero_record_def)
  then have "length (blk tag_codecs ?o [zero_record]) = 33"
    by (simp add: blk_def encBlock_def Let_def compress_def compression_types tag_codecs_def)
  then have "layout_ok tag_codecs ''p'' ?o [[zero_record]]"
    by (simp add: layout_ok_def codecs_ok_tag DefaultWriterOptions_def is_i64_def col_ok_def rec_ok_def
        zero_record_def layout_lengths length_dataBytes srcIndexBytes_def layout_sources_def
        length_fileHeader headerSize_def)
  from NewReader_roundtrip [OF this, of ?fs 3 True True] show ?thesis
    by (auto simp: Let_def fs_lookup_def fs_empty_def)
qed

lemma reader_Scan_collect:
  assumes "reads_as cd r fs bs" "cache_ok cd G (fs, c)" "G (sm_Path (r_meta r)) = Some r"
  shows "\<exists>it s1 it' s2. reader_Scan cd r t0 t1 src (fs, c) = (Inr it, s1) \<and>
    iter_collect (sst_Next cd) sst_View it s1 =
      Some (query t0 t1 (src_norm src) (concat (drop (startBlock r t0) bs)), it', s2) \<and>
    sst_Err it' = None \<and> cache_ok cd G s2"
proof -
  from reader_Scan_ok [of cd r "(fs, c)" bs G t0 t1 src] assms obtain it c1 where
    sc: "reader_Scan cd r t0 t1 src (fs, c) = (Inr it, fs, c1)" "cache_ok cd G (fs, c1)"
      "sst_inv cd G (fs, c1) it"
      "sst_rest cd (fs, c1) it = query t0 t1 (src_norm src) (concat (drop (startBlock r t0) bs))"
    by auto
  from sst.collect_frame [OF sc(3)] obtain it' s2 where
    "iter_collect (sst_Next cd) sst_View it (fs, c1) = Some (sst_rest cd (fs, c1) it, it', s2)"
    "sst_Err it' = None" "sst_inv cd G s2 EmptyIter"
    using sc(2) by (metis sst_inv.simps(1))
  then show ?thesis using sc by (cases s2) auto
qed

text \<open>
  C16: range scans. For a reader that stands for the blocks \<open>bs\<close> and any cache whose entries are
  right, a scan succeeds, its iterator ends without an error, and it delivers, in order, the
  records of the query among the blocks from the start block on; the cache stays right. This is
  the answer of the query over the whole file whenever no earlier block has a record at exactly the
  start of the range.
\<close>

theorem reader_Scan_correct:
  assumes "reads_as cd r fs bs" "cache_ok cd G (fs, c)" "G (sm_Path (r_meta r)) = Some r"
  shows "\<exists>it s1 rs it' s2. reader_Scan cd r t0 t1 src (fs, c) = (Inr it, s1) \<and>
    iter_collect (sst_Next cd) sst_View it s1 = Some (rs, it', s2) \<and> sst_Err it' = None \<and>
    cache_ok cd G s2 \<and> rs = query t0 t1 (src_norm src) (concat (drop (startBlock r t0) bs)) \<and>
    ((\<forall>x \<in> set (concat (take (startBlock r t0) bs)). Timestamp x \<noteq> t0) \<longrightarrow>
       rs = query t0 t1 (src_norm src) (concat bs))"
  using reader_Scan_collect [OF assms, of t0 t1 src] query_startBlock [OF assms(1), of t0] by metis

theorem reader_Scan_correct_witness:
  "\<exists>r fs it s1 it' s2. reader_Scan tag_codecs r 0 9 None (fs, NewBlockCache 100) = (Inr it, s1) \<and>
     iter_collect (sst_Next tag_codecs) sst_View it s1 = Some ([zero_record], it', s2)"
proof -
  let ?o = "DefaultWriterOptions\<lparr>wo_CompressionType := 1\<rparr>"
  let ?fs = "fs_empty\<lparr>fs_names := [(''p'', 3)], fs_data := (\<lambda>_. sst_layout tag_codecs ''p'' ?o [[zero_record]])\<rparr>"
  have "length (blk tag_codecs ?o [zero_record]) = 25"
    by (simp add: blk_def encBlock_def Let_def compress_def compression_types tag_codecs_def
        DefaultWriterOptions_def encodeBlock_payload blockPayload_def zero_record_def)
  then have "layout_ok tag_codecs ''p'' ?o [[zero_record]]"
    by (simp add: layout_ok_def codecs_ok_tag DefaultWriterOptions_def is_i64_def col_ok_def rec_ok_def
        zero_record_def layout_lengths length_dataBytes srcIndexBytes_def layout_sources_def
        length_fileHeader headerSize_def compression_types)
  from NewReader_layout [OF this, of ?fs 3 True True] obtain r where
    r: "reads_as tag_codecs r ?fs [[zero_record]]" by (auto simp: fs_lookup_def fs_empty_def)
  have "cache_ok tag_codecs (\<lambda>_. Some r) (?fs, NewBlockCache 100)"
    using cache_inv_New [of 100] by (simp add: cache_ok_def cache_abs_def NewBlockCache_def)
  moreover have "startBlock r 0 = 0" using startBlock_bound [OF r] by simp
  ultimately show ?thesis
    using reader_Scan_correct [OF r, of "\<lambda>_. Some r" "NewBlockCache 100" 0 9 None]
    by (fastforce simp: src_norm_def src_match_def in_range_def zero_record_def)
qed

text \<open>
  C31: what a scan misses. Let records at the time \<open>t0\<close> stand in blocks before the block \<open>j\<close>, and let the
  first record of block \<open>j\<close> have this time too, so that they straddle a block boundary. A scan that starts
  at \<open>t0\<close> begins at block \<open>j\<close> or later: it ends without an error, and of every record of \<open>[t0, t1)\<close> and
  of the source, it misses at least the copies in the blocks before \<open>j\<close>. So a record at \<open>t0\<close> there is
  delivered fewer times than the file holds it.
\<close>

theorem reader_Scan_misses_duplicates:
  assumes "reads_as cd r fs bs" "cache_ok cd G (fs, c)" "G (sm_Path (r_meta r)) = Some r"
    and "j < length bs" "Timestamp (hd (bs ! j)) = t0" "t0 < t1"
    and "x \<in> set (concat (take j bs))" "Timestamp x = t0" "src_match (src_norm src) x"
  shows "\<exists>it s1 rs it' s2. reader_Scan cd r t0 t1 src (fs, c) = (Inr it, s1) \<and>
    iter_collect (sst_Next cd) sst_View it s1 = Some (rs, it', s2) \<and> sst_Err it' = None \<and>
    mset rs + mset (query t0 t1 (src_norm src) (concat (take j bs))) \<subseteq># mset (query t0 t1 (src_norm src) (concat bs)) \<and>
    count (mset rs) x < count (mset (query t0 t1 (src_norm src) (concat bs))) x"
proof -
  let ?q = "\<lambda>bs. mset (query t0 t1 (src_norm src) (concat bs))" let ?sb = "startBlock r t0"
  have sb: "j \<le> ?sb" using startBlock_reaches [OF assms(1,4), of t0] assms(5) by simp
  have q: "?q (xs @ ys) = ?q xs + ?q ys" for xs ys by (simp add: query_def)
  have "take ?sb bs = take j bs @ take (?sb - j) (drop j bs)" using sb by (metis le_add_diff_inverse take_add)
  then have "?q (take ?sb bs) = ?q (take j bs) + ?q (take (?sb - j) (drop j bs))" by (metis q)
  moreover have "?q bs = ?q (take ?sb bs) + ?q (drop ?sb bs)" by (metis append_take_drop_id q)
  ultimately have all: "?q (drop ?sb bs) + ?q (take j bs) \<subseteq># ?q bs" by simp
  have "x \<in># ?q (take j bs)" using assms(6-9) by (simp add: query_def in_range_def)
  then have "0 < count (?q (take j bs)) x" by (simp add: count_greater_zero_iff)
  then have "count (?q (drop ?sb bs)) x < count (?q bs) x" using mset_subset_eq_count [OF all, of x] unfolding count_union by linarith
  with all reader_Scan_collect [OF assms(1-3), of t0 t1 src] show ?thesis by blast
qed

theorem reader_Scan_misses_duplicates_witness:
  "\<exists>r fs it s1 rs it' s2. let o1 = DefaultWriterOptions\<lparr>wo_BlockSizeBytes := 1\<rparr>;
      a = \<lparr>Timestamp = 5, SourceID = [1], Payload = []\<rparr>; b = \<lparr>Timestamp = 5, SourceID = [2], Payload = []\<rparr>
    in snd (sst_write tag_codecs ''p'' o1 [a, b] fs_empty) = fs \<and>
      NewReader True ''p'' False fs = (Inr r, fs) \<and>
      reader_Scan tag_codecs r 5 6 None (fs, NewBlockCache 0) = (Inr it, s1) \<and>
      iter_collect (sst_Next tag_codecs) sst_View it s1 = Some (rs, it', s2) \<and>
      a \<notin> set rs \<and> query 5 6 None [a, b] = [a, b]"
proof -
  let ?o = "DefaultWriterOptions\<lparr>wo_BlockSizeBytes := 1\<rparr>"
  let ?a = "\<lparr>Timestamp = 5, SourceID = [1], Payload = []\<rparr>"
  let ?b = "\<lparr>Timestamp = 5, SourceID = [2], Payload = []\<rparr>"
  have eff: "eff_opts ?o = ?o" by (simp add: eff_opts_def)
  have cut: "cut_blocks (wo_BlockSizeBytes ?o) [] [?a, ?b] = [[?a], [?b]]" by (simp add: rowSize_def)
  have h: "fs_faults fs_empty = []" "wo_CompressionType ?o \<le> 2" "rec_sorted [?a, ?b]"
    by (simp_all add: fs_empty_def DefaultWriterOptions_def compression_types rkey_le)
  from sst_write_ok [OF h, of tag_codecs "''p''"] obtain fs where
    w: "snd (sst_write tag_codecs ''p'' ?o [?a, ?b] fs_empty) = fs"
      "fs_written ''p'' (sst_layout tag_codecs ''p'' ?o [[?a], [?b]]) fs_empty fs"
    unfolding eff cut by auto
  have len: "length (blk tag_codecs ?o [?a]) = 25" "length (blk tag_codecs ?o [?b]) = 25"
    by (simp_all add: blk_def encBlock_def Let_def DefaultWriterOptions_def encodeBlock_payload blockPayload_def)
  have "layout_ok tag_codecs ''p'' ?o [[?a], [?b]]"
    using len by (simp add: layout_ok_def codecs_ok_tag DefaultWriterOptions_def is_i64_def col_ok_def
        rec_ok_def layout_lengths length_dataBytes srcIndexBytes_def layout_sources_def
        fileHeader_none compression_types rkey_le)
  from NewReader_layout [OF this, of fs "_" True False] w(2) obtain r where
    r: "NewReader True ''p'' False fs = (Inr r, fs)" "reads_as tag_codecs r fs [[?a], [?b]]"
    by (auto simp: fs_written_def fs_created_def fs_empty_def)
  have "cache_ok tag_codecs (\<lambda>_. Some r) (fs, NewBlockCache 0)"
    using cache_inv_New [of 0] by (simp add: cache_ok_def cache_abs_def NewBlockCache_def)
  from reader_Scan_misses_duplicates [OF r(2) this, of 1 5 6 ?a None]
  obtain it s1 rs it' s2 where
    it: "reader_Scan tag_codecs r 5 6 None (fs, NewBlockCache 0) = (Inr it, s1)"
      "iter_collect (sst_Next tag_codecs) sst_View it s1 = Some (rs, it', s2)"
      "count (mset rs) ?a < count (mset (query 5 6 None [?a, ?b])) ?a"
    by (auto simp: src_norm_def src_match_def)
  have q: "query 5 6 None [?a, ?b] = [?a, ?b]" by (simp add: src_match_def in_range_def)
  have "count (mset rs) ?a = 0" using it(3) unfolding q by simp
  then have "?a \<notin> set rs" by (simp add: count_mset_0_iff)
  with w(1) r(1) it(1,2) q show ?thesis unfolding Let_def by blast
qed

lemma ScanTimestamps_read:
  assumes "readColBlock cd r fs i = Inr recs"
  shows "ScanTimestamps cd r fs i t0 t1 = Inr (map Timestamp (query t0 t1 None recs))"
proof -
  from assms obtain buf where "colBytes cd r fs i = Inr buf" "decodeColBlock buf = Inr recs"
    by (auto simp: readColBlock_def split: sum.splits)
  then show ?thesis
    by (simp add: ScanTimestamps_def decodeColBlockTimestamps_ok query_def src_match_def in_range_def
        filter_map comp_def)
qed

lemma ScanTimestamps_ok:
  assumes "reads_as cd r fs bs" "IsColumnar r" "i < length bs"
  shows "ScanTimestamps cd r fs i t0 t1 = Inr (map Timestamp (query t0 t1 None (bs ! i)))"
  using assms by (intro ScanTimestamps_read) (simp add: reads_as_def block_recs_def IsColumnar_def)

text \<open>
  C29: the timestamps-only scan of a columnar block, on any bytes of the file. Whenever the full decoder
  can read the block, the scan gives the timestamps of its records in the range, in order; and whenever
  the scan fails, the full decoder fails with the same error. The scan does not look at the sections
  behind the timestamps, so it can succeed on a block whose other sections the full decoder rejects.
\<close>

theorem ScanTimestamps_correct:
  "(\<forall>recs. readColBlock cd r fs i = Inr recs \<longrightarrow>
      ScanTimestamps cd r fs i t0 t1 = Inr (map Timestamp (query t0 t1 None recs))) \<and>
   (\<forall>err. ScanTimestamps cd r fs i t0 t1 = Inl err \<longrightarrow> readColBlock cd r fs i = Inl err)"
proof (intro conjI allI impI ScanTimestamps_read)
  fix err
  assume "ScanTimestamps cd r fs i t0 t1 = Inl err"
  then show "readColBlock cd r fs i = Inl err"
    by (auto simp: ScanTimestamps_def readColBlock_def decodeColBlock_def decodeColBlockTimestamps_def Let_def
        split: sum.splits if_splits)
qed

theorem ScanTimestamps_correct_witness:
  "\<exists>r fs. reads_as tag_codecs r fs [[zero_record]] \<and> IsColumnar r \<and>
     ScanTimestamps tag_codecs r fs 0 0 1 = Inr [0]"
proof -
  let ?o = "DefaultWriterOptions\<lparr>wo_ColumnOriented := True\<rparr>"
  let ?fs = "fs_empty\<lparr>fs_names := [(''p'', 3)], fs_data := (\<lambda>_. sst_layout tag_codecs ''p'' ?o [[zero_record]])\<rparr>"
  have "length (blk tag_codecs ?o [zero_record]) = 32"
    by (simp add: blk_def encBlock_def Let_def DefaultWriterOptions_def encodeColBlock_payload
        length_colPayload zero_record_def)
  then have "layout_ok tag_codecs ''p'' ?o [[zero_record]]"
    by (simp add: layout_ok_def codecs_ok_tag DefaultWriterOptions_def is_i64_def col_ok_def rec_ok_def
        zero_record_def layout_lengths length_dataBytes srcIndexBytes_def layout_sources_def
        length_fileHeader headerSize_def compression_types)
  from NewReader_layout [OF this, of ?fs 3 False True] obtain r where
    r: "reads_as tag_codecs r ?fs [[zero_record]]" "IsColumnar r"
    by (auto simp: fs_lookup_def fs_empty_def layout_reader_def IsColumnar_def)
  have "readColBlock tag_codecs r ?fs 0 = Inr [zero_record]"
    using r by (simp add: reads_as_def block_recs_def IsColumnar_def)
  with ScanTimestamps_correct [of tag_codecs r ?fs 0 0 1] r show ?thesis
    by (fastforce simp: src_match_def in_range_def zero_record_def)
qed

end
