(* ===== verification/Manifest.thy ===== *)
theory Manifest
  imports Json FileSys Framing
begin

text \<open>
  \<^verbatim>\<open>internal/manifest/manifest.go\<close>: the append-only log of version edits. An edit is a JSON object in
  the frame of theory \<open>Framing\<close>; its marshalling and unmarshalling follow \<^verbatim>\<open>encoding/json\<close> for the two
  structs of the source (\<^verbatim>\<open>omitempty\<close>, unknown keys ignored, keys matched exactly and then up to case,
  \<^verbatim>\<open>null\<close> leaves a field as it is, a type or range error fails). The replay loop interprets the locale
  \<open>framed_log\<close>; the operations pass the manifest and the file system.
\<close>

subsection \<open>Edits\<close>

definition maxEditBodySize :: nat where
  "maxEditBodySize = 64 * 1024 * 1024"

record FileEntry =
  fe_Path :: path
  fe_PartitionStart :: int
  fe_PartitionEnd :: int
  fe_MinTimestamp :: int
  fe_MaxTimestamp :: int
  fe_RecordCount :: nat

record VersionEdit =
  ve_Seq :: nat
  ve_AddedFiles :: "FileEntry list"
  ve_DeletedFiles :: "FileEntry list"

definition zeroFile :: FileEntry where
  "zeroFile = \<lparr>fe_Path = [], fe_PartitionStart = 0, fe_PartitionEnd = 0, fe_MinTimestamp = 0,
     fe_MaxTimestamp = 0, fe_RecordCount = 0\<rparr>"

definition zeroEdit :: VersionEdit where
  "zeroEdit = \<lparr>ve_Seq = 0, ve_AddedFiles = [], ve_DeletedFiles = []\<rparr>"

text \<open>A Go string is a byte sequence.\<close>

definition str_bytes :: "string \<Rightarrow> bytes" where
  "str_bytes s = map (\<lambda>c. of_nat (of_char c)) s"

definition bytes_str :: "bytes \<Rightarrow> string" where
  "bytes_str bs = map (\<lambda>b. char_of (unat b)) bs"

subsection \<open>Marshalling\<close>

definition file_json :: "FileEntry \<Rightarrow> json" where
  "file_json e = JObj
     [(str_bytes ''path'', JStr (str_bytes (fe_Path e))),
      (str_bytes ''partition_start'', JNum (dec_int (fe_PartitionStart e))),
      (str_bytes ''partition_end'', JNum (dec_int (fe_PartitionEnd e))),
      (str_bytes ''min_ts'', JNum (dec_int (fe_MinTimestamp e))),
      (str_bytes ''max_ts'', JNum (dec_int (fe_MaxTimestamp e))),
      (str_bytes ''record_count'', JNum (dec_nat (fe_RecordCount e)))]"

definition files_member :: "string \<Rightarrow> FileEntry list \<Rightarrow> (bytes \<times> json) list" where
  "files_member k es = (if es = [] then [] else [(str_bytes k, JArr (map file_json es))])"

definition edit_json :: "VersionEdit \<Rightarrow> json" where
  "edit_json edit = JObj ((str_bytes ''seq'', JNum (dec_nat (ve_Seq edit))) #
     files_member ''added'' (ve_AddedFiles edit) @ files_member ''deleted'' (ve_DeletedFiles edit))"

definition json_Marshal :: "VersionEdit \<Rightarrow> bytes" where
  "json_Marshal edit = print_val (edit_json edit)"

subsection \<open>Unmarshalling\<close>

text \<open>
  Key matching up to case: upper case for ASCII letters, and the two other characters that fold to
  ASCII letters (U+017F to S, U+212A to K).
\<close>

fun fold_name :: "bytes \<Rightarrow> bytes" where
  "fold_name [] = []"
| "fold_name (b # bs) =
     (if b = 0xC5 \<and> take 1 bs = [0xBF] then 83 # fold_name (drop 1 bs)
      else if b = 0xE2 \<and> take 2 bs = [0x84, 0xAA] then 75 # fold_name (drop 2 bs)
      else if 97 \<le> b \<and> b \<le> 122 then (b - 32) # fold_name bs
      else b # fold_name bs)"

definition json_field :: "string list \<Rightarrow> bytes \<Rightarrow> string option" where
  "json_field names k =
     (case find (\<lambda>n. str_bytes n = k) names of
        Some n \<Rightarrow> Some n
      | None \<Rightarrow> find (\<lambda>n. fold_name (str_bytes n) = fold_name k) names)"

definition un_int64 :: "json \<Rightarrow> int \<Rightarrow> int option" where
  "un_int64 v old = (case v of
     JNull \<Rightarrow> Some old
   | JNum l \<Rightarrow> (case lit_int l of Some i \<Rightarrow> if is_i64 i then Some i else None | None \<Rightarrow> None)
   | _ \<Rightarrow> None)"

definition un_uint64 :: "json \<Rightarrow> nat \<Rightarrow> nat option" where
  "un_uint64 v old = (case v of
     JNull \<Rightarrow> Some old
   | JNum l \<Rightarrow> (case lit_nat l of Some n \<Rightarrow> if n < 2 ^ 64 then Some n else None | None \<Rightarrow> None)
   | _ \<Rightarrow> None)"

definition un_string :: "json \<Rightarrow> string \<Rightarrow> string option" where
  "un_string v old = (case v of JNull \<Rightarrow> Some old | JStr s \<Rightarrow> Some (bytes_str s) | _ \<Rightarrow> None)"

definition un_file_member :: "bytes \<times> json \<Rightarrow> FileEntry \<Rightarrow> FileEntry option" where
  "un_file_member kv e = (case kv of (k, v) \<Rightarrow>
     (case json_field [''path'', ''partition_start'', ''partition_end'', ''min_ts'', ''max_ts'',
        ''record_count''] k of
        None \<Rightarrow> Some e
      | Some n \<Rightarrow>
          if n = ''path'' then map_option (\<lambda>x. e\<lparr>fe_Path := x\<rparr>) (un_string v (fe_Path e))
          else if n = ''partition_start''
          then map_option (\<lambda>x. e\<lparr>fe_PartitionStart := x\<rparr>) (un_int64 v (fe_PartitionStart e))
          else if n = ''partition_end''
          then map_option (\<lambda>x. e\<lparr>fe_PartitionEnd := x\<rparr>) (un_int64 v (fe_PartitionEnd e))
          else if n = ''min_ts'' then map_option (\<lambda>x. e\<lparr>fe_MinTimestamp := x\<rparr>) (un_int64 v (fe_MinTimestamp e))
          else if n = ''max_ts'' then map_option (\<lambda>x. e\<lparr>fe_MaxTimestamp := x\<rparr>) (un_int64 v (fe_MaxTimestamp e))
          else map_option (\<lambda>x. e\<lparr>fe_RecordCount := x\<rparr>) (un_uint64 v (fe_RecordCount e))))"

text \<open>The members of an object, in order; the first error ends in an error.\<close>

fun un_members :: "(bytes \<times> json \<Rightarrow> 'a \<Rightarrow> 'a option) \<Rightarrow> (bytes \<times> json) list \<Rightarrow> 'a \<Rightarrow> 'a option" where
  "un_members f [] x = Some x"
| "un_members f (kv # kvs) x = Option.bind (f kv x) (un_members f kvs)"

definition un_file :: "json \<Rightarrow> FileEntry \<Rightarrow> FileEntry option" where
  "un_file v e = (case v of
     JNull \<Rightarrow> Some e | JObj kvs \<Rightarrow> un_members un_file_member kvs e | _ \<Rightarrow> None)"

text \<open>An array is decoded over the elements that the slice already has.\<close>

fun un_files :: "json list \<Rightarrow> FileEntry list \<Rightarrow> FileEntry list option" where
  "un_files [] old = Some []"
| "un_files (v # vs) old =
     (case un_file v (case old of [] \<Rightarrow> zeroFile | e # _ \<Rightarrow> e) of
        None \<Rightarrow> None
      | Some e \<Rightarrow> map_option (\<lambda>es. e # es) (un_files vs (tl old)))"

definition un_slice :: "json \<Rightarrow> FileEntry list \<Rightarrow> FileEntry list option" where
  "un_slice v old = (case v of JNull \<Rightarrow> Some [] | JArr vs \<Rightarrow> un_files vs old | _ \<Rightarrow> None)"

definition un_edit_member :: "bytes \<times> json \<Rightarrow> VersionEdit \<Rightarrow> VersionEdit option" where
  "un_edit_member kv e = (case kv of (k, v) \<Rightarrow>
     (case json_field [''seq'', ''added'', ''deleted''] k of
        None \<Rightarrow> Some e
      | Some n \<Rightarrow>
          if n = ''seq'' then map_option (\<lambda>x. e\<lparr>ve_Seq := x\<rparr>) (un_uint64 v (ve_Seq e))
          else if n = ''added'' then map_option (\<lambda>x. e\<lparr>ve_AddedFiles := x\<rparr>) (un_slice v (ve_AddedFiles e))
          else map_option (\<lambda>x. e\<lparr>ve_DeletedFiles := x\<rparr>) (un_slice v (ve_DeletedFiles e))))"

definition json_Unmarshal :: "bytes \<Rightarrow> VersionEdit option" where
  "json_Unmarshal body = (case parse_json body of
     None \<Rightarrow> None
   | Some JNull \<Rightarrow> Some zeroEdit
   | Some (JObj kvs) \<Rightarrow> un_members un_edit_member kvs zeroEdit
   | Some _ \<Rightarrow> None)"

subsection \<open>The manifest\<close>

record manifest =
  mf_f :: inode
  mf_path :: path
  mf_bw :: buf_writer
  mf_seq :: nat

definition manifest_Open :: "path \<Rightarrow> file_sys \<Rightarrow> manifest result \<times> file_sys" where
  "manifest_Open path fs =
     (case os_open_create False path fs of
        (Inl e, fs) \<Rightarrow> (Inl e, fs)
      | (Inr f, fs) \<Rightarrow>
          (Inr \<lparr>mf_f = f, mf_path = path, mf_bw = bufio_New f (64 * 1024), mf_seq = 0\<rparr>, fs))"

text \<open>
  \<^verbatim>\<open>Append\<close>: header, body, flush, sync; the sequence number advances after a successful sync only.
  Marshalling an edit does not fail.
\<close>

definition manifest_Append :: "manifest \<Rightarrow> VersionEdit \<Rightarrow> file_sys \<Rightarrow>
    go_error option \<times> manifest \<times> file_sys" where
  "manifest_Append m edit fs =
     (let next = u64 (mf_seq m + 1);
          body = json_Marshal (edit\<lparr>ve_Seq := next\<rparr>);
          len = put_u32 (u32 (length body));
          h = crc_update (crc_update (NOT 0) len) body;
          hdr = put_u32 (crc_sum32 h) @ len
      in case bufio_Write hdr (mf_bw m) fs of
           (Some e, bw, fs) \<Rightarrow> (Some e, m\<lparr>mf_bw := bw\<rparr>, fs)
         | (None, bw, fs) \<Rightarrow>
             (case bufio_Write body bw fs of
                (Some e, bw, fs) \<Rightarrow> (Some e, m\<lparr>mf_bw := bw\<rparr>, fs)
              | (None, bw, fs) \<Rightarrow>
                  (case bufio_Flush bw fs of
                     (Some e, bw, fs) \<Rightarrow> (Some e, m\<lparr>mf_bw := bw\<rparr>, fs)
                   | (None, bw, fs) \<Rightarrow>
                       (case file_sync (mf_f m) fs of
                          (Some e, fs) \<Rightarrow> (Some e, m\<lparr>mf_bw := bw\<rparr>, fs)
                        | (None, fs) \<Rightarrow> (None, m\<lparr>mf_bw := bw, mf_seq := next\<rparr>, fs)))))"

text \<open>
  The loop of \<^verbatim>\<open>Replay\<close>: the edits handed to the callback, the error returned, the largest sequence
  number and the number of valid bytes. As in the write-ahead log, the read of the body is checked
  for \<open>ErrUnexpectedEOF\<close> only.
\<close>

function manifest_replay_loop :: "bytes \<Rightarrow> nat \<Rightarrow> nat \<Rightarrow>
    VersionEdit list \<times> go_error option \<times> nat \<times> nat" where
  "manifest_replay_loop br maxSeq validBytes =
     (case read_full 8 br of
        Inl e \<Rightarrow> ([], if e = EOF \<or> e = ErrUnexpectedEOF then None else Some e, maxSeq, validBytes)
      | Inr (hdr, br1) \<Rightarrow>
          (let bodyLen = get_u32 hdr 4 in
           if bodyLen > maxEditBodySize then ([], None, maxSeq, validBytes)
           else
             (case read_full bodyLen br1 of
                Inl e \<Rightarrow> ([], if e = ErrUnexpectedEOF then None else Some e, maxSeq, validBytes)
              | Inr (body, br2) \<Rightarrow>
                  (let h = crc_update (crc_update (NOT 0) (go_slice 4 8 hdr)) body in
                   if crc_sum32 h \<noteq> get_u32 hdr 0 then ([], None, maxSeq, validBytes)
                   else
                     (case json_Unmarshal body of
                        None \<Rightarrow> ([], None, maxSeq, validBytes)
                      | Some edit \<Rightarrow>
                          (let res = manifest_replay_loop br2
                             (if ve_Seq edit > maxSeq then ve_Seq edit else maxSeq)
                             (validBytes + (8 + bodyLen))
                           in (edit # fst res, snd res)))))))"
  by pat_completeness auto
termination
  by (relation "measure (\<lambda>(br, _, _). length br)") (auto dest!: read_full_Inr)

declare manifest_replay_loop.simps [simp del]

definition manifest_Replay :: "manifest \<Rightarrow> file_sys \<Rightarrow>
    VersionEdit list \<times> go_error option \<times> manifest \<times> file_sys" where
  "manifest_Replay m fs =
     (case bufio_Flush (mf_bw m) fs of
        (Some e, bw, fs) \<Rightarrow> ([], Some e, m\<lparr>mf_bw := bw\<rparr>, fs)
      | (None, bw, fs) \<Rightarrow>
          (let m = m\<lparr>mf_bw := bw\<rparr> in
           case os_open (mf_path m) fs of
             Inl e \<Rightarrow> ([], Some e, m, fs)
           | Inr f \<Rightarrow>
               (case (if fs_bad fs f then ([], Some EIO, 0, 0) else manifest_replay_loop (fs_data fs f) 0 0) of
                  (edits, Some e, maxSeq, validBytes) \<Rightarrow> (edits, Some e, m, snd (file_close f fs))
                | (edits, None, maxSeq, validBytes) \<Rightarrow>
                    (let m = m\<lparr>mf_seq := maxSeq\<rparr>;
                         (terr, fs) = file_truncate (mf_f m) validBytes fs;
                         (cerr, fs) = file_close f fs
                     in (edits, if terr = None then cerr else terr, m, fs)))))"

definition manifest_Close :: "manifest \<Rightarrow> file_sys \<Rightarrow> go_error option \<times> manifest \<times> file_sys" where
  "manifest_Close m fs =
     (case bufio_Flush (mf_bw m) fs of
        (Some e, bw, fs) \<Rightarrow> (Some e, m\<lparr>mf_bw := bw\<rparr>, fs)
      | (None, bw, fs) \<Rightarrow>
          (case file_sync (mf_f m) fs of
             (Some e, fs) \<Rightarrow> (Some e, m\<lparr>mf_bw := bw\<rparr>, fs)
           | (None, fs) \<Rightarrow>
               (case file_close (mf_f m) fs of (e, fs) \<Rightarrow> (e, m\<lparr>mf_bw := bw\<rparr>, fs))))"

subsection \<open>Edits survive marshalling\<close>

text \<open>
  Edits whose fields have their widths and whose paths are ASCII (other bytes survive if they are
  valid UTF-8; that is not needed for the file names of the engine).
\<close>

definition ascii_path :: "path \<Rightarrow> bool" where
  "ascii_path p \<longleftrightarrow> (\<forall>c \<in> set p. (of_char c :: nat) < 128)"

definition file_good :: "FileEntry \<Rightarrow> bool" where
  "file_good e \<longleftrightarrow> ascii_path (fe_Path e) \<and> is_i64 (fe_PartitionStart e) \<and> is_i64 (fe_PartitionEnd e) \<and>
     is_i64 (fe_MinTimestamp e) \<and> is_i64 (fe_MaxTimestamp e) \<and> fe_RecordCount e < 2 ^ 64"

definition files_good :: "VersionEdit \<Rightarrow> bool" where
  "files_good e \<longleftrightarrow> list_all file_good (ve_AddedFiles e) \<and> list_all file_good (ve_DeletedFiles e)"

definition edit_good :: "VersionEdit \<Rightarrow> bool" where
  "edit_good e \<longleftrightarrow> ve_Seq e < 2 ^ 64 \<and> files_good e \<and> length (json_Marshal e) \<le> maxEditBodySize"

lemma bytes_str_bytes [simp]: "bytes_str (str_bytes s) = s"
  by (induction s) (simp_all add: bytes_str_def str_bytes_def unat_small)

lemma str_bytes_inj [simp]: "str_bytes s = str_bytes t \<longleftrightarrow> s = t"
  by (metis bytes_str_bytes)

lemma ascii_str_bytes: "ascii_path p \<Longrightarrow> ascii (str_bytes p)"
  by (auto simp: ascii_path_def ascii_def str_bytes_def word_less_nat_alt unat_small)

lemma ascii_names [simp]:
  "ascii (str_bytes ''path'')" "ascii (str_bytes ''partition_start'')" "ascii (str_bytes ''partition_end'')"
  "ascii (str_bytes ''min_ts'')" "ascii (str_bytes ''max_ts'')" "ascii (str_bytes ''record_count'')"
  "ascii (str_bytes ''seq'')" "ascii (str_bytes ''added'')" "ascii (str_bytes ''deleted'')"
  by (rule ascii_str_bytes, simp add: ascii_path_def)+

lemma json_field_exact [simp]: "n \<in> set names \<Longrightarrow> json_field names (str_bytes n) = Some n"
proof -
  assume "n \<in> set names"
  then have "find (\<lambda>m. m = n) names = Some n" by (induction names) auto
  then show ?thesis by (simp add: json_field_def)
qed

lemma dec_nat_int: "dec_nat n = dec_int (int n)"
  by (simp add: dec_int_def)

lemma file_json_ok: "file_good e \<Longrightarrow> json_ok (file_json e)"
  by (auto simp: file_json_def file_good_def ascii_str_bytes dec_nat_int)

lemma edit_json_ok: "files_good e \<Longrightarrow> json_ok (edit_json e)"
  by (auto simp: edit_json_def files_member_def files_good_def list_all_iff file_json_ok dec_nat_int)

lemma un_file_json: "file_good e \<Longrightarrow> un_file (file_json e) zeroFile = Some e"
  by (simp add: un_file_def file_json_def un_file_member_def file_good_def un_string_def un_int64_def
      un_uint64_def zeroFile_def)

lemma un_files_json: "list_all file_good es \<Longrightarrow> un_files (map file_json es) [] = Some es"
  by (induction es) (simp_all add: un_file_json)

lemma Unmarshal_Marshal:
  assumes "files_good e" "ve_Seq e < 2 ^ 64"
  shows "json_Unmarshal (json_Marshal e) = Some e"
proof -
  have "parse_json (json_Marshal e) = Some (edit_json e)"
    unfolding json_Marshal_def by (rule parse_json_print [OF edit_json_ok [OF assms(1)]])
  moreover have "un_members un_edit_member (files_member ''added'' (ve_AddedFiles e) @
      files_member ''deleted'' (ve_DeletedFiles e)) \<lparr>ve_Seq = ve_Seq e, ve_AddedFiles = [], ve_DeletedFiles = []\<rparr> =
      Some e"
    using assms(1) by (simp add: files_member_def un_edit_member_def un_slice_def files_good_def un_files_json)
  ultimately show ?thesis
    using assms(2) by (simp add: json_Unmarshal_def edit_json_def zeroEdit_def un_edit_member_def [of "(str_bytes ''seq'', _)"]
        un_uint64_def)
qed

subsection \<open>How long a marshalled edit can be\<close>

lemma length_dec_nat: "n < 10 ^ k \<Longrightarrow> 0 < k \<Longrightarrow> length (dec_nat n) \<le> k"
proof (induction k arbitrary: n)
  case (Suc k)
  show ?case
  proof (cases "n < 10")
    case True
    then show ?thesis by (subst dec_nat.simps) simp
  next
    case False
    then have "0 < k" using Suc.prems by (cases k) auto
    moreover have "n div 10 < 10 ^ k" using Suc.prems by auto
    ultimately have "length (dec_nat (n div 10)) \<le> k" using Suc.IH by blast
    then show ?thesis using False by (subst dec_nat.simps) simp
  qed
qed simp

lemma length_dec_u64: "n < 2 ^ 64 \<Longrightarrow> length (dec_nat n) \<le> 20"
  by (rule length_dec_nat) simp_all

lemma length_dec_i64: "is_i64 i \<Longrightarrow> length (dec_int i) \<le> 20"
proof -
  assume "is_i64 i"
  then have "nat (- i) < 10 ^ 19" "nat i < 10 ^ 19" by (auto simp: is_i64_def nat_less_iff)
  from this [THEN length_dec_nat] show ?thesis by (simp add: dec_int_def)
qed

lemma length_js_esc: "ascii bs \<Longrightarrow> length (js_esc bs) \<le> 6 * length bs"
proof (induction bs)
  case (Cons b bs)
  have "length (ascii_esc b) \<le> 6" by (simp add: ascii_esc_def)
  with Cons show ?case by (simp add: ascii_def)
qed simp

lemma length_str_bytes [simp]: "length (str_bytes s) = length s"
  by (simp add: str_bytes_def)

lemma js_esc_names:
  "length (js_esc (str_bytes n)) \<le> 90"
  if "n \<in> {''path'', ''partition_start'', ''partition_end'', ''min_ts'', ''max_ts'', ''record_count'',
    ''seq'', ''added'', ''deleted''}"
proof -
  have "ascii (str_bytes n)" "length n \<le> 15" using that by auto
  then show ?thesis using length_js_esc [of "str_bytes n"] by simp
qed

lemma length_file_json:
  assumes "file_good e"
  shows "length (print_val (file_json e)) \<le> 700 + 6 * length (fe_Path e)"
proof -
  have "length (js_esc (str_bytes (fe_Path e))) \<le> 6 * length (fe_Path e)"
    using assms length_js_esc [of "str_bytes (fe_Path e)"] by (simp add: file_good_def ascii_str_bytes)
  moreover have "length (dec_int (fe_PartitionStart e)) \<le> 20" "length (dec_int (fe_PartitionEnd e)) \<le> 20"
    "length (dec_int (fe_MinTimestamp e)) \<le> 20" "length (dec_int (fe_MaxTimestamp e)) \<le> 20"
    "length (dec_nat (fe_RecordCount e)) \<le> 20"
    using assms by (simp_all add: file_good_def length_dec_i64 length_dec_u64)
  ultimately show ?thesis
    using js_esc_names [of "''path''"] js_esc_names [of "''partition_start''"] js_esc_names [of "''partition_end''"]
      js_esc_names [of "''min_ts''"] js_esc_names [of "''max_ts''"] js_esc_names [of "''record_count''"]
    by (simp add: file_json_def)
qed

lemma length_files_json:
  assumes "list_all file_good es" "\<forall>e \<in> set es. length (fe_Path e) \<le> 4096"
  shows "length (print_elems (map file_json es)) \<le> 25300 * length es"
  using assms
proof (induction es)
  case (Cons e es)
  then show ?case using length_file_json [of e] by simp
qed simp

text \<open>Edits that name at most a thousand files, with paths no longer than \<^verbatim>\<open>PATH_MAX\<close>, fit.\<close>

definition small_edit :: "VersionEdit \<Rightarrow> bool" where
  "small_edit e \<longleftrightarrow> files_good e \<and> length (ve_AddedFiles e) + length (ve_DeletedFiles e) \<le> 1000 \<and>
     (\<forall>f \<in> set (ve_AddedFiles e) \<union> set (ve_DeletedFiles e). length (fe_Path f) \<le> 4096)"

lemma edit_good_small:
  assumes "small_edit e" "ve_Seq e < 2 ^ 64"
  shows "edit_good e"
proof -
  have "length (print_elems (map file_json (ve_AddedFiles e))) \<le> 25300 * length (ve_AddedFiles e)"
    "length (print_elems (map file_json (ve_DeletedFiles e))) \<le> 25300 * length (ve_DeletedFiles e)"
    using assms(1) by (auto simp: small_edit_def files_good_def intro!: length_files_json)
  then have "length (json_Marshal e) \<le> maxEditBodySize"
    using assms length_dec_u64 [of "ve_Seq e"] js_esc_names [of "''seq''"] js_esc_names [of "''added''"]
      js_esc_names [of "''deleted''"]
    by (simp add: json_Marshal_def edit_json_def files_member_def small_edit_def maxEditBodySize_def)
  then show ?thesis using assms by (simp add: edit_good_def small_edit_def)
qed

subsection \<open>The replay loop\<close>

abbreviation edit_frame :: "VersionEdit \<Rightarrow> bytes" where
  "edit_frame e \<equiv> frame (json_Marshal e)"

abbreviation edit_log :: "VersionEdit list \<Rightarrow> bytes" where
  "edit_log es \<equiv> concat (map edit_frame es)"

lemma manifest_loop_unfold:
  "manifest_replay_loop br s v = (case frame_next maxEditBodySize br of
     Stop e \<Rightarrow> ([], e, s, v)
   | Body body rest \<Rightarrow> (case json_Unmarshal body of
       None \<Rightarrow> ([], None, s, v)
     | Some x \<Rightarrow> (let res = manifest_replay_loop rest (max s (ve_Seq x)) (v + 8 + length body)
         in (x # fst res, snd res))))"
proof -
  have "(if s < q then q else s) = max s q" for q by auto
  then show ?thesis
    by (subst manifest_replay_loop.simps)
      (auto simp: frame_next_def Let_def crc32_def read_full_def add.assoc split: sum.splits option.splits)
qed

lemma manifest_loop_acc:
  "fst (manifest_replay_loop br s v) = fst (manifest_replay_loop br s' v') \<and>
   fst (snd (manifest_replay_loop br s v)) = fst (snd (manifest_replay_loop br s' v'))"
proof (induction "length br" arbitrary: br s v s' v' rule: less_induct)
  case less
  show ?case
  proof (cases "frame_next maxEditBodySize br")
    case (Body body rest)
    from less [OF frame_next_shorter [OF this]] Body show ?thesis
      by (auto simp: manifest_loop_unfold [of br] Let_def split: option.split)
  qed (simp add: manifest_loop_unfold [of br])
qed

definition manifest_read :: "bytes \<Rightarrow> VersionEdit list \<times> go_error option" where
  "manifest_read br = (fst (manifest_replay_loop br 0 0), fst (snd (manifest_replay_loop br 0 0)))"

lemma Marshal_nonempty: "json_Marshal e \<noteq> []"
  by (simp add: json_Marshal_def edit_json_def)

interpretation mf: framed_log manifest_read maxEditBodySize json_Marshal json_Unmarshal edit_good
proof
  show "manifest_read br = (case frame_next maxEditBodySize br of
      Stop e \<Rightarrow> ([], e)
    | Body body rest \<Rightarrow> (case json_Unmarshal body of
        None \<Rightarrow> ([], None)
      | Some x \<Rightarrow> (x # fst (manifest_read rest), snd (manifest_read rest))))" for br
    using manifest_loop_acc
    by (auto simp: manifest_read_def manifest_loop_unfold [of br] Let_def split: frame_res.split option.split)
  show "json_Unmarshal (json_Marshal x) = Some x" if "edit_good x" for x
    using that by (intro Unmarshal_Marshal) (simp_all add: edit_good_def)
  show "json_Marshal x \<noteq> [] \<and> length (json_Marshal x) \<le> maxEditBodySize" if "edit_good x" for x
    using that by (simp add: edit_good_def Marshal_nonempty)
qed (simp add: maxEditBodySize_def)

lemma manifest_loop_log:
  assumes "list_all edit_good es"
  shows "manifest_replay_loop (edit_log es @ rest) s v =
    (let res = manifest_replay_loop rest (fold (\<lambda>e s. max s (ve_Seq e)) es s) (v + length (edit_log es))
     in (es @ fst res, snd res))"
  using assms
proof (induction es arbitrary: s v)
  case (Cons e es)
  have "frame_next maxEditBodySize (edit_frame e @ edit_log es @ rest) = Body (json_Marshal e) (edit_log es @ rest)"
    using Cons.prems by (intro frame_next_frame) (simp_all add: edit_good_def maxEditBodySize_def)
  moreover have "json_Unmarshal (json_Marshal e) = Some e"
    using Cons.prems by (intro mf.decode_encode) simp
  ultimately show ?case
    using Cons by (subst manifest_loop_unfold) (simp add: Let_def add.assoc)
qed simp

lemma manifest_loop_torn:
  assumes "list_all edit_good es" "edit_good e" "k < length (edit_frame e)"
  shows "manifest_replay_loop (edit_log es @ take k (edit_frame e)) 0 0 =
    (es, if k = 8 then Some EOF else None, fold (\<lambda>e s. max s (ve_Seq e)) es 0, length (edit_log es))"
proof -
  have "frame_next maxEditBodySize (take k (edit_frame e)) = Stop (if k = 8 then Some EOF else None)"
    using assms(2,3) by (intro frame_next_torn) (simp_all add: edit_good_def maxEditBodySize_def Marshal_nonempty)
  then show ?thesis
    using assms(1) by (simp add: manifest_loop_log manifest_loop_unfold [of "take k (edit_frame e)"] Let_def)
qed

lemma manifest_loop_whole:
  "list_all edit_good es \<Longrightarrow> manifest_replay_loop (edit_log es) 0 0 =
    (es, None, fold (\<lambda>e s. max s (ve_Seq e)) es 0, length (edit_log es))"
  using manifest_loop_log [of es "[]" 0 0]
  by (simp add: manifest_loop_unfold [of "[]"] frame_next_def read_full_def Let_def)

subsection \<open>The manifest on disk\<close>

text \<open>
  \<open>manifest_log m fs es\<close>: the file holds exactly the edits \<open>es\<close>, all of it on stable storage and
  numbered from 1, and the manifest continues the sequence.
\<close>

definition seq_ok :: "VersionEdit list \<Rightarrow> bool" where
  "seq_ok es \<longleftrightarrow> map ve_Seq es = [1..<Suc (length es)]"

definition manifest_file :: "file_sys \<Rightarrow> path \<Rightarrow> inode \<Rightarrow> VersionEdit list \<Rightarrow> bool" where
  "manifest_file fs p f es \<longleftrightarrow> fs_lookup fs p = Some f \<and> \<not> fs_bad fs f \<and> fs_data fs f = edit_log es \<and>
     fs_synced fs f = length (fs_data fs f) \<and> list_all edit_good es \<and> seq_ok es"

definition manifest_log :: "manifest \<Rightarrow> file_sys \<Rightarrow> VersionEdit list \<Rightarrow> bool" where
  "manifest_log m fs es \<longleftrightarrow> manifest_file fs (mf_path m) (mf_f m) es \<and> bw_file (mf_bw m) = mf_f m \<and>
     bw_buf (mf_bw m) = [] \<and> bw_err (mf_bw m) = None \<and> mf_seq m = length es"

definition next_edit :: "VersionEdit list \<Rightarrow> VersionEdit \<Rightarrow> VersionEdit" where
  "next_edit es edit = edit\<lparr>ve_Seq := Suc (length es)\<rparr>"

text \<open>Everything but the contents of inode \<open>f\<close> stays as it was.\<close>

definition own_file :: "inode \<Rightarrow> file_sys \<Rightarrow> file_sys \<Rightarrow> bool" where
  "own_file f fs fs' \<longleftrightarrow> fs_names fs' = fs_names fs \<and> fs_next fs' = fs_next fs \<and> fs_bad fs' = fs_bad fs \<and>
     (\<forall>j. j \<noteq> f \<longrightarrow> fs_data fs' j = fs_data fs j \<and> fs_synced fs' j = fs_synced fs j)"

lemma seq_ok_append: "seq_ok es \<Longrightarrow> seq_ok (es @ [next_edit es e])"
  by (simp add: seq_ok_def next_edit_def)

lemma seq_ok_max: "seq_ok es \<Longrightarrow> fold (\<lambda>e s. max s (ve_Seq e)) es 0 = length es"
proof (induction es rule: rev_induct)
  case (snoc e es)
  then have "seq_ok es" "ve_Seq e = Suc (length es)" by (auto simp: seq_ok_def)
  with snoc.IH show ?case by simp
qed simp

lemma manifest_Append_frame:
  "manifest_Append m edit fs =
     (let body = json_Marshal (edit\<lparr>ve_Seq := u64 (mf_seq m + 1)\<rparr>);
          len = put_u32 (u32 (length body));
          hdr = put_u32 (crc32 (len @ body)) @ len
      in case bufio_Write hdr (mf_bw m) fs of
           (Some e, bw, fs) \<Rightarrow> (Some e, m\<lparr>mf_bw := bw\<rparr>, fs)
         | (None, bw, fs) \<Rightarrow>
             (case bufio_Write body bw fs of
                (Some e, bw, fs) \<Rightarrow> (Some e, m\<lparr>mf_bw := bw\<rparr>, fs)
              | (None, bw, fs) \<Rightarrow>
                  (case bufio_Flush bw fs of
                     (Some e, bw, fs) \<Rightarrow> (Some e, m\<lparr>mf_bw := bw\<rparr>, fs)
                   | (None, bw, fs) \<Rightarrow>
                       (case file_sync (mf_f m) fs of
                          (Some e, fs) \<Rightarrow> (Some e, m\<lparr>mf_bw := bw\<rparr>, fs)
                        | (None, fs) \<Rightarrow> (None, m\<lparr>mf_bw := bw, mf_seq := u64 (mf_seq m + 1)\<rparr>, fs)))))"
  by (simp only: manifest_Append_def Let_def crc32_def crc_update_append)

lemma file_sync_any:
  "file_sync i fs = (e, fs') \<Longrightarrow> fs_names fs' = fs_names fs \<and> fs_next fs' = fs_next fs \<and>
     fs_bad fs' = fs_bad fs \<and> fs_data fs' = fs_data fs \<and>
     fs_synced fs' = (if e = None then (fs_synced fs)(i := length (fs_data fs i)) else fs_synced fs)"
  by (cases "fs_faults fs") (auto simp: file_sync_def pop_fault_def split: option.splits)

lemma append_partial:
  assumes "fs_data fs f = old" "fs_synced fs f = length old"
    and "own_data f fs fs2" "prefix (fs_data fs2 f) (old @ fr)"
  shows "own_file f fs fs2" "\<exists>k. fs_data fs2 f = old @ take k fr" "fs_synced fs2 f = length old"
proof -
  from assms(1,3) obtain d where d: "fs_data fs2 f = old @ d" by (auto simp: own_data_def prefix_def)
  then have "prefix d fr" using assms(4) by simp
  then have "d = take (length d) fr" by (auto simp: prefix_def)
  with d show "\<exists>k. fs_data fs2 f = old @ take k fr" by metis
qed (use assms in \<open>auto simp: own_data_def own_file_def\<close>)

text \<open>
  \<^verbatim>\<open>Append\<close> under any faults: the file keeps the old log and gets a prefix of the new frame, and if no
  error is returned, the log with the new edit is on stable storage.
\<close>

lemma manifest_Append_any:
  assumes "manifest_log m fs es" "edit_good (next_edit es edit)"
    and "manifest_Append m edit fs = (err, m', fs')"
  shows "own_file (mf_f m) fs fs'"
    "\<exists>k. fs_data fs' (mf_f m) = edit_log es @ take k (edit_frame (next_edit es edit))"
    "length (edit_log es) \<le> fs_synced fs' (mf_f m)"
    "err = None \<Longrightarrow> manifest_log m' fs' (es @ [next_edit es edit]) \<and> mf_path m' = mf_path m \<and> mf_f m' = mf_f m"
proof -
  let ?f = "mf_f m" and ?e = "next_edit es edit"
  let ?body = "json_Marshal ?e"
  let ?len = "put_u32 (u32 (length ?body))"
  let ?hdr = "put_u32 (crc32 (?len @ ?body)) @ ?len"
  have seq: "u64 (mf_seq m + 1) = Suc (length es)"
    using assms(1,2) by (simp add: manifest_log_def edit_good_def next_edit_def u64_id)
  have log: "bw_file (mf_bw m) = ?f" "bw_buf (mf_bw m) = []" "bw_err (mf_bw m) = None"
    "fs_data fs ?f = edit_log es" "fs_synced fs ?f = length (edit_log es)" "manifest_file fs (mf_path m) ?f es"
    using assms(1) by (auto simp: manifest_log_def manifest_file_def)
  have fr: "?hdr @ ?body = edit_frame ?e" by (simp add: frame_def Let_def)
  obtain e1 b1 fs1 where w1: "bufio_Write ?hdr (mf_bw m) fs = (e1, b1, fs1)" by (metis prod_cases3)
  from bufio_Write_any [OF w1 log(3)] obtain r1 where
    a1: "own_data ?f fs fs1" "bw_file b1 = ?f" "edit_log es @ ?hdr = fs_data fs1 ?f @ r1"
      "e1 = None \<longrightarrow> r1 = bw_buf b1 \<and> bw_err b1 = None" using log by (auto simp: bw_view_def)
  define Q where "Q \<longleftrightarrow> own_file ?f fs fs' \<and> (\<exists>k. fs_data fs' ?f = edit_log es @ take k (edit_frame ?e)) \<and>
    length (edit_log es) \<le> fs_synced fs' ?f \<and>
    (err = None \<longrightarrow> manifest_log m' fs' (es @ [?e]) \<and> mf_path m' = mf_path m \<and> mf_f m' = mf_f m)"
  note partial = append_partial [OF log(4,5), where fr = "edit_frame ?e"]
  have Q
  proof (cases e1)
    case (Some x)
    then have "err = Some x" "fs' = fs1" using assms(3) w1 seq
      by (auto simp: manifest_Append_frame Let_def next_edit_def)
    moreover have "prefix (fs_data fs1 ?f) (edit_log es @ edit_frame ?e)"
      using a1(3) by (metis append_assoc fr prefixI)
    ultimately show ?thesis using partial [OF a1(1)] by (simp add: Q_def)
  next
    case None
    then have b1: "bw_err b1 = None" "bw_view b1 fs1 = edit_log es @ ?hdr"
      using a1 by (simp_all add: bw_view_def)
    obtain e2 b2 fs2 where w2: "bufio_Write ?body b1 fs1 = (e2, b2, fs2)" by (metis prod_cases3)
    from bufio_Write_any [OF w2 b1(1)] obtain r2 where
      a2: "own_data ?f fs1 fs2" "bw_file b2 = ?f" "edit_log es @ edit_frame ?e = fs_data fs2 ?f @ r2"
        "e2 = None \<longrightarrow> r2 = bw_buf b2 \<and> bw_err b2 = None"
      using a1(2) b1(2) fr by auto
    note o2 = own_data_trans [OF a1(1) a2(1)]
    show ?thesis
    proof (cases e2)
      case (Some x)
      then have "err = Some x" "fs' = fs2" using assms(3) w1 w2 seq None
        by (auto simp: manifest_Append_frame Let_def next_edit_def)
      then show ?thesis using partial [OF o2] a2(3) by (simp add: Q_def)
    next
      case ok2: None
      then have b2: "bw_err b2 = None" "bw_view b2 fs2 = edit_log es @ edit_frame ?e"
        using a2 by (simp_all add: bw_view_def)
      obtain e3 b3 fs3 where w3: "bufio_Flush b2 fs2 = (e3, b3, fs3)" by (metis prod_cases3)
      note a3 = bufio_Flush_any [OF w3 b2(1)]
      have o3: "own_data ?f fs fs3" using own_data_trans [OF o2] a3 a2(2) by simp
      have v3: "fs_data fs3 ?f @ bw_buf b3 = edit_log es @ edit_frame ?e"
        using a3 b2(2) a2(2) by (auto simp: bw_view_def)
      have p3: "prefix (fs_data fs3 ?f) (edit_log es @ edit_frame ?e)" using v3 by (metis prefixI)
      show ?thesis
      proof (cases e3)
        case (Some x)
        then have "err = Some x" "fs' = fs3" using assms(3) w1 w2 w3 seq None ok2
          by (auto simp: manifest_Append_frame Let_def next_edit_def)
        then show ?thesis using partial [OF o3 p3] by (simp add: Q_def)
      next
        case ok3: None
        obtain e4 fs4 where w4: "file_sync ?f fs3 = (e4, fs4)" by force
        note a4 = file_sync_any [OF w4]
        have res: "err = e4" "fs' = fs4"
          "m' = (if e4 = None then m\<lparr>mf_bw := b3, mf_seq := Suc (length es)\<rparr> else m\<lparr>mf_bw := b3\<rparr>)"
          using assms(3) w1 w2 w3 w4 seq None ok2 ok3
          by (auto simp: manifest_Append_frame Let_def next_edit_def split: option.splits)
        have d4: "fs_data fs4 ?f = edit_log (es @ [?e])" using v3 a3 ok3 a4 by simp
        have "own_file ?f fs fs4" using partial(1) [OF o3 p3] a4 by (auto simp: own_file_def)
        moreover have "\<exists>k. fs_data fs4 ?f = edit_log es @ take k (edit_frame ?e)"
          using d4 by (intro exI [of _ "length (edit_frame ?e)"]) simp
        moreover have "length (edit_log es) \<le> fs_synced fs4 ?f"
          using partial(3) [OF o3 p3] a4 d4 by auto
        moreover have "manifest_log m' fs4 (es @ [?e])" if "err = None"
          using that res d4 a3 a4 ok3 o3 log(6) assms(2) seq_ok_append [of es edit] a2(2)
          by (simp add: manifest_log_def manifest_file_def own_data_def fs_lookup_def)
        ultimately show ?thesis using res by (auto simp: Q_def)
      qed
    qed
  qed
  then show "own_file (mf_f m) fs fs'"
    "\<exists>k. fs_data fs' (mf_f m) = edit_log es @ take k (edit_frame (next_edit es edit))"
    "length (edit_log es) \<le> fs_synced fs' (mf_f m)"
    "err = None \<Longrightarrow> manifest_log m' fs' (es @ [next_edit es edit]) \<and> mf_path m' = mf_path m \<and> mf_f m' = mf_f m"
    by (auto simp: Q_def)
qed

lemma manifest_Append_ok:
  assumes "fs_faults fs = []" "manifest_log m fs es" "edit_good (next_edit es edit)"
  shows "\<exists>m' fs'. manifest_Append m edit fs = (None, m', fs') \<and> fs_faults fs' = []"
proof -
  let ?body = "json_Marshal (edit\<lparr>ve_Seq := u64 (mf_seq m + 1)\<rparr>)"
  let ?len = "put_u32 (u32 (length ?body))"
  let ?hdr = "put_u32 (crc32 (?len @ ?body)) @ ?len"
  have bw: "bw_err (mf_bw m) = None" using assms(2) by (simp add: manifest_log_def)
  from bufio_Write_ok [OF assms(1) bw, of ?hdr] obtain buf1 fs1 where
    w1: "bufio_Write ?hdr (mf_bw m) fs = (None, (mf_bw m)\<lparr>bw_buf := buf1\<rparr>, fs1)" "fs_faults fs1 = []"
    using assms(1) only_data_frame(1) by metis
  from bufio_Write_ok [OF w1(2), of "(mf_bw m)\<lparr>bw_buf := buf1\<rparr>" ?body] bw obtain buf2 fs2 where
    w2: "bufio_Write ?body ((mf_bw m)\<lparr>bw_buf := buf1\<rparr>) fs1 = (None, (mf_bw m)\<lparr>bw_buf := buf2\<rparr>, fs2)"
      "fs_faults fs2 = []" using w1(2) only_data_frame(1) by fastforce
  from bufio_Flush_ok [OF w2(2), of "(mf_bw m)\<lparr>bw_buf := buf2\<rparr>"] bw obtain fs3 where
    w3: "bufio_Flush ((mf_bw m)\<lparr>bw_buf := buf2\<rparr>) fs2 = (None, (mf_bw m)\<lparr>bw_buf := []\<rparr>, fs3)"
      "fs_faults fs3 = []" using w2(2) only_data_frame(1) by fastforce
  show ?thesis using w1 w2 w3 unfolding manifest_Append_frame Let_def by simp
qed

subsection \<open>Opening after a crash\<close>

lemma manifest_Open_existing:
  "fs_faults fs = [] \<Longrightarrow> fs_lookup fs p = Some f \<Longrightarrow>
   manifest_Open p fs = (Inr \<lparr>mf_f = f, mf_path = p, mf_bw = bufio_New f (64 * 1024), mf_seq = 0\<rparr>, fs)"
  by (simp add: manifest_Open_def os_open_create_def)

text \<open>
  \<^verbatim>\<open>Replay\<close> of a freshly opened manifest whose file holds a log and a prefix of one more frame.
\<close>

lemma manifest_Replay_torn:
  assumes "fs_faults fs = []" "fs_lookup fs p = Some f" "\<not> fs_bad fs f"
    and "fs_data fs f = edit_log es @ take k (edit_frame e)" "k < length (edit_frame e)"
    and "fs_synced fs f = length (fs_data fs f)" "list_all edit_good es" "seq_ok es" "edit_good e"
    and m: "m = \<lparr>mf_f = f, mf_path = p, mf_bw = bufio_New f (64 * 1024), mf_seq = 0\<rparr>"
  shows "if k = 8 then manifest_Replay m fs = (es, Some EOF, m, fs)
    else \<exists>m' fs'. manifest_Replay m fs = (es, None, m', fs') \<and> manifest_log m' fs' es \<and>
      fs_faults fs' = [] \<and> own_file f fs fs' \<and> mf_path m' = p \<and> mf_f m' = f"
  using assms manifest_loop_torn [OF assms(7,9,5)] seq_ok_max [OF assms(8)]
  by (auto simp: manifest_Replay_def bufio_Flush_def bufio_New_def os_open_def Let_def file_truncate_def
      manifest_log_def manifest_file_def fs_lookup_def own_file_def split: if_splits)

lemma manifest_Replay_whole:
  assumes "fs_faults fs = []" "manifest_file fs p f es"
    and m: "m = \<lparr>mf_f = f, mf_path = p, mf_bw = bufio_New f (64 * 1024), mf_seq = 0\<rparr>"
  shows "\<exists>m' fs'. manifest_Replay m fs = (es, None, m', fs') \<and> manifest_log m' fs' es \<and>
      fs_faults fs' = [] \<and> own_file f fs fs' \<and> mf_path m' = p \<and> mf_f m' = f"
  using assms manifest_loop_whole [of es] seq_ok_max [of es]
  by (auto simp: manifest_Replay_def bufio_Flush_def bufio_New_def os_open_def Let_def file_truncate_def
      manifest_log_def manifest_file_def fs_lookup_def own_file_def)

subsection \<open>Properties\<close>

text \<open>
  C40: edits survive the JSON encoding: an edit with ASCII paths and fields within their widths is
  unmarshalled from its marshalled form unchanged, whatever files it adds and deletes.
\<close>

theorem edit_roundtrip:
  assumes "files_good e" "ve_Seq e < 2 ^ 64"
  shows "json_Unmarshal (json_Marshal e) = Some e"
  by (rule Unmarshal_Marshal [OF assms])

theorem edit_roundtrip_witness:
  "json_Unmarshal (json_Marshal \<lparr>ve_Seq = 7, ve_AddedFiles = [zeroFile\<lparr>fe_Path := ''a<b'', fe_MinTimestamp := -5\<rparr>],
     ve_DeletedFiles = []\<rparr>) =
   Some \<lparr>ve_Seq = 7, ve_AddedFiles = [zeroFile\<lparr>fe_Path := ''a<b'', fe_MinTimestamp := -5\<rparr>], ve_DeletedFiles = []\<rparr>"
  by (rule edit_roundtrip) (simp_all add: files_good_def file_good_def zeroFile_def ascii_path_def is_i64_def)

text \<open>
  C22: an append to the manifest is atomic and durable, for edits whose paths are ASCII, whose numbers
  fit their 64-bit fields and whose encoding has at most 64 MiB. Whatever system call fails during \<^verbatim>\<open>Append\<close>, and
  whatever a crash afterwards leaves of the file, opening and replaying it delivers the old edits or
  the old edits and the new one, and the latter if \<^verbatim>\<open>Append\<close> returned nil; the torn tail is cut off and
  the manifest continues the sequence. The one exception: when exactly the 8 header bytes of the new
  frame reached the disk, \<^verbatim>\<open>Replay\<close> returns \<open>EOF\<close> and the manifest cannot be opened.
\<close>

theorem manifest_append_atomic:
  assumes "manifest_log m fs es" "edit_good (next_edit es edit)"
    and "manifest_Append m edit fs = (err, m', fs')" "fs_crash fs' fs''" "fs_faults fs'' = []"
  shows "\<exists>m2. manifest_Open (mf_path m) fs'' = (Inr m2, fs'') \<and>
    (\<exists>es' err2 m3 fs3. manifest_Replay m2 fs'' = (es', err2, m3, fs3) \<and>
       (es' = es \<and> err \<noteq> None \<or> es' = es @ [next_edit es edit]) \<and>
       (err2 = None \<and> manifest_log m3 fs3 es' \<or>
        err2 = Some EOF \<and> length (fs_data fs'' (mf_f m)) = length (edit_log es) + 8))"
proof -
  let ?f = "mf_f m" and ?e = "next_edit es edit"
  let ?m2 = "\<lparr>mf_f = ?f, mf_path = mf_path m, mf_bw = bufio_New ?f (64 * 1024), mf_seq = 0\<rparr>"
  note ap = manifest_Append_any [OF assms(1-3)]
  have old: "fs_lookup fs (mf_path m) = Some ?f" "\<not> fs_bad fs ?f" "list_all edit_good es" "seq_ok es"
    using assms(1) by (auto simp: manifest_log_def manifest_file_def)
  have env: "fs_lookup fs'' (mf_path m) = Some ?f" "\<not> fs_bad fs'' ?f"
    using old ap(1) assms(4) by (auto simp: own_file_def fs_crash_def fs_lookup_def)
  from assms(4) obtain n where n: "fs_synced fs' ?f \<le> n" "n \<le> length (fs_data fs' ?f)"
    "fs_data fs'' ?f = take n (fs_data fs' ?f)" "fs_synced fs'' ?f = length (fs_data fs'' ?f)"
    by (auto simp: fs_crash_def)
  from ap(2) obtain k0 where k0: "fs_data fs' ?f = edit_log es @ take k0 (edit_frame ?e)" by blast
  define k where "k = min (n - length (edit_log es)) k0"
  have d: "fs_data fs'' ?f = edit_log es @ take k (edit_frame ?e)"
    using n ap(3) k0 by (simp add: k_def)
  have op: "manifest_Open (mf_path m) fs'' = (Inr ?m2, fs'')"
    by (rule manifest_Open_existing [OF assms(5) env(1)])
  show ?thesis
  proof (cases "k < length (edit_frame ?e)")
    case True
    have "err \<noteq> None"
    proof
      assume "err = None"
      then have "manifest_file fs' (mf_path m) ?f (es @ [?e])" using ap(4) by (auto simp: manifest_log_def)
      then have "fs_synced fs' ?f = length (edit_log (es @ [?e]))" "fs_data fs' ?f = edit_log (es @ [?e])"
        by (simp_all add: manifest_file_def)
      then have "fs_data fs'' ?f = edit_log (es @ [?e])" using n by simp
      then show False using d True by (metis (no_types, lifting) concat.simps concat_append append_Nil2
            list.simps(8,9) map_append same_append_eq take_all_iff not_le)
    qed
    with manifest_Replay_torn [OF assms(5) env d True n(4) old(3,4) assms(2) refl] op show ?thesis
      using d True by (auto split: if_splits)
  next
    case False
    then have "manifest_file fs'' (mf_path m) ?f (es @ [?e])"
      using d env n(4) old assms(2) seq_ok_append by (simp add: manifest_file_def)
    from manifest_Replay_whole [OF assms(5) this refl] op show ?thesis by auto
  qed
qed

definition demo_manifest :: manifest where
  "demo_manifest = \<lparr>mf_f = 0, mf_path = ''MANIFEST'', mf_bw = bufio_New 0 (64 * 1024), mf_seq = 0\<rparr>"

theorem manifest_append_atomic_witness:
  "\<exists>m' fs'. manifest_Append demo_manifest zeroEdit (fs_empty\<lparr>fs_names := [(''MANIFEST'', 0)]\<rparr>) = (None, m', fs') \<and>
     (\<forall>fs''. fs_crash fs' fs'' \<and> fs_faults fs'' = [] \<longrightarrow>
        (\<exists>m2 err2 m3 fs3. manifest_Open ''MANIFEST'' fs'' = (Inr m2, fs'') \<and>
           manifest_Replay m2 fs'' = ([next_edit [] zeroEdit], err2, m3, fs3)))"
proof -
  let ?fs = "fs_empty\<lparr>fs_names := [(''MANIFEST'', 0)]\<rparr>"
  have log: "manifest_log demo_manifest ?fs []"
    by (simp add: manifest_log_def manifest_file_def demo_manifest_def fs_lookup_def fs_empty_def bufio_New_def
        seq_ok_def)
  have good: "edit_good (next_edit [] zeroEdit)"
  proof -
    have "json_Marshal (next_edit [] zeroEdit) = [123, 34, 115, 101, 113, 34, 58, 49, 125]" by code_simp
    then show ?thesis
      by (simp add: edit_good_def next_edit_def zeroEdit_def files_good_def maxEditBodySize_def)
  qed
  from manifest_Append_ok [OF _ log good] obtain m' fs' where
    a: "manifest_Append demo_manifest zeroEdit ?fs = (None, m', fs')" by (auto simp: fs_empty_def)
  have "\<exists>m2 err2 m3 fs3. manifest_Open ''MANIFEST'' fs'' = (Inr m2, fs'') \<and>
      manifest_Replay m2 fs'' = ([next_edit [] zeroEdit], err2, m3, fs3)"
    if "fs_crash fs' fs''" "fs_faults fs'' = []" for fs''
    using manifest_append_atomic [OF log good a that] by (fastforce simp: demo_manifest_def)
  with a show ?thesis by blast
qed

end
