(* ===== verification/Memtable.thy ===== *)
theory Memtable
  imports Records
begin

text \<open>
  \<^verbatim>\<open>internal/memtable/memtable.go\<close>: the sorted buffer of one partition and its snapshot
  iterator. The lock is not modelled: every method holds it for its whole body, so a method
  is one step. Insertion is compared with \<open>insort_key\<close>, scans with the query specification.
\<close>

subsection \<open>State and operations\<close>

record memtable =
  mt_records :: "go_record list"
  mt_sizeBytes :: int

definition memtable_New :: memtable where
  "memtable_New = \<lparr>mt_records = [], mt_sizeBytes = 0\<rparr>"

definition insertionPoint :: "go_record list \<Rightarrow> go_record \<Rightarrow> nat" where
  "insertionPoint records r = sort_search (length records) (\<lambda>i.
     if Timestamp (records ! i) \<noteq> Timestamp r
     then Timestamp (records ! i) > Timestamp r
     else bytes_compare (SourceID (records ! i)) (SourceID r) \<ge> 0)"

definition recordSize :: "go_record \<Rightarrow> int" where
  "recordSize r = int (8 + length (SourceID r) + length (Payload r))"

text \<open>
  \<^verbatim>\<open>append\<close> of a zero record, \<^verbatim>\<open>copy(records[i+1:], records[i:])\<close>, then the store at \<open>i\<close>.
\<close>

definition memtable_Append :: "memtable \<Rightarrow> go_record \<Rightarrow> memtable" where
  "memtable_Append m r =
     (let i = insertionPoint (mt_records m) r;
          grown = mt_records m @ [zero_record];
          shifted = take (i + 1) grown @ take (length grown - (i + 1)) (drop i grown)
      in \<lparr>mt_records = shifted[i := r], mt_sizeBytes = i64 (mt_sizeBytes m + recordSize r)\<rparr>)"

definition memtable_snapshot :: "memtable \<Rightarrow> go_record list" where
  "memtable_snapshot m = mt_records m"

record mem_iter =
  mi_records :: "go_record list"
  mi_pos :: int
  mi_end :: int
  mi_sourceID :: "bytes option"
  mi_current :: go_record

text \<open>\<^verbatim>\<open>make([]record.Record, endIdx-startIdx)\<close> panics on a negative length.\<close>

definition memtable_Scan :: "memtable \<Rightarrow> int \<Rightarrow> int \<Rightarrow> bytes option \<Rightarrow> mem_iter result" where
  "memtable_Scan m start end' sourceID =
     (let rs = mt_records m;
          startIdx = sort_search (length rs) (\<lambda>i. Timestamp (rs ! i) \<ge> start);
          endIdx = sort_search (length rs) (\<lambda>i. Timestamp (rs ! i) \<ge> end')
      in if endIdx < startIdx then Inl GoPanic
         else Inr \<lparr>mi_records = go_slice startIdx endIdx rs, mi_pos = -1, mi_end = end',
           mi_sourceID = sourceID, mi_current = zero_record\<rparr>)"

definition memtable_ApproximateSize :: "memtable \<Rightarrow> int" where
  "memtable_ApproximateSize m = mt_sizeBytes m"

definition memtable_Freeze :: "memtable \<Rightarrow> mem_iter" where
  "memtable_Freeze m = \<lparr>mi_records = memtable_snapshot m, mi_pos = -1, mi_end = MaxInt64,
     mi_sourceID = None, mi_current = zero_record\<rparr>"

function mem_iter_Next :: "mem_iter \<Rightarrow> bool \<times> mem_iter" where
  "mem_iter_Next it =
     (let it = it\<lparr>mi_pos := mi_pos it + 1\<rparr> in
      if mi_pos it \<ge> int (length (mi_records it)) then (False, it)
      else
        (let r = mi_records it ! nat (mi_pos it) in
         if Timestamp r \<ge> mi_end it then (False, it)
         else if mi_sourceID it \<noteq> None \<and> SourceID r \<noteq> the (mi_sourceID it) then mem_iter_Next it
         else (True, it\<lparr>mi_current := r\<rparr>)))"
  by pat_completeness auto
termination
  by (relation "measure (\<lambda>it. nat (int (length (mi_records it)) - mi_pos it))")
    (auto simp: Let_def)

declare mem_iter_Next.simps [simp del]

definition mem_iter_View :: "mem_iter \<Rightarrow> record_view" where
  "mem_iter_View it = mi_current it"

definition mem_iter_Record :: "mem_iter \<Rightarrow> go_record" where
  "mem_iter_Record it = mi_current it"

subsection \<open>The invariant\<close>

definition memtable_inv :: "memtable \<Rightarrow> bool" where
  "memtable_inv m \<longleftrightarrow> rec_sorted (mt_records m) \<and>
     mt_sizeBytes m = i64 (sum_list (map recordSize (mt_records m)))"

lemma sorted_wrt_insertion:
  assumes "rec_sorted rs"
  shows "sorted_wrt (\<lambda>x y. rkey r \<le> rkey x \<longrightarrow> rkey r \<le> rkey y) rs"
  using assms by (auto simp: rec_sorted_wrt intro: sorted_wrt_mono_rel [rotated])

lemma insertionPoint_key:
  "insertionPoint rs r = sort_search (length rs) (\<lambda>i. rkey r \<le> rkey (rs ! i))"
  unfolding insertionPoint_def
  by (intro arg_cong [where f = "sort_search (length rs)"] ext) (auto simp: rkey_le)

lemma insertionPoint_le: "rec_sorted rs \<Longrightarrow> insertionPoint rs r \<le> length rs"
  unfolding insertionPoint_key
  by (rule sort_search_border(1)) (auto intro: order_trans rec_sorted_nth_mono)

lemma shift_insert:
  assumes "i \<le> length xs"
  shows "(take (i + 1) (xs @ [z]) @ take (length (xs @ [z]) - (i + 1)) (drop i (xs @ [z])))[i := r]
    = take i xs @ r # drop i xs"
proof (cases "i = length xs")
  case False
  with assms have i: "i < length xs" by simp
  then have "take (i + 1) (xs @ [z]) = take i xs @ [xs ! i]"
    by (simp add: take_Suc_conv_app_nth)
  with i show ?thesis by (simp add: list_update_append)
qed simp

lemma insort_split:
  assumes "rec_sorted rs"
  shows "take (insertionPoint rs r) rs @ r # drop (insertionPoint rs r) rs = insort_key rkey r rs"
proof -
  note split = sort_search_filter [OF sorted_wrt_insertion [OF assms, of r],
      folded insertionPoint_key]
  have "filter (\<lambda>x. \<not> rkey r \<le> rkey x) rs @ r # filter (\<lambda>x. rkey r \<le> rkey x) rs
      = insort_key rkey r rs"
    using assms
  proof (induction rs)
    case (Cons a rs)
    show ?case
    proof (cases "rkey r \<le> rkey a")
      case True
      with Cons.prems have all: "\<forall>x \<in> set (a # rs). rkey r \<le> rkey x" by auto
      then have "filter (\<lambda>x. \<not> rkey r \<le> rkey x) rs = []" "filter (\<lambda>x. rkey r \<le> rkey x) rs = rs"
        by (simp_all add: filter_empty_conv filter_id_conv)
      with True show ?thesis by simp
    next
      case False
      with Cons show ?thesis by simp
    qed
  qed simp
  then show ?thesis using split by simp
qed

lemma memtable_Append_records:
  assumes "rec_sorted (mt_records m)"
  shows "mt_records (memtable_Append m r) = insort_key rkey r (mt_records m)"
  using shift_insert [OF insertionPoint_le [OF assms]] insort_split [OF assms]
  by (simp add: memtable_Append_def Let_def)

lemma memtable_Append_size:
  "mt_sizeBytes (memtable_Append m r) = i64 (mt_sizeBytes m + recordSize r)"
  by (simp add: memtable_Append_def Let_def)

lemma i64_add: "i64 (i64 a + b) = i64 (a + b)" "i64 (a + i64 b) = i64 (a + b)"
  proof -
  show "i64 (i64 a + b) = i64 (a + b)"
    using mod_add_left_eq [of "a + 9223372036854775808" 18446744073709551616 b]
    by (simp add: i64_def algebra_simps)
  show "i64 (a + i64 b) = i64 (a + b)"
    using mod_add_right_eq [of a "b + 9223372036854775808" 18446744073709551616]
    by (simp add: i64_def algebra_simps)
qed

lemma sum_list_insort: "sum_list (map f (insort_key k x xs)) = f x + sum_list (map f xs)"
  for f :: "'a \<Rightarrow> int"
  by (induction xs) auto

lemma rec_sorted_insort: "rec_sorted rs \<Longrightarrow> rec_sorted (insort_key rkey r rs)"
  by (simp add: rec_sorted_def sorted_insort_key)

lemma memtable_inv_New: "memtable_inv memtable_New"
  by (simp add: memtable_inv_def memtable_New_def i64_def)

lemma memtable_inv_Append: "memtable_inv m \<Longrightarrow> memtable_inv (memtable_Append m r)"
  by (simp add: memtable_inv_def memtable_Append_records memtable_Append_size rec_sorted_insort
      sum_list_insort i64_add add.commute)

subsection \<open>Iterators\<close>

definition mem_rest :: "mem_iter \<Rightarrow> go_record list" where
  "mem_rest it = filter (src_match (mi_sourceID it))
     (takeWhile (\<lambda>r. Timestamp r < mi_end it) (drop (nat (mi_pos it + 1)) (mi_records it)))"

lemma mem_iter_Next_spec:
  assumes "-1 \<le> mi_pos it"
  shows "case mem_rest it of
      [] \<Rightarrow> \<exists>it'. mem_iter_Next it = (False, it')
    | r # rs \<Rightarrow> \<exists>it'. mem_iter_Next it = (True, it') \<and> mi_current it' = r \<and>
        mem_rest it' = rs \<and> -1 \<le> mi_pos it'"
  using assms
proof (induction it rule: mem_iter_Next.induct)
  case (1 it)
  define it1 where "it1 = it\<lparr>mi_pos := mi_pos it + 1\<rparr>"
  define k where "k = nat (mi_pos it + 1)"
  show ?case
  proof (cases "mi_pos it1 \<ge> int (length (mi_records it1))")
    case True
    then have "mem_rest it = []" by (simp add: mem_rest_def it1_def)
    moreover have "mem_iter_Next it = (False, it1)"
      using True by (subst mem_iter_Next.simps) (simp add: it1_def Let_def)
    ultimately show ?thesis by simp
  next
    case False
    define r where "r = mi_records it1 ! nat (mi_pos it1)"
    have k: "k < length (mi_records it)" "nat (mi_pos it1) = k" "nat (mi_pos it1 + 1) = Suc k"
      using False "1.prems" by (auto simp: k_def it1_def)
    have dr: "drop k (mi_records it) = r # drop (Suc k) (mi_records it)"
      using Cons_nth_drop_Suc [OF k(1)] k(2) by (simp add: r_def it1_def k_def)
    show ?thesis
    proof (cases "Timestamp r \<ge> mi_end it1")
      case True
      then have "mem_rest it = []" by (simp add: mem_rest_def dr it1_def flip: k_def)
      moreover have "mem_iter_Next it = (False, it1)"
        using False True by (subst mem_iter_Next.simps) (simp add: it1_def Let_def r_def)
      ultimately show ?thesis by simp
    next
      case t: False
      have rest: "mem_rest it = (if src_match (mi_sourceID it) r then r # mem_rest it1
          else mem_rest it1)"
        using t k(3) by (simp add: mem_rest_def dr it1_def flip: k_def)
      show ?thesis
      proof (cases "src_match (mi_sourceID it) r")
        case True
        then have "mem_iter_Next it = (True, it1\<lparr>mi_current := r\<rparr>)"
          using False t by (subst mem_iter_Next.simps)
            (auto simp: it1_def Let_def r_def src_match_def split: option.splits)
        then show ?thesis using rest True "1.prems" by (simp add: mem_rest_def it1_def)
      next
        case s: False
        have skip: "mi_sourceID it1 \<noteq> None \<and> SourceID r \<noteq> the (mi_sourceID it1)"
          using s by (auto simp: src_match_def it1_def split: option.splits)
        have "mem_iter_Next it = mem_iter_Next it1"
          using False t skip by (subst mem_iter_Next.simps) (simp add: it1_def Let_def r_def)
        moreover have "-1 \<le> mi_pos it1" using "1.prems" by (simp add: it1_def)
        ultimately show ?thesis
          using "1.IH" [OF it1_def False r_def t skip] rest s by (simp split: list.splits)
      qed
    qed
  qed
qed

interpretation mem: record_iterator
  "\<lambda>it s. (case mem_iter_Next it of (b, it') \<Rightarrow> (b, it', s))" mem_iter_View "\<lambda>_. None"
  "\<lambda>_. mem_rest" "\<lambda>_ it. -1 \<le> mi_pos it"
proof
  fix s :: 's and it
  assume "-1 \<le> mi_pos it" "mem_rest it = []"
  then show "\<exists>it' s'. (case mem_iter_Next it of (b, it') \<Rightarrow> (b, it', s)) = (False, it', s') \<and>
      None = None"
    using mem_iter_Next_spec [of it] by auto
next
  fix s :: 's and it r rs
  assume "-1 \<le> mi_pos it" "mem_rest it = r # rs"
  then show "\<exists>it' s'. (case mem_iter_Next it of (b, it') \<Rightarrow> (b, it', s)) = (True, it', s') \<and>
      mem_iter_View it' = r \<and> mem_rest it' = rs \<and> -1 \<le> mi_pos it'"
    using mem_iter_Next_spec [of it] by (auto simp: mem_iter_View_def)
qed simp

subsection \<open>Scans\<close>

lemma filter_slice:
  assumes "s \<le> e" "e \<le> length xs"
    and "\<And>i. i < s \<Longrightarrow> \<not> P (xs ! i)" "\<And>i. e \<le> i \<Longrightarrow> i < length xs \<Longrightarrow> \<not> P (xs ! i)"
    and "\<And>i. s \<le> i \<Longrightarrow> i < e \<Longrightarrow> P (xs ! i)"
  shows "go_slice s e xs = filter P xs"
proof -
  have xs: "xs = take s xs @ go_slice s e xs @ drop e xs"
    using assms(1) by (simp add: go_slice_def)
      (metis append_assoc append_take_drop_id drop_drop le_add_diff_inverse2)
  have "filter P (take s xs) = []" "filter P (drop e xs) = []" "filter P (go_slice s e xs) = go_slice s e xs"
    using assms by (auto simp: filter_empty_conv filter_id_conv go_slice_def in_set_conv_nth)
  then show ?thesis by (subst (2) xs) simp
qed

lemma memtable_Scan_bounds:
  fixes start end' :: int
  assumes "rec_sorted rs"
  defines "si \<equiv> sort_search (length rs) (\<lambda>i. start \<le> Timestamp (rs ! i))"
    and "ei \<equiv> sort_search (length rs) (\<lambda>i. end' \<le> Timestamp (rs ! i))"
  shows "si \<le> ei \<Longrightarrow> go_slice si ei rs = filter (in_range start end') rs"
    "ei < si \<longleftrightarrow> (\<exists>r \<in> set rs. end' \<le> Timestamp r \<and> Timestamp r < start)"
proof -
  note s = search_ts_border [OF assms(1), where t = start, folded si_def]
  note e = search_ts_border [OF assms(1), where t = end', folded ei_def]
  show "si \<le> ei \<Longrightarrow> go_slice si ei rs = filter (in_range start end') rs"
    using s(1-3) e(1-3) by (intro filter_slice) (force simp: in_range_def)+
  show "ei < si \<longleftrightarrow> (\<exists>r \<in> set rs. end' \<le> Timestamp r \<and> Timestamp r < start)"
  proof
    assume "ei < si"
    then show "\<exists>r \<in> set rs. end' \<le> Timestamp r \<and> Timestamp r < start"
      using s(1) s(2) [of ei] e(3) [of ei] by (intro bexI [of _ "rs ! ei"]) auto
  next
    assume "\<exists>r \<in> set rs. end' \<le> Timestamp r \<and> Timestamp r < start"
    then obtain i where "i < length rs" "end' \<le> Timestamp (rs ! i)" "Timestamp (rs ! i) < start"
      by (auto simp: in_set_conv_nth)
    then show "ei < si" using s(3) [of i] e(2) [of i] by (meson leI le_less_trans not_le)
  qed
qed

lemma mem_rest_fresh:
  "\<forall>r \<in> set rs. Timestamp r < end' \<Longrightarrow>
   mem_rest \<lparr>mi_records = rs, mi_pos = -1, mi_end = end', mi_sourceID = src, mi_current = c\<rparr>
     = filter (src_match src) rs"
  by (simp add: mem_rest_def takeWhile_eq_all_conv [THEN iffD2])

lemma memtable_Scan_rest:
  assumes "memtable_inv m" "start \<le> end'"
  shows "\<exists>it. memtable_Scan m start end' src = Inr it \<and> -1 \<le> mi_pos it \<and>
    mem_rest it = query start end' src (mt_records m)"
proof -
  have sorted: "rec_sorted (mt_records m)" using assms by (simp add: memtable_inv_def)
  define si where "si = sort_search (length (mt_records m)) (\<lambda>i. start \<le> Timestamp (mt_records m ! i))"
  define ei where "ei = sort_search (length (mt_records m)) (\<lambda>i. end' \<le> Timestamp (mt_records m ! i))"
  note b = memtable_Scan_bounds [OF sorted, where start = start and end' = end',
      folded si_def ei_def]
  have "\<not> ei < si" using b(2) assms(2) by auto
  moreover have sl: "go_slice si ei (mt_records m) = filter (in_range start end') (mt_records m)"
    using b(1) \<open>\<not> ei < si\<close> by simp
  moreover have "filter (src_match src) (filter (in_range start end') (mt_records m))
      = query start end' src (mt_records m)"
    by (simp add: query_def conj_commute)
  ultimately show ?thesis
    using mem_rest_fresh [of "go_slice si ei (mt_records m)" end' src zero_record]
    by (simp add: memtable_Scan_def Let_def in_range_def flip: si_def ei_def)
qed

lemma memtable_Freeze_rest:
  assumes "rec_sorted (mt_records m)"
  shows "mem_rest (memtable_Freeze m) = filter (\<lambda>r. Timestamp r < MaxInt64) (mt_records m)"
  using takeWhile_sorted_ts [OF assms, of MaxInt64]
  by (simp add: mem_rest_def memtable_Freeze_def memtable_snapshot_def src_match_def)

subsection \<open>Properties\<close>

abbreviation mem_next :: "mem_iter \<Rightarrow> unit \<Rightarrow> bool \<times> mem_iter \<times> unit" where
  "mem_next \<equiv> \<lambda>it s. (case mem_iter_Next it of (b, it') \<Rightarrow> (b, it', s))"

text \<open>
  C24: \<^verbatim>\<open>Memtable.Append\<close>, a binary search followed by a shift of the slice, is ordered insertion:
  the new record lands before the first record whose \<open>(Timestamp, SourceID)\<close> is not smaller,
  nothing is lost or duplicated, and the invariant (sorted, size equal to the sum of the record
  sizes) is kept.
\<close>

theorem memtable_Append_correct:
  assumes "memtable_inv m"
  shows "memtable_inv (memtable_Append m r) \<and>
    mt_records (memtable_Append m r) = insort_key rkey r (mt_records m) \<and>
    mset (mt_records (memtable_Append m r)) = add_mset r (mset (mt_records m))"
  using assms memtable_inv_Append [OF assms]
  by (simp_all add: memtable_inv_def memtable_Append_records)

theorem memtable_Append_correct_witness:
  "let m = memtable_Append memtable_New \<lparr>Timestamp = 5, SourceID = [1], Payload = [7]\<rparr>;
       r = \<lparr>Timestamp = 3, SourceID = [2], Payload = []\<rparr>
   in memtable_inv m \<and> mt_records (memtable_Append m r) = insort_key rkey r (mt_records m)"
proof -
  have "memtable_inv (memtable_Append memtable_New \<lparr>Timestamp = 5, SourceID = [1], Payload = [7]\<rparr>)"
    by (rule memtable_inv_Append [OF memtable_inv_New])
  from this memtable_Append_correct [OF this] show ?thesis by (simp add: Let_def)
qed

text \<open>
  C25: for a range that is not inverted, draining the iterator that \<^verbatim>\<open>Memtable.Scan\<close> returns ends
  and delivers exactly the records with a timestamp in \<open>[start, end)\<close> and the wanted source, in
  order.
\<close>

theorem memtable_Scan_correct:
  assumes "memtable_inv m" "start \<le> end'"
  shows "\<exists>it it'. memtable_Scan m start end' src = Inr it \<and>
    iter_collect mem_next mem_iter_View it () =
      Some (query start end' src (mt_records m), it', ())"
proof -
  from memtable_Scan_rest [OF assms] obtain it where it:
    "memtable_Scan m start end' src = Inr it" "-1 \<le> mi_pos it"
    "mem_rest it = query start end' src (mt_records m)" by blast
  from mem.collect_rest [OF it(2), of "()"] it show ?thesis by auto
qed

theorem memtable_Scan_correct_witness:
  "\<exists>it it'. memtable_Scan (memtable_Append memtable_New zero_record) 0 1 (Some []) = Inr it \<and>
    iter_collect mem_next mem_iter_View it () = Some (query 0 1 (Some [])
      (mt_records (memtable_Append memtable_New zero_record)), it', ())"
  by (rule memtable_Scan_correct) (simp_all add: memtable_inv_Append memtable_inv_New)

text \<open>
  \<^verbatim>\<open>Memtable.Scan\<close> panics (a slice of negative length) exactly when the range is inverted
  around some record: that record is not before \<open>end\<close> and before \<open>start\<close>.
\<close>

lemma memtable_Scan_panics_iff:
  assumes "memtable_inv m"
  shows "memtable_Scan m start end' src = Inl GoPanic \<longleftrightarrow>
    (\<exists>r \<in> set (mt_records m). end' \<le> Timestamp r \<and> Timestamp r < start)"
  using memtable_Scan_bounds(2) [of "mt_records m", where start = start and end' = end'] assms
  by (simp add: memtable_Scan_def Let_def memtable_inv_def)

text \<open>
  The snapshot that a flush writes to disk (\<^verbatim>\<open>Freeze\<close>) is the whole buffer in order, except
  for records whose timestamp is \<open>MaxInt64\<close>: the iterator's exclusive upper bound drops them.
\<close>

lemma memtable_Freeze_correct:
  assumes "memtable_inv m"
  shows "\<exists>it'. iter_collect mem_next mem_iter_View (memtable_Freeze m) () =
      Some (filter (\<lambda>r. Timestamp r \<noteq> MaxInt64) (filter (\<lambda>r. Timestamp r \<le> MaxInt64)
        (mt_records m)), it', ())"
proof -
  have "-1 \<le> mi_pos (memtable_Freeze m)" by (simp add: memtable_Freeze_def)
  moreover have "mem_rest (memtable_Freeze m) = filter (\<lambda>r. Timestamp r \<noteq> MaxInt64)
      (filter (\<lambda>r. Timestamp r \<le> MaxInt64) (mt_records m))"
    using memtable_Freeze_rest [of m] assms by (auto simp: memtable_inv_def intro!: filter_cong)
  ultimately show ?thesis
    using mem.collect_rest [of "memtable_Freeze m" "()"] by auto
qed

end
