(* ===== verification/Partition.thy ===== *)
theory Partition
  imports Memtable "HOL-Library.AList"
begin

text \<open>
  \<^verbatim>\<open>internal/partition\<close>: time-window partitions and the router that owns them. A pointer to a
  partition is its window, the key of the router's map; the map is an association list. The clock
  is the argument \<open>now\<close> (Unix nanoseconds). Sums of timestamps and durations wrap around at 64 bits
  as in the source; a zero window duration is a division by zero, \<open>GoPanic\<close>.
\<close>

subsection \<open>Partitions (\<^verbatim>\<open>partition.go\<close>)\<close>

datatype State = StateOpen | StateSealed | StateDeleted

record PartitionWindow =
  pw_Start :: int
  pw_End :: int

definition Overlaps :: "PartitionWindow \<Rightarrow> int \<Rightarrow> int \<Rightarrow> bool" where
  "Overlaps w t0 t1 \<longleftrightarrow> pw_Start w < t1 \<and> pw_End w > t0"

record TimePartition =
  tp_Window :: PartitionWindow
  tp_state :: State
  tp_mem :: memtable

definition NewPartition :: "PartitionWindow \<Rightarrow> TimePartition" where
  "NewPartition window = \<lparr>tp_Window = window, tp_state = StateOpen, tp_mem = memtable_New\<rparr>"

definition partition_Append :: "TimePartition \<Rightarrow> go_record \<Rightarrow> go_error option \<times> TimePartition" where
  "partition_Append p r =
     (if tp_state p \<noteq> StateOpen then (Some ErrPartitionSealed, p)
      else (None, p\<lparr>tp_mem := memtable_Append (tp_mem p) r\<rparr>))"

definition partition_Scan :: "TimePartition \<Rightarrow> int \<Rightarrow> int \<Rightarrow> bytes option \<Rightarrow> mem_iter result" where
  "partition_Scan p t0 t1 src = memtable_Scan (tp_mem p) t0 t1 src"

definition MemtableSize :: "TimePartition \<Rightarrow> int" where
  "MemtableSize p = memtable_ApproximateSize (tp_mem p)"

definition SwapMemtable :: "TimePartition \<Rightarrow> mem_iter \<times> TimePartition" where
  "SwapMemtable p = (memtable_Freeze (tp_mem p), p\<lparr>tp_mem := memtable_New\<rparr>)"

definition Seal :: "TimePartition \<Rightarrow> TimePartition" where
  "Seal p = (if tp_state p = StateOpen then p\<lparr>tp_state := StateSealed\<rparr> else p)"

definition MarkDeleted :: "TimePartition \<Rightarrow> TimePartition" where
  "MarkDeleted p = p\<lparr>tp_state := StateDeleted\<rparr>"

definition partition_State :: "TimePartition \<Rightarrow> State" where
  "partition_State p = tp_state p"

definition IsSealable :: "TimePartition \<Rightarrow> int \<Rightarrow> int \<Rightarrow> bool" where
  "IsSealable p now lateArrivalWindow \<longleftrightarrow> now > i64 (pw_End (tp_Window p) + lateArrivalWindow)"

subsection \<open>The router (\<^verbatim>\<open>router.go\<close>)\<close>

datatype LateArrivalMode = Strict | Tolerant

record Router =
  rt_partitions :: "(PartitionWindow \<times> TimePartition) list"
  rt_windowDuration :: int
  rt_lateArrivalWindow :: int
  rt_lateArrivalMode :: LateArrivalMode

definition NewRouter :: "int \<Rightarrow> int \<Rightarrow> LateArrivalMode \<Rightarrow> Router" where
  "NewRouter windowDuration lateArrivalWindow mode =
     \<lparr>rt_partitions = [], rt_windowDuration = windowDuration,
      rt_lateArrivalWindow = lateArrivalWindow, rt_lateArrivalMode = mode\<rparr>"

text \<open>Division of \<^verbatim>\<open>int64\<close> truncates towards zero; \<^verbatim>\<open>(a^b) < 0\<close> compares the signs.\<close>

definition go_div :: "int \<Rightarrow> int \<Rightarrow> int" where
  "go_div a b = i64 (sgn a * sgn b * (\<bar>a\<bar> div \<bar>b\<bar>))"

definition floorDiv :: "int \<Rightarrow> int \<Rightarrow> int result" where
  "floorDiv a b =
     (if b = 0 then Inl GoPanic
      else
        (let q = go_div a b in
         if ((a < 0) \<noteq> (b < 0)) \<and> i64 (q * b) \<noteq> a then Inr (i64 (q - 1)) else Inr q))"

definition windowFor :: "Router \<Rightarrow> int \<Rightarrow> PartitionWindow result" where
  "windowFor rt ts =
     (let dur = rt_windowDuration rt in
      case floorDiv ts dur of
        Inl e \<Rightarrow> Inl e
      | Inr q \<Rightarrow> (let start = i64 (q * dur) in Inr \<lparr>pw_Start = start, pw_End = i64 (start + dur)\<rparr>))"

definition WindowFor :: "Router \<Rightarrow> int \<Rightarrow> PartitionWindow result" where
  "WindowFor rt ts = windowFor rt ts"

text \<open>
  \<^verbatim>\<open>Route\<close> returns a pointer, the window of the partition. The lookup under the read lock and the
  second one under the write lock see the same map in a sequential run.
\<close>

definition Route :: "Router \<Rightarrow> int \<Rightarrow> int \<Rightarrow> PartitionWindow result \<times> Router" where
  "Route rt now timestamp =
     (let horizon = i64 (now - rt_lateArrivalWindow rt) in
      if timestamp < horizon \<and> rt_lateArrivalMode rt = Strict then (Inl ErrLateArrival, rt)
      else
        (case windowFor rt timestamp of
           Inl e \<Rightarrow> (Inl e, rt)
         | Inr win \<Rightarrow>
             (if map_of (rt_partitions rt) win \<noteq> None then (Inr win, rt)
              else (Inr win, rt\<lparr>rt_partitions := AList.update win (NewPartition win) (rt_partitions rt)\<rparr>))))"

definition Overlapping :: "Router \<Rightarrow> int \<Rightarrow> int \<Rightarrow> TimePartition list" where
  "Overlapping rt t0 t1 = map snd (filter (\<lambda>(win, p). Overlaps win t0 t1) (rt_partitions rt))"

definition SealExpired :: "Router \<Rightarrow> int \<Rightarrow> Router" where
  "SealExpired rt now =
     rt\<lparr>rt_partitions := map (\<lambda>(w, p).
       (w, if partition_State p = StateOpen \<and> IsSealable p now (rt_lateArrivalWindow rt)
           then Seal p else p)) (rt_partitions rt)\<rparr>"

definition router_All :: "Router \<Rightarrow> TimePartition list" where
  "router_All rt = map snd (rt_partitions rt)"

definition AddPartition :: "Router \<Rightarrow> TimePartition \<Rightarrow> Router" where
  "AddPartition rt p = rt\<lparr>rt_partitions := AList.update (tp_Window p) p (rt_partitions rt)\<rparr>"

text \<open>A method call through a pointer: the partition of window \<open>w\<close> becomes \<open>p\<close>.\<close>

definition set_partition :: "Router \<Rightarrow> PartitionWindow \<Rightarrow> TimePartition \<Rightarrow> Router" where
  "set_partition rt w p = rt\<lparr>rt_partitions := AList.update w p (rt_partitions rt)\<rparr>"

subsection \<open>Windows\<close>

lemma div_le_dividend_int: "0 \<le> (a :: int) \<Longrightarrow> 0 < b \<Longrightarrow> a div b \<le> a"
  using zdiv_mono2 [of a 1 b] by simp

lemma div_times_le_dividend_int: "0 < (b :: int) \<Longrightarrow> a div b * b \<le> a"
  using div_mult_mod_eq [of a b] pos_mod_sign [of b a] by linarith

lemma floorDiv_pos:
  assumes "0 < b" "is_i64 a"
  shows "floorDiv a b = Inr (a div b)"
proof (cases "0 \<le> a")
  case True
  have "a div b \<le> a" using True assms(1) by (simp add: div_le_dividend_int)
  moreover have "0 \<le> a div b" using True assms(1) by (simp add: pos_imp_zdiv_nonneg_iff)
  ultimately have "go_div a b = a div b"
    using True assms by (cases "a = 0") (auto simp: go_div_def is_i64_def intro!: i64_id)
  then show ?thesis using True assms(1) by (simp add: floorDiv_def Let_def)
next
  case False
  define c where "c = - a"
  have c: "0 < c" "c \<le> 9223372036854775808" "a = - c" using False assms(2) by (auto simp: c_def is_i64_def)
  have d: "0 \<le> c div b" "c div b \<le> c" using c assms(1)
    by (simp_all add: pos_imp_zdiv_nonneg_iff div_le_dividend_int)
  have e: "c div b * b \<le> c" "0 \<le> c div b * b" using c assms(1) d
    by (simp_all add: div_times_le_dividend_int)
  have q: "go_div a b = - (c div b)" using c d assms(1)
    by (simp add: go_div_def i64_id is_i64_def)
  have w: "i64 (- (c div b) * b) = - (c div b * b)" using e c by (simp add: i64_id is_i64_def)
  show ?thesis
  proof (cases "c mod b = 0")
    case True
    then have "c div b * b = c" by (metis add.right_neutral div_mult_mod_eq)
    then show ?thesis using True c q w assms(1)
      by (simp add: floorDiv_def Let_def zdiv_zminus1_eq_if)
  next
    case nz: False
    have "0 < c mod b" using nz assms(1) by (simp add: pos_mod_sign order_neq_le_trans)
    then have "c div b * b < c" using div_mult_mod_eq [of c b] by linarith
    moreover have "c div b < c \<or> b = 1" using c assms(1) d by (metis int_div_less_self linorder_neqE_linordered_idom
          zless_imp_add1_zle one_add_one add.commute add_le_cancel_left int_one_le_iff_zero_less le_less)
    then have "c div b < c" using nz by auto
    then have "i64 (- (c div b) - 1) = - (c div b) - 1" using c d by (simp add: i64_id is_i64_def)
    ultimately show ?thesis using nz c q w assms(1)
      by (simp add: floorDiv_def Let_def zdiv_zminus1_eq_if)
  qed
qed

text \<open>
  The window of a timestamp, without wrap-around. \<open>ts_ok\<close>: the timestamp is at least one window away
  from both ends of the \<^verbatim>\<open>int64\<close> range.
\<close>

definition win_of :: "int \<Rightarrow> int \<Rightarrow> PartitionWindow" where
  "win_of dur ts = \<lparr>pw_Start = ts div dur * dur, pw_End = ts div dur * dur + dur\<rparr>"

definition ts_ok :: "int \<Rightarrow> int \<Rightarrow> bool" where
  "ts_ok dur ts \<longleftrightarrow> 0 < dur \<and> MinInt64 + dur \<le> ts \<and> ts \<le> MaxInt64 - dur"

definition in_window :: "PartitionWindow \<Rightarrow> int \<Rightarrow> bool" where
  "in_window w t \<longleftrightarrow> pw_Start w \<le> t \<and> t < pw_End w"

lemma win_of_contains: "0 < dur \<Longrightarrow> in_window (win_of dur ts) ts"
proof -
  assume "0 < dur"
  then have "0 \<le> ts mod dur" "ts mod dur < dur" by simp_all
  moreover have "ts div dur * dur + ts mod dur = ts" by simp
  ultimately have "ts div dur * dur \<le> ts" "ts < ts div dur * dur + dur" by linarith+
  then show ?thesis by (simp add: in_window_def win_of_def)
qed

lemma windowFor_win_of:
  assumes "ts_ok (rt_windowDuration rt) ts"
  shows "windowFor rt ts = Inr (win_of (rt_windowDuration rt) ts)"
proof -
  let ?d = "rt_windowDuration rt"
  have d: "0 < ?d" "is_i64 ts" using assms by (auto simp: ts_ok_def is_i64_def)
  have "in_window (win_of ?d ts) ts" by (rule win_of_contains [OF d(1)])
  then have "is_i64 (ts div ?d * ?d)" "is_i64 (ts div ?d * ?d + ?d)"
    using assms by (auto simp: ts_ok_def is_i64_def in_window_def win_of_def)
  then show ?thesis using floorDiv_pos [OF d] by (simp add: windowFor_def Let_def win_of_def i64_id)
qed

lemma win_of_same:
  assumes "0 < dur" "in_window (win_of dur ts) t"
  shows "win_of dur t = win_of dur ts"
proof -
  have "t div dur = ts div dur"
    using assms by (intro int_div_pos_eq [where r = "t - ts div dur * dur"])
      (auto simp: in_window_def win_of_def mult.commute)
  then show ?thesis by (simp add: win_of_def)
qed

subsection \<open>The router's invariant\<close>

definition rt_inv :: "Router \<Rightarrow> bool" where
  "rt_inv rt \<longleftrightarrow> 0 < rt_windowDuration rt \<and> distinct (map fst (rt_partitions rt)) \<and>
     (\<forall>(w, p) \<in> set (rt_partitions rt). tp_Window p = w \<and> memtable_inv (tp_mem p) \<and>
        (\<forall>r \<in> set (mt_records (tp_mem p)). in_window w (Timestamp r)))"

text \<open>All records in the memtables.\<close>

definition mem_recs :: "Router \<Rightarrow> go_record multiset" where
  "mem_recs rt = (\<Sum>p \<in># mset (router_All rt). mset (mt_records (tp_mem p)))"

lemma memtable_New_inv [simp]: "memtable_inv memtable_New" "mt_records memtable_New = []"
  by (simp_all add: memtable_inv_def memtable_New_def i64_def)

lemma rt_inv_New: "0 < dur \<Longrightarrow> rt_inv (NewRouter dur late mode)"
  by (simp add: rt_inv_def NewRouter_def)

lemma update_new: "map_of xs k = None \<Longrightarrow> AList.update k v xs = xs @ [(k, v)]"
  by (induction xs) (auto split: if_splits)

lemma Route_ok:
  assumes "rt_inv rt" "ts_ok (rt_windowDuration rt) ts"
  shows "case Route rt now ts of
      (Inl e, rt') \<Rightarrow> e = ErrLateArrival \<and> rt' = rt \<and> rt_lateArrivalMode rt = Strict \<and>
        ts < i64 (now - rt_lateArrivalWindow rt)
    | (Inr w, rt') \<Rightarrow> w = win_of (rt_windowDuration rt) ts \<and> in_window w ts \<and> rt_inv rt' \<and>
        mem_recs rt' = mem_recs rt \<and> (\<exists>p. map_of (rt_partitions rt') w = Some p) \<and>
        (\<forall>v p. map_of (rt_partitions rt) v = Some p \<longrightarrow> map_of (rt_partitions rt') v = Some p) \<and>
        rt_windowDuration rt' = rt_windowDuration rt \<and>
        \<not> (rt_lateArrivalMode rt = Strict \<and> ts < i64 (now - rt_lateArrivalWindow rt))"
proof (cases "ts < i64 (now - rt_lateArrivalWindow rt) \<and> rt_lateArrivalMode rt = Strict")
  case True
  then show ?thesis by (simp add: Route_def Let_def)
next
  case False
  let ?w = "win_of (rt_windowDuration rt) ts"
  have w: "windowFor rt ts = Inr ?w" "in_window ?w ts"
    using windowFor_win_of [OF assms(2)] win_of_contains assms(1) by (auto simp: rt_inv_def)
  show ?thesis
  proof (cases "map_of (rt_partitions rt) ?w")
    case (Some p)
    then show ?thesis using False w assms(1) by (auto simp: Route_def Let_def)
  next
    case None
    let ?rt = "rt\<lparr>rt_partitions := rt_partitions rt @ [(?w, NewPartition ?w)]\<rparr>"
    have r: "Route rt now ts = (Inr ?w, ?rt)"
      using False w None by (auto simp: Route_def Let_def update_new)
    have "?w \<notin> fst ` set (rt_partitions rt)" using None by (simp add: map_of_eq_None_iff)
    then have "rt_inv ?rt" using assms(1) by (auto simp: rt_inv_def NewPartition_def)
    moreover have "mem_recs ?rt = mem_recs rt" by (simp add: mem_recs_def router_All_def NewPartition_def)
    ultimately show ?thesis using r w None False by (auto simp: map_of_append map_add_def)
  qed
qed

text \<open>The map of the router after a successful \<^verbatim>\<open>Route\<close>.\<close>

lemma Route_map:
  assumes "rt_inv rt" "Route rt now ts = (Inr w, rt')"
  shows "\<exists>p. tp_Window p = w \<and> map_of (rt_partitions rt') = (map_of (rt_partitions rt))(w \<mapsto> p) \<and>
    (case map_of (rt_partitions rt) w of Some q \<Rightarrow> p = q
     | None \<Rightarrow> tp_state p = StateOpen \<and> mt_records (tp_mem p) = [] \<and> MemtableSize p = 0)"
    "rt_lateArrivalWindow rt' = rt_lateArrivalWindow rt" "rt_lateArrivalMode rt' = rt_lateArrivalMode rt"
proof -
  let ?new = "\<lambda>p. tp_Window p = w \<and> map_of (rt_partitions rt') = (map_of (rt_partitions rt))(w \<mapsto> p) \<and>
    (case map_of (rt_partitions rt) w of Some q \<Rightarrow> p = q
     | None \<Rightarrow> tp_state p = StateOpen \<and> mt_records (tp_mem p) = [] \<and> MemtableSize p = 0)"
  have r: "map_of (rt_partitions rt) w \<noteq> None \<Longrightarrow> rt' = rt"
    "map_of (rt_partitions rt) w = None \<Longrightarrow> rt' = rt\<lparr>rt_partitions := AList.update w (NewPartition w) (rt_partitions rt)\<rparr>"
    using assms(2) by (auto simp: Route_def Let_def split: sum.splits if_splits)
  show "\<exists>p. ?new p"
  proof (cases "map_of (rt_partitions rt) w")
    case None
    then have "?new (NewPartition w)"
      using r(2) by (simp add: update_conv' NewPartition_def memtable_New_def MemtableSize_def memtable_ApproximateSize_def)
    then show ?thesis ..
  next
    case (Some p)
    then have "tp_Window p = w" using map_of_SomeD [OF Some] assms(1) by (auto simp: rt_inv_def)
    then have "?new p" using r(1) Some by (simp add: fun_upd_idem)
    then show ?thesis ..
  qed
  show "rt_lateArrivalWindow rt' = rt_lateArrivalWindow rt" "rt_lateArrivalMode rt' = rt_lateArrivalMode rt"
    using r by (cases "map_of (rt_partitions rt) w"; simp)+
qed

lemma update_split:
  assumes "distinct (map fst xs)" "map_of xs k = Some v"
  shows "\<exists>a b. xs = a @ (k, v) # b \<and> (\<forall>u. AList.update k u xs = a @ (k, u) # b)"
  using assms
proof (induction xs)
  case (Cons x xs)
  show ?case
  proof (cases "fst x = k")
    case True
    then show ?thesis using Cons.prems by (intro exI [of _ "[]"] exI [of _ xs]) (cases x, auto)
  next
    case False
    with Cons obtain a b where "xs = a @ (k, v) # b" "\<forall>u. AList.update k u xs = a @ (k, u) # b"
      by (cases x) auto
    then show ?thesis using False by (intro exI [of _ "x # a"] exI [of _ b]) (cases x, auto)
  qed
qed simp

text \<open>Changing one partition changes its records only.\<close>

lemma set_partition_ok:
  assumes "rt_inv rt" "map_of (rt_partitions rt) w = Some p" "tp_Window q = w" "memtable_inv (tp_mem q)"
    "\<forall>r \<in> set (mt_records (tp_mem q)). in_window w (Timestamp r)"
  shows "rt_inv (set_partition rt w q)"
    "mem_recs (set_partition rt w q) + mset (mt_records (tp_mem p)) =
       mem_recs rt + mset (mt_records (tp_mem q))"
    "map_of (rt_partitions (set_partition rt w q)) = (map_of (rt_partitions rt))(w \<mapsto> q)"
proof -
  have "distinct (map fst (rt_partitions rt))" using assms(1) by (simp add: rt_inv_def)
  from update_split [OF this assms(2)] obtain a b where
    ab: "rt_partitions rt = a @ (w, p) # b" "AList.update w q (rt_partitions rt) = a @ (w, q) # b" by blast
  show "rt_inv (set_partition rt w q)"
    using assms ab by (auto simp: rt_inv_def set_partition_def)
  show "mem_recs (set_partition rt w q) + mset (mt_records (tp_mem p)) =
      mem_recs rt + mset (mt_records (tp_mem q))"
    by (simp add: set_partition_def mem_recs_def router_All_def ab(2)) (simp add: ab(1) ac_simps)
  show "map_of (rt_partitions (set_partition rt w q)) = (map_of (rt_partitions rt))(w \<mapsto> q)"
    by (simp add: set_partition_def update_conv')
qed

lemma rt_inv_lookup:
  "rt_inv rt \<Longrightarrow> map_of (rt_partitions rt) w = Some p \<Longrightarrow> tp_Window p = w \<and> memtable_inv (tp_mem p) \<and>
     (\<forall>r \<in> set (mt_records (tp_mem p)). in_window w (Timestamp r))"
  by (auto simp: rt_inv_def dest!: map_of_SomeD)

lemma memtable_Append_recs:
  assumes "memtable_inv m"
  shows "memtable_inv (memtable_Append m r)"
    "mset (mt_records (memtable_Append m r)) = add_mset r (mset (mt_records m))"
  using assms memtable_inv_Append [OF assms] by (simp_all add: memtable_inv_def memtable_Append_records)

subsection \<open>Scanning the partitions\<close>

lemma sum_mset_filter_zero:
  assumes "\<And>x. x \<in> set xs \<Longrightarrow> \<not> P x \<Longrightarrow> f x = {#}"
  shows "(\<Sum>x \<in># mset (filter P xs). f x) = (\<Sum>x \<in># mset xs. f x)"
  using assms by (induction xs) auto

lemma filter_sum_mset:
  "filter_mset P (\<Sum>x \<in># mset xs. f x) = (\<Sum>x \<in># mset xs. filter_mset P (f x))"
  by (induction xs) auto

lemma Overlapping_query:
  assumes "rt_inv rt"
  shows "(\<Sum>p \<in># mset (Overlapping rt t0 t1). mset (query t0 t1 src (mt_records (tp_mem p)))) =
    filter_mset (\<lambda>r. in_range t0 t1 r \<and> src_match src r) (mem_recs rt)"
proof -
  let ?f = "\<lambda>(w :: PartitionWindow, p). mset (query t0 t1 src (mt_records (tp_mem p)))"
  have "?f x = {#}" if "x \<in> set (rt_partitions rt)" "\<not> (case x of (w, p) \<Rightarrow> Overlaps w t0 t1)" for x
  proof -
    obtain w p where x: "x = (w, p)" by force
    then have "\<forall>r \<in> set (mt_records (tp_mem p)). in_window w (Timestamp r)"
      using assms that(1) by (auto simp: rt_inv_def)
    then have "query t0 t1 src (mt_records (tp_mem p)) = []"
      using that(2) x by (auto simp: query_def filter_empty_conv Overlaps_def in_window_def in_range_def)
    then show ?thesis using x by simp
  qed
  from sum_mset_filter_zero [of "rt_partitions rt" "\<lambda>(w, p). Overlaps w t0 t1" ?f, OF this]
  have "(\<Sum>x \<in># mset (filter (\<lambda>(w, p). Overlaps w t0 t1) (rt_partitions rt)). ?f x) =
      (\<Sum>x \<in># mset (rt_partitions rt). ?f x)" by auto
  moreover have "filter_mset (\<lambda>r. in_range t0 t1 r \<and> src_match src r)
      (\<Sum>x \<in># mset (rt_partitions rt). mset (mt_records (tp_mem (snd x)))) =
      (\<Sum>x \<in># mset (rt_partitions rt). ?f x)"
    unfolding filter_sum_mset by (simp add: query_def split_beta flip: mset_filter)
  ultimately show ?thesis
    by (simp add: Overlapping_def mem_recs_def router_All_def split_beta image_mset.compositionality comp_def)
qed

lemma SealExpired_ok:
  assumes "rt_inv rt"
  shows "rt_inv (SealExpired rt now)" "mem_recs (SealExpired rt now) = mem_recs rt"
proof -
  have [simp]: "tp_Window (Seal p) = tp_Window p" "tp_mem (Seal p) = tp_mem p" for p
    by (simp_all add: Seal_def)
  show "rt_inv (SealExpired rt now)"
    using assms unfolding rt_inv_def
    by (simp add: SealExpired_def split_beta ball_conj_distrib comp_def)
  show "mem_recs (SealExpired rt now) = mem_recs rt"
    unfolding mem_recs_def router_All_def SealExpired_def
    by (auto simp: image_mset.compositionality comp_def split_beta intro!: arg_cong [where f = sum_mset]
        image_mset_cong)
qed

subsection \<open>The life cycle of a partition\<close>

text \<open>The methods that change a partition, as steps.\<close>

inductive part_step :: "TimePartition \<Rightarrow> TimePartition \<Rightarrow> bool" where
  step_append: "partition_Append p r = (None, p') \<Longrightarrow> part_step p p'"
| step_swap: "SwapMemtable p = (it, p') \<Longrightarrow> part_step p p'"
| step_seal: "part_step p (Seal p)"
| step_delete: "part_step p (MarkDeleted p)"

inductive_cases part_stepE: "part_step p q"

fun state_rank :: "State \<Rightarrow> nat" where
  "state_rank StateOpen = 0"
| "state_rank StateSealed = 1"
| "state_rank StateDeleted = 2"

lemma state_rank_0 [simp]: "state_rank st = 0 \<longleftrightarrow> st = StateOpen"
  by (cases st) auto

lemma part_step_mono:
  "part_step p q \<Longrightarrow> state_rank (tp_state p) \<le> state_rank (tp_state q) \<and> tp_Window q = tp_Window p \<and>
     (tp_state p \<noteq> StateOpen \<longrightarrow> set (mt_records (tp_mem q)) \<subseteq> set (mt_records (tp_mem p)))"
  by (cases "tp_state p"; erule part_stepE)
    (auto simp: partition_Append_def SwapMemtable_def Seal_def MarkDeleted_def split: if_splits)

lemma part_steps_mono:
  "part_step\<^sup>*\<^sup>* p q \<Longrightarrow> state_rank (tp_state p) \<le> state_rank (tp_state q) \<and> tp_Window q = tp_Window p \<and>
     (tp_state p \<noteq> StateOpen \<longrightarrow> set (mt_records (tp_mem q)) \<subseteq> set (mt_records (tp_mem p)))"
proof (induction rule: rtranclp_induct)
  case (step q s)
  have "tp_state q \<noteq> StateOpen" if "tp_state p \<noteq> StateOpen"
    using that step.IH by (metis le_zero_eq state_rank_0)
  with step part_step_mono [OF step.hyps(2)] show ?case by auto
qed simp

subsection \<open>Properties\<close>

text \<open>
  C39: windows partition time. For a positive window duration and every timestamp that is at least
  one window away from the ends of the 64-bit range, \<^verbatim>\<open>windowFor\<close> (Go's truncating division with the
  correction of \<^verbatim>\<open>floorDiv\<close>, negative timestamps included) returns the aligned window of that duration
  that contains the timestamp, and any other timestamp lies in this window exactly when it has the
  same window.
\<close>

theorem windowFor_partitions_time:
  assumes "ts_ok (rt_windowDuration rt) ts" "ts_ok (rt_windowDuration rt) t"
  shows "\<exists>w. windowFor rt ts = Inr w \<and> in_window w ts \<and> pw_End w = pw_Start w + rt_windowDuration rt \<and>
    pw_Start w mod rt_windowDuration rt = 0 \<and> (in_window w t \<longleftrightarrow> windowFor rt t = Inr w)"
proof -
  let ?d = "rt_windowDuration rt"
  have d: "0 < ?d" using assms by (simp add: ts_ok_def)
  have "in_window (win_of ?d ts) t \<longleftrightarrow> win_of ?d t = win_of ?d ts"
    using win_of_same [OF d, of ts t] win_of_contains [OF d, of t] by metis
  moreover have "pw_End (win_of ?d ts) = pw_Start (win_of ?d ts) + ?d" "pw_Start (win_of ?d ts) mod ?d = 0"
    by (simp_all add: win_of_def)
  ultimately show ?thesis
    using windowFor_win_of [OF assms(1)] windowFor_win_of [OF assms(2)] win_of_contains [OF d] by simp
qed

theorem windowFor_partitions_time_witness:
  "\<exists>w. windowFor (NewRouter 10 0 Strict) (-7) = Inr w \<and> in_window w (-7) \<and> pw_Start w = -10"
proof -
  have "ts_ok (rt_windowDuration (NewRouter 10 0 Strict)) (-7)" by (simp add: ts_ok_def NewRouter_def)
  from windowFor_partitions_time [OF this this] obtain w where
    w: "windowFor (NewRouter 10 0 Strict) (-7) = Inr w" "in_window w (-7)" "pw_End w = pw_Start w + 10"
      "pw_Start w mod 10 = 0" by (auto simp: NewRouter_def)
  then have "pw_Start w = -10" by (simp add: in_window_def) presburger
  with w show ?thesis by blast
qed

text \<open>
  C36: \<^verbatim>\<open>Route\<close>. In \<open>Strict\<close> mode a timestamp before the late-arrival horizon is rejected with
  \<open>ErrLateArrival\<close> and nothing changes. Otherwise the result is the window that contains the
  timestamp, and afterwards the router maps it to a partition of this window: the one that was there,
  unchanged, or a new one that is open and empty. Nothing else of the map changes, no record is lost
  and the router's invariant holds. The timestamp must be at least one window duration away from both
  ends of the 64-bit range.
\<close>

theorem Route_correct:
  assumes "rt_inv rt" "ts_ok (rt_windowDuration rt) ts"
  shows "case Route rt now ts of
      (Inl e, rt') \<Rightarrow> e = ErrLateArrival \<and> rt' = rt \<and> rt_lateArrivalMode rt = Strict \<and>
        ts < i64 (now - rt_lateArrivalWindow rt)
    | (Inr w, rt') \<Rightarrow> w = win_of (rt_windowDuration rt) ts \<and> in_window w ts \<and> rt_inv rt' \<and>
        mem_recs rt' = mem_recs rt \<and>
        (\<exists>p. tp_Window p = w \<and> map_of (rt_partitions rt') = (map_of (rt_partitions rt))(w \<mapsto> p) \<and>
           (case map_of (rt_partitions rt) w of Some q \<Rightarrow> p = q
            | None \<Rightarrow> tp_state p = StateOpen \<and> mt_records (tp_mem p) = [] \<and> MemtableSize p = 0)) \<and>
        (\<forall>v p. map_of (rt_partitions rt) v = Some p \<longrightarrow> map_of (rt_partitions rt') v = Some p) \<and>
        rt_windowDuration rt' = rt_windowDuration rt \<and> rt_lateArrivalWindow rt' = rt_lateArrivalWindow rt \<and>
        rt_lateArrivalMode rt' = rt_lateArrivalMode rt \<and>
        \<not> (rt_lateArrivalMode rt = Strict \<and> ts < i64 (now - rt_lateArrivalWindow rt))"
proof -
  obtain res rt' where r: "Route rt now ts = (res, rt')" by (cases "Route rt now ts")
  then show ?thesis using Route_ok [OF assms, of now] Route_map [OF assms(1), of now ts]
    by (cases res) (auto split: option.splits)
qed

theorem Route_correct_witness:
  "Route (NewRouter 10 5 Strict) 20 12 = (Inl ErrLateArrival, NewRouter 10 5 Strict) \<and>
   (\<exists>rt1 rt2 p. Route (NewRouter 10 5 Strict) 20 16 = (Inr \<lparr>pw_Start = 10, pw_End = 20\<rparr>, rt1) \<and>
      Route rt1 20 31 = (Inr \<lparr>pw_Start = 30, pw_End = 40\<rparr>, rt2) \<and> rt_inv rt2 \<and>
      map_of (rt_partitions rt2) \<lparr>pw_Start = 10, pw_End = 20\<rparr> = map_of (rt_partitions rt1) \<lparr>pw_Start = 10, pw_End = 20\<rparr> \<and>
      map_of (rt_partitions rt2) \<lparr>pw_Start = 30, pw_End = 40\<rparr> = Some p \<and> tp_state p = StateOpen \<and> mt_records (tp_mem p) = [])"
proof -
  let ?rt = "NewRouter 10 5 Strict" let ?rt1 = "snd (Route ?rt 20 16)" let ?rt2 = "snd (Route ?rt1 20 31)"
  have r1: "Route ?rt 20 16 = (Inr \<lparr>pw_Start = 10, pw_End = 20\<rparr>, ?rt1)" and r2: "Route ?rt1 20 31 = (Inr \<lparr>pw_Start = 30, pw_End = 40\<rparr>, ?rt2)"
    and late: "Route ?rt 20 12 = (Inl ErrLateArrival, ?rt)" and new: "map_of (rt_partitions ?rt1) \<lparr>pw_Start = 30, pw_End = 40\<rparr> = None"
    by code_simp+
  have ts: "ts_ok 10 16" "ts_ok 10 31" "rt_windowDuration ?rt = 10" "rt_inv ?rt" using rt_inv_New [of 10 5 Strict]
    by (simp_all add: ts_ok_def NewRouter_def)
  from Route_correct [OF ts(4), of 16 20] ts r1 have i1: "rt_inv ?rt1" "rt_windowDuration ?rt1 = 10" by (auto split: prod.splits)
  from Route_correct [OF i1(1), of 31 20] ts(2) i1(2) r2 new obtain p where
    "rt_inv ?rt2" "map_of (rt_partitions ?rt2) = (map_of (rt_partitions ?rt1))(\<lparr>pw_Start = 30, pw_End = 40\<rparr> \<mapsto> p)"
    "tp_state p = StateOpen" "mt_records (tp_mem p) = []" by auto
  then show ?thesis using late r1 r2 by (intro conjI exI [of _ ?rt1] exI [of _ ?rt2] exI [of _ p]) simp_all
qed

text \<open>
  C37: completeness of range scans over the memtables. The partitions that \<^verbatim>\<open>Overlapping\<close> selects hold
  every record of the router that answers the query: restricted to them, the query finds the same
  multiset of records as over all partitions.
\<close>

theorem Overlapping_complete:
  assumes "rt_inv rt"
  shows "(\<Sum>p \<in># mset (Overlapping rt t0 t1). mset (query t0 t1 src (mt_records (tp_mem p)))) =
    (\<Sum>p \<in># mset (router_All rt). mset (query t0 t1 src (mt_records (tp_mem p))))"
  using Overlapping_query [OF assms, of t0 t1 src] by (simp add: mem_recs_def filter_sum_mset query_def)

text \<open>Three windows with one record each; the query reaches into two of them.\<close>

definition demo_part :: "int \<Rightarrow> TimePartition" where
  "demo_part t = snd (partition_Append (NewPartition (win_of 10 t)) (zero_record\<lparr>Timestamp := t\<rparr>))"

definition demo_router :: Router where
  "demo_router = fold (\<lambda>t rt. AddPartition rt (demo_part t)) [3, 15, 27] (NewRouter 10 5 Tolerant)"

lemma demo_router_inv: "rt_inv demo_router"
proof -
  have p: "tp_Window (demo_part t) = win_of 10 t" "mt_records (tp_mem (demo_part t)) = [zero_record\<lparr>Timestamp := t\<rparr>]"
    "memtable_inv (tp_mem (demo_part t))" for t
    by (simp_all add: demo_part_def partition_Append_def NewPartition_def memtable_Append_def memtable_New_def insertionPoint_def
        sort_search_def search_loop.simps memtable_inv_def)
  have w: "win_of 10 3 = \<lparr>pw_Start = 0, pw_End = 10\<rparr>" "win_of 10 15 = \<lparr>pw_Start = 10, pw_End = 20\<rparr>" "win_of 10 27 = \<lparr>pw_Start = 20, pw_End = 30\<rparr>"
    by (simp_all add: win_of_def)
  show ?thesis by (simp add: rt_inv_def demo_router_def NewRouter_def AddPartition_def p w in_window_def)
qed

theorem Overlapping_complete_witness:
  "length (rt_partitions demo_router) = 3 \<and> length (Overlapping demo_router 4 28) = 3 \<and> length (Overlapping demo_router 12 25) = 2 \<and>
   (\<Sum>p \<in># mset (Overlapping demo_router 12 25). mset (query 12 25 None (mt_records (tp_mem p)))) =
     {#zero_record\<lparr>Timestamp := 15\<rparr>#}"
proof -
  have "length (rt_partitions demo_router) = 3" "length (Overlapping demo_router 4 28) = 3" "length (Overlapping demo_router 12 25) = 2"
    "map (\<lambda>p. query 12 25 None (mt_records (tp_mem p))) (router_All demo_router) = [[], [zero_record\<lparr>Timestamp := 15\<rparr>], []]"
    by code_simp+
  note c = this
  have "(\<Sum>p \<in># mset (router_All demo_router). mset (query 12 25 None (mt_records (tp_mem p)))) =
      sum_mset (mset (map mset (map (\<lambda>p. query 12 25 None (mt_records (tp_mem p))) (router_All demo_router))))"
    by (simp add: multiset.map_comp comp_def)
  then show ?thesis using Overlapping_complete [OF demo_router_inv, of 12 25 None] c(1-3) unfolding c(4) by simp
qed

text \<open>
  C38: the life cycle of a partition, over every sequence of method calls: the state only advances
  from open to sealed to deleted, the window never changes, and once a partition is not open it
  never accepts a record again: every append is rejected with \<open>ErrPartitionSealed\<close> and changes
  nothing.
\<close>

theorem partition_lifecycle:
  assumes "part_step\<^sup>*\<^sup>* p q"
  shows "state_rank (tp_state p) \<le> state_rank (tp_state q) \<and> tp_Window q = tp_Window p \<and>
    (tp_state p \<noteq> StateOpen \<longrightarrow> (\<forall>r. partition_Append q r = (Some ErrPartitionSealed, q)) \<and>
       set (mt_records (tp_mem q)) \<subseteq> set (mt_records (tp_mem p)))"
proof -
  have "tp_state q \<noteq> StateOpen" if "tp_state p \<noteq> StateOpen"
    using that part_steps_mono [OF assms] by (metis le_zero_eq state_rank_0)
  then show ?thesis using part_steps_mono [OF assms] by (simp add: partition_Append_def)
qed

theorem partition_lifecycle_witness:
  "let p = Seal (NewPartition (win_of 10 3)) in
   partition_Append (MarkDeleted p) zero_record = (Some ErrPartitionSealed, MarkDeleted p)"
proof -
  let ?p = "Seal (NewPartition (win_of 10 3))"
  have "part_step\<^sup>*\<^sup>* ?p (MarkDeleted ?p)" using step_delete by (rule r_into_rtranclp)
  from partition_lifecycle [OF this] show ?thesis by (simp add: Let_def Seal_def NewPartition_def)
qed

end
