(* ===== verification/Compaction.thy ===== *)
theory Compaction
  imports SSTOpen MergeIter Manifest Partition
begin

text \<open>
  \<^verbatim>\<open>internal/compaction\<close>: the FIFO strategy and the k-way merge of SSTables into one. The loop of
  \<^verbatim>\<open>Merge\<close> reads its inputs through iterators and writes the output file, so it changes the file
  system and the block cache in turns; that it ends is proved, not assumed. The \<^verbatim>\<open>Close\<close> of an
  SSTable iterator does nothing and has no counterpart here, nor has logging.
\<close>

subsection \<open>The strategy (\<^verbatim>\<open>compaction.go\<close>, \<^verbatim>\<open>fifo.go\<close>)\<close>

record MergeJob =
  mj_Window :: PartitionWindow
  mj_Inputs :: "SSTableMeta list"

record FIFOStrategy =
  ff_MaxFilesPerPartition :: int

definition fifo_Name :: "FIFOStrategy \<Rightarrow> string" where
  "fifo_Name f = ''fifo''"

definition PickMerge :: "FIFOStrategy \<Rightarrow> PartitionWindow \<Rightarrow> SSTableMeta list \<Rightarrow> MergeJob option" where
  "PickMerge f win files =
     (if int (length files) \<le> ff_MaxFilesPerPartition f then None
      else Some \<lparr>mj_Window = win, mj_Inputs = files\<rparr>)"

definition PickExpired :: "FIFOStrategy \<Rightarrow> SSTableMeta list \<Rightarrow> int \<Rightarrow> SSTableMeta list" where
  "PickExpired f files horizon = filter (\<lambda>meta. sm_MaxTimestamp meta < horizon) files"

subsection \<open>The merge (\<^verbatim>\<open>merge.go\<close>)\<close>

text \<open>A full-range scan of every input.\<close>

fun merge_iters :: "codecs \<Rightarrow> sst_reader list \<Rightarrow> store \<Rightarrow> sst_iter list result \<times> store" where
  "merge_iters cd [] s = (Inr [], s)"
| "merge_iters cd (r # rs) s =
     (case reader_Scan cd r MinInt64 MaxInt64 None s of
        (Inl e, s) \<Rightarrow> (Inl (ErrWrapped ''compaction: open scan iterator'' e), s)
      | (Inr it, s) \<Rightarrow>
          (case merge_iters cd rs s of
             (Inl e, s) \<Rightarrow> (Inl e, s)
           | (Inr its, s) \<Rightarrow> (Inr (it # its), s)))"

definition merge_item :: "record_view \<Rightarrow> nat \<Rightarrow> mergeItem" where
  "merge_item v i = \<lparr>mgi_ts = Timestamp v, mgi_sourceID = SourceID v, mgi_iter = i\<rparr>"

text \<open>Seeding the heap with the iterators from position \<open>i\<close> on.\<close>

fun merge_heads :: "codecs \<Rightarrow> nat \<Rightarrow> sst_iter list \<Rightarrow> mergeItem list \<Rightarrow> store \<Rightarrow>
    (sst_iter list \<times> mergeItem list) result \<times> store" where
  "merge_heads cd i [] h s = (Inr ([], h), s)"
| "merge_heads cd i (it # its) h s =
     (case sst_Next cd it s of (b, it, s) \<Rightarrow>
        if \<not> b \<and> sst_Err it \<noteq> None
        then (Inl (ErrWrapped ''compaction: seed iterator'' (the (sst_Err it))), s)
        else
          (case merge_heads cd (Suc i) its
              (if b then mergeHeap_push h (merge_item (sst_View it) i) else h) s of
             (Inl e, s) \<Rightarrow> (Inl e, s)
           | (Inr (its, h), s) \<Rightarrow> (Inr (it # its, h), s)))"

text \<open>The merge loop; \<open>None\<close> would be a loop that does not end.\<close>

partial_function (option) merge_loop :: "codecs \<Rightarrow> sst_iter list \<Rightarrow> mergeItem list \<Rightarrow> sst_writer \<Rightarrow> store \<Rightarrow>
    (go_error option \<times> sst_writer \<times> store) option" where
  "merge_loop cd its h w s =
     (if h = [] then Some (None, w, s)
      else
        (case mergeHeap_pop h of (item, h) \<Rightarrow>
           let i = mgi_iter item in
           case sst_Add cd w (Clone (sst_View (its ! i))) (fst s) of
             (Some e, w, fs) \<Rightarrow> Some (Some e, w, (fs, snd s))
           | (None, w, fs) \<Rightarrow>
               (case sst_Next cd (its ! i) (fs, snd s) of (b, it, s) \<Rightarrow>
                  if \<not> b \<and> sst_Err it \<noteq> None
                  then Some (Some (ErrWrapped ''compaction: merge iterator'' (the (sst_Err it))), w, s)
                  else merge_loop cd (its[i := it])
                    (if b then mergeHeap_push h (merge_item (sst_View it) i) else h) w s)))"

definition meta_entry :: "SSTableMeta \<Rightarrow> FileEntry" where
  "meta_entry m = \<lparr>fe_Path = sm_Path m, fe_PartitionStart = sm_PartitionStart m,
     fe_PartitionEnd = sm_PartitionEnd m, fe_MinTimestamp = sm_MinTimestamp m,
     fe_MaxTimestamp = sm_MaxTimestamp m, fe_RecordCount = sm_RecordCount m\<rparr>"

definition merge_edit :: "SSTableMeta \<Rightarrow> SSTableMeta list \<Rightarrow> VersionEdit" where
  "merge_edit meta inputMetas = \<lparr>ve_Seq = 0, ve_AddedFiles = [meta_entry meta],
     ve_DeletedFiles = map meta_entry inputMetas\<rparr>"

text \<open>\<^verbatim>\<open>os.Remove\<close> of every path; errors are logged only.\<close>

definition remove_all :: "path list \<Rightarrow> file_sys \<Rightarrow> file_sys" where
  "remove_all ps fs = fold (\<lambda>p fs. snd (os_remove p fs)) ps fs"

definition Merge :: "codecs \<Rightarrow> bool \<Rightarrow> sst_reader list \<Rightarrow> path \<Rightarrow> WriterOptions \<Rightarrow> manifest \<Rightarrow> bool \<Rightarrow> store \<Rightarrow>
    (sst_reader result \<times> manifest \<times> store) option" where
  "Merge cd mm readers outputPath wopts m cached s =
     (let inputMetas = map reader_Meta readers in
      case merge_iters cd readers s of
        (Inl e, s) \<Rightarrow> Some (Inl e, m, s)
      | (Inr its, s) \<Rightarrow>
     (case merge_heads cd 0 its (mergeHeap_init []) s of
        (Inl e, s) \<Rightarrow> Some (Inl e, m, s)
      | (Inr (its, h), s) \<Rightarrow>
     (case NewWriter outputPath wopts (fst s) of
        (Inl e, fs) \<Rightarrow> Some (Inl e, m, (fs, snd s))
      | (Inr w, fs) \<Rightarrow>
     Option.bind (merge_loop cd its h w (fs, snd s)) (\<lambda>(err, w, s).
       case err of
         Some e \<Rightarrow> Some (Inl e, m, s)
       | None \<Rightarrow>
     (case sst_Finish cd w (fst s) of
        (Inl e, fs) \<Rightarrow> Some (Inl e, m, (fs, snd s))
      | (Inr meta, fs) \<Rightarrow>
     (case manifest_Append m (merge_edit meta inputMetas) fs of
        (Some e, m, fs) \<Rightarrow> Some (Inl e, m, (fs, snd s))
      | (None, m, fs) \<Rightarrow>
          (case NewReader mm outputPath cached (remove_all (map sm_Path inputMetas) fs) of
             (r, fs) \<Rightarrow> Some (r, m, (fs, snd s)))))))))"

subsection \<open>The loop\<close>

interpretation cm: merge_heap "sst_Next cd" sst_View sst_Err "sst_rest cd" "sst_inv cd G"
    mergeHeap_init mergeHeap_push mergeHeap_pop mgi_key "heap_inv mgi_key" merge_item mgi_iter for cd G
  by unfold_locales (simp_all add: merge_item_def mgi_key_def rkey_def mergeHeap.init_ok mergeHeap.init_items
      mergeHeap.push_ok mergeHeap.push_items)

definition input_ok :: "codecs \<Rightarrow> (path \<rightharpoonup> sst_reader) \<Rightarrow> file_sys \<Rightarrow> sst_reader \<Rightarrow> go_record list list \<Rightarrow> bool" where
  "input_ok cd G fs r bs \<longleftrightarrow> G (sm_Path (r_meta r)) = Some r \<and> reads_as cd r fs bs \<and>
     (\<forall>x \<in> set (concat bs). MinInt64 < Timestamp x)"

text \<open>The records that the full-range scan of an input delivers.\<close>

abbreviation input_recs :: "go_record list list \<Rightarrow> go_record list" where
  "input_recs bs \<equiv> query MinInt64 MaxInt64 None (concat bs)"

lemma merge_iters_ok:
  assumes "cache_ok cd G (fs, c0)" "list_all2 (input_ok cd G fs) rs bss"
  shows "\<exists>its c. merge_iters cd rs (fs, c0) = (Inr its, fs, c) \<and> cache_ok cd G (fs, c) \<and>
    (\<forall>it \<in> set its. sst_inv cd G (fs, c) it) \<and> map (sst_rest cd (fs, c)) its = map input_recs bss"
  using assms(2,1)
proof (induction rs bss arbitrary: c0 rule: list_all2_induct)
  case Nil
  then show ?case by simp
next
  case (Cons r rs bs bss)
  have r: "G (sm_Path (r_meta r)) = Some r" "reads_as cd r fs bs" "\<forall>x \<in> set (concat bs). Timestamp x \<noteq> MinInt64"
    using Cons.hyps(1) by (force simp: input_ok_def)+
  from reader_Scan_ok [of cd r "(fs, c0)" bs G MinInt64 MaxInt64 None] r Cons.prems obtain it c where
    it: "reader_Scan cd r MinInt64 MaxInt64 None (fs, c0) = (Inr it, fs, c)" "cache_ok cd G (fs, c)"
      "sst_inv cd G (fs, c) it" "sst_rest cd (fs, c) it =
        query MinInt64 MaxInt64 (src_norm None) (concat (drop (startBlock r MinInt64) bs))" by auto
  have "\<forall>x \<in> set (concat (take (startBlock r MinInt64) bs)). Timestamp x \<noteq> MinInt64"
    using r(3) by (auto dest: in_set_takeD)
  from it(4) query_startBlock [OF r(2) this]
  have rest: "sst_rest cd (fs, c) it = input_recs bs" by (simp add: src_norm_def)
  from Cons.IH [OF it(2)] obtain its c2 where
    its: "merge_iters cd rs (fs, c) = (Inr its, fs, c2)" "cache_ok cd G (fs, c2)"
      "\<forall>it \<in> set its. sst_inv cd G (fs, c2) it" "map (sst_rest cd (fs, c2)) its = map input_recs bss"
    by auto
  have "sst_inv cd G (fs, c2) it \<and> sst_rest cd (fs, c2) it = sst_rest cd (fs, c) it"
    using it(3) its(2) by (intro sst_inv_store) auto
  then show ?case using it(1) its rest by auto
qed

text \<open>\<^verbatim>\<open>Next\<close> of an SSTable iterator changes the cache only.\<close>

lemma sst_Next_store:
  assumes "sst_inv cd G s it" "sst_Next cd it s = (b, it', s')"
  shows "fst s' = fst s" "cache_ok cd G s'"
  using sst_Next_spec [OF assms(1)] assms(2) by (auto simp: next_spec_def)

lemma merge_heads_ok:
  assumes "cm.heap_ok cd G s (pre @ its) h" "\<forall>x \<in> set h. mgi_iter x < length pre" "cache_ok cd G s"
    "\<forall>it \<in> set its. sst_inv cd G s it \<and> rec_sorted (sst_rest cd s it)"
  shows "\<exists>its' h' c. merge_heads cd (length pre) its h s = (Inr (its', h'), fst s, c) \<and>
    length its' = length its \<and> cm.heap_ok cd G (fst s, c) (pre @ its') h' \<and> cache_ok cd G (fst s, c) \<and>
    cm.heap_recs cd (fst s, c) (pre @ its') h' =
      cm.heap_recs cd s (pre @ its) h + (\<Sum>it \<in># mset its. mset (sst_rest cd s it))"
  using assms
proof (induction its arbitrary: pre h s)
  case Nil
  then show ?case by (cases s) simp
next
  case (Cons it its)
  have it: "sst_inv cd G s it" "rec_sorted (sst_rest cd s it)" using Cons.prems by auto
  have idx: "x \<in> set h \<Longrightarrow> mgi_iter x < length pre" for x using Cons.prems(2) by blast
  then have fresh: "length pre \<notin> mgi_iter ` set h" by fastforce
  have pre: "\<forall>x \<in> set h. (pre @ it' # its) ! mgi_iter x = (pre @ it # its) ! mgi_iter x" for it'
    using idx by (simp add: nth_append)
  have later: "(\<Sum>it \<in># mset its. mset (sst_rest cd s' it)) = (\<Sum>it \<in># mset its. mset (sst_rest cd s it))"
    "\<forall>it \<in> set its. sst_inv cd G s' it \<and> rec_sorted (sst_rest cd s' it)" if "sst.frame cd G s s'" for s'
    using that Cons.prems(4)
    by (auto simp: sst.frame_def intro!: arg_cong [where f = sum_mset] image_mset_cong)
  show ?case
    using it
  proof (cases rule: sst.nxt_cases)
    case (fin it1 s1)
    note st = sst_Next_store [OF it(1) fin(1)]
    note fr = cm.heap_frame [OF Cons.prems(1) fin(4) pre [of it1]]
    have ok: "cm.heap_ok cd G s1 ((pre @ [it1]) @ its) h" using fr(1) by simp
    have "\<forall>x \<in> set h. mgi_iter x < length (pre @ [it1])" using idx by fastforce
    from Cons.IH [OF ok this st(2) later(2) [OF fin(4)]] show ?thesis
      using fin fr later(1) [OF fin(4)] st(1) by (auto simp: Let_def)
  next
    case (more it1 s1)
    note st = sst_Next_store [OF it(1) more(1)]
    note fr = cm.heap_frame [OF Cons.prems(1) more(5) pre [of it1]]
    let ?h = "mergeHeap_push h (merge_item (sst_View it1) (length pre))"
    have nth: "(pre @ it1 # its) ! length pre = it1" by simp
    have ps: "cm.heap_ok cd G s1 ((pre @ [it1]) @ its) ?h"
      "cm.heap_recs cd s1 ((pre @ [it1]) @ its) ?h = mset (sst_rest cd s it) + cm.heap_recs cd s (pre @ it # its) h"
      using cm.heap_ok_push [of cd G s1 "pre @ it1 # its" h "length pre"] fr more nth fresh
      by (simp_all add: cm.item_recs_def)
    have "heap_inv mgi_key h" using Cons.prems(1) by (simp add: cm.heap_ok_def)
    from mergeHeap.push_set [OF this]
    have "\<forall>x \<in> set ?h. mgi_iter x < length (pre @ [it1])" using idx by (auto simp: less_Suc_eq)
    from Cons.IH [OF ps(1) this st(2) later(2) [OF more(5)]] show ?thesis
      using more ps(2) later(1) [OF more(5)] st(1) by (auto simp: Let_def ac_simps)
  qed
qed

text \<open>The files of the opened readers do not change while another file is written.\<close>

definition file_free :: "(path \<rightharpoonup> sst_reader) \<Rightarrow> inode \<Rightarrow> bool" where
  "file_free G f \<longleftrightarrow> (\<forall>p r. G p = Some r \<longrightarrow> r_file r \<noteq> f)"

lemma file_free_same: "file_free G f \<Longrightarrow> only_data f fs fs' \<Longrightarrow> same_files G fs fs'"
  unfolding file_free_def same_files_def same_file_def
  using only_data_frame(5,6) [of f fs fs'] by metis

lemma frame_same: "same_files G fs fs' \<Longrightarrow> sst.frame cd G (fs, c) (fs', c)"
  unfolding sst.frame_def by (blast dest: sst_inv_same)

lemma merge_loop_ok:
  assumes "cm.heap_ok cd G s its h" "cache_ok cd G s" "file_free G (sw_file w)"
    and "sw_base cd w (fst s) bs rs" "cut_ok w bs rs" "rec_sorted rs"
    and "\<forall>x \<in> set rs. \<forall>y \<in># cm.heap_recs cd s its h. rkey x \<le> rkey y"
  shows "\<exists>w' fs' c' bs' rs'. merge_loop cd its h w s = Some (None, w', fs', c') \<and>
    sw_base cd w' fs' bs' rs' \<and> cut_ok w' bs' rs' \<and> rec_sorted rs' \<and>
    mset rs' = mset rs + cm.heap_recs cd s its h \<and> sw_frame w (fst s) w' fs' \<and> cache_ok cd G (fs', c')"
  using assms
proof (induction "size (cm.heap_recs cd s its h)" arbitrary: s its h w bs rs rule: less_induct)
  case less
  show ?case
  proof (cases "h = []")
    case True
    then show ?thesis using less.prems
      by (cases s, subst merge_loop.simps) (auto simp: cm.heap_recs_def sw_frame_def)
  next
    case False
    obtain fs c where s: "s = (fs, c)" by force
    from cm.heap_ok_pop [OF less.prems(1) False] obtain x h' where
      p: "mergeHeap_pop h = (x, h')" "cm.heap_ok cd G s its h'" "mgi_iter x < length its"
        "sst_inv cd G s (its ! mgi_iter x)" "rec_sorted (cm.item_recs cd s its (mgi_iter x))"
        "mgi_iter x \<notin> mgi_iter ` set h'"
        "cm.heap_recs cd s its h = mset (cm.item_recs cd s its (mgi_iter x)) + cm.heap_recs cd s its h'"
        "\<forall>r \<in># cm.heap_recs cd s its h. rkey (sst_View (its ! mgi_iter x)) \<le> rkey r" .
    let ?i = "mgi_iter x" let ?it = "its ! ?i" let ?r = "sst_View ?it"
    have r: "?r \<in># cm.heap_recs cd s its h" using p(7) by (simp add: cm.item_recs_def)
    have srt: "rec_sorted (rs @ [?r])"
      using less.prems(6,7) r by (auto simp: rec_sorted_append)
    from sst_Add_ok [OF less.prems(4,5) srt] s obtain w1 fs1 bs1 where
      ad: "sst_Add cd w ?r fs = (None, w1, fs1)" "sw_base cd w1 fs1 bs1 (rs @ [?r])"
        "cut_ok w1 bs1 (rs @ [?r])" "sw_frame w fs w1 fs1" by auto
    have fr1: "sst.frame cd G s (fs1, c)" and c1: "cache_ok cd G (fs1, c)"
      using file_free_same [OF less.prems(3), of fs fs1] ad(4) s less.prems(2)
      by (auto simp: sw_frame_def intro: frame_same cache_ok_same)
    have it1: "sst_inv cd G (fs1, c) ?it" "sst_rest cd (fs1, c) ?it = sst_rest cd s ?it"
      using fr1 p(4) by (auto simp: sst.frame_def)
    have "rec_sorted (sst_rest cd (fs1, c) ?it)" using p(5) it1(2) by (simp add: cm.item_recs_def)
    with it1(1) show ?thesis
    proof (cases rule: sst.nxt_cases)
      case (fin it' s')
      note st = sst_Next_store [OF it1(1) fin(1)]
      let ?its = "its[?i := it']"
      have "\<forall>x \<in> set h'. ?its ! mgi_iter x = its ! mgi_iter x" using p(6) by (auto intro: nth_list_update_neq)
      note fr = cm.heap_frame [OF p(2) sst.frame_trans [OF fr1 fin(4)] this]
      have todo: "cm.heap_recs cd s its h = add_mset ?r (cm.heap_recs cd s' ?its h')"
        using p(7) fr(2) fin(2) it1(2) by (simp add: cm.item_recs_def)
      have "\<exists>w' fs' c' bs' rs'. merge_loop cd ?its h' w1 s' = Some (None, w', fs', c') \<and>
        sw_base cd w' fs' bs' rs' \<and> cut_ok w' bs' rs' \<and> rec_sorted rs' \<and>
        mset rs' = mset (rs @ [?r]) + cm.heap_recs cd s' ?its h' \<and> sw_frame w1 (fst s') w' fs' \<and>
        cache_ok cd G (fs', c')"
        using less.prems(3,7) p(8) ad st todo fr srt
        by (intro less.hyps [of s' ?its h' w1 bs1 "rs @ [?r]"]) (auto simp: sw_frame_def)
      then show ?thesis using ad(1,4) p(1) False fin(1,3) st(1) todo s
        by (subst merge_loop.simps) (fastforce simp: Let_def intro: sw_frame_trans)
    next
      case (more it' s')
      note st = sst_Next_store [OF it1(1) more(1)]
      let ?its = "its[?i := it']" let ?h = "mergeHeap_push h' (merge_item (sst_View it') ?i)"
      have nth: "?its ! ?i = it'" "?i < length ?its" using p(3) by simp_all
      have "\<forall>x \<in> set h'. ?its ! mgi_iter x = its ! mgi_iter x" using p(6) by (auto intro: nth_list_update_neq)
      note fr = cm.heap_frame [OF p(2) sst.frame_trans [OF fr1 more(5)] this]
      have ps: "cm.heap_ok cd G s' ?its ?h"
        "cm.heap_recs cd s' ?its ?h = mset (sst_rest cd s ?it) + cm.heap_recs cd s its h'"
        using cm.heap_ok_push [of cd G s' ?its h' ?i] fr more nth p(6) it1(2)
        by (simp_all add: cm.item_recs_def)
      have todo: "cm.heap_recs cd s its h = add_mset ?r (cm.heap_recs cd s' ?its ?h)"
        using p(7) ps(2) by (simp add: cm.item_recs_def)
      have "\<exists>w' fs' c' bs' rs'. merge_loop cd ?its ?h w1 s' = Some (None, w', fs', c') \<and>
        sw_base cd w' fs' bs' rs' \<and> cut_ok w' bs' rs' \<and> rec_sorted rs' \<and>
        mset rs' = mset (rs @ [?r]) + cm.heap_recs cd s' ?its ?h \<and> sw_frame w1 (fst s') w' fs' \<and>
        cache_ok cd G (fs', c')"
        using less.prems(3,7) p(8) ad st todo ps(1) srt
        by (intro less.hyps [of s' ?its ?h w1 bs1 "rs @ [?r]"]) (auto simp: sw_frame_def)
      then show ?thesis using ad(1,4) p(1) False more(1) st(1) todo s
        by (subst merge_loop.simps) (fastforce simp: Let_def intro: sw_frame_trans)
    qed
  qed
qed

subsection \<open>The whole merge\<close>

lemma remove_all_ok:
  "fs_faults fs = [] \<Longrightarrow> remove_all ps fs = fs\<lparr>fs_names := filter (\<lambda>(q, _). q \<notin> set ps) (fs_names fs)\<rparr>"
proof (induction ps arbitrary: fs)
  case Nil
  then show ?case by (simp add: remove_all_def)
next
  case (Cons p ps)
  have "snd (os_remove p fs) = fs\<lparr>fs_names := filter (\<lambda>(q, _). q \<noteq> p) (fs_names fs)\<rparr>"
  proof (cases "fs_lookup fs p")
    case None
    then have "filter (\<lambda>(q, _). q \<noteq> p) (fs_names fs) = fs_names fs"
      by (force simp: fs_lookup_def map_of_eq_None_iff filter_id_conv)
    then show ?thesis using Cons.prems None by (simp add: os_remove_def)
  qed (use Cons.prems in \<open>simp add: os_remove_def\<close>)
  with Cons.IH [of "snd (os_remove p fs)"] Cons.prems show ?case
    by (simp add: remove_all_def case_prod_unfold conj_commute)
qed

lemma lookup_removed:
  "fs_lookup (fs\<lparr>fs_names := filter (\<lambda>(q, _). q \<notin> S) (fs_names fs)\<rparr>) q = (if q \<in> S then None else fs_lookup fs q)"
proof -
  have "map_of (filter (\<lambda>(q, _). q \<notin> S) xs) q = (if q \<in> S then None else map_of xs q)" for xs :: "(path \<times> inode) list"
    by (induction xs) auto
  then show ?thesis by (simp add: fs_lookup_def)
qed

text \<open>The blocks of the merged file, and the size limits that they and the manifest edit respect.\<close>

abbreviation merged_blocks :: "WriterOptions \<Rightarrow> go_record list \<Rightarrow> go_record list list" where
  "merged_blocks wopts rs \<equiv> cut_blocks (wo_BlockSizeBytes (eff_opts wopts)) [] rs"

abbreviation merged_meta :: "codecs \<Rightarrow> path \<Rightarrow> WriterOptions \<Rightarrow> go_record list \<Rightarrow> SSTableMeta" where
  "merged_meta cd p wopts rs \<equiv> layout_meta cd p (eff_opts wopts) (merged_blocks wopts rs)"

definition merge_fits :: "codecs \<Rightarrow> path \<Rightarrow> WriterOptions \<Rightarrow> SSTableMeta list \<Rightarrow> VersionEdit list \<Rightarrow>
    go_record multiset \<Rightarrow> bool" where
  "merge_fits cd p wopts metas es M \<longleftrightarrow> (\<forall>rs. rec_sorted rs \<and> mset rs = M \<longrightarrow>
     layout_ok cd p (eff_opts wopts) (merged_blocks wopts rs) \<and>
     edit_good (next_edit es (merge_edit (merged_meta cd p wopts rs) metas)))"

text \<open>The output file is new and is not the manifest.\<close>

definition fresh_output :: "(path \<rightharpoonup> sst_reader) \<Rightarrow> manifest \<Rightarrow> path \<Rightarrow> file_sys \<Rightarrow> bool" where
  "fresh_output G m p fs \<longleftrightarrow> fs_lookup fs p = None \<and> G p = None \<and> p \<noteq> mf_path m \<and> file_free G (fs_next fs) \<and>
     mf_f m \<noteq> fs_next fs \<and> file_free G (mf_f m) \<and> \<not> fs_bad fs (fs_next fs)"

lemma reader_Meta_eq [simp]: "reader_Meta = r_meta"
  by (simp add: fun_eq_iff reader_Meta_def)

text \<open>The commit of a merge: the manifest edit, the removal of the inputs, the new reader.\<close>

abbreviation merge_commit :: "bool \<Rightarrow> sst_reader list \<Rightarrow> path \<Rightarrow> bool \<Rightarrow> SSTableMeta \<Rightarrow> manifest \<Rightarrow> store \<Rightarrow>
    sst_reader result \<times> manifest \<times> store" where
  "merge_commit mm readers p cached meta m s \<equiv>
     (case manifest_Append m (merge_edit meta (map r_meta readers)) (fst s) of
        (Some e, m, fs) \<Rightarrow> (Inl e, m, (fs, snd s))
      | (None, m, fs) \<Rightarrow>
          (case NewReader mm p cached (remove_all (map sm_Path (map r_meta readers)) fs) of
             (r, fs) \<Rightarrow> (r, m, (fs, snd s))))"

text \<open>Up to the commit, a merge writes the merged records to the output file.\<close>

lemma Merge_written:
  assumes "fs_faults fs = []" "cache_ok cd G (fs, c)" "list_all2 (input_ok cd G fs) readers bss"
    and "fs_lookup fs p = None" "file_free G (fs_next fs)" "wo_CompressionType wopts \<le> 2"
  shows "\<exists>rs fs' c'. Merge cd mm readers p wopts m cached (fs, c) =
      Some (merge_commit mm readers p cached (merged_meta cd p wopts rs) m (fs', c')) \<and>
    rec_sorted rs \<and> mset rs = (\<Sum>bs \<in># mset bss. mset (input_recs bs)) \<and>
    fs_written p (sst_layout cd p (eff_opts wopts) (merged_blocks wopts rs)) fs fs' \<and>
    cache_ok cd G (fs', c') \<and> same_files G fs fs'"
proof -
  from merge_iters_ok [OF assms(2,3)] obtain its c1 where
    it: "merge_iters cd readers (fs, c) = (Inr its, fs, c1)" "cache_ok cd G (fs, c1)"
      "\<forall>it \<in> set its. sst_inv cd G (fs, c1) it" "map (sst_rest cd (fs, c1)) its = map input_recs bss" by blast
  have "\<forall>bs \<in> set bss. rec_sorted (input_recs bs)"
    using assms(3) by (induction readers bss rule: list_all2_induct) (auto simp: input_ok_def reads_as_def query_sorted)
  then have srt: "\<forall>it \<in> set its. rec_sorted (sst_rest cd (fs, c1) it)" using it(4)
    by (metis (no_types, lifting) image_iff list.set_map)
  have h0: "mergeHeap_init [] = []" using mergeHeap.init_items [of "[]"] by simp
  have "cm.heap_ok cd G (fs, c1) ([] @ its) []" using cm.heap_ok_empty h0 by (metis (no_types))
  from merge_heads_ok [OF this _ it(2)] it(3) srt obtain its2 h c2 where
    hd: "merge_heads cd 0 its [] (fs, c1) = (Inr (its2, h), fs, c2)" "cm.heap_ok cd G (fs, c2) its2 h"
      "cache_ok cd G (fs, c2)" "cm.heap_recs cd (fs, c2) its2 h = (\<Sum>it \<in># mset its. mset (sst_rest cd (fs, c1) it))"
    by (auto simp: cm.heap_recs_def)
  have M: "cm.heap_recs cd (fs, c2) its2 h = (\<Sum>bs \<in># mset bss. mset (input_recs bs))"
    using hd(4) arg_cong [OF it(4), of "\<lambda>x. sum_mset (image_mset mset (mset x))"]
    by (simp add: image_mset.compositionality comp_def)
  from NewWriter_ok [OF assms(1,6), of p cd] obtain w f fs1 fs2 where
    nw: "NewWriter p wopts fs = (Inr w, fs2)" "sw_base cd w fs2 [] []" "cut_ok w [] []"
      "sw_opts w = eff_opts wopts" "sw_path w = p" "sw_file w = f" "fs_created p f fs fs1"
      "only_data f fs1 fs2" by blast
  have f: "file_free G f" "f = fs_next fs" using nw(7) assms(4,5) by (simp_all add: fs_created_def)
  have "same_files G fs fs1" using nw(7) f
    by (auto simp: fs_created_def same_files_def same_file_def file_free_def)
  then have same2: "same_files G fs fs2" using file_free_same [OF f(1) nw(8)] by (rule same_files_trans)
  note fr2 = cm.heap_frame [OF hd(2) frame_same [OF same2], of its2]
  from merge_loop_ok [of cd G "(fs2, c2)" its2 h w "[]" "[]"] fr2 cache_ok_same [OF hd(3) same2] nw f(1) M
  obtain w3 fs3 c3 bs3 rs where
    lp: "merge_loop cd its2 h w (fs2, c2) = Some (None, w3, fs3, c3)" "sw_base cd w3 fs3 bs3 rs" "cut_ok w3 bs3 rs"
      "rec_sorted rs" "mset rs = (\<Sum>bs \<in># mset bss. mset (input_recs bs))" "sw_frame w fs2 w3 fs3"
      "cache_ok cd G (fs3, c3)" by auto
  have w3: "sw_opts w3 = eff_opts wopts" "sw_path w3 = p" "sw_file w3 = f" "only_data f fs1 fs3" "only_data f fs2 fs3"
    using lp(6) nw by (auto simp: sw_frame_def intro: only_data_trans)
  from finish_written [OF nw(7) w3(4) lp(2,3) w3(2,3)] w3(1) obtain fs4 where
    fin: "sst_Finish cd w3 fs3 = (Inr (merged_meta cd p wopts rs), fs4)"
      "fs_written p (sst_layout cd p (eff_opts wopts) (merged_blocks wopts rs)) fs fs4" by auto
  have same4: "same_files G fs fs4" using fin(2) f assms(4)
    by (auto simp: fs_written_def fs_created_def same_files_def same_file_def file_free_def)
  have "same_files G fs fs3" using same2 file_free_same [OF f(1) w3(5)] by (rule same_files_trans)
  then have "same_files G fs3 fs4" using same4 by (auto simp: same_files_def same_file_def)
  then have "cache_ok cd G (fs4, c3)" by (rule cache_ok_same [OF lp(7)])
  moreover have "Merge cd mm readers p wopts m cached (fs, c) =
      Some (merge_commit mm readers p cached (merged_meta cd p wopts rs) m (fs4, c3))"
    using it(1) hd(1) nw(1) lp(1) fin(1) by (simp add: Merge_def h0 split: prod.splits option.splits)
  ultimately show ?thesis using lp(4,5) fin(2) same4 by blast
qed

lemma Merge_ok:
  assumes "fs_faults fs = []" "cache_ok cd G (fs, c)" "list_all2 (input_ok cd G fs) readers bss"
    and "manifest_log m fs es" "mf_path m \<notin> (\<lambda>r. sm_Path (r_meta r)) ` set readers"
    and "fresh_output G m p fs" "wo_CompressionType wopts \<le> 2"
    and "merge_fits cd p wopts (map r_meta readers) es (\<Sum>bs \<in># mset bss. mset (input_recs bs))"
  shows "\<exists>rs r m' fs' c'. Merge cd mm readers p wopts m cached (fs, c) = Some (Inr r, m', fs', c') \<and>
    rec_sorted rs \<and> mset rs = (\<Sum>bs \<in># mset bss. mset (input_recs bs)) \<and>
    reads_as cd r fs' (merged_blocks wopts rs) \<and> r_meta r = merged_meta cd p wopts rs \<and> r_file r = fs_next fs \<and>
    fs_data fs' (fs_next fs) = sst_layout cd p (eff_opts wopts) (merged_blocks wopts rs) \<and>
    fs_synced fs' (fs_next fs) = length (fs_data fs' (fs_next fs)) \<and>
    manifest_log m' fs' (es @ [next_edit es (merge_edit (merged_meta cd p wopts rs) (map r_meta readers))]) \<and>
    mf_path m' = mf_path m \<and> mf_f m' = mf_f m \<and> cache_ok cd G (fs', c') \<and> same_files G fs fs' \<and>
    fs_faults fs' = [] \<and> fs_bad fs' = fs_bad fs \<and> fs_next fs' = Suc (fs_next fs) \<and>
    (\<forall>j. j \<noteq> fs_next fs \<and> j \<noteq> mf_f m \<longrightarrow> fs_data fs' j = fs_data fs j \<and> fs_synced fs' j = fs_synced fs j) \<and>
    (\<forall>q. fs_lookup fs' q = (if q \<in> (\<lambda>r. sm_Path (r_meta r)) ` set readers then None
       else if q = p then Some (fs_next fs) else fs_lookup fs q))"
proof -
  let ?f = "fs_next fs" and ?ps = "(\<lambda>r. sm_Path (r_meta r)) ` set readers"
  have out: "fs_lookup fs p = None" "p \<noteq> mf_path m" "file_free G ?f" "mf_f m \<noteq> ?f" "file_free G (mf_f m)"
    "\<not> fs_bad fs ?f" "G p = None" using assms(6) by (auto simp: fresh_output_def)
  have pnew: "p \<notin> ?ps" using assms(3) out(7)
    by (induction readers bss rule: list_all2_induct) (auto simp: input_ok_def)
  from Merge_written [OF assms(1-3) out(1,3) assms(7)] obtain rs fs4 c3 where
    mg: "Merge cd mm readers p wopts m cached (fs, c) =
        Some (merge_commit mm readers p cached (merged_meta cd p wopts rs) m (fs4, c3))"
      "rec_sorted rs" "mset rs = (\<Sum>bs \<in># mset bss. mset (input_recs bs))"
      "fs_written p (sst_layout cd p (eff_opts wopts) (merged_blocks wopts rs)) fs fs4"
      "cache_ok cd G (fs4, c3)" "same_files G fs fs4" by blast
  let ?bs = "merged_blocks wopts rs" let ?meta = "merged_meta cd p wopts rs"
  let ?edit = "merge_edit ?meta (map r_meta readers)"
  have cr: "fs_lookup fs4 p = Some ?f" "fs_next fs4 = Suc ?f" "\<And>q. q \<noteq> p \<Longrightarrow> fs_lookup fs4 q = fs_lookup fs q"
    "\<And>j. j \<noteq> ?f \<Longrightarrow> fs_data fs4 j = fs_data fs j \<and> fs_synced fs4 j = fs_synced fs j" "fs_faults fs4 = []"
    "fs_bad fs4 = fs_bad fs" "fs_data fs4 ?f = sst_layout cd p (eff_opts wopts) ?bs" "fs_synced fs4 ?f = length (fs_data fs4 ?f)"
    using mg(4) out(1) assms(1) by (auto simp: fs_written_def fs_created_def)
  have fits: "layout_ok cd p (eff_opts wopts) ?bs" "edit_good (next_edit es ?edit)"
    using assms(8) mg(2,3) by (auto simp: merge_fits_def)
  have log4: "manifest_log m fs4 es"
    using assms(4) cr out by (auto simp: manifest_log_def manifest_file_def)
  from manifest_Append_ok [OF cr(5) log4 fits(2)] obtain m' fs5 where
    ap: "manifest_Append m ?edit fs4 = (None, m', fs5)" "fs_faults fs5 = []" by blast
  note ap2 = manifest_Append_any [OF log4 fits(2) ap(1)]
  let ?fs6 = "fs5\<lparr>fs_names := filter (\<lambda>(q, _). q \<notin> set (map sm_Path (map r_meta readers))) (fs_names fs5)\<rparr>"
  have rm: "remove_all (map sm_Path (map r_meta readers)) fs5 = ?fs6" by (rule remove_all_ok [OF ap(2)])
  have lk5: "fs_lookup fs5 q = (if q = p then Some ?f else fs_lookup fs q)" for q
    using ap2(1) cr(1,3) by (simp add: own_file_def fs_lookup_def)
  then have lk: "fs_lookup ?fs6 q = (if q \<in> ?ps then None else if q = p then Some ?f else fs_lookup fs q)" for q
    unfolding lookup_removed by (auto simp: image_image)
  have own: "fs_data fs5 j = fs_data fs4 j" "fs_synced fs5 j = fs_synced fs4 j" if "j \<noteq> mf_f m" for j
    using that ap2(1) by (simp_all add: own_file_def)
  have b6: "fs_bad fs5 = fs_bad fs" "fs_next fs5 = Suc ?f" using ap2(1) cr by (auto simp: own_file_def)
  have d6: "fs_data ?fs6 ?f = sst_layout cd p (eff_opts wopts) ?bs" "fs_synced ?fs6 ?f = length (fs_data ?fs6 ?f)"
    using own [of ?f] cr(7,8) out(4) by simp_all
  from NewReader_layout [OF fits(1) _ d6(1), of mm cached] lk [of p] pnew b6(1) out(6) obtain r where
    r: "NewReader mm p cached ?fs6 = (Inr r, ?fs6)" "layout_reader cd p (eff_opts wopts) ?bs r" "r_file r = ?f"
      "reads_as cd r ?fs6 ?bs" by auto
  have same: "same_files G fs4 ?fs6" using out(5) own b6(1) cr(6)
    by (auto simp: same_files_def same_file_def file_free_def)
  have "fs_lookup ?fs6 (mf_path m) = fs_lookup fs5 (mf_path m)" using lk lk5 assms(5) by simp
  then have log6: "manifest_log m' ?fs6 (es @ [next_edit es ?edit])"
    using ap2(4) unfolding manifest_log_def manifest_file_def by auto
  have "Merge cd mm readers p wopts m cached (fs, c) = Some (Inr r, m', ?fs6, c3)"
    using mg(1) ap(1) r(1) rm by simp
  moreover have "r_meta r = ?meta" using r(2) by (simp add: layout_reader_def)
  ultimately show ?thesis
    using d6 mg(2,3) r(3,4) log6 ap2(4) cache_ok_same [OF mg(5) same] same_files_trans [OF mg(6) same] b6 lk ap(2) own cr(4)
    by (intro exI [of _ rs] exI [of _ r] exI [of _ m'] exI [of _ ?fs6] exI [of _ c3]) simp
qed

subsection \<open>What a failing merge leaves\<close>

text \<open>No operation of the writer changes the directory; only \<^verbatim>\<open>NewWriter\<close> may add its own name.\<close>

named_theorems names_simps \<open>operations that leave the directory as it is\<close>

lemma pop_fault_names: "fs_names (snd (pop_fault fs)) = fs_names fs"
  by (simp add: pop_fault_def split: list.split)

lemma file_names [names_simps]:
  "file_write i bs fs = (n, e, fs') \<Longrightarrow> fs_names fs' = fs_names fs"
  "file_sync i fs = (e, fs') \<Longrightarrow> fs_names fs' = fs_names fs"
  "file_close i fs = (e, fs') \<Longrightarrow> fs_names fs' = fs_names fs"
  using pop_fault_names [of fs]
  by (auto simp: file_write_def file_sync_def file_close_def split: prod.splits option.splits)

lemma close_names [simp]: "fs_names (snd (file_close i fs)) = fs_names fs"
  by (metis file_names(3) prod.collapse)

lemma bufio_Flush_names [names_simps]: "bufio_Flush b fs = (e, b', fs') \<Longrightarrow> fs_names fs' = fs_names fs"
  by (auto simp: bufio_Flush_def dest: file_names split: if_splits prod.splits option.splits)

lemma bufio_Write_names [names_simps]: "bufio_Write p b fs = (e, b', fs') \<Longrightarrow> fs_names fs' = fs_names fs"
proof (induction p b fs rule: bufio_Write.induct)
  case (1 p b fs)
  show ?case
  proof (cases "bw_err b = None \<and> bw_cap b - length (bw_buf b) < length p \<and> bw_buf b \<noteq> []")
    case True
    let ?n = "bw_cap b - length (bw_buf b)"
    let ?res = "bufio_Flush (b\<lparr>bw_buf := bw_buf b @ take ?n p\<rparr>) fs"
    have "bufio_Write p b fs = bufio_Write (drop ?n p) (fst (snd ?res)) (snd (snd ?res))"
      using True by (subst bufio_Write.simps) (simp add: Let_def)
    moreover have "fs_names (snd (snd ?res)) = fs_names fs"
      by (metis bufio_Flush_names prod.collapse)
    ultimately show ?thesis using "1.IH" [of ?n ?res] "1.prems" True by auto
  next
    case False
    then show ?thesis using "1.prems"
      by (subst (asm) bufio_Write.simps) (auto dest: file_names split: if_splits prod.splits option.splits)
  qed
qed

lemma flushBlock_names [names_simps]: "flushBlock cd w fs = (e, w', fs') \<Longrightarrow> fs_names fs' = fs_names fs"
  by (auto simp: flushBlock_def Let_def dest: bufio_Write_names split: if_splits sum.splits prod.splits option.splits)

lemma sst_Add_names [names_simps]: "sst_Add cd w r fs = (e, w', fs') \<Longrightarrow> fs_names fs' = fs_names fs"
  by (auto simp: sst_Add_pending dest: flushBlock_names split: if_splits)

lemma writeSources_names [names_simps]: "writeSources ks n bw fs = (e, n', bw', fs') \<Longrightarrow> fs_names fs' = fs_names fs"
proof (induction ks arbitrary: n bw fs)
  case (Cons k ks)
  obtain e1 b1 fs1 where "bufio_Write (srcIndexEntry k) bw fs = (e1, b1, fs1)" by (metis prod_cases3)
  with Cons show ?case by (cases e1) (auto dest: bufio_Write_names)
qed simp

lemma finish_fail_names [names_simps]: "finish_fail e w fs = (r, fs') \<Longrightarrow> fs_names fs' = fs_names fs"
  by (auto simp: finish_fail_def)

lemma sst_Finish_names [names_simps]: "sst_Finish cd w fs = (r, fs') \<Longrightarrow> fs_names fs' = fs_names fs"
  by (auto simp: sst_Finish_def Let_def dest!: names_simps split: prod.splits option.splits if_splits)

lemma NewWriter_names: "NewWriter p opts fs = (r, fs') \<Longrightarrow> q \<noteq> p \<Longrightarrow> fs_lookup fs' q = fs_lookup fs q"
  using pop_fault_names [of fs]
  by (auto simp: NewWriter_def os_open_create_def fs_lookup_def Let_def dest!: names_simps
      split: prod.splits option.splits if_splits)

text \<open>Reading changes the block cache only, whatever fails.\<close>

lemma readBlockRaw_fst: "fst (snd (readBlockRaw cd r s i)) = fst s"
  by (auto simp: readBlockRaw_def Let_def split: sum.split prod.split option.split)

lemma reader_Scan_fst: "reader_Scan cd r t0 t1 src s = (x, s') \<Longrightarrow> fst s' = fst s"
  using readBlockRaw_fst [of cd r s "startBlock r t0"]
  by (auto simp: reader_Scan_def Let_def split: if_splits sum.splits prod.splits option.splits)

lemma scan_Next_fst: "fst (snd (snd (scan_Next cd it s))) = fst s"
proof (induction cd it s rule: scan_Next.induct)
  case (1 cd it s)
  show ?case
  proof (cases "si_blockRem it > 0")
    case True
    then show ?thesis using "1.IH"(1,2)
      by (subst scan_Next.simps) (auto simp: Let_def split: sum.split)
  next
    case False
    let ?it = "it\<lparr>si_blockIdx := si_blockIdx it + 1\<rparr>"
    have "fst (snd (readBlockRaw cd (si_r it) s (si_blockIdx it + 1))) = fst s" by (rule readBlockRaw_fst)
    then show ?thesis using False "1.IH"(3) [OF False, of ?it]
      by (subst scan_Next.simps) (auto simp: Let_def split: sum.split)
  qed
qed

lemma col_Next_fst: "fst (snd (snd (col_Next cd it s))) = fst s"
proof (induction cd it s rule: col_Next.induct)
  case (1 cd it s)
  show ?case
  proof (cases "ci_recIdx it < length (ci_blockRecs it)")
    case True
    then show ?thesis using "1.IH"(1,2) by (subst col_Next.simps) (auto simp: Let_def)
  next
    case False
    then show ?thesis using "1.IH"(3) [OF False, of "it\<lparr>ci_blockIdx := ci_blockIdx it + 1\<rparr>"]
      by (subst col_Next.simps) (auto simp: Let_def split: sum.split)
  qed
qed

lemma sst_Next_fst: "sst_Next cd it s = (b, it', s') \<Longrightarrow> fst s' = fst s"
  using scan_Next_fst [of cd _ s] col_Next_fst [of cd _ s]
  by (cases it) (auto split: prod.splits, (metis prod.sel)+)

lemma merge_iters_fst: "merge_iters cd rs s = (x, s') \<Longrightarrow> fst s' = fst s"
proof (induction rs arbitrary: s x)
  case (Cons r rs)
  then show ?case by (fastforce dest: reader_Scan_fst split: prod.splits sum.splits)
qed simp

lemma merge_heads_fst: "merge_heads cd i its h s = (x, s') \<Longrightarrow> fst s' = fst s"
proof (induction its arbitrary: i h s x)
  case (Cons it its)
  obtain b it1 s1 where n: "sst_Next cd it s = (b, it1, s1)" by (metis prod_cases3)
  with Cons show ?case using sst_Next_fst [OF n]
    by (auto split: if_splits prod.splits sum.splits)
qed simp

lemma merge_loop_names:
  assumes "merge_loop cd its h w s = Some res"
  shows "fs_names (fst (snd (snd res))) = fs_names (fst s)"
proof (rule merge_loop.raw_induct [OF _ assms,
      where P = "\<lambda>cd its h w s res. fs_names (fst (snd (snd res))) = fs_names (fst s)"])
  fix loop cd its h w s res
  assume IH: "\<And>cd its h w s res. loop cd its h w s = Some res \<Longrightarrow> fs_names (fst (snd (snd res))) = fs_names (fst s)"
    and body: "(if h = [] then Some (None, w, s)
      else
        (case mergeHeap_pop h of (item, h) \<Rightarrow>
           let i = mgi_iter item in
           case sst_Add cd w (Clone (sst_View (its ! i))) (fst s) of
             (None, w, fs) \<Rightarrow>
               (case sst_Next cd (its ! i) (fs, snd s) of (b, it, s) \<Rightarrow>
                  if \<not> b \<and> sst_Err it \<noteq> None
                  then Some (Some (ErrWrapped ''compaction: merge iterator'' (the (sst_Err it))), w, s)
                  else loop cd (its[i := it])
                    (if b then mergeHeap_push h (merge_item (sst_View it) i) else h) w s)
           | (Some e, w, fs) \<Rightarrow> Some (Some e, w, (fs, snd s)))) = Some res"
  show "fs_names (fst (snd (snd res))) = fs_names (fst s)"
  proof (cases "h = []")
    case True
    then show ?thesis using body by auto
  next
    case False
    obtain item h1 where p: "mergeHeap_pop h = (item, h1)" by force
    obtain e w1 fs1 where a: "sst_Add cd w (sst_View (its ! mgi_iter item)) (fst s) = (e, w1, fs1)"
      by (metis prod_cases3)
    note na = sst_Add_names [OF a]
    obtain b it1 s1 where n: "sst_Next cd (its ! mgi_iter item) (fs1, snd s) = (b, it1, s1)"
      by (metis prod_cases3)
    show ?thesis using body False p a n na sst_Next_fst [OF n] IH
      by (auto simp: Let_def split: option.splits if_splits)
  qed
qed

lemma manifest_Append_error:
  assumes "manifest_Append m edit fs = (err, m', fs')"
  shows "fs_names fs' = fs_names fs" "err \<noteq> None \<longleftrightarrow> mf_seq m' = mf_seq m"
proof -
  have "u64 (mf_seq m + 1) \<noteq> mf_seq m"
    by (cases "mf_seq m + 1 = 18446744073709551616") (auto simp: u64_def mod_if [of "Suc _"])
  then show "err \<noteq> None \<longleftrightarrow> mf_seq m' = mf_seq m"
    using assms by (auto simp: manifest_Append_def Let_def split: prod.splits option.splits)
  show "fs_names fs' = fs_names fs" using assms
    by (auto simp: manifest_Append_def Let_def dest!: names_simps split: prod.splits option.splits)
qed

subsection \<open>Properties\<close>

text \<open>
  C21: compaction. Given: readers that stand for sorted files, a correct cache, no I/O faults, an output
  path that does not exist yet and is not the manifest, an output whose sizes and manifest edit fit
  their fields (blocks below 4 GiB, a file of at most 2^47 bytes, an edit of at most 64 MiB), and no record at the smallest
  64-bit timestamp, where the scan of an input starts and can miss records. Then the merge
  ends and succeeds: its reader stands for the records of all inputs, in \<open>(Timestamp, SourceID)\<close> order
  and with their multiplicities, except records at the largest timestamp, which the half-open
  full-range scan does not deliver; the manifest has on stable storage one more edit that adds the
  output and deletes the inputs; the output path leads to the new file, the input files are removed,
  no other name changes, and the other files of open readers keep their contents.
\<close>

theorem Merge_correct:
  assumes "fs_faults fs = []" "cache_ok cd G (fs, c)" "list_all2 (input_ok cd G fs) readers bss"
    and "manifest_log m fs es" "mf_path m \<notin> (\<lambda>r. sm_Path (r_meta r)) ` set readers"
    and "fresh_output G m p fs" "wo_CompressionType wopts \<le> 2"
    and "merge_fits cd p wopts (map r_meta readers) es (\<Sum>bs \<in># mset bss. mset (input_recs bs))"
  shows "\<exists>rs r m' fs' c'. Merge cd mm readers p wopts m cached (fs, c) = Some (Inr r, m', fs', c') \<and>
    rec_sorted rs \<and> mset rs = (\<Sum>bs \<in># mset bss. filter_mset (\<lambda>x. Timestamp x < MaxInt64) (mset (concat bs))) \<and>
    reads_as cd r fs' (merged_blocks wopts rs) \<and> concat (merged_blocks wopts rs) = rs \<and>
    manifest_log m' fs' (es @ [next_edit es (merge_edit (r_meta r) (map r_meta readers))]) \<and>
    cache_ok cd G (fs', c') \<and> same_files G fs fs' \<and>
    (\<forall>q. fs_lookup fs' q = (if q \<in> (\<lambda>r. sm_Path (r_meta r)) ` set readers then None
       else if q = p then Some (r_file r) else fs_lookup fs q))"
proof -
  have "mset (input_recs bs) = filter_mset (\<lambda>x. Timestamp x < MaxInt64) (mset (concat bs))"
    if bs: "bs \<in> set bss" for bs
  proof -
    from assms(3) bs obtain r where "input_ok cd G fs r bs" by (metis in_set_conv_nth list_all2_conv_all_nth)
    then show ?thesis
      by (auto simp: query_def mset_filter input_ok_def in_range_def src_match_def
          intro!: filter_mset_cong less_imp_le)
  qed
  then have "(\<Sum>bs \<in># mset bss. mset (input_recs bs)) =
      (\<Sum>bs \<in># mset bss. filter_mset (\<lambda>x. Timestamp x < MaxInt64) (mset (concat bs)))"
    by (intro arg_cong [where f = sum_mset] image_mset_cong) simp
  with Merge_ok [OF assms, of mm cached] concat_cut_blocks [of _ "[]"] show ?thesis by fastforce
qed

definition demo_fs :: file_sys where
  "demo_fs = fs_empty\<lparr>fs_names := [(''MANIFEST'', 0), (''a'', 1), (''b'', 2)], fs_next := 3,
     fs_data := (\<lambda>i. if i = 1 then sst_layout tag_codecs ''a'' DefaultWriterOptions [[zero_record]]
       else if i = 2 then sst_layout tag_codecs ''b'' DefaultWriterOptions [[zero_record]] else [])\<rparr>"

lemma demo_layout_ok:
  "layout_ok tag_codecs p DefaultWriterOptions [[zero_record]]"
  "layout_ok tag_codecs p DefaultWriterOptions [[zero_record, zero_record]]"
  by (simp_all add: layout_ok_def codecs_ok_tag DefaultWriterOptions_def is_i64_def col_ok_def rec_ok_def
      zero_record_def layout_lengths length_dataBytes srcIndexBytes_def layout_sources_def compression_types
      blk_def encBlock_def encodeBlock_def blockRecord_def fileHeader_none)

lemma meta_entry_good:
  assumes "layout_ok cd p opts bs" "ascii_path p"
  shows "file_good (meta_entry (layout_meta cd p opts bs))"
  using layout_meta_ranges [OF assms(1)] assms
  by (simp add: file_good_def meta_entry_def layout_ok_def) (simp add: layout_meta_def Let_def)

lemma demo_fits:
  "merge_fits tag_codecs ''out'' DefaultWriterOptions
     [layout_meta tag_codecs ''a'' DefaultWriterOptions [[zero_record]],
      layout_meta tag_codecs ''b'' DefaultWriterOptions [[zero_record]]] [] {#zero_record, zero_record#}"
  unfolding merge_fits_def
proof (intro allI impI, elim conjE)
  fix rs
  assume m: "mset rs = {#zero_record, zero_record#}"
  have "set rs = {zero_record}" "length rs = 2"
    using arg_cong [OF m, of set_mset] arg_cong [OF m, of size] by auto
  then have rs: "rs = [zero_record, zero_record]" by (cases rs; cases "tl rs") auto
  have opts: "eff_opts DefaultWriterOptions = DefaultWriterOptions"
    "wo_BlockSizeBytes DefaultWriterOptions = 32768"
    by (simp_all add: eff_opts_def DefaultWriterOptions_def defaultBlockSize_def)
  have bs: "merged_blocks DefaultWriterOptions rs = [[zero_record, zero_record]]"
    by (simp add: rs opts rowSize_def zero_record_def)
  have path: "sm_Path (layout_meta tag_codecs p DefaultWriterOptions b) = p" for p b
    by (simp add: layout_meta_def Let_def)
  have good: "file_good (meta_entry (layout_meta tag_codecs p DefaultWriterOptions [[zero_record]]))"
    "file_good (meta_entry (layout_meta tag_codecs p DefaultWriterOptions [[zero_record, zero_record]]))"
    if "ascii_path p" for p using that demo_layout_ok by (auto intro: meta_entry_good)
  have small: "small_edit (next_edit [] (merge_edit (merged_meta tag_codecs ''out'' DefaultWriterOptions rs)
      [layout_meta tag_codecs ''a'' DefaultWriterOptions [[zero_record]],
       layout_meta tag_codecs ''b'' DefaultWriterOptions [[zero_record]]]))"
    unfolding bs unfolding opts(1)
    by (simp add: small_edit_def files_good_def next_edit_def merge_edit_def good ascii_path_def)
      (simp add: meta_entry_def path)
  show "layout_ok tag_codecs ''out'' (eff_opts DefaultWriterOptions) (merged_blocks DefaultWriterOptions rs) \<and>
    edit_good (next_edit [] (merge_edit (merged_meta tag_codecs ''out'' DefaultWriterOptions rs)
      [layout_meta tag_codecs ''a'' DefaultWriterOptions [[zero_record]],
       layout_meta tag_codecs ''b'' DefaultWriterOptions [[zero_record]]]))"
    using edit_good_small [OF small] demo_layout_ok(2) unfolding bs unfolding opts(1) by (simp add: next_edit_def)
qed

theorem Merge_correct_witness:
  "\<exists>ra rb r m' fs' c'. NewReader False ''a'' True demo_fs = (Inr ra, demo_fs) \<and>
     NewReader False ''b'' True demo_fs = (Inr rb, demo_fs) \<and>
     Merge tag_codecs False [ra, rb] ''out'' DefaultWriterOptions demo_manifest True (demo_fs, NewBlockCache 0) =
       Some (Inr r, m', fs', c') \<and> fs_lookup fs' ''a'' = None \<and> fs_lookup fs' ''out'' = Some (r_file r)"
proof -
  let ?o = DefaultWriterOptions let ?cd = tag_codecs
  from NewReader_layout [OF demo_layout_ok(1) [of "''a''"], of demo_fs 1 False True] obtain ra where
    ra: "NewReader False ''a'' True demo_fs = (Inr ra, demo_fs)" "reads_as ?cd ra demo_fs [[zero_record]]"
      "r_file ra = 1" "r_meta ra = layout_meta ?cd ''a'' ?o [[zero_record]]"
    by (auto simp: demo_fs_def fs_lookup_def fs_empty_def layout_reader_def)
  from NewReader_layout [OF demo_layout_ok(1) [of "''b''"], of demo_fs 2 False True] obtain rb where
    rb: "NewReader False ''b'' True demo_fs = (Inr rb, demo_fs)" "reads_as ?cd rb demo_fs [[zero_record]]"
      "r_file rb = 2" "r_meta rb = layout_meta ?cd ''b'' ?o [[zero_record]]"
    by (auto simp: demo_fs_def fs_lookup_def fs_empty_def layout_reader_def)
  define G where "G = [''a'' \<mapsto> ra, ''b'' \<mapsto> rb]"
  have paths: "sm_Path (r_meta ra) = ''a''" "sm_Path (r_meta rb) = ''b''"
    by (simp_all add: ra(4) rb(4) layout_meta_def Let_def)
  have ins: "list_all2 (input_ok ?cd G demo_fs) [ra, rb] [[[zero_record]], [[zero_record]]]"
    using ra rb paths by (simp add: input_ok_def G_def zero_record_def)
  have cache: "cache_ok ?cd G (demo_fs, NewBlockCache 0)"
    by (simp add: cache_ok_def cache_inv_def cache_abs_def NewBlockCache_def)
  have fresh: "fresh_output G demo_manifest ''out'' demo_fs"
    by (auto simp: fresh_output_def file_free_def G_def demo_fs_def fs_lookup_def demo_manifest_def fs_empty_def
        ra(3) rb(3))
  have log: "manifest_log demo_manifest demo_fs []"
    by (simp add: manifest_log_def manifest_file_def demo_manifest_def demo_fs_def fs_lookup_def fs_empty_def
        bufio_New_def seq_ok_def)
  have fits: "merge_fits ?cd ''out'' ?o (map r_meta [ra, rb]) []
      (\<Sum>bs \<in># mset [[[zero_record]], [[zero_record]]]. mset (input_recs bs))"
    using demo_fits by (simp add: ra(4) rb(4) in_range_def src_match_def zero_record_def)
  have "fs_faults demo_fs = []" "mf_path demo_manifest \<notin> (\<lambda>r. sm_Path (r_meta r)) ` set [ra, rb]"
    "wo_CompressionType ?o \<le> 2"
    using paths by (simp_all add: demo_fs_def fs_empty_def demo_manifest_def DefaultWriterOptions_def compression_types)
  from Merge_correct [OF this(1) cache ins log this(2) fresh this(3) fits, of False True] ra(1) rb(1) paths
  show ?thesis by fastforce
qed

text \<open>
  C23: a merge never gives up its inputs early. Whatever system call fails, if \<^verbatim>\<open>Merge\<close> returns without
  having made the manifest edit durable, it returns an error and every name other than the output is
  still there, with the file it had.
\<close>

theorem Merge_keeps_inputs:
  assumes "Merge cd mm readers p wopts m cached s = Some (res, m', s')" "mf_seq m' = mf_seq m" "q \<noteq> p"
  shows "(\<exists>e. res = Inl e) \<and> fs_lookup (fst s') q = fs_lookup (fst s) q"
proof -
  obtain x1 s1 where i: "merge_iters cd readers s = (x1, s1)" by (metis surj_pair)
  note fi = merge_iters_fst [OF i]
  show ?thesis
  proof (cases x1)
    case (Inl e)
    then show ?thesis using assms(1) i fi by (auto simp: Merge_def)
  next
    case (Inr its)
    obtain x2 s2 where h: "merge_heads cd 0 its (mergeHeap_init []) s1 = (x2, s2)" by (metis surj_pair)
    note fh = merge_heads_fst [OF h]
    show ?thesis
    proof (cases x2)
      case (Inl e)
      then show ?thesis using assms(1) i h Inr fi fh by (auto simp: Merge_def)
    next
      case it: (Inr y)
      obtain its2 hp where y: "y = (its2, hp)" by force
      obtain x3 fs3 where n: "NewWriter p wopts (fst s2) = (x3, fs3)" by (metis surj_pair)
      note fn = NewWriter_names [OF n assms(3)]
      show ?thesis
      proof (cases x3)
        case (Inl e)
        then show ?thesis using assms(1) i h n y Inr it fi fh fn by (auto simp: Merge_def)
      next
        case w: (Inr w)
        obtain err w4 s4 where lp: "merge_loop cd its2 hp w (fs3, snd s2) = Some (err, w4, s4)"
          using assms(1) i h n y Inr it w by (auto simp: Merge_def Let_def bind_eq_Some_conv)
        obtain x5 fs5 where fin: "sst_Finish cd w4 (fst s4) = (x5, fs5)" by (metis surj_pair)
        obtain e6 m6 fs6 where ap: "manifest_Append m (merge_edit (case x5 of Inr meta \<Rightarrow> meta) (map r_meta readers)) fs5 =
          (e6, m6, fs6)" by (metis prod_cases3)
        have names: "fs_lookup (fst s4) q = fs_lookup (fst s) q" "fs_lookup fs5 q = fs_lookup (fst s) q"
          "fs_lookup fs6 q = fs_lookup (fst s) q"
          using merge_loop_names [OF lp] sst_Finish_names [OF fin] manifest_Append_error(1) [OF ap] fn fi fh
          by (simp_all add: fs_lookup_def)
        show ?thesis
          using assms(1,2) i h n y Inr it w lp fin ap names manifest_Append_error(2) [OF ap]
          by (auto simp: Merge_def Let_def split: option.splits sum.splits prod.splits)
      qed
    qed
  qed
qed

theorem Merge_keeps_inputs_witness:
  "\<exists>s'. Merge tag_codecs False [] ''out'' DefaultWriterOptions demo_manifest True
      (demo_fs\<lparr>fs_faults := [Some 0]\<rparr>, NewBlockCache 0) = Some (Inl EIO, demo_manifest, s') \<and>
     fs_lookup (fst s') ''a'' = Some 1"
proof -
  let ?s = "(demo_fs\<lparr>fs_faults := [Some 0]\<rparr>, NewBlockCache 0)"
  have h0: "mergeHeap_init [] = []" using mergeHeap.init_items [of "[]"] by simp
  have "\<exists>s'. Merge tag_codecs False [] ''out'' DefaultWriterOptions demo_manifest True ?s =
      Some (Inl EIO, demo_manifest, s')"
    by (simp add: Merge_def h0 NewWriter_def os_open_create_def pop_fault_def)
  then obtain s' where s': "Merge tag_codecs False [] ''out'' DefaultWriterOptions demo_manifest True ?s =
      Some (Inl EIO, demo_manifest, s')" by blast
  from Merge_keeps_inputs [OF this refl, of "''a''"] s' show ?thesis
    by (auto simp: demo_fs_def fs_lookup_def)
qed

text \<open>
  Retention. For a non-empty file that a reader stands for, the strategy selects it as expired
  exactly when every record in it is older than the horizon; and it asks for a merge exactly when a
  window has more files than the limit, then of all of them.
\<close>

lemma FIFO_correct:
  assumes "reads_as cd r fs bs" "bs \<noteq> []" "r_meta r \<in> set metas"
  shows "(r_meta r \<in> set (PickExpired f metas horizon) \<longleftrightarrow> (\<forall>x \<in> set (concat bs). Timestamp x < horizon)) \<and>
    PickMerge f win metas = (if ff_MaxFilesPerPartition f < int (length metas)
       then Some \<lparr>mj_Window = win, mj_Inputs = metas\<rparr> else None)"
proof -
  have ne: "concat bs \<noteq> []" using assms(1,2) by (cases bs) (force simp: reads_as_def)+
  have srt: "rec_sorted (concat bs)" and mx: "sm_MaxTimestamp (r_meta r) = Timestamp (last (concat bs))"
    using assms(1,2) by (auto simp: reads_as_def)
  have "Timestamp x \<le> Timestamp (last (concat bs))" if "x \<in> set (concat bs)" for x
    using rec_sorted_bounds [OF srt that] by simp
  then have "r_meta r \<in> set (PickExpired f metas horizon) \<longleftrightarrow> (\<forall>x \<in> set (concat bs). Timestamp x < horizon)"
    using assms(3) mx last_in_set [OF ne] by (auto simp: PickExpired_def simp del: set_concat intro: le_less_trans)
  then show ?thesis by (simp add: PickMerge_def)
qed

end
