(* ===== verification/Metrics.thy ===== *)
theory Metrics
  imports Prelude
begin

text \<open>
  \<^verbatim>\<open>internal/metrics/metrics.go\<close>: the instrumentation handles of an engine and the collectors that
  \<^verbatim>\<open>New\<close> registers. A counter or gauge of the Prometheus client is the number it holds, exact as long
  as it stays below 2 to the 53; a histogram is the list of its observations, in nanoseconds. The HTTP
  handler and \<^verbatim>\<open>Gather\<close> only call the client library and are not modelled.
\<close>

datatype collector_kind = Counter | Gauge | Histogram

record collector =
  co_kind :: collector_kind
  co_Name :: string
  co_Help :: string

record metrics =
  m_AppendsTotal :: int
  m_AppendBytesTotal :: int
  m_LateArrivalsTotal :: int
  m_WALWritesTotal :: int
  m_FlushedTotal :: int
  m_ScansTotal :: int
  m_ScanRecordsTotal :: int
  m_SSTReadsTotal :: int
  m_SSTSkipsTotal :: int
  m_CompactionsTotal :: int
  m_FilesExpiredTotal :: int
  m_BytesReclaimedTotal :: int
  m_BytesFlushedTotal :: int
  m_BytesCompactedTotal :: int
  m_ActivePartitions :: int
  m_SSTFilesTotal :: int
  m_SSTBytesTotal :: int
  m_RetentionHorizonTS :: int
  m_ScanDuration :: "int list"
  m_CompactionDuration :: "int list"
  m_reg :: "collector list"

definition metrics_collectors :: "collector list" where
  "metrics_collectors =
    [\<lparr>co_kind = Counter, co_Name = ''timberdb_appends_total'',
        co_Help = ''Total number of records appended.''\<rparr>,
     \<lparr>co_kind = Counter, co_Name = ''timberdb_append_bytes_total'',
        co_Help = ''Total bytes written by Append (timestamp + sourceID + payload).''\<rparr>,
     \<lparr>co_kind = Counter, co_Name = ''timberdb_late_arrivals_total'',
        co_Help = ''Total records rejected due to arriving outside the late-arrival window (strict mode).''\<rparr>,
     \<lparr>co_kind = Counter, co_Name = ''timberdb_wal_writes_total'',
        co_Help = ''Total records written to the WAL.''\<rparr>,
     \<lparr>co_kind = Counter, co_Name = ''timberdb_memtable_flushes_total'',
        co_Help = ''Total number of memtable-to-SSTable flushes completed.''\<rparr>,
     \<lparr>co_kind = Counter, co_Name = ''timberdb_scans_total'',
        co_Help = ''Total number of Scan calls.''\<rparr>,
     \<lparr>co_kind = Counter, co_Name = ''timberdb_scan_records_total'',
        co_Help = ''Total records yielded across all scans.''\<rparr>,
     \<lparr>co_kind = Counter, co_Name = ''timberdb_sstable_reads_total'',
        co_Help = ''Total SSTable readers opened for a Scan (range overlapped).''\<rparr>,
     \<lparr>co_kind = Counter, co_Name = ''timberdb_sstable_skips_total'',
        co_Help = ''Total SSTable readers skipped by time-range metadata pre-filter.''\<rparr>,
     \<lparr>co_kind = Counter, co_Name = ''timberdb_compactions_total'',
        co_Help = ''Total number of compaction runs.''\<rparr>,
     \<lparr>co_kind = Counter, co_Name = ''timberdb_files_expired_total'',
        co_Help = ''Total SSTable files deleted by the retention enforcer.''\<rparr>,
     \<lparr>co_kind = Counter, co_Name = ''timberdb_bytes_reclaimed_total'',
        co_Help = ''Total bytes freed by the retention enforcer.''\<rparr>,
     \<lparr>co_kind = Counter, co_Name = ''timberdb_bytes_flushed_total'',
        co_Help = ''Total bytes written to SSTables during memtable flushes.''\<rparr>,
     \<lparr>co_kind = Counter, co_Name = ''timberdb_bytes_compacted_total'',
        co_Help = ''Total bytes written to SSTables during compaction merges.''\<rparr>,
     \<lparr>co_kind = Gauge, co_Name = ''timberdb_active_partitions'',
        co_Help = ''Current number of partitions tracked by the router.''\<rparr>,
     \<lparr>co_kind = Gauge, co_Name = ''timberdb_sstable_files_total'',
        co_Help = ''Current number of live SSTable readers.''\<rparr>,
     \<lparr>co_kind = Gauge, co_Name = ''timberdb_sstable_bytes_total'',
        co_Help = ''Current total bytes of live SSTable files.''\<rparr>,
     \<lparr>co_kind = Gauge, co_Name = ''timberdb_retention_horizon_timestamp'',
        co_Help = ''Unix nanoseconds of the current retention cutoff (0 when retention is disabled).''\<rparr>,
     \<lparr>co_kind = Histogram, co_Name = ''timberdb_scan_duration_seconds'',
        co_Help = ''Time from Scan() call to iterator Close(), in seconds.''\<rparr>,
     \<lparr>co_kind = Histogram, co_Name = ''timberdb_compaction_duration_seconds'',
        co_Help = ''Time to complete a single compaction merge, in seconds.''\<rparr>]"

definition metrics_New :: metrics where
  "metrics_New = \<lparr>m_AppendsTotal = 0, m_AppendBytesTotal = 0, m_LateArrivalsTotal = 0, m_WALWritesTotal = 0,
     m_FlushedTotal = 0, m_ScansTotal = 0, m_ScanRecordsTotal = 0, m_SSTReadsTotal = 0,
     m_SSTSkipsTotal = 0, m_CompactionsTotal = 0, m_FilesExpiredTotal = 0, m_BytesReclaimedTotal
     = 0, m_BytesFlushedTotal = 0, m_BytesCompactedTotal = 0, m_ActivePartitions = 0,
     m_SSTFilesTotal = 0, m_SSTBytesTotal = 0, m_RetentionHorizonTS = 0, m_ScanDuration = [],
     m_CompactionDuration = [],
     m_reg = metrics_collectors\<rparr>"

text \<open>\<^verbatim>\<open>Inc\<close>.\<close>

abbreviation inc :: "int \<Rightarrow> int" where "inc n \<equiv> n + 1"

text \<open>\<^verbatim>\<open>MustRegister\<close> panics on a second collector of the same name: there is none.\<close>

lemma metrics_names_distinct: "distinct (map co_Name (m_reg metrics_New))"
  by (simp add: metrics_New_def metrics_collectors_def)

end
