(* ===== verification/Engine.thy ===== *)
theory Engine
  imports Wal Compaction Metrics "HOL-Library.Char_ord"
begin

text \<open>
  \<^verbatim>\<open>internal/engine\<close>: the coordinator of log, router, memtables, SSTables, manifest, compaction and
  metrics. Every exported method and every turn of the two background goroutines is a function from
  the engine and the store (file system and block cache) to their new values. A pointer to a partition
  is its window; the maps \<^verbatim>\<open>files\<close> and \<^verbatim>\<open>maxFlushedTS\<close> are association lists, iterated in list order (Go
  iterates in an arbitrary order); the channels are queues of their capacity. The clock readings are
  arguments (\<open>now\<close>, and \<open>dt\<close> for a measured duration), as are the compression codecs \<open>cd\<close> and the build tag
  \<open>mm\<close>. An operation that runs a loop with no syntactic bound returns an option; the theorems show that
  it is never \<open>None\<close>. Logging has no counterpart. Paths are joined with a slash: the directory is
  assumed to be in the normal form of \<^verbatim>\<open>filepath.Clean\<close>, without characters special to \<^verbatim>\<open>filepath.Glob\<close>.
\<close>

subsection \<open>Options (\<^verbatim>\<open>options.go\<close>)\<close>

record Options =
  o_PartitionDuration :: int
  o_LateArrivalWindow :: int
  o_LateArrivalMode :: LateArrivalMode
  o_MemtableSizeBytes :: int
  o_WALSyncMode :: WALSyncMode
  o_BlockSizeBytes :: int
  o_IndexSources :: bool
  o_MaxFilesPerPartition :: int
  o_RetentionDuration :: int
  o_RetentionCheckInterval :: int
  o_CompactionCheckInterval :: int
  o_CompressionType :: nat
  o_ColumnOriented :: bool
  o_BlockCacheBytes :: int

abbreviation second :: int where "second \<equiv> 1000000000"

definition DefaultOptions :: Options where
  "DefaultOptions = \<lparr>o_PartitionDuration = 3600 * second, o_LateArrivalWindow = 5 * 60 * second,
     o_LateArrivalMode = Strict, o_MemtableSizeBytes = 64 * 2 ^ 20, o_WALSyncMode = SyncAlways,
     o_BlockSizeBytes = 32 * 2 ^ 10, o_IndexSources = False, o_MaxFilesPerPartition = 10,
     o_RetentionDuration = 0, o_RetentionCheckInterval = 3600 * second,
     o_CompactionCheckInterval = 30 * second, o_CompressionType = CompressionNone,
     o_ColumnOriented = False, o_BlockCacheBytes = 64 * 2 ^ 20\<rparr>"

subsection \<open>The engine\<close>

record Engine =
  e_dir :: path
  e_opts :: Options
  e_wal :: wal_state
  e_router :: Router
  e_manifest :: manifest
  e_files :: "(PartitionWindow \<times> sst_reader list) list"
  e_cached :: bool
  e_maxFlushedTS :: "(PartitionWindow \<times> int) list"
  e_flushCh :: "PartitionWindow list"
  e_compactCh :: "PartitionWindow list"
  e_walSeq :: int
  e_compactSeq :: int
  e_closedReaders :: "sst_reader list"
  e_strategy :: FIFOStrategy
  e_metrics :: metrics
  e_closed :: bool

text \<open>Reading a map: a missing key is the zero value.\<close>

definition files_of :: "Engine \<Rightarrow> PartitionWindow \<Rightarrow> sst_reader list" where
  "files_of e win = (case map_of (e_files e) win of None \<Rightarrow> [] | Some rs \<Rightarrow> rs)"

definition maxFlushed :: "Engine \<Rightarrow> PartitionWindow \<Rightarrow> int" where
  "maxFlushed e win = (case map_of (e_maxFlushedTS e) win of None \<Rightarrow> 0 | Some t \<Rightarrow> t)"

definition set_files :: "PartitionWindow \<Rightarrow> sst_reader list \<Rightarrow> Engine \<Rightarrow> Engine" where
  "set_files win rs e = e\<lparr>e_files := AList.update win rs (e_files e)\<rparr>"

text \<open>\<^verbatim>\<open>if ts > e.maxFlushedTS[win] { e.maxFlushedTS[win] = ts }\<close>\<close>

definition raise_flushed :: "PartitionWindow \<Rightarrow> int \<Rightarrow> Engine \<Rightarrow> Engine" where
  "raise_flushed win ts e =
     (if ts > maxFlushed e win then e\<lparr>e_maxFlushedTS := AList.update win ts (e_maxFlushedTS e)\<rparr> else e)"

text \<open>A non-blocking send on a channel of capacity 16.\<close>

definition chan_send :: "'a list \<Rightarrow> 'a \<Rightarrow> 'a list" where
  "chan_send ch x = (if length ch < 16 then ch @ [x] else ch)"

subsubsection \<open>File names\<close>

definition path_join :: "path \<Rightarrow> string \<Rightarrow> path" where
  "path_join dir name = dir @ ''/'' @ name"

definition fmt_d :: "int \<Rightarrow> string" where
  "fmt_d i = bytes_str (dec_int i)"

definition fmt_06d :: "int \<Rightarrow> string" where
  "fmt_06d i = (let s = fmt_d i; pad = replicate (6 - length s) (CHR ''0'') in
     if i < 0 then hd s # pad @ tl s else pad @ s)"

definition walPath :: "Engine \<Rightarrow> int \<Rightarrow> path" where
  "walPath e sq = path_join (e_dir e) (''wal-'' @ fmt_06d sq @ ''.wal'')"

definition flushPath :: "Engine \<Rightarrow> PartitionWindow \<Rightarrow> int \<Rightarrow> path" where
  "flushPath e win sq = path_join (e_dir e) (fmt_d (pw_Start win) @ ''-'' @ fmt_06d sq @ ''.sst'')"

definition compactPath :: "Engine \<Rightarrow> PartitionWindow \<Rightarrow> int \<Rightarrow> path" where
  "compactPath e win sq = path_join (e_dir e) (fmt_d (pw_Start win) @ ''-compact-'' @ fmt_06d sq @ ''.sst'')"

definition writerOptions :: "Engine \<Rightarrow> PartitionWindow \<Rightarrow> WriterOptions" where
  "writerOptions e win = \<lparr>wo_BlockSizeBytes = o_BlockSizeBytes (e_opts e),
     wo_IndexSources = o_IndexSources (e_opts e), wo_PartitionStart = pw_Start win,
     wo_PartitionEnd = pw_End win, wo_CompressionType = o_CompressionType (e_opts e),
     wo_ColumnOriented = o_ColumnOriented (e_opts e)\<rparr>"

text \<open>\<^verbatim>\<open>os.Stat\<close>: the size of a file.\<close>

definition os_Stat :: "path \<Rightarrow> file_sys \<Rightarrow> int option" where
  "os_Stat p fs = map_option (\<lambda>i. int (length (fs_data fs i))) (fs_lookup fs p)"

definition file_bytes :: "path list \<Rightarrow> file_sys \<Rightarrow> int" where
  "file_bytes ps fs = sum_list (map (\<lambda>p. case os_Stat p fs of Some n \<Rightarrow> n | None \<Rightarrow> 0) ps)"

subsection \<open>\<^verbatim>\<open>Append\<close>\<close>

definition engine_Append :: "int \<Rightarrow> Engine \<Rightarrow> go_record \<Rightarrow> store \<Rightarrow> go_error option \<times> Engine \<times> store" where
  "engine_Append now e rec s =
     (if e_closed e then (Some ErrClosed, e, s)
      else
        (case wal_Append (e_wal e) rec (fst s) of
           (Some err, w, fs) \<Rightarrow> (Some err, e\<lparr>e_wal := w\<rparr>, (fs, snd s))
         | (None, w, fs) \<Rightarrow>
             (let s = (fs, snd s); m = e_metrics e;
                  m = m\<lparr>m_WALWritesTotal := inc (m_WALWritesTotal m)\<rparr>;
                  e = e\<lparr>e_wal := w, e_metrics := m\<rparr>
              in case Route (e_router e) now (Timestamp rec) of
                   (Inl err, rt) \<Rightarrow>
                     (Some err, e\<lparr>e_router := rt, e_metrics := (if err = ErrLateArrival
                        then m\<lparr>m_LateArrivalsTotal := inc (m_LateArrivalsTotal m)\<rparr> else m)\<rparr>, s)
                 | (Inr win, rt) \<Rightarrow>
                     (case partition_Append (the (map_of (rt_partitions rt) win)) rec of
                        (Some err, p) \<Rightarrow> (Some err, e\<lparr>e_router := rt\<rparr>, s)
                      | (None, p) \<Rightarrow>
                          (let rt = set_partition rt win p;
                               m = m\<lparr>m_AppendsTotal := inc (m_AppendsTotal m),
                                 m_AppendBytesTotal := m_AppendBytesTotal m +
                                   int (8 + length (SourceID rec) + length (Payload rec)),
                                 m_ActivePartitions := int (length (router_All rt))\<rparr>;
                               e = e\<lparr>e_router := rt, e_metrics := m\<rparr>
                           in (None,
                               if MemtableSize p > o_MemtableSizeBytes (e_opts e)
                               then e\<lparr>e_flushCh := chan_send (e_flushCh e) win\<rparr> else e, s))))))"

subsection \<open>\<^verbatim>\<open>Scan\<close>\<close>

record ScanOptions =
  so_SourceID :: "bytes option"

text \<open>The iterators that a scan merges.\<close>

datatype eng_iter = MemIter mem_iter | SstIter sst_iter

fun eng_Next :: "codecs \<Rightarrow> eng_iter \<Rightarrow> store \<Rightarrow> bool \<times> eng_iter \<times> store" where
  "eng_Next cd (MemIter it) s = (case mem_iter_Next it of (b, it) \<Rightarrow> (b, MemIter it, s))"
| "eng_Next cd (SstIter it) s = (case sst_Next cd it s of (b, it, s) \<Rightarrow> (b, SstIter it, s))"

fun eng_View :: "eng_iter \<Rightarrow> record_view" where
  "eng_View (MemIter it) = mem_iter_View it"
| "eng_View (SstIter it) = sst_View it"

fun eng_Err :: "eng_iter \<Rightarrow> go_error option" where
  "eng_Err (MemIter it) = None"
| "eng_Err (SstIter it) = sst_Err it"

record countingIter =
  ct_Iterator :: "eng_iter merge_iter"
  ct_start :: int
  ct_n :: int

definition counting_Next :: "codecs \<Rightarrow> countingIter \<Rightarrow> store \<Rightarrow> bool \<times> countingIter \<times> store" where
  "counting_Next cd c s =
     (case merge_Next (eng_Next cd) eng_View eng_Err (ct_Iterator c) s of
        (b, it, s) \<Rightarrow> (b, c\<lparr>ct_Iterator := it, ct_n := (if b then ct_n c + 1 else ct_n c)\<rparr>, s))"

definition counting_View :: "countingIter \<Rightarrow> record_view" where
  "counting_View c = merge_View eng_View (ct_Iterator c)"

definition counting_Err :: "countingIter \<Rightarrow> go_error option" where
  "counting_Err c = merge_Err (ct_Iterator c)"

definition counting_Close :: "int \<Rightarrow> countingIter \<Rightarrow> metrics \<Rightarrow> go_error option \<times> countingIter \<times> metrics" where
  "counting_Close now c m =
     (case merge_Close (\<lambda>_. None) (ct_Iterator c) of
        (err, it) \<Rightarrow> (err, c\<lparr>ct_Iterator := it\<rparr>,
          m\<lparr>m_ScanDuration := m_ScanDuration m @ [now - ct_start c],
            m_ScanRecordsTotal := m_ScanRecordsTotal m + ct_n c\<rparr>))"

text \<open>The readers of one partition.\<close>

fun scan_files :: "codecs \<Rightarrow> int \<Rightarrow> int \<Rightarrow> bytes option \<Rightarrow> sst_reader list \<Rightarrow> metrics \<Rightarrow> store \<Rightarrow>
    eng_iter list result \<times> metrics \<times> store" where
  "scan_files cd t0 t1 src [] m s = (Inr [], m, s)"
| "scan_files cd t0 t1 src (r # rs) m s =
     (let meta = reader_Meta r in
      if sm_MaxTimestamp meta < t0 \<or> sm_MinTimestamp meta \<ge> t1
      then scan_files cd t0 t1 src rs (m\<lparr>m_SSTSkipsTotal := inc (m_SSTSkipsTotal m)\<rparr>) s
      else
        (let m = m\<lparr>m_SSTReadsTotal := inc (m_SSTReadsTotal m)\<rparr> in
         case reader_Scan cd r t0 t1 src s of
           (Inl e, s) \<Rightarrow> (Inl e, m, s)
         | (Inr it, s) \<Rightarrow>
             (case scan_files cd t0 t1 src rs m s of
                (Inl e, m, s) \<Rightarrow> (Inl e, m, s)
              | (Inr its, m, s) \<Rightarrow> (Inr (SstIter it # its), m, s))))"

fun scan_partitions :: "codecs \<Rightarrow> int \<Rightarrow> int \<Rightarrow> bytes option \<Rightarrow> Engine \<Rightarrow> TimePartition list \<Rightarrow> metrics \<Rightarrow>
    store \<Rightarrow> eng_iter list result \<times> metrics \<times> store" where
  "scan_partitions cd t0 t1 src e [] m s = (Inr [], m, s)"
| "scan_partitions cd t0 t1 src e (p # ps) m s =
     (case partition_Scan p t0 t1 src of
        Inl err \<Rightarrow> (Inl err, m, s)
      | Inr it \<Rightarrow>
          (case scan_files cd t0 t1 src (files_of e (tp_Window p)) m s of
             (Inl err, m, s) \<Rightarrow> (Inl err, m, s)
           | (Inr its1, m, s) \<Rightarrow>
               (case scan_partitions cd t0 t1 src e ps m s of
                  (Inl err, m, s) \<Rightarrow> (Inl err, m, s)
                | (Inr its2, m, s) \<Rightarrow> (Inr (MemIter it # its1 @ its2), m, s))))"

text \<open>Times are nanoseconds since the epoch; \<^verbatim>\<open>UnixNano\<close> wraps them to 64 bits.\<close>

definition engine_Scan :: "codecs \<Rightarrow> int \<Rightarrow> Engine \<Rightarrow> int \<Rightarrow> int \<Rightarrow> ScanOptions option \<Rightarrow> store \<Rightarrow>
    countingIter result \<times> Engine \<times> store" where
  "engine_Scan cd now e start end' opts s =
     (if e_closed e then (Inl ErrClosed, e, s)
      else
        (let sourceID = (case opts of None \<Rightarrow> None | Some so \<Rightarrow> so_SourceID so);
             startNs = i64 start; endNs = i64 end'; m = e_metrics e;
             m = m\<lparr>m_ScansTotal := inc (m_ScansTotal m)\<rparr>
         in case scan_partitions cd startNs endNs sourceID e (Overlapping (e_router e) startNs endNs) m s of
              (Inl err, m, s) \<Rightarrow> (Inl err, e\<lparr>e_metrics := m\<rparr>, s)
            | (Inr its, m, s) \<Rightarrow>
                (case newMergeIterator (eng_Next cd) eng_View eng_Err its s of
                   (it, s) \<Rightarrow> (Inr \<lparr>ct_Iterator = it, ct_start = now, ct_n = 0\<rparr>, e\<lparr>e_metrics := m\<rparr>, s))))"

subsection \<open>Flushing\<close>

text \<open>The loop that moves the frozen memtable to the writer.\<close>

lemma mem_iter_Next_pos:
  "mem_iter_Next it = (True, it') \<Longrightarrow> mi_records it' = mi_records it \<and> mi_pos it < mi_pos it' \<and>
     mi_pos it' < int (length (mi_records it))"
proof (induction it rule: mem_iter_Next.induct)
  case (1 it)
  show ?case
    using "1.prems" "1.IH" by (subst (asm) mem_iter_Next.simps) (fastforce simp: Let_def split: if_splits)
qed

function flush_loop :: "codecs \<Rightarrow> mem_iter \<Rightarrow> sst_writer \<Rightarrow> file_sys \<Rightarrow> go_error option \<times> sst_writer \<times> file_sys" where
  "flush_loop cd it w fs =
     (let res = mem_iter_Next it in
      if fst res then
        (let ad = sst_Add cd w (mem_iter_Record (snd res)) fs in
         if fst ad \<noteq> None then ad else flush_loop cd (snd res) (fst (snd ad)) (snd (snd ad)))
      else (None, w, fs))"
  by pat_completeness auto
termination
proof (relation "measure (\<lambda>(_, it, _, _). nat (int (length (mi_records it)) - mi_pos it))", goal_cases)
  case (2 cd it w fs res ad)
  then have "mem_iter_Next it = (True, snd res)" by (metis prod.collapse)
  from mem_iter_Next_pos [OF this] 2 show ?case by auto
qed simp

declare flush_loop.simps [simp del]

definition flush_edit :: "path \<Rightarrow> SSTableMeta \<Rightarrow> VersionEdit" where
  "flush_edit sstPath meta = \<lparr>ve_Seq = 0, ve_AddedFiles = [(meta_entry meta)\<lparr>fe_Path := sstPath\<rparr>],
     ve_DeletedFiles = []\<rparr>"

text \<open>The end of a flush: reader, files, highest flushed timestamp and the signal to the compactor.\<close>

definition flush_install :: "bool \<Rightarrow> PartitionWindow \<Rightarrow> path \<Rightarrow> SSTableMeta \<Rightarrow> Engine \<Rightarrow> store \<Rightarrow>
    go_error option \<times> Engine \<times> store" where
  "flush_install mm win sstPath meta e s =
     (case NewReader mm sstPath (e_cached e) (fst s) of
        (Inl err, fs) \<Rightarrow> (Some err, e, (fs, snd s))
      | (Inr r, fs) \<Rightarrow>
          (let e = raise_flushed win (sm_MaxTimestamp meta) (set_files win (files_of e win @ [r]) e)
           in (None, e\<lparr>e_compactCh := chan_send (e_compactCh e) win\<rparr>, (fs, snd s))))"

text \<open>After the file is finished: manifest, metrics, removal of the old log segment.\<close>

definition flush_commit :: "bool \<Rightarrow> PartitionWindow \<Rightarrow> path \<Rightarrow> path \<Rightarrow> SSTableMeta \<Rightarrow> Engine \<Rightarrow> store \<Rightarrow>
    go_error option \<times> Engine \<times> store" where
  "flush_commit mm win oldWALPath sstPath meta e s =
     (case manifest_Append (e_manifest e) (flush_edit sstPath meta) (fst s) of
        (Some err, mf, fs) \<Rightarrow> (Some err, e\<lparr>e_manifest := mf\<rparr>, (fs, snd s))
      | (None, mf, fs) \<Rightarrow>
          (let m = e_metrics e;
               m = m\<lparr>m_FlushedTotal := inc (m_FlushedTotal m)\<rparr>;
               m = (case os_Stat sstPath fs of
                 None \<Rightarrow> m
               | Some n \<Rightarrow> m\<lparr>m_SSTFilesTotal := inc (m_SSTFilesTotal m),
                   m_SSTBytesTotal := m_SSTBytesTotal m + n,
                   m_BytesFlushedTotal := m_BytesFlushedTotal m + n\<rparr>)
           in flush_install mm win sstPath meta (e\<lparr>e_manifest := mf, e_metrics := m\<rparr>)
                (snd (os_remove oldWALPath fs), snd s)))"

definition flushPartition :: "codecs \<Rightarrow> bool \<Rightarrow> Engine \<Rightarrow> PartitionWindow \<Rightarrow> store \<Rightarrow>
    go_error option \<times> Engine \<times> store" where
  "flushPartition cd mm e win s =
     (let oldWALPath = walPath e (e_walSeq e); newWALSeq = e_walSeq e + 1 in
      case wal_Rotate (e_wal e) (walPath e newWALSeq) (fst s) of
        (Some err, w, fs) \<Rightarrow> (Some err, e\<lparr>e_wal := w\<rparr>, (fs, snd s))
      | (None, w, fs) \<Rightarrow>
          (let e = e\<lparr>e_wal := w, e_walSeq := newWALSeq\<rparr>; sstPath = flushPath e win newWALSeq in
           case NewWriter sstPath (writerOptions e win) fs of
             (Inl err, fs) \<Rightarrow> (Some err, e, (fs, snd s))
           | (Inr wr, fs) \<Rightarrow>
               (case SwapMemtable (the (map_of (rt_partitions (e_router e)) win)) of (it, p) \<Rightarrow>
                  let e = e\<lparr>e_router := set_partition (e_router e) win p\<rparr> in
                  case flush_loop cd it wr fs of
                    (Some err, wr, fs) \<Rightarrow> (Some err, e, (fs, snd s))
                  | (None, wr, fs) \<Rightarrow>
                      (case sst_Finish cd wr fs of
                         (Inl err, fs) \<Rightarrow> (Some err, e, (fs, snd s))
                       | (Inr meta, fs) \<Rightarrow>
                           (if sm_RecordCount meta = 0
                            then (None, e, (snd (os_remove sstPath fs), snd s))
                            else flush_commit mm win oldWALPath sstPath meta e (fs, snd s))))))"

text \<open>One turn of \<^verbatim>\<open>runFlusher\<close> with a partition in the channel.\<close>

definition runFlusher_turn :: "codecs \<Rightarrow> bool \<Rightarrow> Engine \<Rightarrow> store \<Rightarrow> Engine \<times> store" where
  "runFlusher_turn cd mm e s = (case e_flushCh e of
     [] \<Rightarrow> (e, s)
   | win # ch \<Rightarrow> snd (flushPartition cd mm (e\<lparr>e_flushCh := ch\<rparr>) win s))"

subsection \<open>Compaction\<close>

text \<open>
  The readers whose path is, or is not, among the given ones: a merge and a retirement split the
  files of a window by path.
\<close>

definition with_paths :: "path set \<Rightarrow> sst_reader list \<Rightarrow> sst_reader list" where
  "with_paths ps rs = filter (\<lambda>r. sm_Path (reader_Meta r) \<in> ps) rs"

definition without_paths :: "path set \<Rightarrow> sst_reader list \<Rightarrow> sst_reader list" where
  "without_paths ps rs = filter (\<lambda>r. sm_Path (reader_Meta r) \<notin> ps) rs"

definition reader_paths :: "sst_reader list \<Rightarrow> path list" where
  "reader_paths rs = map (\<lambda>r. sm_Path (reader_Meta r)) rs"

definition compact_install :: "PartitionWindow \<Rightarrow> sst_reader list \<Rightarrow> sst_reader \<Rightarrow> Engine \<Rightarrow> Engine" where
  "compact_install win selected merged e =
     (let mergedPaths = set (reader_paths selected); current = files_of e win in
      (set_files win (without_paths mergedPaths current @ [merged]) e)
        \<lparr>e_closedReaders := e_closedReaders e @ with_paths mergedPaths current\<rparr>)"

definition maybeCompact :: "codecs \<Rightarrow> bool \<Rightarrow> int \<Rightarrow> PartitionWindow \<Rightarrow> Engine \<Rightarrow> store \<Rightarrow> (Engine \<times> store) option" where
  "maybeCompact cd mm dt win e s =
     (let readers = files_of e win in
      if readers = [] then Some (e, s)
      else
        (case PickMerge (e_strategy e) win (map reader_Meta readers) of
           None \<Rightarrow> Some (e, s)
         | Some job \<Rightarrow>
             (let selected = with_paths (set (map sm_Path (mj_Inputs job))) readers;
                  sq = e_compactSeq e + 1;
                  e = e\<lparr>e_compactSeq := sq\<rparr>;
                  outputPath = compactPath e win sq;
                  inputBytes = file_bytes (reader_paths selected) (fst s)
              in case Merge cd mm selected outputPath (writerOptions e win) (e_manifest e) (e_cached e) s of
                   None \<Rightarrow> None
                 | Some (Inl err, mf, s) \<Rightarrow> Some (e\<lparr>e_manifest := mf\<rparr>, s)
                 | Some (Inr merged, mf, s) \<Rightarrow>
                     (let m = e_metrics e;
                          outputBytes = file_bytes [outputPath] (fst s);
                          m = m\<lparr>m_CompactionDuration := m_CompactionDuration m @ [dt],
                            m_CompactionsTotal := inc (m_CompactionsTotal m),
                            m_SSTFilesTotal := m_SSTFilesTotal m + (1 - int (length selected)),
                            m_SSTBytesTotal := m_SSTBytesTotal m + (outputBytes - inputBytes),
                            m_BytesCompactedTotal := m_BytesCompactedTotal m + outputBytes\<rparr>
                      in Some (compact_install win selected merged (e\<lparr>e_manifest := mf, e_metrics := m\<rparr>), s)))))"

fun compact_windows :: "codecs \<Rightarrow> bool \<Rightarrow> int \<Rightarrow> PartitionWindow list \<Rightarrow> Engine \<Rightarrow> store \<Rightarrow> (Engine \<times> store) option" where
  "compact_windows cd mm dt [] e s = Some (e, s)"
| "compact_windows cd mm dt (win # wins) e s =
     (case maybeCompact cd mm dt win e s of
        None \<Rightarrow> None
      | Some (e, s) \<Rightarrow> compact_windows cd mm dt wins e s)"

definition sweepCompaction :: "codecs \<Rightarrow> bool \<Rightarrow> int \<Rightarrow> int \<Rightarrow> Engine \<Rightarrow> store \<Rightarrow> (Engine \<times> store) option" where
  "sweepCompaction cd mm now dt e s =
     (let e = e\<lparr>e_router := SealExpired (e_router e) now\<rparr>
      in compact_windows cd mm dt (map fst (e_files e)) e s)"

subsection \<open>Retention\<close>

record candidate =
  cn_win :: PartitionWindow
  cn_expiredReaders :: "sst_reader list"
  cn_expiredMetas :: "SSTableMeta list"

definition candidates :: "Engine \<Rightarrow> int \<Rightarrow> candidate list" where
  "candidates e horizon =
     map (\<lambda>(win, readers).
       let expired = PickExpired (e_strategy e) (map reader_Meta readers) horizon
       in \<lparr>cn_win = win, cn_expiredReaders = with_paths (set (map sm_Path expired)) readers,
           cn_expiredMetas = expired\<rparr>)
     (filter (\<lambda>(win, readers). PickExpired (e_strategy e) (map reader_Meta readers) horizon \<noteq> [])
        (e_files e))"

text \<open>\<^verbatim>\<open>Stat\<close> and \<^verbatim>\<open>Remove\<close> of the expired files, one after the other.\<close>

fun remove_expired :: "SSTableMeta list \<Rightarrow> int \<Rightarrow> file_sys \<Rightarrow> int \<times> file_sys" where
  "remove_expired [] n fs = (n, fs)"
| "remove_expired (m # ms) n fs =
     remove_expired ms (n + file_bytes [sm_Path m] fs) (snd (os_remove (sm_Path m) fs))"

text \<open>The first sealed partition of the window becomes deleted.\<close>

definition retire_partition :: "PartitionWindow \<Rightarrow> Router \<Rightarrow> Router" where
  "retire_partition win rt =
     (case find (\<lambda>p. tp_Window p = win \<and> partition_State p = StateSealed) (router_All rt) of
        None \<Rightarrow> rt
      | Some p \<Rightarrow> set_partition rt win (MarkDeleted p))"

definition retire_install :: "PartitionWindow \<Rightarrow> sst_reader list \<Rightarrow> Engine \<Rightarrow> Engine" where
  "retire_install win expiredReaders e =
     (let expiredPaths = set (reader_paths expiredReaders); current = files_of e win;
          survived = without_paths expiredPaths current;
          e1 = e\<lparr>e_closedReaders := e_closedReaders e @ with_paths expiredPaths current\<rparr>
      in if survived = [] then
           e1\<lparr>e_files := AList.delete win (e_files e),
              e_maxFlushedTS := AList.delete win (e_maxFlushedTS e),
              e_router := retire_partition win (e_router e)\<rparr>
         else set_files win survived e1)"

definition retireWindow :: "candidate \<Rightarrow> Engine \<Rightarrow> store \<Rightarrow> Engine \<times> store" where
  "retireWindow c e s =
     (case manifest_Append (e_manifest e) \<lparr>ve_Seq = 0, ve_AddedFiles = [],
          ve_DeletedFiles = map meta_entry (cn_expiredMetas c)\<rparr> (fst s) of
        (Some err, mf, fs) \<Rightarrow> (e\<lparr>e_manifest := mf\<rparr>, (fs, snd s))
      | (None, mf, fs) \<Rightarrow>
          (case remove_expired (cn_expiredMetas c) 0 fs of (expiredBytes, fs) \<Rightarrow>
             (let m = e_metrics e; n = int (length (cn_expiredMetas c));
                  m = m\<lparr>m_FilesExpiredTotal := m_FilesExpiredTotal m + n,
                    m_BytesReclaimedTotal := m_BytesReclaimedTotal m + expiredBytes,
                    m_SSTFilesTotal := m_SSTFilesTotal m - n,
                    m_SSTBytesTotal := m_SSTBytesTotal m - expiredBytes\<rparr>
              in (retire_install (cn_win c) (cn_expiredReaders c) (e\<lparr>e_manifest := mf, e_metrics := m\<rparr>),
                  (fs, snd s)))))"

definition sweepRetention :: "int \<Rightarrow> Engine \<Rightarrow> store \<Rightarrow> Engine \<times> store" where
  "sweepRetention now e s =
     (if o_RetentionDuration (e_opts e) = 0 then (e, s)
      else
        (let horizon = i64 (now - o_RetentionDuration (e_opts e)); m = e_metrics e;
             e = e\<lparr>e_metrics := m\<lparr>m_RetentionHorizonTS := horizon\<rparr>\<rparr>
         in fold (\<lambda>c (e, s). retireWindow c e s) (candidates e horizon) (e, s)))"

text \<open>
  One turn of \<^verbatim>\<open>runCompactor\<close>: a window from the channel, a tick of the compaction ticker, or a tick of
  the retention ticker, which exists for a positive retention only.
\<close>

datatype compactor_event = CompactSignal | CompactTick | RetentionTick

fun runCompactor_turn :: "codecs \<Rightarrow> bool \<Rightarrow> int \<Rightarrow> int \<Rightarrow> compactor_event \<Rightarrow> Engine \<Rightarrow> store \<Rightarrow>
    (Engine \<times> store) option" where
  "runCompactor_turn cd mm now dt CompactSignal e s = (case e_compactCh e of
     [] \<Rightarrow> Some (e, s)
   | win # ch \<Rightarrow> maybeCompact cd mm dt win (e\<lparr>e_compactCh := ch\<rparr>) s)"
| "runCompactor_turn cd mm now dt CompactTick e s = sweepCompaction cd mm now dt e s"
| "runCompactor_turn cd mm now dt RetentionTick e s =
     (if o_RetentionDuration (e_opts e) > 0 then Some (sweepRetention now e s) else Some (e, s))"

end
