(* ===== verification/EngineInv.thy ===== *)
theory EngineInv
  imports Engine
begin

text \<open>
  The invariant of an engine in a run without I/O faults, and what the engine holds: the records of
  the memtables and of the SSTables, as a multiset. The theory shows that the file names the engine
  makes up are new, that the log rotates, and that the three kinds of iterators merge.
\<close>

subsection \<open>What the engine holds\<close>

definition recs_of :: "codecs \<Rightarrow> file_sys \<Rightarrow> sst_reader \<Rightarrow> go_record list" where
  "recs_of cd fs r = later_recs cd r fs 0"

definition all_readers :: "Engine \<Rightarrow> sst_reader list" where
  "all_readers e = concat (map snd (e_files e))"

definition file_recs :: "codecs \<Rightarrow> Engine \<Rightarrow> file_sys \<Rightarrow> go_record multiset" where
  "file_recs cd e fs = (\<Sum>r \<in># mset (all_readers e). mset (recs_of cd fs r))"

definition engine_recs :: "codecs \<Rightarrow> Engine \<Rightarrow> file_sys \<Rightarrow> go_record multiset" where
  "engine_recs cd e fs = mem_recs (e_router e) + file_recs cd e fs"

lemma recs_of_reads: "reads_as cd r fs bs \<Longrightarrow> recs_of cd fs r = concat bs"
  by (simp add: recs_of_def later_recs_drop)

lemma recs_of_same: "same_file (r_file r) fs fs' \<Longrightarrow> recs_of cd fs' r = recs_of cd fs r"
  by (simp add: recs_of_def later_recs_def block_recs_same)

subsection \<open>The invariant\<close>

text \<open>A live reader: registered, on disk under its path, with records of its window.\<close>

definition reader_ok :: "codecs \<Rightarrow> (path \<rightharpoonup> sst_reader) \<Rightarrow> file_sys \<Rightarrow> int \<Rightarrow> PartitionWindow \<Rightarrow> sst_reader \<Rightarrow> bool" where
  "reader_ok cd G fs dur w r \<longleftrightarrow> G (sm_Path (r_meta r)) = Some r \<and>
     fs_lookup fs (sm_Path (r_meta r)) = Some (r_file r) \<and> (\<exists>bs. reads_as cd r fs bs \<and> bs \<noteq> []) \<and>
     (\<forall>x \<in> set (recs_of cd fs r). in_window w (Timestamp x) \<and> ts_ok dur (Timestamp x))"

definition unused :: "(path \<rightharpoonup> sst_reader) \<Rightarrow> file_sys \<Rightarrow> path \<Rightarrow> bool" where
  "unused G fs p \<longleftrightarrow> fs_lookup fs p = None \<and> G p = None"

text \<open>The part that speaks of partitions and files.\<close>

definition data_ok :: "codecs \<Rightarrow> (path \<rightharpoonup> sst_reader) \<Rightarrow> Engine \<Rightarrow> file_sys \<Rightarrow> bool" where
  "data_ok cd G e fs \<longleftrightarrow>
     rt_inv (e_router e) \<and> rt_windowDuration (e_router e) = o_PartitionDuration (e_opts e) \<and>
     (\<forall>x \<in># mem_recs (e_router e). ts_ok (o_PartitionDuration (e_opts e)) (Timestamp x)) \<and>
     distinct (map fst (e_files e)) \<and> distinct (reader_paths (all_readers e)) \<and>
     (\<forall>(w, rs) \<in> set (e_files e). map_of (rt_partitions (e_router e)) w \<noteq> None \<and>
        (\<forall>r \<in> set rs. reader_ok cd G fs (o_PartitionDuration (e_opts e)) w r))"

text \<open>The part that speaks of the store: manifest, log, inodes and names.\<close>

definition store_ok :: "codecs \<Rightarrow> (path \<rightharpoonup> sst_reader) \<Rightarrow> Engine \<Rightarrow> store \<Rightarrow> bool" where
  "store_ok cd G e s \<longleftrightarrow> cache_ok cd G s \<and> fs_faults (fst s) = [] \<and> (\<forall>i. \<not> fs_bad (fst s) i) \<and>
     (\<exists>es. manifest_log (e_manifest e) (fst s) es) \<and> (\<exists>rs. wal_log (e_wal e) (fst s) rs) \<and>
     mf_f (e_manifest e) < fs_next (fst s) \<and> w_file (e_wal e) < fs_next (fst s) \<and>
     mf_f (e_manifest e) \<noteq> w_file (e_wal e) \<and>
     (\<forall>p r. G p = Some r \<longrightarrow> r_file r < fs_next (fst s) \<and> r_file r \<noteq> mf_f (e_manifest e) \<and>
        r_file r \<noteq> w_file (e_wal e))"

definition names_ok :: "(path \<rightharpoonup> sst_reader) \<Rightarrow> Engine \<Rightarrow> file_sys \<Rightarrow> bool" where
  "names_ok G e fs \<longleftrightarrow> 0 \<le> e_walSeq e \<and> 0 \<le> e_compactSeq e \<and>
     mf_path (e_manifest e) = path_join (e_dir e) ''MANIFEST'' \<and> G (mf_path (e_manifest e)) = None \<and>
     w_path (e_wal e) = walPath e (e_walSeq e) \<and>
     (\<forall>sq. G (walPath e sq) = None) \<and>
     (\<forall>w sq. e_walSeq e < sq \<longrightarrow> unused G fs (flushPath e w sq) \<and> unused G fs (walPath e sq)) \<and>
     (\<forall>w sq. e_compactSeq e < sq \<longrightarrow> unused G fs (compactPath e w sq))"

definition engine_ok :: "codecs \<Rightarrow> (path \<rightharpoonup> sst_reader) \<Rightarrow> Engine \<Rightarrow> store \<Rightarrow> bool" where
  "engine_ok cd G e s \<longleftrightarrow> data_ok cd G e (fst s) \<and> store_ok cd G e s \<and> names_ok G e (fst s) \<and>
     o_CompressionType (e_opts e) \<le> 2"

definition engine_inv :: "codecs \<Rightarrow> Engine \<Rightarrow> store \<Rightarrow> bool" where
  "engine_inv cd e s \<longleftrightarrow> (\<exists>G. engine_ok cd G e s)"

subsection \<open>File names are new\<close>

definition isdig :: "char \<Rightarrow> bool" where
  "isdig c \<longleftrightarrow> (48 :: nat) \<le> of_char c \<and> (of_char c :: nat) \<le> 57"

definition digits :: "string \<Rightarrow> bool" where
  "digits s \<longleftrightarrow> s \<noteq> [] \<and> list_all isdig s"

lemma isdig_chars [simp]: "isdig (CHR ''0'')" "\<not> isdig (CHR ''-'')" "\<not> isdig (CHR ''t'')"
  by (simp_all add: isdig_def)

lemma bytes_str_append [simp]: "bytes_str (xs @ ys) = bytes_str xs @ bytes_str ys"
  by (simp add: bytes_str_def)

lemma is_digit_char: "is_digit b \<Longrightarrow> isdig (char_of (unat b))"
  using unat_byte_less [of b] by (simp add: is_digit_def word_le_nat_alt isdig_def)

lemma str_bytes_str [simp]: "str_bytes (bytes_str bs) = bs"
  by (induction bs) (simp_all add: str_bytes_def bytes_str_def unat_byte_less)

lemma fmt_d_digits: "0 \<le> i \<Longrightarrow> digits (fmt_d i)"
  using dec_nat_digits [of "nat i"]
  by (auto simp: fmt_d_def dec_int_def digits_def bytes_str_def list_all_iff is_digit_char)

lemma fmt_06d_digits: "0 \<le> i \<Longrightarrow> digits (fmt_06d i)"
  using fmt_d_digits [of i] by (auto simp: fmt_06d_def Let_def digits_def list_all_iff)

text \<open>The number that a string of digits stands for, leading zeros or not.\<close>

definition num_of :: "string \<Rightarrow> nat" where
  "num_of s = foldl (\<lambda>a d. a * 10 + (unat d - 48)) 0 (str_bytes s)"

lemma num_of_zeros: "num_of (replicate n (CHR ''0'') @ s) = num_of s"
  by (induction n) (simp_all add: num_of_def str_bytes_def)

lemma num_of_fmt_06d: "0 \<le> i \<Longrightarrow> int (num_of (fmt_06d i)) = i"
  using foldl_dec_nat [of "nat i"]
  by (simp add: fmt_06d_def Let_def num_of_zeros) (simp add: num_of_def fmt_d_def dec_int_def)

lemma split_last_digits:
  assumes "digits s" "digits t" "x @ c # s = y @ d # t" "\<not> isdig c" "\<not> isdig d"
  shows "x = y \<and> s = t"
proof -
  have tw: "takeWhile isdig (rev (x @ c # s)) = rev s" if "digits s" "\<not> isdig c" for x c s
    using that by (simp add: digits_def takeWhile_append list_all_iff)
  have "rev s = rev t" using tw [OF assms(1,4)] tw [OF assms(2,5)] assms(3) by metis
  then show ?thesis using assms(3) by simp
qed

lemma wal_name:
  assumes "0 \<le> i" "0 \<le> j" "walPath e i = walPath e j"
  shows "i = j"
proof -
  have "fmt_06d i = fmt_06d j" using assms(3) by (simp add: walPath_def path_join_def)
  then show ?thesis using num_of_fmt_06d [OF assms(1)] num_of_fmt_06d [OF assms(2)] by metis
qed

lemma sst_name:
  assumes "0 \<le> i" "0 \<le> j"
  shows "flushPath e v i = flushPath e w j \<Longrightarrow> i = j" "compactPath e v i = compactPath e w j \<Longrightarrow> i = j"
    "flushPath e v i \<noteq> compactPath e w j"
proof -
  note d = fmt_06d_digits [OF assms(1)] fmt_06d_digits [OF assms(2)]
  note n = num_of_fmt_06d [OF assms(1)] num_of_fmt_06d [OF assms(2)]
  have same: "i = j" if "fmt_06d i = fmt_06d j" using that n by metis
  show "i = j" if "flushPath e v i = flushPath e w j"
    using that split_last_digits [OF d, of "fmt_d (pw_Start v)" "CHR ''-''" "fmt_d (pw_Start w)" "CHR ''-''"]
    by (intro same) (simp add: flushPath_def path_join_def)
  show "i = j" if "compactPath e v i = compactPath e w j"
    using that split_last_digits [OF d, of "fmt_d (pw_Start v) @ ''-compact''" "CHR ''-''"
        "fmt_d (pw_Start w) @ ''-compact''" "CHR ''-''"]
    by (intro same) (simp add: compactPath_def path_join_def)
  show "flushPath e v i \<noteq> compactPath e w j"
  proof
    assume "flushPath e v i = compactPath e w j"
    then have "fmt_d (pw_Start v) = fmt_d (pw_Start w) @ ''-compact''"
      using split_last_digits [OF d, of "fmt_d (pw_Start v)" "CHR ''-''"
        "fmt_d (pw_Start w) @ ''-compact''" "CHR ''-''"]
      by (simp add: flushPath_def compactPath_def path_join_def)
    then have "last (fmt_d (pw_Start v)) = CHR ''t''" by simp
    moreover have "isdig (last (fmt_d i))" for i
    proof (cases "0 \<le> i")
      case True
      then show ?thesis using fmt_d_digits [OF True] last_in_set by (auto simp: digits_def list_all_iff)
    next
      case False
      then have "last (fmt_d i) = last (fmt_d (- i))" using dec_nat_digits(2) [of "nat (- i)"]
        by (simp add: fmt_d_def dec_int_def bytes_str_def)
      then show ?thesis using fmt_d_digits [of "- i"] False last_in_set by (auto simp: digits_def list_all_iff)
    qed
    ultimately show False by (metis isdig_chars(3))
  qed
qed

lemma name_ends:
  "last (flushPath e w i) = CHR ''t''" "last (compactPath e w i) = CHR ''t''" "last (walPath e i) = CHR ''l''"
  "last (path_join d ''MANIFEST'') = CHR ''T''"
  by (simp_all add: flushPath_def compactPath_def walPath_def path_join_def)

lemma name_kinds [simp]:
  "flushPath e w i \<noteq> walPath e' j" "compactPath e w i \<noteq> walPath e' j" "walPath e' j \<noteq> flushPath e w i"
  "walPath e' j \<noteq> compactPath e w i" "flushPath e w i \<noteq> path_join d ''MANIFEST''"
  "compactPath e w i \<noteq> path_join d ''MANIFEST''" "walPath e i \<noteq> path_join d ''MANIFEST''"
  "path_join d ''MANIFEST'' \<noteq> flushPath e w i" "path_join d ''MANIFEST'' \<noteq> compactPath e w i"
  "path_join d ''MANIFEST'' \<noteq> walPath e i"
  by (auto dest: arg_cong [where f = last] simp: name_ends)

subsection \<open>The iterators of a scan\<close>

fun eng_rest :: "codecs \<Rightarrow> store \<Rightarrow> eng_iter \<Rightarrow> go_record list" where
  "eng_rest cd s (MemIter it) = mem_rest it"
| "eng_rest cd s (SstIter it) = sst_rest cd s it"

fun eng_iter_inv :: "codecs \<Rightarrow> (path \<rightharpoonup> sst_reader) \<Rightarrow> file_sys \<Rightarrow> store \<Rightarrow> eng_iter \<Rightarrow> bool" where
  "eng_iter_inv cd G fs s (MemIter it) \<longleftrightarrow> fst s = fs \<and> -1 \<le> mi_pos it"
| "eng_iter_inv cd G fs s (SstIter it) \<longleftrightarrow> fst s = fs \<and> sst_inv cd G s it"

interpretation eng: record_iterator "eng_Next cd" eng_View eng_Err "eng_rest cd" "eng_iter_inv cd G fs" for cd G fs
proof
  fix s it
  assume i: "eng_iter_inv cd G fs s it" "eng_rest cd s it = []"
  show "\<exists>it' s'. eng_Next cd it s = (False, it', s') \<and> eng_Err it' = None"
  proof (cases it)
    case (MemIter x)
    then show ?thesis using i mem_iter_Next_spec [of x] by auto
  next
    case (SstIter x)
    then show ?thesis using i sst.next_done [of cd G s x] by auto
  qed
next
  fix s it r rs
  assume i: "eng_iter_inv cd G fs s it" "eng_rest cd s it = r # rs"
  show "\<exists>it' s'. eng_Next cd it s = (True, it', s') \<and> eng_View it' = r \<and> eng_rest cd s' it' = rs \<and>
      eng_iter_inv cd G fs s' it'"
  proof (cases it)
    case (MemIter x)
    then show ?thesis using i mem_iter_Next_spec [of x]
      by (cases s) (auto simp: mem_iter_View_def)
  next
    case (SstIter x)
    with i sst.next_more [of cd G s x r rs] obtain y s' where
      "sst_Next cd x s = (True, y, s')" "sst_View y = r" "sst_rest cd s' y = rs" "sst_inv cd G s' y" by auto
    then show ?thesis using i(1) SstIter sst_Next_fst [of cd x s] by auto
  qed
next
  fix s it b it' s' it2
  assume i: "eng_iter_inv cd G fs s it" "eng_Next cd it s = (b, it', s')" "eng_iter_inv cd G fs s it2"
  have "fst s' = fst s \<and> (\<forall>x. sst_inv cd G s x \<longrightarrow> sst_inv cd G s' x \<and> sst_rest cd s' x = sst_rest cd s x)"
  proof (cases it)
    case (MemIter x)
    then show ?thesis using i(2) by (auto split: prod.splits)
  next
    case (SstIter x)
    then obtain y where "sst_Next cd x s = (b, y, s')" using i(2) by (auto split: prod.splits)
    from sst.next_frame [OF _ this] sst_Next_fst [OF this] i(1) SstIter show ?thesis by auto
  qed
  then show "eng_iter_inv cd G fs s' it2 \<and> eng_rest cd s' it2 = eng_rest cd s it2"
    using i(3) by (cases it2) auto
qed

lemma eng_frame_cache: "cache_ok cd G (fs, c') \<Longrightarrow> eng.frame cd G fs (fs, c) (fs, c')"
  unfolding eng.frame_def
proof (intro allI impI)
  fix it
  assume "cache_ok cd G (fs, c')" "eng_iter_inv cd G fs (fs, c) it"
  then show "eng_iter_inv cd G fs (fs, c') it \<and> eng_rest cd (fs, c') it = eng_rest cd (fs, c) it"
    using sst_inv_store [of cd G "(fs, c)" _ "(fs, c')"] by (cases it) auto
qed

lemma eng_frame_store:
  assumes "eng.frame cd G (fst s) s s'" "cache_ok cd G s"
  shows "fst s' = fst s \<and> cache_ok cd G s'"
proof -
  have "eng_iter_inv cd G (fst s) s' (SstIter EmptyIter)"
    using assms(1) eng_iter_inv.simps(2) [of cd G "fst s" s EmptyIter] assms(2)
    unfolding eng.frame_def by (metis sst_inv.simps(1))
  then show ?thesis by simp
qed

text \<open>The wrapper that counts delivers what it wraps.\<close>

lemma counting_collect:
  "iter_collect (merge_Next (eng_Next cd) eng_View eng_Err) (merge_View eng_View) (ct_Iterator c) s = Some (rs, m', s') \<Longrightarrow>
   \<exists>c'. iter_collect (counting_Next cd) counting_View c s = Some (rs, c', s') \<and> ct_Iterator c' = m' \<and>
     ct_n c' = ct_n c + int (length rs)"
proof (induction rs arbitrary: c s)
  case Nil
  then show ?case
    by (subst (asm) iter_collect.simps, subst iter_collect.simps)
      (auto simp: counting_Next_def bind_eq_Some_conv split: prod.splits if_splits)
next
  case (Cons r rs)
  obtain b it1 s1 where n: "merge_Next (eng_Next cd) eng_View eng_Err (ct_Iterator c) s = (b, it1, s1)"
    by (metis prod_cases3)
  from Cons.prems n have b: b "r = merge_View eng_View it1"
    "iter_collect (merge_Next (eng_Next cd) eng_View eng_Err) (merge_View eng_View) it1 s1 = Some (rs, m', s')"
    by (subst (asm) iter_collect.simps; auto simp: bind_eq_Some_conv split: if_splits)+
  let ?c = "c\<lparr>ct_Iterator := it1, ct_n := ct_n c + 1\<rparr>"
  from Cons.IH [of ?c s1] b(3) obtain c' where
    "iter_collect (counting_Next cd) counting_View ?c s1 = Some (rs, c', s')" "ct_Iterator c' = m'"
    "ct_n c' = ct_n c + 1 + int (length rs)" by auto
  then show ?case using n b(1,2)
    by (subst iter_collect.simps) (simp add: counting_Next_def counting_View_def)
qed

end
