(* ===== verification/EngineScan.thy ===== *)
theory EngineScan
  imports EngineInv
begin

text \<open>
  \<^verbatim>\<open>Engine.Scan\<close>: the merge of the memtables and SSTables of the overlapping windows delivers the
  records of the engine that lie in the range, in order.
\<close>

subsection \<open>One SSTable\<close>

definition scan_recs :: "codecs \<Rightarrow> file_sys \<Rightarrow> int \<Rightarrow> int \<Rightarrow> bytes option \<Rightarrow> sst_reader \<Rightarrow> go_record list" where
  "scan_recs cd fs t0 t1 src r = query t0 t1 (src_norm src) (later_recs cd r fs (startBlock r t0))"

lemma scan_recs_split:
  assumes "reads_as cd r fs bs"
  obtains xs where "query t0 t1 (src_norm src) (recs_of cd fs r) = xs @ scan_recs cd fs t0 t1 src r"
    "\<forall>x \<in> set xs. Timestamp x = t0" "rec_sorted (scan_recs cd fs t0 t1 src r)"
proof
  let ?k = "startBlock r t0"
  have "concat bs = concat (take ?k bs) @ concat (drop ?k bs)"
    by (metis append_take_drop_id concat_append)
  then show "query t0 t1 (src_norm src) (recs_of cd fs r) =
      query t0 t1 (src_norm src) (concat (take ?k bs)) @ scan_recs cd fs t0 t1 src r"
    using assms by (simp add: recs_of_reads scan_recs_def later_recs_drop del: concat_append
        flip: query_simps(3))
  show "\<forall>x \<in> set (query t0 t1 (src_norm src) (concat (take ?k bs))). Timestamp x = t0"
    using startBlock_prefix [OF assms] by (fastforce simp: query_def in_range_def)
  show "rec_sorted (scan_recs cd fs t0 t1 src r)"
    using assms \<open>concat bs = _\<close> unfolding scan_recs_def later_recs_drop [OF assms]
    by (intro query_sorted) (metis reads_as_def rec_sorted_append)
qed

lemma scan_recs_none:
  assumes "reads_as cd r fs bs" "query t0 t1 (src_norm src) (recs_of cd fs r) = []"
  shows "scan_recs cd fs t0 t1 src r = []"
  using scan_recs_split [OF assms(1), of t0 t1 src] assms(2) by (metis append_is_Nil_conv)

lemma scan_recs_bounds:
  assumes "reads_as cd r fs bs"
  shows "mset (scan_recs cd fs t0 t1 src r) \<subseteq># mset (query t0 t1 (src_norm src) (recs_of cd fs r))"
    "filter_mset (\<lambda>x. Timestamp x \<noteq> t0) (mset (scan_recs cd fs t0 t1 src r)) =
     filter_mset (\<lambda>x. Timestamp x \<noteq> t0) (mset (query t0 t1 (src_norm src) (recs_of cd fs r)))"
proof -
  from scan_recs_split [OF assms, of t0 t1 src] obtain xs where xs:
    "query t0 t1 (src_norm src) (recs_of cd fs r) = xs @ scan_recs cd fs t0 t1 src r"
    "\<forall>x \<in> set xs. Timestamp x = t0" by metis
  then show "mset (scan_recs cd fs t0 t1 src r) \<subseteq># mset (query t0 t1 (src_norm src) (recs_of cd fs r))"
    by simp
  have "filter_mset (\<lambda>x. Timestamp x \<noteq> t0) (mset xs) = {#}"
    using xs(2) by (simp add: filter_mset_eq_conv)
  then show "filter_mset (\<lambda>x. Timestamp x \<noteq> t0) (mset (scan_recs cd fs t0 t1 src r)) =
     filter_mset (\<lambda>x. Timestamp x \<noteq> t0) (mset (query t0 t1 (src_norm src) (recs_of cd fs r)))"
    using xs(1) by simp
qed

subsection \<open>The iterators of a scan\<close>

definition iters_ok :: "codecs \<Rightarrow> (path \<rightharpoonup> sst_reader) \<Rightarrow> store \<Rightarrow> eng_iter list \<Rightarrow> go_record multiset \<Rightarrow> bool" where
  "iters_ok cd G s its M \<longleftrightarrow> (\<forall>it \<in> set its. eng_iter_inv cd G (fst s) s it \<and> rec_sorted (eng_rest cd s it)) \<and>
     (\<Sum>it \<in># mset its. mset (eng_rest cd s it)) = M"

lemma iters_ok_simps [simp]:
  "iters_ok cd G s [] M \<longleftrightarrow> M = {#}"
  "iters_ok cd G s [it] M \<longleftrightarrow> eng_iter_inv cd G (fst s) s it \<and> rec_sorted (eng_rest cd s it) \<and>
     M = mset (eng_rest cd s it)"
  by (auto simp: iters_ok_def)

lemma iters_ok_append:
  "iters_ok cd G s its M \<Longrightarrow> iters_ok cd G s its' M' \<Longrightarrow> iters_ok cd G s (its @ its') (M + M')"
  by (auto simp: iters_ok_def)

lemma iters_ok_Cons:
  "iters_ok cd G s [it] M \<Longrightarrow> iters_ok cd G s its' M' \<Longrightarrow> iters_ok cd G s (it # its') (M + M')"
  using iters_ok_append [of cd G s "[it]" M its' M'] by simp

lemma iters_ok_cache:
  assumes "iters_ok cd G (fs, c) its M" "cache_ok cd G (fs, c')"
  shows "iters_ok cd G (fs, c') its M"
proof -
  have f: "\<forall>it. eng_iter_inv cd G fs (fs, c) it \<longrightarrow>
      eng_iter_inv cd G fs (fs, c') it \<and> eng_rest cd (fs, c') it = eng_rest cd (fs, c) it"
    using eng_frame_cache [OF assms(2), of c] unfolding eng.frame_def .
  with assms(1) have "image_mset (\<lambda>it. mset (eng_rest cd (fs, c') it)) (mset its) =
      image_mset (\<lambda>it. mset (eng_rest cd (fs, c) it)) (mset its)"
    by (intro image_mset_cong) (auto simp: iters_ok_def)
  with assms(1) f show ?thesis by (simp add: iters_ok_def)
qed

definition live :: "codecs \<Rightarrow> (path \<rightharpoonup> sst_reader) \<Rightarrow> file_sys \<Rightarrow> sst_reader \<Rightarrow> bool" where
  "live cd G fs r \<longleftrightarrow> G (sm_Path (r_meta r)) = Some r \<and> (\<exists>bs. reads_as cd r fs bs \<and> bs \<noteq> [])"

lemma scan_files_ok:
  assumes "\<forall>r \<in> set rs. live cd G fs r" "cache_ok cd G (fs, c)"
  shows "\<exists>its m' c'. scan_files cd t0 t1 src rs m (fs, c) = (Inr its, m', (fs, c')) \<and>
    cache_ok cd G (fs, c') \<and> iters_ok cd G (fs, c') its (\<Sum>r \<in># mset rs. mset (scan_recs cd fs t0 t1 src r))"
  using assms
proof (induction rs arbitrary: m c)
  case (Cons r rs)
  from Cons.prems(1) obtain bs where g: "G (sm_Path (r_meta r)) = Some r" and bs: "reads_as cd r fs bs" "bs \<noteq> []"
    by (auto simp: live_def)
  note ih = Cons.IH [OF _ _, simplified]
  show ?case
  proof (cases "sm_MaxTimestamp (r_meta r) < t0 \<or> sm_MinTimestamp (r_meta r) \<ge> t1")
    case True
    then have "scan_recs cd fs t0 t1 src r = []"
      using scan_recs_none [OF bs(1)] Scan_empty_cases [OF bs(1)] recs_of_reads [OF bs(1)] by metis
    then show ?thesis
      using True Cons.IH [of c "m\<lparr>m_SSTSkipsTotal := inc (m_SSTSkipsTotal m)\<rparr>"] Cons.prems
      by (auto simp: reader_Meta_def)
  next
    case False
    let ?m = "m\<lparr>m_SSTReadsTotal := inc (m_SSTReadsTotal m)\<rparr>"
    from reader_Scan_ok [of cd r "(fs, c)" bs G t0 t1 src] bs(1) g Cons.prems(2) obtain it c1 where it:
      "reader_Scan cd r t0 t1 src (fs, c) = (Inr it, fs, c1)" "cache_ok cd G (fs, c1)"
      "sst_inv cd G (fs, c1) it"
      "sst_rest cd (fs, c1) it = query t0 t1 (src_norm src) (concat (drop (startBlock r t0) bs))"
      by auto
    then have rest: "sst_rest cd (fs, c1) it = scan_recs cd fs t0 t1 src r"
      using bs(1) by (simp add: scan_recs_def later_recs_drop)
    from Cons.IH [of c1 ?m] Cons.prems(1) it(2) obtain its m' c' where its:
      "scan_files cd t0 t1 src rs ?m (fs, c1) = (Inr its, m', (fs, c'))" "cache_ok cd G (fs, c')"
      "iters_ok cd G (fs, c') its (\<Sum>r \<in># mset rs. mset (scan_recs cd fs t0 t1 src r))" by auto
    have "rec_sorted (scan_recs cd fs t0 t1 src r)" using scan_recs_split [OF bs(1)] by metis
    then have "iters_ok cd G (fs, c1) [SstIter it] (mset (scan_recs cd fs t0 t1 src r))"
      using it(3) rest by simp
    from iters_ok_Cons [OF iters_ok_cache [OF this its(2)] its(3)]
    show ?thesis using False it(1) its(1,2) by (simp add: reader_Meta_def Let_def)
  qed
qed simp

lemma scan_partitions_ok:
  assumes "\<forall>p \<in> set ps. memtable_inv (tp_mem p) \<and> (\<forall>r \<in> set (files_of e (tp_Window p)). live cd G fs r)"
    "cache_ok cd G (fs, c)" "t0 \<le> t1"
  shows "\<exists>its m' c'. scan_partitions cd t0 t1 src e ps m (fs, c) = (Inr its, m', (fs, c')) \<and>
    cache_ok cd G (fs, c') \<and>
    iters_ok cd G (fs, c') its ((\<Sum>p \<in># mset ps. mset (query t0 t1 src (mt_records (tp_mem p)))) +
      (\<Sum>p \<in># mset ps. \<Sum>r \<in># mset (files_of e (tp_Window p)). mset (scan_recs cd fs t0 t1 src r)))"
  using assms(1,2)
proof (induction ps arbitrary: m c)
  case (Cons p ps)
  from memtable_Scan_rest [of "tp_mem p" t0 t1 src] Cons.prems(1) assms(3) obtain it where it:
    "partition_Scan p t0 t1 src = Inr it" "-1 \<le> mi_pos it"
    "mem_rest it = query t0 t1 src (mt_records (tp_mem p))" by (auto simp: partition_Scan_def)
  from scan_files_ok [of "files_of e (tp_Window p)" cd G fs c t0 t1 src m] Cons.prems obtain its1 m1 c1 where
    s1: "scan_files cd t0 t1 src (files_of e (tp_Window p)) m (fs, c) = (Inr its1, m1, (fs, c1))"
    "cache_ok cd G (fs, c1)"
    "iters_ok cd G (fs, c1) its1 (\<Sum>r \<in># mset (files_of e (tp_Window p)). mset (scan_recs cd fs t0 t1 src r))"
    by auto
  from Cons.IH [OF _ s1(2), of m1] Cons.prems(1) obtain its2 m2 c2 where
    s2: "scan_partitions cd t0 t1 src e ps m1 (fs, c1) = (Inr its2, m2, (fs, c2))" "cache_ok cd G (fs, c2)"
    "iters_ok cd G (fs, c2) its2 ((\<Sum>p \<in># mset ps. mset (query t0 t1 src (mt_records (tp_mem p)))) +
      (\<Sum>p \<in># mset ps. \<Sum>r \<in># mset (files_of e (tp_Window p)). mset (scan_recs cd fs t0 t1 src r)))"
    by auto
  have "iters_ok cd G (fs, c2) [MemIter it] (mset (query t0 t1 src (mt_records (tp_mem p))))"
    using it Cons.prems(1) by (auto simp: memtable_inv_def intro: query_sorted)
  from iters_ok_Cons [OF this iters_ok_append [OF iters_ok_cache [OF s1(3) s2(2)] s2(3)]]
  show ?case using it(1) s1(1) s2(1,2) by (simp add: ac_simps)
qed simp

subsection \<open>The files of the overlapping windows\<close>

lemma distinct_sum_mset:
  "distinct xs \<Longrightarrow> (\<Sum>x \<in># mset xs. f x) = (\<Sum>x \<in> set xs. f x)" for f :: "'a \<Rightarrow> 'b multiset"
  by (induction xs) auto

lemma files_sum:
  fixes f :: "sst_reader \<Rightarrow> 'b multiset"
  assumes "distinct (map fst (e_files e))"
  shows "(\<Sum>r \<in># mset (all_readers e). f r) =
    (\<Sum>w \<in> fst ` set (e_files e). \<Sum>r \<in># mset (files_of e w). f r)"
proof -
  have "(\<Sum>r \<in># mset (concat (map snd fl)). f r) = (\<Sum>x \<in># mset fl. \<Sum>r \<in># mset (snd x). f r)"
    for fl :: "(PartitionWindow \<times> sst_reader list) list"
    by (induction fl) auto
  then have "(\<Sum>r \<in># mset (all_readers e). f r) = (\<Sum>x \<in> set (e_files e). \<Sum>r \<in># mset (snd x). f r)"
    using assms by (simp add: all_readers_def distinct_sum_mset distinct_map)
  also have "\<dots> = (\<Sum>x \<in> set (e_files e). \<Sum>r \<in># mset (files_of e (fst x)). f r)"
    using assms by (intro sum.cong) (auto simp: files_of_def)
  also have "\<dots> = (\<Sum>w \<in> fst ` set (e_files e). \<Sum>r \<in># mset (files_of e w). f r)"
    using assms by (simp add: sum.reindex distinct_map)
  finally show ?thesis .
qed

lemma overlapping_files:
  fixes f :: "sst_reader \<Rightarrow> 'b multiset"
  assumes "data_ok cd G e fs"
    and "\<And>w r. r \<in> set (files_of e w) \<Longrightarrow> \<not> Overlaps w t0 t1 \<Longrightarrow> f r = {#}"
  shows "(\<Sum>p \<in># mset (Overlapping (e_router e) t0 t1). \<Sum>r \<in># mset (files_of e (tp_Window p)). f r) =
    (\<Sum>r \<in># mset (all_readers e). f r)"
proof -
  let ?F = "\<lambda>w. \<Sum>r \<in># mset (files_of e w). f r" and ?ps = "rt_partitions (e_router e)"
  have d: "distinct (map fst ?ps)" "\<And>w p. (w, p) \<in> set ?ps \<Longrightarrow> tp_Window p = w"
    "fst ` set (e_files e) \<subseteq> fst ` set ?ps" "distinct (map fst (e_files e))"
    using assms(1) by (auto simp: data_ok_def rt_inv_def map_of_eq_None_iff rev_image_eqI)
  have "?F (fst x) = {#}" if "x \<in> set ?ps" "\<not> (case x of (w, p) \<Rightarrow> Overlaps w t0 t1)" for x
    using assms(2) [of _ "fst x"] that(2) by (auto simp: split_beta)
  from sum_mset_filter_zero [of ?ps _ "\<lambda>x. ?F (fst x)", OF this]
  have "(\<Sum>x \<in># mset (filter (\<lambda>(w, p). Overlaps w t0 t1) ?ps). ?F (fst x)) = (\<Sum>x \<in># mset ?ps. ?F (fst x))"
    by auto
  moreover have "(\<Sum>p \<in># mset (Overlapping (e_router e) t0 t1). ?F (tp_Window p)) =
      (\<Sum>x \<in># mset (filter (\<lambda>(w, p). Overlaps w t0 t1) ?ps). ?F (fst x))"
    using d(2) by (auto simp: Overlapping_def image_mset.compositionality comp_def
        intro!: arg_cong [where f = sum_mset] image_mset_cong)
  moreover have "(\<Sum>x \<in># mset ?ps. ?F (fst x)) = (\<Sum>w \<in> fst ` set ?ps. ?F w)"
    using d(1) by (simp add: distinct_sum_mset distinct_map sum.reindex)
  moreover have "(\<Sum>w \<in> fst ` set ?ps. ?F w) = (\<Sum>w \<in> fst ` set (e_files e). ?F w)"
  proof (intro sum.mono_neutral_right d(3) ballI)
    fix w
    assume "w \<in> fst ` set ?ps - fst ` set (e_files e)"
    then have "map_of (e_files e) w = None" by (simp add: map_of_eq_None_iff)
    then show "?F w = {#}" by (simp add: files_of_def)
  qed simp
  ultimately show ?thesis using files_sum [OF d(4), of f] by simp
qed

subsection \<open>\<^verbatim>\<open>Scan\<close>\<close>

definition matching :: "int \<Rightarrow> int \<Rightarrow> bytes option \<Rightarrow> go_record multiset \<Rightarrow> go_record multiset" where
  "matching t0 t1 src M = filter_mset (\<lambda>x. in_range t0 t1 x \<and> src_match src x) M"

lemma mset_query: "mset (query t0 t1 src rs) = matching t0 t1 src (mset rs)"
  by (simp add: query_def matching_def)

lemma matching_add: "matching t0 t1 src (M + N) = matching t0 t1 src M + matching t0 t1 src N"
  by (simp add: matching_def)

lemma matching_files:
  "matching t0 t1 src (file_recs cd e fs) =
    (\<Sum>r \<in># mset (all_readers e). mset (query t0 t1 src (recs_of cd fs r)))"
  unfolding mset_query by (simp add: matching_def file_recs_def filter_sum_mset)

lemma sum_mset_subseteq:
  assumes "\<And>x. x \<in> set xs \<Longrightarrow> f x \<subseteq># g x"
  shows "(\<Sum>x \<in># mset xs. f x) \<subseteq># (\<Sum>x \<in># mset xs. g x)"
  using assms by (induction xs) (auto intro: subset_mset.add_mono)

lemma reader_ok_live: "reader_ok cd G fs dur w r \<Longrightarrow> live cd G fs r"
  by (auto simp: reader_ok_def live_def)

lemma files_of_ok:
  "data_ok cd G e fs \<Longrightarrow> r \<in> set (files_of e w) \<Longrightarrow> reader_ok cd G fs (o_PartitionDuration (e_opts e)) w r"
  by (auto simp: data_ok_def files_of_def split: option.splits dest!: map_of_SomeD)

lemma all_readers_files:
  "data_ok cd G e fs \<Longrightarrow> r \<in> set (all_readers e) \<Longrightarrow>
     \<exists>w. r \<in> set (files_of e w) \<and> reader_ok cd G fs (o_PartitionDuration (e_opts e)) w r"
  by (fastforce simp: data_ok_def all_readers_def files_of_def)

lemma window_query_none:
  assumes "reader_ok cd G fs dur w r" "\<not> Overlaps w t0 t1"
  shows "query t0 t1 src (recs_of cd fs r) = []"
  using assms by (intro query_none) (auto simp: reader_ok_def in_window_def in_range_def Overlaps_def)

lemma engine_Scan_ok:
  fixes opts :: "ScanOptions option"
  assumes "data_ok cd G e fs" "cache_ok cd G (fs, c)" "\<not> e_closed e" "is_i64 t0" "is_i64 t1" "t0 \<le> t1"
  defines "src \<equiv> case opts of None \<Rightarrow> None | Some so \<Rightarrow> so_SourceID so"
  shows "\<exists>it m' s1 rs it' s2. engine_Scan cd now e t0 t1 opts (fs, c) = (Inr it, e\<lparr>e_metrics := m'\<rparr>, s1) \<and>
    iter_collect (counting_Next cd) counting_View it s1 = Some (rs, it', s2) \<and> counting_Err it' = None \<and>
    ct_n it' = int (length rs) \<and> rec_sorted rs \<and> fst s2 = fs \<and> cache_ok cd G s2 \<and>
    mset rs = matching t0 t1 src (mem_recs (e_router e)) +
      (\<Sum>r \<in># mset (all_readers e). mset (scan_recs cd fs t0 t1 src r))"
proof -
  let ?ps = "Overlapping (e_router e) t0 t1"
    and ?m = "(e_metrics e)\<lparr>m_ScansTotal := inc (m_ScansTotal (e_metrics e))\<rparr>"
  have inv: "rt_inv (e_router e)" using assms(1) by (simp add: data_ok_def)
  then have "memtable_inv (tp_mem p)" if "p \<in> set ?ps" for p
    using that by (auto simp: rt_inv_def Overlapping_def)
  then have "\<forall>p \<in> set ?ps. memtable_inv (tp_mem p) \<and> (\<forall>r \<in> set (files_of e (tp_Window p)). live cd G fs r)"
    using files_of_ok [OF assms(1)] reader_ok_live by blast
  from scan_partitions_ok [OF this assms(2,6), of src ?m]
  obtain its m' c' where sp: "scan_partitions cd t0 t1 src e ?ps ?m (fs, c) = (Inr its, m', (fs, c'))"
    "cache_ok cd G (fs, c')"
    "iters_ok cd G (fs, c') its ((\<Sum>p \<in># mset ?ps. mset (query t0 t1 src (mt_records (tp_mem p)))) +
      (\<Sum>p \<in># mset ?ps. \<Sum>r \<in># mset (files_of e (tp_Window p)). mset (scan_recs cd fs t0 t1 src r)))"
    by blast
  have "mset (scan_recs cd fs t0 t1 src r) = {#}" if r: "r \<in> set (files_of e w)" "\<not> Overlaps w t0 t1" for w r
  proof -
    note ok = files_of_ok [OF assms(1) r(1)]
    then obtain bs where "reads_as cd r fs bs" by (auto simp: reader_ok_def)
    from scan_recs_none [OF this window_query_none [OF ok r(2)]] show ?thesis by simp
  qed
  from overlapping_files [OF assms(1) this] Overlapping_query [OF inv, of t0 t1 src]
  have sum: "(\<Sum>it \<in># mset its. mset (eng_rest cd (fs, c') it)) = matching t0 t1 src (mem_recs (e_router e)) +
      (\<Sum>r \<in># mset (all_readers e). mset (scan_recs cd fs t0 t1 src r))"
    using sp(3) by (simp add: iters_ok_def matching_def)
  from eng.merge_correct [of its cd G fs "(fs, c')"] sp(3) sum obtain mi s1 rs mi' s2 where m:
    "newMergeIterator (eng_Next cd) eng_View eng_Err its (fs, c') = (mi, s1)"
    "iter_collect (merge_Next (eng_Next cd) eng_View eng_Err) (merge_View eng_View) mi s1 = Some (rs, mi', s2)"
    "merge_Err mi' = None" "rec_sorted rs" "eng.frame cd G fs (fs, c') s2"
    "mset rs = matching t0 t1 src (mem_recs (e_router e)) +
      (\<Sum>r \<in># mset (all_readers e). mset (scan_recs cd fs t0 t1 src r))"
    by (auto simp: iters_ok_def)
  let ?it = "\<lparr>ct_Iterator = mi, ct_start = now, ct_n = 0\<rparr>"
  from counting_collect [of cd ?it s1 rs mi' s2] m(2) obtain it' where
    "iter_collect (counting_Next cd) counting_View ?it s1 = Some (rs, it', s2)" "ct_Iterator it' = mi'"
    "ct_n it' = int (length rs)" by auto
  moreover have "engine_Scan cd now e t0 t1 opts (fs, c) = (Inr ?it, e\<lparr>e_metrics := m'\<rparr>, s1)"
    using assms(3-5) sp(1) m(1) by (simp add: engine_Scan_def Let_def i64_id flip: src_def)
  ultimately show ?thesis
    using m(3,4,6) eng_frame_store [of cd G "(fs, c')" s2] m(5) sp(2) by (cases s2) (auto simp: counting_Err_def)
qed

end
