(* ===== verification/EngineOps.thy ===== *)
theory EngineOps
  imports EngineScan
begin

text \<open>
  The operations of the engine keep its invariant, and what they do to the records it holds.
\<close>

subsection \<open>Changes that do not touch the SSTables\<close>

lemma reader_ok_same:
  assumes "reader_ok cd G fs dur w r" "same_file (r_file r) fs fs'"
    "fs_lookup fs' (sm_Path (r_meta r)) = fs_lookup fs (sm_Path (r_meta r))"
  shows "reader_ok cd G fs' dur w r"
  using assms unfolding reader_ok_def by (simp add: recs_of_same reads_as_same)

lemma data_ok_same:
  assumes "data_ok cd G e fs"
    and "\<forall>r \<in> set (all_readers e). same_file (r_file r) fs fs' \<and>
      fs_lookup fs' (sm_Path (r_meta r)) = fs_lookup fs (sm_Path (r_meta r))"
  shows "data_ok cd G e fs'" "file_recs cd e fs' = file_recs cd e fs"
proof -
  have "reader_ok cd G fs' (o_PartitionDuration (e_opts e)) w r"
    if "(w, rs) \<in> set (e_files e)" "r \<in> set rs" for w rs r
  proof (rule reader_ok_same)
    show "reader_ok cd G fs (o_PartitionDuration (e_opts e)) w r"
      using assms(1) that by (fastforce simp: data_ok_def)
    have "r \<in> set (all_readers e)" using that by (force simp: all_readers_def)
    then show "same_file (r_file r) fs fs'"
      "fs_lookup fs' (sm_Path (r_meta r)) = fs_lookup fs (sm_Path (r_meta r))" using assms(2) by auto
  qed
  then show "data_ok cd G e fs'" using assms(1) unfolding data_ok_def by fast
  show "file_recs cd e fs' = file_recs cd e fs"
    unfolding file_recs_def using assms(2)
    by (intro arg_cong [where f = sum_mset] image_mset_cong) (metis recs_of_same set_mset_mset)
qed

lemma data_ok_registered:
  assumes "data_ok cd G e fs" "r \<in> set (all_readers e)"
  shows "G (sm_Path (r_meta r)) = Some r" "fs_lookup fs (sm_Path (r_meta r)) = Some (r_file r)"
  using all_readers_files [OF assms] by (auto simp: reader_ok_def)

text \<open>The fields of the engine that file names and \<open>data_ok\<close> do not read.\<close>

lemma path_fields:
  assumes "e_dir e' = e_dir e"
  shows "walPath e' = walPath e" "flushPath e' = flushPath e" "compactPath e' = compactPath e"
  using assms by (simp_all add: fun_eq_iff walPath_def flushPath_def compactPath_def)

lemma names_ok_fields:
  assumes "names_ok G e fs" "e_dir e' = e_dir e" "e_walSeq e' = e_walSeq e" "e_compactSeq e' = e_compactSeq e"
    "mf_path (e_manifest e') = mf_path (e_manifest e)" "w_path (e_wal e') = w_path (e_wal e)"
    "fs_names fs' = fs_names fs"
  shows "names_ok G e' fs'"
  using assms path_fields [OF assms(2)] by (auto simp: names_ok_def unused_def fs_lookup_def)

lemma data_ok_fields [simp]:
  "data_ok cd G (e\<lparr>e_wal := w\<rparr>) fs = data_ok cd G e fs"
  "data_ok cd G (e\<lparr>e_manifest := m\<rparr>) fs = data_ok cd G e fs"
  "data_ok cd G (e\<lparr>e_metrics := x\<rparr>) fs = data_ok cd G e fs"
  "data_ok cd G (e\<lparr>e_flushCh := ch\<rparr>) fs = data_ok cd G e fs"
  "data_ok cd G (e\<lparr>e_compactCh := ch\<rparr>) fs = data_ok cd G e fs"
  "data_ok cd G (e\<lparr>e_walSeq := n\<rparr>) fs = data_ok cd G e fs"
  "data_ok cd G (e\<lparr>e_compactSeq := n\<rparr>) fs = data_ok cd G e fs"
  "data_ok cd G (e\<lparr>e_closedReaders := cr\<rparr>) fs = data_ok cd G e fs"
  "data_ok cd G (e\<lparr>e_maxFlushedTS := mx\<rparr>) fs = data_ok cd G e fs"
  by (simp_all add: data_ok_def all_readers_def)

lemma own_file_data:
  assumes "data_ok cd G e fs" "own_file f fs fs'" "file_free G f"
  shows "data_ok cd G e fs'" "file_recs cd e fs' = file_recs cd e fs" "same_files G fs fs'"
proof -
  have same: "same_file (r_file r) fs fs'" if "G p = Some r" for p r
    using assms(2,3) that by (auto simp: own_file_def file_free_def same_file_def)
  then show "same_files G fs fs'" by (auto simp: same_files_def)
  have "\<forall>r \<in> set (all_readers e). same_file (r_file r) fs fs' \<and>
      fs_lookup fs' (sm_Path (r_meta r)) = fs_lookup fs (sm_Path (r_meta r))"
    using same data_ok_registered(1) [OF assms(1)] assms(2) by (auto simp: own_file_def fs_lookup_def)
  from data_ok_same [OF assms(1) this]
  show "data_ok cd G e fs'" "file_recs cd e fs' = file_recs cd e fs" by auto
qed

lemma store_free:
  assumes "store_ok cd G e s"
  shows "file_free G (mf_f (e_manifest e))" "file_free G (w_file (e_wal e))" "file_free G (fs_next (fst s))"
  using assms by (fastforce simp: store_ok_def file_free_def)+

lemma manifest_log_same:
  assumes "manifest_log m fs es" "fs_data fs' (mf_f m) = fs_data fs (mf_f m)"
    "fs_synced fs' (mf_f m) = fs_synced fs (mf_f m)" "fs_bad fs' = fs_bad fs"
    "fs_lookup fs' (mf_path m) = fs_lookup fs (mf_path m)"
  shows "manifest_log m fs' es"
  using assms by (simp add: manifest_log_def manifest_file_def)

lemma wal_log_same:
  assumes "wal_log w fs rs" "fs_data fs' (w_file w) = fs_data fs (w_file w)"
    "fs_synced fs' (w_file w) = fs_synced fs (w_file w)"
  shows "wal_log w fs' rs"
  using assms unfolding wal_log_def bw_view_def by metis

subsection \<open>\<^verbatim>\<open>Append\<close>\<close>

lemma wal_Append_store:
  assumes "engine_ok cd G e (fs, c)" "wal_log (e_wal e) fs rs"
  obtains w fs' where "wal_Append (e_wal e) r fs = (None, w, fs')" "wal_log w fs' (rs @ [r])"
    "engine_ok cd G (e\<lparr>e_wal := w\<rparr>) (fs', c)" "file_recs cd e fs' = file_recs cd e fs"
proof -
  from assms have ok: "data_ok cd G e fs" "store_ok cd G e (fs, c)" "names_ok G e fs" "fs_faults fs = []"
    by (auto simp: engine_ok_def store_ok_def)
  from wal_Append_ok [OF ok(4) assms(2)] obtain w fs' where
    w: "wal_Append (e_wal e) r fs = (None, w, fs')" "wal_log w fs' (rs @ [r])" "wal_frame (e_wal e) fs w fs'" by blast
  then have own: "own_file (w_file (e_wal e)) fs fs'" "fs_faults fs' = []" "w_file w = w_file (e_wal e)"
    "w_path w = w_path (e_wal e)" by (auto simp: wal_frame_def own_file_def)
  note d = own_file_data [OF ok(1) own(1) store_free(2) [OF ok(2)]]
  have "cache_ok cd G (fs', c)" using ok(2) d(3) by (auto simp: store_ok_def intro: cache_ok_same)
  moreover have "manifest_log (e_manifest e) fs' es" if "manifest_log (e_manifest e) fs es" for es
    using that ok(2) own(1) by (auto simp: store_ok_def own_file_def fs_lookup_def intro: manifest_log_same)
  ultimately have "store_ok cd G (e\<lparr>e_wal := w\<rparr>) (fs', c)"
    using ok(2) own w(2) by (auto simp: store_ok_def own_file_def)
  moreover have "names_ok G (e\<lparr>e_wal := w\<rparr>) fs'"
    using ok(3) own by (elim names_ok_fields) (simp_all add: own_file_def)
  ultimately have "engine_ok cd G (e\<lparr>e_wal := w\<rparr>) (fs', c)"
    using d(1) assms(1) by (simp add: engine_ok_def)
  with w(1,2) d(2) show ?thesis by (intro that)
qed

text \<open>A change of the router that keeps its windows.\<close>

lemma engine_ok_router:
  assumes "engine_ok cd G e s" "rt_inv rt" "rt_windowDuration rt = rt_windowDuration (e_router e)"
    "\<forall>x \<in># mem_recs rt. ts_ok (o_PartitionDuration (e_opts e)) (Timestamp x)"
    "\<And>w. map_of (rt_partitions (e_router e)) w \<noteq> None \<Longrightarrow> map_of (rt_partitions rt) w \<noteq> None"
  shows "engine_ok cd G (e\<lparr>e_router := rt\<rparr>) s" "engine_recs cd (e\<lparr>e_router := rt\<rparr>) fs =
    mem_recs rt + file_recs cd e fs"
proof -
  have "data_ok cd G (e\<lparr>e_router := rt\<rparr>) (fst s)"
    using assms unfolding engine_ok_def data_ok_def all_readers_def by fastforce
  then show "engine_ok cd G (e\<lparr>e_router := rt\<rparr>) s" using assms(1)
    by (auto simp: engine_ok_def store_ok_def elim: names_ok_fields)
  show "engine_recs cd (e\<lparr>e_router := rt\<rparr>) fs = mem_recs rt + file_recs cd e fs"
    by (simp add: engine_recs_def file_recs_def all_readers_def)
qed

lemma engine_ok_misc [simp]:
  "engine_ok cd G (e\<lparr>e_metrics := x\<rparr>) s = engine_ok cd G e s"
  "engine_ok cd G (e\<lparr>e_flushCh := ch\<rparr>) s = engine_ok cd G e s"
  "engine_ok cd G (e\<lparr>e_compactCh := ch\<rparr>) s = engine_ok cd G e s"
  "engine_ok cd G (e\<lparr>e_closedReaders := cr\<rparr>) s = engine_ok cd G e s"
  "engine_ok cd G (e\<lparr>e_maxFlushedTS := mx\<rparr>) s = engine_ok cd G e s"
  by (auto simp: engine_ok_def store_ok_def elim: names_ok_fields)

lemma engine_recs_misc [simp]:
  "engine_recs cd (e\<lparr>e_metrics := x\<rparr>) fs = engine_recs cd e fs"
  "engine_recs cd (e\<lparr>e_flushCh := ch\<rparr>) fs = engine_recs cd e fs"
  "engine_recs cd (e\<lparr>e_compactCh := ch\<rparr>) fs = engine_recs cd e fs"
  "engine_recs cd (e\<lparr>e_wal := w\<rparr>) fs = engine_recs cd e fs"
  "engine_recs cd (e\<lparr>e_closedReaders := cr\<rparr>) fs = engine_recs cd e fs"
  "engine_recs cd (e\<lparr>e_maxFlushedTS := mx\<rparr>) fs = engine_recs cd e fs"
  by (simp_all add: engine_recs_def file_recs_def all_readers_def)


lemma Route_found:
  assumes "Route rt now ts = (Inr w, rt')" "map_of (rt_partitions rt') w = Some p"
  shows "map_of (rt_partitions rt) w = Some p \<or> tp_state p = StateOpen"
  using assms by (auto simp: Route_def Let_def NewPartition_def update_conv' split: if_splits sum.splits)

lemma Append_partition_ok:
  assumes "engine_ok cd G e s" "map_of (rt_partitions (e_router e)) win = Some p" "in_window win (Timestamp r)"
    "ts_ok (o_PartitionDuration (e_opts e)) (Timestamp r)"
  defines "e' \<equiv> e\<lparr>e_router := set_partition (e_router e) win (p\<lparr>tp_mem := memtable_Append (tp_mem p) r\<rparr>)\<rparr>"
  shows "engine_ok cd G e' s" "engine_recs cd e' fs = add_mset r (engine_recs cd e fs)"
proof -
  let ?q = "p\<lparr>tp_mem := memtable_Append (tp_mem p) r\<rparr>"
  have d: "rt_inv (e_router e)" "\<forall>x \<in># mem_recs (e_router e). ts_ok (o_PartitionDuration (e_opts e)) (Timestamp x)"
    using assms(1) by (auto simp: engine_ok_def data_ok_def)
  note l = rt_inv_lookup [OF d(1) assms(2)]
  from memtable_Append_recs [of "tp_mem p" r] l
  have m: "memtable_inv (tp_mem ?q)" "mset (mt_records (tp_mem ?q)) = add_mset r (mset (mt_records (tp_mem p)))" by auto
  then have "set (mt_records (tp_mem ?q)) = insert r (set (mt_records (tp_mem p)))"
    by (metis set_mset_add_mset_insert set_mset_mset)
  with set_partition_ok [OF d(1) assms(2), of ?q] m l assms(3)
  have s: "rt_inv (set_partition (e_router e) win ?q)"
    "mem_recs (set_partition (e_router e) win ?q) = add_mset r (mem_recs (e_router e))"
    "map_of (rt_partitions (set_partition (e_router e) win ?q)) = (map_of (rt_partitions (e_router e)))(win \<mapsto> ?q)"
    by auto
  have "rt_windowDuration (set_partition (e_router e) win ?q) = rt_windowDuration (e_router e)"
    by (simp add: set_partition_def)
  from engine_ok_router [OF assms(1) s(1) this] s(2,3) d(2) assms(4)
  show "engine_ok cd G e' s" "engine_recs cd e' fs = add_mset r (engine_recs cd e fs)"
    by (auto simp: e'_def engine_recs_def)
qed

lemma engine_Append_ok:
  assumes "engine_ok cd G e (fs, c)" "\<not> e_closed e" "ts_ok (o_PartitionDuration (e_opts e)) (Timestamp r)"
    "wal_log (e_wal e) fs rs"
  shows "\<exists>err e' fs'. engine_Append now e r (fs, c) = (err, e', (fs', c)) \<and> engine_ok cd G e' (fs', c) \<and>
    e_closed e' = e_closed e \<and> e_opts e' = e_opts e \<and> wal_log (e_wal e') fs' (rs @ [r]) \<and>
    (case err of
       None \<Rightarrow> engine_recs cd e' fs' = add_mset r (engine_recs cd e fs)
     | Some er \<Rightarrow> engine_recs cd e' fs' = engine_recs cd e fs \<and>
         (er = ErrLateArrival \<and> rt_lateArrivalMode (e_router e) = Strict \<and>
            Timestamp r < i64 (now - rt_lateArrivalWindow (e_router e)) \<or>
          er = ErrPartitionSealed \<and> (\<exists>p. map_of (rt_partitions (e_router e))
            (win_of (o_PartitionDuration (e_opts e)) (Timestamp r)) = Some p \<and> tp_state p \<noteq> StateOpen)))"
proof -
  let ?dur = "o_PartitionDuration (e_opts e)"
  from assms(1) have d: "rt_inv (e_router e)" "rt_windowDuration (e_router e) = ?dur"
    "\<forall>x \<in># mem_recs (e_router e). ts_ok ?dur (Timestamp x)" by (auto simp: engine_ok_def data_ok_def)
  from wal_Append_store [OF assms(1,4)] obtain w fs' where
    w: "wal_Append (e_wal e) r fs = (None, w, fs')" "wal_log w fs' (rs @ [r])"
    "engine_ok cd G (e\<lparr>e_wal := w\<rparr>) (fs', c)" "file_recs cd e fs' = file_recs cd e fs" by blast
  have recs: "engine_recs cd e fs' = engine_recs cd e fs" using w(4) by (simp add: engine_recs_def)
  let ?e = "e\<lparr>e_wal := w\<rparr>" let ?m = "(e_metrics e)\<lparr>m_WALWritesTotal := inc (m_WALWritesTotal (e_metrics e))\<rparr>"
  note rt = Route_ok [OF d(1), of "Timestamp r" now, unfolded d(2), OF assms(3)]
  show ?thesis
  proof (cases "Route (e_router e) now (Timestamp r)")
    case (Pair res rt')
    show ?thesis
    proof (cases res)
      case (Inl er)
      let ?m2 = "if er = ErrLateArrival then ?m\<lparr>m_LateArrivalsTotal := inc (m_LateArrivalsTotal ?m)\<rparr> else ?m"
      have l: "er = ErrLateArrival" "rt' = e_router e" "rt_lateArrivalMode (e_router e) = Strict"
        "Timestamp r < i64 (now - rt_lateArrivalWindow (e_router e))" using rt Pair Inl by auto
      then have "engine_Append now e r (fs, c) = (Some er, ?e\<lparr>e_metrics := ?m2\<rparr>, (fs', c))"
        using assms(2) w(1) Pair Inl by (simp add: engine_Append_def Let_def)
      then show ?thesis using w(2,3) recs l by simp
    next
      case (Inr win)
      then obtain p where p: "win = win_of ?dur (Timestamp r)" "in_window win (Timestamp r)" "rt_inv rt'"
        "mem_recs rt' = mem_recs (e_router e)" "map_of (rt_partitions rt') win = Some p"
        "\<And>v q. map_of (rt_partitions (e_router e)) v = Some q \<Longrightarrow> map_of (rt_partitions rt') v = Some q"
        "rt_windowDuration rt' = ?dur" using rt Pair by auto
      have ok': "engine_ok cd G (?e\<lparr>e_router := rt'\<rparr>) (fs', c)"
        using engine_ok_router [OF w(3), of rt'] p(3,4,7) d(2,3) p(6) by fastforce
      have recs': "engine_recs cd (?e\<lparr>e_router := rt'\<rparr>) fs' = engine_recs cd e fs"
        using recs p(4) by (simp add: engine_recs_def file_recs_def all_readers_def)
      show ?thesis
      proof (cases "tp_state p = StateOpen")
        case False
        then have "engine_Append now e r (fs, c) =
            (Some ErrPartitionSealed, ?e\<lparr>e_router := rt', e_metrics := ?m\<rparr>, (fs', c))"
          using assms(2) w(1) Pair Inr p(5) by (simp add: engine_Append_def Let_def partition_Append_def)
        then show ?thesis
          using False ok' recs' w(2) Route_found [of _ _ _ win rt' p] Pair Inr p(1,5) by (fastforce)
      next
        case True
        note a = Append_partition_ok [OF ok', of win p r] 
        let ?q = "p\<lparr>tp_mem := memtable_Append (tp_mem p) r\<rparr>" let ?rt = "set_partition rt' win ?q"
        let ?m2 = "?m\<lparr>m_AppendsTotal := inc (m_AppendsTotal ?m), m_AppendBytesTotal := m_AppendBytesTotal ?m +
            int (8 + length (SourceID r) + length (Payload r)), m_ActivePartitions := int (length (router_All ?rt))\<rparr>"
        let ?ch = "if MemtableSize ?q > o_MemtableSizeBytes (e_opts e) then chan_send (e_flushCh e) win else e_flushCh e"
        have "engine_Append now e r (fs, c) =
            (None, ?e\<lparr>e_router := ?rt, e_metrics := ?m2, e_flushCh := ?ch\<rparr>, (fs', c))"
          using True assms(2) w(1) Pair Inr p(5) by (simp add: engine_Append_def Let_def partition_Append_def)
        moreover have "engine_ok cd G (?e\<lparr>e_router := ?rt\<rparr>) (fs', c)"
          "engine_recs cd (?e\<lparr>e_router := ?rt\<rparr>) fs' = add_mset r (engine_recs cd e fs)"
          using a p(2,5) assms(3) recs' by simp_all
        ultimately show ?thesis using w(2) by simp
      qed
    qed
  qed
qed

end
