(* ===== verification/Lifecycle.thy ===== *)
theory Lifecycle
  imports Engine "HOL-Library.Sublist" "HOL-Library.List_Lexorder"
begin

text \<open>
  \<^verbatim>\<open>internal/engine/engine.go\<close>: \<^verbatim>\<open>Open\<close>, \<^verbatim>\<open>Close\<close> and \<^verbatim>\<open>Partitions\<close>. \<^verbatim>\<open>Open\<close> replays the manifest,
  removes the SSTables that the manifest does not name, replays the segments of the log and opens a new
  one. The callbacks of both replays are functions, applied to the decoded edits and records in order.
  Directories have no counterpart in the file system: \<^verbatim>\<open>MkdirAll\<close> is a call that may fail. A nil block
  cache is an empty one that no reader uses.
\<close>

subsection \<open>Directory listing\<close>

definition os_MkdirAll :: "path \<Rightarrow> file_sys \<Rightarrow> go_error option \<times> file_sys" where
  "os_MkdirAll dir fs = (case pop_fault fs of (Some _, fs) \<Rightarrow> (Some EIO, fs) | (None, fs) \<Rightarrow> (None, fs))"

text \<open>
  \<^verbatim>\<open>filepath.Glob\<close> of \<^verbatim>\<open>dir/<pre>*<suf>\<close>: the names of the directory in ascending order. The star does
  not match a slash.
\<close>

definition glob_match :: "path \<Rightarrow> string \<Rightarrow> string \<Rightarrow> path \<Rightarrow> bool" where
  "glob_match dir pre suf p \<longleftrightarrow>
     (let d = path_join dir '''' in
      prefix (d @ pre) p \<and> suffix suf p \<and> length d + length pre + length suf \<le> length p \<and>
      CHR ''/'' \<notin> set (drop (length d) p))"

definition file_Glob :: "path \<Rightarrow> string \<Rightarrow> string \<Rightarrow> file_sys \<Rightarrow> path list" where
  "file_Glob dir pre suf fs = sort (filter (glob_match dir pre suf) (remdups (map fst (fs_names fs))))"

definition is_dec :: "char \<Rightarrow> bool" where
  "is_dec c \<longleftrightarrow> (48 :: nat) \<le> of_char c \<and> (of_char c :: nat) \<le> 57"

definition dec_value :: "string \<Rightarrow> int" where
  "dec_value s = foldl (\<lambda>a c. a * 10 + (int (of_char c) - 48)) 0 s"

text \<open>
  \<^verbatim>\<open>fmt.Sscanf\<close> of the base name with \<^verbatim>\<open>wal-%d.wal\<close>: an optional sign, digits, a value of 64 bits.
  Names with white space, which the engine does not make, are not considered.
\<close>

definition scan_walSeq :: "string \<Rightarrow> int option" where
  "scan_walSeq name =
     (if \<not> prefix ''wal-'' name then None
      else
        (let s = drop 4 name; neg = (take 1 s = ''-'');
             s = (if neg \<or> take 1 s = ''+'' then drop 1 s else s);
             ds = takeWhile is_dec s;
             v = (if neg then - dec_value ds else dec_value ds)
         in if ds \<noteq> [] \<and> is_i64 v \<and> prefix ''.wal'' (dropWhile is_dec s) then Some v else None))"

definition file_Base :: "path \<Rightarrow> string" where
  "file_Base p = rev (takeWhile (\<lambda>c. c \<noteq> CHR ''/'') (rev p))"

subsection \<open>Replay of the manifest\<close>

definition entry_window :: "FileEntry \<Rightarrow> PartitionWindow" where
  "entry_window fe = \<lparr>pw_Start = fe_PartitionStart fe, pw_End = fe_PartitionEnd fe\<rparr>"

text \<open>The first loop of the callback; \<open>False\<close> when a file does not open, which ends the callback.\<close>

fun apply_added :: "bool \<Rightarrow> FileEntry list \<Rightarrow> Engine \<Rightarrow> file_sys \<Rightarrow> bool \<times> Engine \<times> file_sys" where
  "apply_added mm [] e fs = (True, e, fs)"
| "apply_added mm (fe # fes) e fs =
     (case NewReader mm (fe_Path fe) (e_cached e) fs of
        (Inl err, fs) \<Rightarrow> (False, e, fs)
      | (Inr r, fs) \<Rightarrow>
          (let win = entry_window fe;
               e = raise_flushed win (fe_MaxTimestamp fe) (set_files win (files_of e win @ [r]) e)
           in apply_added mm fes (e\<lparr>e_router := AddPartition (e_router e) (NewPartition win)\<rparr>) fs))"

text \<open>The first reader with the path is closed and taken out of the list.\<close>

fun apply_deleted :: "FileEntry list \<Rightarrow> Engine \<Rightarrow> file_sys \<Rightarrow> Engine \<times> file_sys" where
  "apply_deleted [] e fs = (e, fs)"
| "apply_deleted (fe # fes) e fs =
     (let win = entry_window fe; readers = files_of e win in
      case List.extract (\<lambda>r. sm_Path (reader_Meta r) = fe_Path fe) readers of
        None \<Rightarrow> apply_deleted fes e fs
      | Some (a, r, b) \<Rightarrow>
          apply_deleted fes (set_files win (a @ b) e) (snd (reader_Close r fs)))"

definition apply_edit :: "bool \<Rightarrow> VersionEdit \<Rightarrow> Engine \<times> file_sys \<Rightarrow> Engine \<times> file_sys" where
  "apply_edit mm edit = (\<lambda>(e, fs).
     case apply_added mm (ve_AddedFiles edit) e fs of
       (False, e, fs) \<Rightarrow> (e, fs)
     | (True, e, fs) \<Rightarrow> apply_deleted (ve_DeletedFiles edit) e fs)"

subsection \<open>Replay of the log\<close>

text \<open>The callback: skip what an SSTable covers, route the rest. The flag says that a record was new.\<close>

definition replay_record :: "int \<Rightarrow> Engine \<Rightarrow> go_record \<Rightarrow> (bool \<times> Engine) result" where
  "replay_record now e rec =
     (case WindowFor (e_router e) (Timestamp rec) of
        Inl err \<Rightarrow> Inl err
      | Inr win \<Rightarrow>
          (if (case map_of (e_maxFlushedTS e) win of None \<Rightarrow> False | Some maxTS \<Rightarrow> Timestamp rec \<le> maxTS)
           then Inr (False, e)
           else
             (case Route (e_router e) now (Timestamp rec) of
                (Inl err, rt) \<Rightarrow> Inr (True, e\<lparr>e_router := rt\<rparr>)
              | (Inr w, rt) \<Rightarrow>
                  Inr (True, e\<lparr>e_router :=
                    set_partition rt w (snd (partition_Append (the (map_of (rt_partitions rt) w)) rec))\<rparr>))))"

fun replay_records :: "int \<Rightarrow> Engine \<Rightarrow> go_record list \<Rightarrow> (bool \<times> Engine) result" where
  "replay_records now e [] = Inr (False, e)"
| "replay_records now e (r # rs) =
     (case replay_record now e r of
        Inl err \<Rightarrow> Inl err
      | Inr (new, e) \<Rightarrow>
          (case replay_records now e rs of
             Inl err \<Rightarrow> Inl err
           | Inr (new', e) \<Rightarrow> Inr (new \<or> new', e)))"

fun replay_segments :: "int \<Rightarrow> path list \<Rightarrow> Engine \<Rightarrow> file_sys \<Rightarrow> Engine result \<times> file_sys" where
  "replay_segments now [] e fs = (Inr e, fs)"
| "replay_segments now (p # ps) e fs =
     (case wal_Open p (o_WALSyncMode (e_opts e)) fs of
        (Inl err, fs) \<Rightarrow> (Inl err, fs)
      | (Inr w, fs) \<Rightarrow>
          (case wal_Replay w fs of
             (rs, replayErr, w, fs) \<Rightarrow>
               (case replay_records now e rs of
                  Inl err \<Rightarrow> (Inl err, fs)
                | Inr (hadNewRecord, e) \<Rightarrow>
                    (let fs = snd (snd (wal_Close w fs)) in
                     case replayErr of
                       Some err \<Rightarrow> (Inl err, fs)
                     | None \<Rightarrow>
                         replay_segments now ps e
                           (if hadNewRecord then fs else snd (os_remove p fs))))))"

subsection \<open>\<^verbatim>\<open>Open\<close>\<close>

text \<open>The zero value of the log pointer, replaced before \<^verbatim>\<open>Open\<close> returns.\<close>

definition nil_wal :: wal_state where
  "nil_wal = \<lparr>w_file = 0, w_path = [], w_bw = bufio_New 0 0, w_syncMode = SyncAlways, w_ticker = False\<rparr>"

definition engine_init :: "path \<Rightarrow> Options \<Rightarrow> manifest \<Rightarrow> Engine" where
  "engine_init dir opts m =
     \<lparr>e_dir = dir, e_opts = opts, e_wal = nil_wal,
      e_router = NewRouter (o_PartitionDuration opts) (o_LateArrivalWindow opts) (o_LateArrivalMode opts),
      e_manifest = m, e_files = [], e_cached = (o_BlockCacheBytes opts > 0), e_maxFlushedTS = [],
      e_flushCh = [], e_compactCh = [], e_walSeq = 0, e_compactSeq = 0, e_closedReaders = [],
      e_strategy = \<lparr>ff_MaxFilesPerPartition = o_MaxFilesPerPartition opts\<rparr>,
      e_metrics = metrics_New, e_closed = False\<rparr>"

text \<open>Every \<^verbatim>\<open>*.sst\<close> file of the directory that no reader holds is removed.\<close>

definition remove_orphans :: "Engine \<Rightarrow> file_sys \<Rightarrow> file_sys" where
  "remove_orphans e fs =
     (let liveSSTs = set (concat (map (\<lambda>(w, rs). reader_paths rs) (e_files e)))
      in fold (\<lambda>p fs. if p \<in> liveSSTs then fs else snd (os_remove p fs))
           (file_Glob (e_dir e) '''' ''.sst'' fs) fs)"

definition highest_walSeq :: "path list \<Rightarrow> int \<Rightarrow> int" where
  "highest_walSeq ps n = fold (\<lambda>p n. case scan_walSeq (file_Base p) of
     Some sq \<Rightarrow> if sq > n then sq else n | None \<Rightarrow> n) ps n"

definition engine_Open :: "bool \<Rightarrow> int \<Rightarrow> path \<Rightarrow> Options \<Rightarrow> file_sys \<Rightarrow> Engine result \<times> store" where
  "engine_Open mm now dir opts fs =
     (let cache = NewBlockCache (o_BlockCacheBytes opts) in
      case os_MkdirAll dir fs of
        (Some err, fs) \<Rightarrow> (Inl err, (fs, cache))
      | (None, fs) \<Rightarrow>
          (case manifest_Open (path_join dir ''MANIFEST'') fs of
             (Inl err, fs) \<Rightarrow> (Inl err, (fs, cache))
           | (Inr m, fs) \<Rightarrow>
               (case manifest_Replay m fs of
                  (edits, rerr, m, fs) \<Rightarrow>
                    (case fold (apply_edit mm) edits (engine_init dir opts m, fs) of
                       (e, fs) \<Rightarrow>
                         (case rerr of
                            Some err \<Rightarrow> (Inl err, (snd (snd (manifest_Close m fs)), cache))
                          | None \<Rightarrow>
                              (let fs = remove_orphans e fs;
                                   walPaths = file_Glob dir ''wal-'' ''.wal'' fs;
                                   e = e\<lparr>e_walSeq := highest_walSeq walPaths (e_walSeq e)\<rparr>
                               in case replay_segments now walPaths e fs of
                                    (Inl err, fs) \<Rightarrow> (Inl err, (snd (snd (manifest_Close m fs)), cache))
                                  | (Inr e, fs) \<Rightarrow>
                                      (let e = e\<lparr>e_walSeq := e_walSeq e + 1\<rparr> in
                                       case wal_Open (walPath e (e_walSeq e)) (o_WALSyncMode opts) fs of
                                         (Inl err, fs) \<Rightarrow> (Inl err, (snd (snd (manifest_Close m fs)), cache))
                                       | (Inr w, fs) \<Rightarrow>
                                           (Inr (e\<lparr>e_wal := w, e_metrics := metrics_New\<rparr>), (fs, cache)))))))))"

subsection \<open>\<^verbatim>\<open>Close\<close>\<close>

text \<open>The open partitions with data are flushed; errors are only logged.\<close>

fun close_flush :: "codecs \<Rightarrow> bool \<Rightarrow> PartitionWindow list \<Rightarrow> Engine \<Rightarrow> store \<Rightarrow> Engine \<times> store" where
  "close_flush cd mm [] e s = (e, s)"
| "close_flush cd mm (win # wins) e s =
     (let p = the (map_of (rt_partitions (e_router e)) win) in
      if partition_State p = StateOpen \<and> MemtableSize p > 0
      then (case flushPartition cd mm e win s of (_, e, s) \<Rightarrow> close_flush cd mm wins e s)
      else close_flush cd mm wins e s)"

definition first_err :: "go_error option \<Rightarrow> go_error option \<Rightarrow> go_error option" where
  "first_err firstErr err = (if err \<noteq> None \<and> firstErr = None then err else firstErr)"

fun close_readers :: "sst_reader list \<Rightarrow> go_error option \<Rightarrow> file_sys \<Rightarrow> go_error option \<times> file_sys" where
  "close_readers [] firstErr fs = (firstErr, fs)"
| "close_readers (r # rs) firstErr fs =
     (case reader_Close r fs of (err, fs) \<Rightarrow> close_readers rs (first_err firstErr err) fs)"

definition engine_Close :: "codecs \<Rightarrow> bool \<Rightarrow> Engine \<Rightarrow> store \<Rightarrow> go_error option \<times> Engine \<times> store" where
  "engine_Close cd mm e s =
     (if e_closed e then (None, e, s)
      else
        (let e = e\<lparr>e_closed := True\<rparr> in
         case close_flush cd mm (map fst (rt_partitions (e_router e))) e s of
           (e, s) \<Rightarrow>
             (case close_readers (concat (map snd (e_files e)) @ e_closedReaders e) None (fst s) of
                (firstErr, fs) \<Rightarrow>
                  (case manifest_Close (e_manifest e) fs of
                     (merr, mf, fs) \<Rightarrow>
                       (case wal_Close (e_wal e) fs of
                          (werr, w, fs) \<Rightarrow>
                            (first_err (first_err firstErr merr) werr,
                             e\<lparr>e_manifest := mf, e_wal := w\<rparr>, (fs, snd s)))))))"

subsection \<open>\<^verbatim>\<open>Partitions\<close>\<close>

text \<open>Times in nanoseconds since the epoch.\<close>

record PartitionInfo =
  pi_Start :: int
  pi_End :: int
  pi_State :: string
  pi_SSTFiles :: int
  pi_SizeBytes :: int

definition state_name :: "State \<Rightarrow> string" where
  "state_name st = (case st of StateOpen \<Rightarrow> ''open'' | StateSealed \<Rightarrow> ''sealed'' | StateDeleted \<Rightarrow> ''deleted'')"

definition engine_Partitions :: "Engine \<Rightarrow> file_sys \<Rightarrow> PartitionInfo list" where
  "engine_Partitions e fs =
     map (\<lambda>p. let win = tp_Window p; readers = files_of e win in
         \<lparr>pi_Start = pw_Start win, pi_End = pw_End win, pi_State = state_name (partition_State p),
          pi_SSTFiles = int (length readers), pi_SizeBytes = file_bytes (reader_paths readers) fs\<rparr>)
       (router_All (e_router e))"

end
