(* ===== verification/EngineFlush.thy ===== *)
theory EngineFlush
  imports EngineOps Lifecycle
begin

text \<open>
  \<^verbatim>\<open>flushPartition\<close>: a flush moves the records of one memtable to a new SSTable, which becomes one of
  the files of the window; no record is lost to a reader.
\<close>

subsection \<open>Frames of the file system\<close>

text \<open>\<open>N\<close> are the names, \<open>F\<close> the old inodes that may have changed.\<close>

definition fs_frame :: "path set \<Rightarrow> inode set \<Rightarrow> file_sys \<Rightarrow> file_sys \<Rightarrow> bool" where
  "fs_frame N F fs fs' \<longleftrightarrow> fs_faults fs' = [] \<and> fs_bad fs' = fs_bad fs \<and> fs_next fs \<le> fs_next fs' \<and>
     (\<forall>j < fs_next fs. j \<notin> F \<longrightarrow> fs_data fs' j = fs_data fs j \<and> fs_synced fs' j = fs_synced fs j) \<and>
     (\<forall>q. q \<notin> N \<longrightarrow> fs_lookup fs' q = fs_lookup fs q)"

lemma fs_frame_trans:
  assumes "fs_frame N F fs fs1" "fs_frame N' F' fs1 fs2"
  shows "fs_frame (N \<union> N') (F \<union> F') fs fs2"
  using assms by (auto simp: fs_frame_def)

lemma fs_frame_mono: "fs_frame N F fs fs' \<Longrightarrow> N \<subseteq> N' \<Longrightarrow> F \<subseteq> F' \<Longrightarrow> fs_frame N' F' fs fs'"
  unfolding fs_frame_def by blast

lemma fs_frame_own: "own_file f fs fs' \<Longrightarrow> fs_faults fs' = [] \<Longrightarrow> fs_frame {} {f} fs fs'"
  by (auto simp: own_file_def fs_frame_def fs_lookup_def)

lemma fs_frame_written:
  "fs_written p bs fs fs' \<Longrightarrow> fs_faults fs = [] \<Longrightarrow> fs_lookup fs p = None \<Longrightarrow> fs_frame {p} {} fs fs'"
  by (auto simp: fs_written_def fs_created_def fs_frame_def)

lemma os_remove_frame:
  assumes "fs_faults fs = []"
  shows "fs_frame {p} {} fs (snd (os_remove p fs))" "fs_lookup (snd (os_remove p fs)) p = None"
    "fs_data (snd (os_remove p fs)) = fs_data fs" "fs_next (snd (os_remove p fs)) = fs_next fs"
proof -
  have "fs_lookup (fs\<lparr>fs_names := filter (\<lambda>(q, _). q \<noteq> p) (fs_names fs)\<rparr>) q = (if q = p then None else fs_lookup fs q)" for q
    using lookup_removed [where fs = fs and S = "{p}" and q = q] by simp
  then show "fs_frame {p} {} fs (snd (os_remove p fs))" "fs_lookup (snd (os_remove p fs)) p = None"
    "fs_data (snd (os_remove p fs)) = fs_data fs" "fs_next (snd (os_remove p fs)) = fs_next fs"
    using assms by (auto simp: os_remove_def fs_frame_def pop_fault_def)
qed

text \<open>The file of a log that is no longer written: all of the log, on stable storage.\<close>

definition sealed_log :: "wal_state \<Rightarrow> file_sys \<Rightarrow> file_sys \<Rightarrow> bool" where
  "sealed_log w fs fs' \<longleftrightarrow> fs_data fs' (w_file w) = bw_view (w_bw w) fs \<and>
     fs_synced fs' (w_file w) = length (fs_data fs' (w_file w))"

lemma wal_Rotate_ok:
  assumes "fs_faults fs = []" "wal_log w fs rs" "fs_lookup fs p = None" "w_file w < fs_next fs"
  obtains w' fs' where "wal_Rotate w p fs = (None, w', fs')" "wal_log w' fs' []" "w_file w' = fs_next fs"
    "w_path w' = p" "w_syncMode w' = w_syncMode w" "fs_frame {p} {w_file w} fs fs'" "fs_next fs' = Suc (fs_next fs)"
    "fs_data fs' (w_file w) = wal_bytes rs" "fs_synced fs' (w_file w) = length (wal_bytes rs)" "fs_lookup fs' p = Some (fs_next fs)"
proof -
  have w: "bw_err (w_bw w) = None" "bw_file (w_bw w) = w_file w" "bw_view (w_bw w) fs = wal_bytes rs"
    using assms(2) by (auto simp: wal_log_def)
  from bufio_Flush_ok [OF assms(1) w(1)] w(2,3) obtain fs1 where
    f: "bufio_Flush (w_bw w) fs = (None, (w_bw w)\<lparr>bw_buf := []\<rparr>, fs1)" "only_data (w_file w) fs fs1"
      "fs_data fs1 (w_file w) = wal_bytes rs" by auto
  note fr = only_data_frame [OF f(2)]
  let ?fs2 = "fs1\<lparr>fs_synced := (fs_synced fs1)(w_file w := length (fs_data fs1 (w_file w)))\<rparr>"
  let ?i = "fs_next fs"
  let ?fs3 = "?fs2\<lparr>fs_names := (p, ?i) # fs_names fs1, fs_data := (fs_data fs1)(?i := []),
    fs_synced := (fs_synced ?fs2)(?i := 0), fs_next := Suc ?i\<rparr>"
  let ?w = "w\<lparr>w_file := ?i, w_path := p, w_bw := bufio_New ?i (64 * 1024)\<rparr>"
  have "wal_Rotate w p fs = (None, ?w, ?fs3)"
    using assms(1,3) f(1) fr(1,2,4) by (simp add: wal_Rotate_def file_sync_def pop_fault_def os_open_create_def
        file_close_def fs_lookup_def Let_def)
  moreover have "wal_log ?w ?fs3 []" by (rule wal_log_fresh) auto
  moreover have "fs_frame {p} {w_file w} fs ?fs3"
    using assms(1) fr by (auto simp: fs_frame_def fs_lookup_def)
  ultimately show ?thesis using that [of ?w ?fs3] f(3) assms(4) by (simp add: fs_lookup_def)
qed

subsection \<open>The loop of a flush\<close>

lemma flush_loop_all: "-1 \<le> mi_pos it \<Longrightarrow> flush_loop cd it w fs = sst_AddAll cd (mem_rest it) w fs"
proof (induction "mem_rest it" arbitrary: it w fs)
  case Nil
  with mem_iter_Next_spec [of it] show ?case by (subst flush_loop.simps) (auto simp: Let_def)
next
  case (Cons r rs)
  from mem_iter_Next_spec [of it] Cons.hyps(2) [symmetric] Cons.prems obtain it' where
    n: "mem_iter_Next it = (True, it')" "mi_current it' = r" "mem_rest it' = rs" "-1 \<le> mi_pos it'" by auto
  obtain err w' fs' where a: "sst_Add cd w r fs = (err, w', fs')" by (metis prod_cases3)
  show ?case using Cons.hyps(1) [OF n(3) [symmetric] n(4), of w' fs'] Cons.hyps(2) [symmetric] n a
    by (subst flush_loop.simps) (auto simp: Let_def mem_iter_Record_def split: option.split)
qed

lemma flush_write_ok:
  assumes "fs_faults fs = []" "wo_CompressionType opts \<le> 2" "memtable_inv m"
    "\<forall>r \<in> set (mt_records m). Timestamp r < MaxInt64"
  obtains w fs1 w' fs2 fs' where "NewWriter p opts fs = (Inr w, fs1)"
    "flush_loop cd (memtable_Freeze m) w fs1 = (None, w', fs2)"
    "sst_Finish cd w' fs2 = (Inr (merged_meta cd p opts (mt_records m)), fs')"
    "fs_written p (sst_layout cd p (eff_opts opts) (merged_blocks opts (mt_records m))) fs fs'"
proof -
  have srt: "rec_sorted (mt_records m)" using assms(3) by (simp add: memtable_inv_def)
  have "-1 \<le> mi_pos (memtable_Freeze m)" by (simp add: memtable_Freeze_def)
  moreover have "mem_rest (memtable_Freeze m) = mt_records m"
    using memtable_Freeze_rest [OF srt] assms(4) by (simp add: filter_id_conv)
  ultimately have loop: "flush_loop cd (memtable_Freeze m) w fs = sst_AddAll cd (mt_records m) w fs" for w fs
    by (simp add: flush_loop_all)
  from NewWriter_ok [OF assms(1,2), of p cd] obtain w f fs0 fs1 where
    nw: "NewWriter p opts fs = (Inr w, fs1)" "sw_base cd w fs1 [] []" "cut_ok w [] []" "sw_opts w = eff_opts opts"
      "sw_path w = p" "sw_file w = f" "fs_created p f fs fs0" "only_data f fs0 fs1" by metis
  from sst_AddAll_ok [OF nw(2,3), of "mt_records m"] srt obtain w' fs2 bs' where
    ad: "sst_AddAll cd (mt_records m) w fs1 = (None, w', fs2)" "sw_base cd w' fs2 bs' (mt_records m)"
      "cut_ok w' bs' (mt_records m)" "sw_frame w fs1 w' fs2" by auto
  then have fr: "sw_opts w' = eff_opts opts" "sw_path w' = p" "sw_file w' = f" "only_data f fs0 fs2"
    using nw(4-6) only_data_trans [OF nw(8)] by (auto simp: sw_frame_def)
  from finish_written [OF nw(7) fr(4) ad(2,3) fr(2,3)] fr(1) obtain fs' where
    "sst_Finish cd w' fs2 = (Inr (merged_meta cd p opts (mt_records m)), fs')"
    "fs_written p (sst_layout cd p (eff_opts opts) (merged_blocks opts (mt_records m))) fs fs'" by auto
  with that nw(1) ad(1) loop show ?thesis by metis
qed

subsection \<open>The files of a window\<close>

lemma all_readers_split:
  assumes "distinct (map fst (e_files e))"
  obtains X Y where "all_readers e = X @ files_of e win @ Y" "\<And>rs. all_readers (set_files win rs e) = X @ rs @ Y"
    "all_readers (e\<lparr>e_files := AList.delete win (e_files e)\<rparr>) = X @ Y"
proof (cases "map_of (e_files e) win")
  case None
  then have "AList.delete win (e_files e) = e_files e" by (simp add: delete_id map_of_eq_None_iff)
  then show ?thesis using that [of "all_readers e" "[]"] update_new [OF None] None
    by (simp add: all_readers_def files_of_def set_files_def del: map_of_eq_None_iff)
next
  case (Some v)
  from update_split [OF assms Some] obtain a b where
    ab: "e_files e = a @ (win, v) # b" "\<And>u. AList.update win u (e_files e) = a @ (win, u) # b" by blast
  have "AList.delete win (e_files e) = a @ b"
  proof -
    have "win \<notin> fst ` set a" "win \<notin> fst ` set b" using assms ab(1) by auto
    then show ?thesis unfolding ab(1) by (simp add: AList.delete_eq split_beta image_iff)
  qed
  then show ?thesis using that [of "concat (map snd a)" "concat (map snd b)"] ab Some
    by (simp add: all_readers_def files_of_def set_files_def)
qed

lemma reader_paths_append: "reader_paths (xs @ ys) = reader_paths xs @ reader_paths ys"
  by (simp add: reader_paths_def)

lemma data_ok_set_files:
  assumes "data_ok cd G e fs" "G \<subseteq>\<^sub>m G'" "map_of (rt_partitions (e_router e)) win \<noteq> None"
    and "\<forall>r \<in> set rs. reader_ok cd G' fs (o_PartitionDuration (e_opts e)) win r" "distinct (reader_paths rs)"
    and "\<forall>r \<in> set rs. r \<in> set (files_of e win) \<or> G (sm_Path (r_meta r)) = None"
  shows "data_ok cd G' (set_files win rs e) fs"
    "file_recs cd (set_files win rs e) fs + (\<Sum>r \<in># mset (files_of e win). mset (recs_of cd fs r)) =
     file_recs cd e fs + (\<Sum>r \<in># mset rs. mset (recs_of cd fs r))"
proof -
  let ?e = "set_files win rs e" and ?dur = "o_PartitionDuration (e_opts e)"
  have e: "distinct (map fst (e_files e))" "distinct (reader_paths (all_readers e))"
    using assms(1) by (auto simp: data_ok_def)
  from all_readers_split [OF e(1), of win] obtain X Y where
    xy: "all_readers e = X @ files_of e win @ Y" "all_readers ?e = X @ rs @ Y" by metis
  show "file_recs cd ?e fs + (\<Sum>r \<in># mset (files_of e win). mset (recs_of cd fs r)) =
      file_recs cd e fs + (\<Sum>r \<in># mset rs. mset (recs_of cd fs r))"
    by (simp add: file_recs_def xy ac_simps)
  have reg: "G (sm_Path (r_meta r)) = Some r" if "r \<in> set X \<union> set (files_of e win) \<union> set Y" for r
    using data_ok_registered(1) [OF assms(1)] xy(1) that by auto
  have "sm_Path (r_meta r) \<noteq> sm_Path (r_meta r')" if "r \<in> set rs" "r' \<in> set X \<union> set Y" for r r'
  proof (cases "r \<in> set (files_of e win)")
    case True
    then show ?thesis using e(2) that(2) unfolding xy(1) reader_paths_def by force
  next
    case False
    then show ?thesis using assms(6) that reg by fastforce
  qed
  then have "set (reader_paths rs) \<inter> (set (reader_paths X) \<union> set (reader_paths Y)) = {}"
    unfolding reader_paths_def by auto
  then have dist: "distinct (reader_paths (all_readers ?e))"
    using e(2) assms(5) unfolding xy reader_paths_append distinct_append set_append by blast
  have up: "reader_ok cd G' fs ?dur w r" if "reader_ok cd G fs ?dur w r" for w r
    using that assms(2) by (auto simp: reader_ok_def map_le_def dom_def)
  have "map_of (rt_partitions (e_router e)) w \<noteq> None \<and> (\<forall>r \<in> set us. reader_ok cd G' fs ?dur w r)"
    if "(w, us) \<in> set (AList.update win rs (e_files e))" for w us
  proof -
    have "map_of (AList.update win rs (e_files e)) w = Some us"
      using that e(1) by (intro map_of_is_SomeI) (simp_all add: distinct_update)
    then have "w = win \<and> us = rs \<or> map_of (e_files e) w = Some us" by (auto simp: update_conv' split: if_splits)
    then show ?thesis using assms(1,3,4) up by (fastforce simp: data_ok_def dest: map_of_SomeD)
  qed
  then show "data_ok cd G' ?e fs"
    using assms(1) dist by (auto simp: data_ok_def set_files_def distinct_update)
qed


lemma cache_ok_register: "cache_ok cd G s \<Longrightarrow> G p = None \<Longrightarrow> cache_ok cd (G(p \<mapsto> r)) s"
  unfolding cache_ok_def by (metis fun_upd_other option.distinct(1))

text \<open>Names that the engine has not yet used, and those whose loss it does not notice.\<close>

definition future :: "Engine \<Rightarrow> path \<Rightarrow> bool" where
  "future e p \<longleftrightarrow> (\<exists>w sq. e_walSeq e < sq \<and> (p = flushPath e w sq \<or> p = walPath e sq) \<or>
     e_compactSeq e < sq \<and> p = compactPath e w sq)"

definition harmless :: "Engine \<Rightarrow> path set \<Rightarrow> bool" where
  "harmless e N \<longleftrightarrow> mf_path (e_manifest e) \<notin> N \<and> (\<forall>r \<in> set (all_readers e). sm_Path (r_meta r) \<notin> N) \<and>
     (\<forall>p \<in> N. \<not> future e p)"

subsection \<open>Files that the manifest names\<close>

definition added :: "VersionEdit list \<Rightarrow> FileEntry list" where
  "added es = concat (map ve_AddedFiles es)"

definition deleted :: "VersionEdit list \<Rightarrow> FileEntry list" where
  "deleted es = concat (map ve_DeletedFiles es)"

lemma added_append [simp]: "added (es @ fs) = added es @ added fs" "deleted (es @ fs) = deleted es @ deleted fs"
  by (simp_all add: added_def deleted_def)

definition on_disk :: "file_sys \<Rightarrow> FileEntry \<Rightarrow> bool" where
  "on_disk fs fe \<longleftrightarrow> fs_lookup fs (fe_Path fe) \<noteq> None"

text \<open>An entry of the manifest whose file holds the records \<open>rs\<close>.\<close>

definition stored :: "codecs \<Rightarrow> file_sys \<Rightarrow> int \<Rightarrow> FileEntry \<Rightarrow> go_record list \<Rightarrow> bool" where
  "stored cd fs dur fe rs \<longleftrightarrow> (\<exists>f wo bs. fs_lookup fs (fe_Path fe) = Some f \<and>
     fs_data fs f = sst_layout cd (fe_Path fe) wo bs \<and> layout_ok cd (fe_Path fe) wo bs \<and> bs \<noteq> [] \<and> rs = concat bs \<and>
     fe = meta_entry (layout_meta cd (fe_Path fe) wo bs) \<and>
     (\<forall>x \<in> set rs. in_window (entry_window fe) (Timestamp x) \<and> ts_ok dur (Timestamp x)))"

abbreviation rpath :: "sst_reader \<Rightarrow> path" where
  "rpath r \<equiv> sm_Path (r_meta r)"

abbreviation entry_of :: "sst_reader \<Rightarrow> FileEntry" where
  "entry_of r \<equiv> meta_entry (r_meta r)"

text \<open>A reader whose file is whole and on stable storage.\<close>

definition sst_stored :: "codecs \<Rightarrow> file_sys \<Rightarrow> int \<Rightarrow> sst_reader \<Rightarrow> bool" where
  "sst_stored cd fs dur r \<longleftrightarrow> stored cd fs dur (entry_of r) (recs_of cd fs r) \<and>
     fs_lookup fs (rpath r) = Some (r_file r) \<and> fs_synced fs (r_file r) = length (fs_data fs (r_file r))"

lemma sst_storedI:
  assumes "r_meta r = layout_meta cd p wo bs" "layout_ok cd p wo bs" "bs \<noteq> []" "fs_lookup fs p = Some (r_file r)"
    and "fs_data fs (r_file r) = sst_layout cd p wo bs" "fs_synced fs (r_file r) = length (fs_data fs (r_file r))"
    and "recs_of cd fs r = concat bs" "wo_PartitionStart wo = pw_Start win" "wo_PartitionEnd wo = pw_End win"
    and "\<forall>x \<in> set (concat bs). in_window win (Timestamp x) \<and> ts_ok dur (Timestamp x)"
  shows "sst_stored cd fs dur r"
proof -
  have p: "rpath r = p" "fe_Path (entry_of r) = p" "entry_window (entry_of r) = win"
    using assms(1,8,9) by (simp_all add: meta_entry_def layout_meta_def Let_def entry_window_def)
  then have "stored cd fs dur (entry_of r) (recs_of cd fs r)"
    unfolding stored_def p using assms by (intro exI [of _ "r_file r"] exI [of _ wo] exI [of _ bs]) simp
  then show ?thesis using p assms(4,6) by (simp add: sst_stored_def)
qed

lemma manifest_log_unique: "manifest_log m fs es \<Longrightarrow> manifest_log m fs es' \<Longrightarrow> es = es'"
  unfolding manifest_log_def manifest_file_def by (metis manifest_loop_whole prod.inject)

lemma sst_suffix: "suffix ''.sst'' (flushPath e w i)" "suffix ''.sst'' (compactPath e w i)"
  by (simp_all add: flushPath_def compactPath_def path_join_def suffix_def)

text \<open>Every name of a file is one of its own.\<close>

definition fs_inj :: "file_sys \<Rightarrow> bool" where
  "fs_inj fs \<longleftrightarrow> (\<forall>p i. fs_lookup fs p = Some i \<longrightarrow> i < fs_next fs \<and> (\<forall>q. fs_lookup fs q = Some i \<longrightarrow> q = p))"

lemma fs_inj_sub:
  assumes "fs_inj fs" "\<And>p i. fs_lookup fs' p = Some i \<Longrightarrow> fs_lookup fs p = Some i" "fs_next fs \<le> fs_next fs'"
  shows "fs_inj fs'"
  using assms unfolding fs_inj_def by (meson order_less_le_trans)

lemma fs_inj_removed:
  assumes "fs_inj fs" "fs_frame N F fs fs'" "\<And>p. p \<in> N \<Longrightarrow> fs_lookup fs' p = None"
  shows "fs_inj fs'"
proof (rule fs_inj_sub [OF assms(1)])
  show "fs_lookup fs p = Some i" if "fs_lookup fs' p = Some i" for p i
    using assms(2,3) that by (cases "p \<in> N") (auto simp: fs_frame_def)
qed (use assms(2) in \<open>simp add: fs_frame_def\<close>)

lemma fs_inj_new:
  assumes "fs_inj fs" "\<And>q. fs_lookup fs' q = (if q = p then Some (fs_next fs) else fs_lookup fs q)"
    and "fs_next fs < fs_next fs'"
  shows "fs_inj fs'"
  unfolding fs_inj_def
proof (intro allI impI)
  fix q i
  assume q: "fs_lookup fs' q = Some i"
  have old: "j < fs_next fs \<and> (\<forall>y. fs_lookup fs y = Some j \<longrightarrow> y = x)" if "fs_lookup fs x = Some j" for x j
    using assms(1) that by (auto simp: fs_inj_def)
  show "i < fs_next fs' \<and> (\<forall>x. fs_lookup fs' x = Some i \<longrightarrow> x = q)"
  proof (cases "q = p")
    case True
    then show ?thesis using q assms(2,3) old by (metis less_irrefl option.inject)
  next
    case False
    then have "fs_lookup fs q = Some i" using q assms(2) by simp
    then show ?thesis using assms(2,3) old False by (metis less_irrefl option.inject less_trans)
  qed
qed

text \<open>
  What an operation does to the files on disk: \<open>news\<close> are the readers of the files it wrote, \<open>xs\<close> the
  readers of those it removed, and the manifest says so. \<open>W\<close> are names of the log and \<open>F\<close> the old inodes
  that may have changed.
\<close>

definition disk_edit :: "codecs \<Rightarrow> path set \<Rightarrow> inode set \<Rightarrow> Engine \<Rightarrow> file_sys \<Rightarrow> Engine \<Rightarrow> file_sys \<Rightarrow> sst_reader list \<Rightarrow>
    sst_reader list \<Rightarrow> bool" where
  "disk_edit cd W F e fs e' fs' news xs \<longleftrightarrow>
     (\<forall>es. manifest_log (e_manifest e) fs es \<longrightarrow> (\<exists>eds. manifest_log (e_manifest e') fs' (es @ eds) \<and>
        added eds = map entry_of news \<and> deleted eds = map entry_of xs \<and> (\<forall>ed \<in> set eds. length (ve_AddedFiles ed) \<le> 1))) \<and>
     set xs \<subseteq> set (all_readers e) \<and>
     mset (all_readers e') = filter_mset (\<lambda>r. rpath r \<notin> rpath ` set xs) (mset (all_readers e)) + mset news \<and>
     (\<forall>r \<in> set news. sst_stored cd fs' (o_PartitionDuration (e_opts e)) r \<and> suffix ''.sst'' (rpath r) \<and>
        future e (rpath r) \<and> \<not> future e' (rpath r)) \<and>
     (\<forall>p. future e' p \<longrightarrow> future e p) \<and>
     (\<forall>q. q \<notin> W \<and> q \<notin> rpath ` set news \<longrightarrow> fs_lookup fs' q = (if q \<in> rpath ` set xs then None else fs_lookup fs q)) \<and>
     (\<forall>j < fs_next fs. j \<notin> F \<longrightarrow> fs_data fs' j = fs_data fs j \<and> fs_synced fs' j = fs_synced fs j) \<and>
     fs_bad fs' = fs_bad fs \<and> (fs_inj fs \<longrightarrow> fs_inj fs')"


lemma names_ok_future:
  "names_ok G e fs \<longleftrightarrow> 0 \<le> e_walSeq e \<and> 0 \<le> e_compactSeq e \<and>
     mf_path (e_manifest e) = path_join (e_dir e) ''MANIFEST'' \<and> G (mf_path (e_manifest e)) = None \<and>
     w_path (e_wal e) = walPath e (e_walSeq e) \<and> (\<forall>sq. G (walPath e sq) = None) \<and>
     (\<forall>p. future e p \<longrightarrow> unused G fs p)"
  unfolding names_ok_def future_def by metis

lemma names_ok_change:
  assumes "names_ok G e fs" "e_dir e' = e_dir e" "e_walSeq e' = e_walSeq e" "e_compactSeq e' = e_compactSeq e"
    "mf_path (e_manifest e') = mf_path (e_manifest e)" "w_path (e_wal e') = w_path (e_wal e)"
    "G' (mf_path (e_manifest e)) = None" "\<forall>sq. G' (walPath e sq) = None"
    "\<And>p. future e p \<Longrightarrow> unused G fs p \<Longrightarrow> unused G' fs' p"
  shows "names_ok G' e' fs'"
proof -
  have "future e' p = future e p" for p
    using assms(3,4) path_fields [OF assms(2)] by (simp add: future_def)
  then show ?thesis using assms path_fields [OF assms(2)] unfolding names_ok_future by metis
qed

lemma fs_frame_same_files:
  assumes "store_ok cd G e (fs, c)" "fs_frame N F fs fs'" "F \<subseteq> {mf_f (e_manifest e), w_file (e_wal e)}"
  shows "same_files G fs fs'"
  unfolding same_files_def same_file_def
proof (intro allI impI)
  fix p r
  assume "G p = Some r"
  then have "r_file r < fs_next fs" "r_file r \<notin> F" using assms(1,3) by (auto simp: store_ok_def)
  then show "fs_data fs' (r_file r) = fs_data fs (r_file r) \<and> fs_bad fs' (r_file r) = fs_bad fs (r_file r)"
    using assms(2) by (auto simp: fs_frame_def)
qed

lemma engine_ok_frame:
  assumes "engine_ok cd G e (fs, c)" "fs_frame N F fs fs'" "F \<subseteq> {mf_f (e_manifest e)}" "harmless e N"
    and "cache_ok cd G (fs', c')" "manifest_log m fs' es" "mf_f m = mf_f (e_manifest e)"
    "mf_path m = mf_path (e_manifest e)"
  shows "engine_ok cd G (e\<lparr>e_manifest := m\<rparr>) (fs', c')" "file_recs cd e fs' = file_recs cd e fs"
proof -
  have ok: "data_ok cd G e fs" "store_ok cd G e (fs, c)" "names_ok G e fs" using assms(1) by (auto simp: engine_ok_def)
  have same: "same_files G fs fs'" using fs_frame_same_files [OF ok(2) assms(2)] assms(3) by blast
  have "\<forall>r \<in> set (all_readers e). same_file (r_file r) fs fs' \<and>
      fs_lookup fs' (sm_Path (r_meta r)) = fs_lookup fs (sm_Path (r_meta r))"
    using same data_ok_registered(1) [OF ok(1)] assms(2,4) by (auto simp: same_files_def harmless_def fs_frame_def)
  note d = data_ok_same [OF ok(1) this]
  from d(2) show "file_recs cd e fs' = file_recs cd e fs" .
  have "wal_log (e_wal e) fs' rs" if "wal_log (e_wal e) fs rs" for rs
    using that ok(2) assms(2,3) by (intro wal_log_same [OF that]) (auto simp: store_ok_def fs_frame_def)
  then have "store_ok cd G (e\<lparr>e_manifest := m\<rparr>) (fs', c')"
    using ok(2) assms(2,5-8) unfolding store_ok_def fs_frame_def by fastforce
  moreover have "names_ok G (e\<lparr>e_manifest := m\<rparr>) fs'"
    using ok(3) assms(2,4,8)
    by (intro names_ok_change [OF ok(3)]) (auto simp: names_ok_def unused_def harmless_def fs_frame_def)
  ultimately show "engine_ok cd G (e\<lparr>e_manifest := m\<rparr>) (fs', c')" using assms(1) d(1) by (simp add: engine_ok_def)
qed

lemma engine_ok_names:
  assumes "engine_ok cd G e (fs, c)" "fs_frame N {} fs fs'" "harmless e N"
  shows "engine_ok cd G e (fs', c)" "file_recs cd e fs' = file_recs cd e fs"
proof -
  from assms(1) obtain es where log: "store_ok cd G e (fs, c)" "manifest_log (e_manifest e) fs es"
    by (auto simp: engine_ok_def store_ok_def)
  have "manifest_log (e_manifest e) fs' es"
    using log assms(2,3) by (intro manifest_log_same [OF log(2)]) (auto simp: fs_frame_def store_ok_def harmless_def)
  moreover have "cache_ok cd G (fs', c)"
    using fs_frame_same_files [OF log(1) assms(2)] log(1) by (auto simp: store_ok_def intro: cache_ok_same)
  ultimately show "engine_ok cd G e (fs', c)" "file_recs cd e fs' = file_recs cd e fs"
    using engine_ok_frame [OF assms(1,2) _ assms(3), of c "e_manifest e" es] by auto
qed

text \<open>The new reader joins the files of its window.\<close>

lemma data_ok_install:
  fixes r :: sst_reader
  defines "p \<equiv> sm_Path (r_meta r)"
  assumes "data_ok cd G e fs" "map_of (rt_partitions (e_router e)) win \<noteq> None"
    and "G p = None" "fs_lookup fs p = Some (r_file r)" "reads_as cd r fs bs" "bs \<noteq> []"
    and "\<forall>x \<in> set (concat bs). in_window win (Timestamp x) \<and> ts_ok (o_PartitionDuration (e_opts e)) (Timestamp x)"
  defines "e' \<equiv> set_files win (files_of e win @ [r]) e"
  shows "data_ok cd (G(p \<mapsto> r)) e' fs" "file_recs cd e' fs = file_recs cd e fs + mset (concat bs)"
    "set (reader_paths (all_readers e')) = insert p (set (reader_paths (all_readers e)))"
proof -
  let ?G = "G(p \<mapsto> r)"
  obtain X Y where xy: "all_readers e = X @ files_of e win @ Y" "all_readers e' = X @ (files_of e win @ [r]) @ Y"
    unfolding e'_def using all_readers_split [of e win] assms(2) by (metis data_ok_def)
  have le: "G \<subseteq>\<^sub>m ?G" using assms(4) by (auto simp: map_le_def)
  have "reader_ok cd ?G fs (o_PartitionDuration (e_opts e)) win x" if "x \<in> set (files_of e win)" for x
    using files_of_ok [OF assms(2) that] assms(4) by (auto simp: reader_ok_def)
  moreover have "reader_ok cd ?G fs (o_PartitionDuration (e_opts e)) win r"
    using assms(5-8) by (auto simp: reader_ok_def p_def recs_of_reads)
  moreover have "distinct (reader_paths (files_of e win @ [r]))"
  proof -
    have "distinct (reader_paths (files_of e win))" using assms(2) xy(1) by (simp add: data_ok_def reader_paths_append)
    moreover have "p \<notin> set (reader_paths (files_of e win))"
      using files_of_ok [OF assms(2)] assms(4) by (fastforce simp: reader_paths_def reader_ok_def)
    ultimately show ?thesis by (simp add: reader_paths_def p_def)
  qed
  ultimately have d: "data_ok cd ?G e' fs" "file_recs cd e' fs + (\<Sum>r \<in># mset (files_of e win). mset (recs_of cd fs r)) =
     file_recs cd e fs + (\<Sum>r \<in># mset (files_of e win @ [r]). mset (recs_of cd fs r))"
    using data_ok_set_files [OF assms(2) le assms(3), of "files_of e win @ [r]"] assms(4)
    unfolding e'_def p_def by auto
  then show "data_ok cd ?G e' fs" "file_recs cd e' fs = file_recs cd e fs + mset (concat bs)"
    by (simp_all add: recs_of_reads [OF assms(6)])
  show "set (reader_paths (all_readers e')) = insert p (set (reader_paths (all_readers e)))"
    unfolding xy by (auto simp: reader_paths_def p_def reader_Meta_def)
qed

lemma engine_ok_install:
  fixes r :: sst_reader
  defines "p \<equiv> sm_Path (r_meta r)"
  assumes "engine_ok cd G e (fs, c)" "map_of (rt_partitions (e_router e)) win \<noteq> None"
    and "G p = None" "fs_lookup fs p = Some (r_file r)" "reads_as cd r fs bs" "bs \<noteq> []"
    and "\<forall>x \<in> set (concat bs). in_window win (Timestamp x) \<and> ts_ok (o_PartitionDuration (e_opts e)) (Timestamp x)"
    and "r_file r < fs_next fs" "r_file r \<noteq> mf_f (e_manifest e)" "r_file r \<noteq> w_file (e_wal e)"
    and "p \<noteq> mf_path (e_manifest e)" "\<forall>sq. p \<noteq> walPath e sq"
  defines "e' \<equiv> set_files win (files_of e win @ [r]) e"
  shows "engine_ok cd (G(p \<mapsto> r)) e' (fs, c)" "file_recs cd e' fs = file_recs cd e fs + mset (concat bs)"
proof -
  let ?G = "G(p \<mapsto> r)"
  have ok: "data_ok cd G e fs" "store_ok cd G e (fs, c)" "names_ok G e fs" using assms(2) by (auto simp: engine_ok_def)
  note d = data_ok_install [OF ok(1) assms(3-8) [unfolded p_def], folded p_def e'_def]
  then show "file_recs cd e' fs = file_recs cd e fs + mset (concat bs)" by simp
  have "store_ok cd ?G e' (fs, c)" using ok(2) assms(4,9-11) cache_ok_register [of cd G "(fs, c)" p r]
    by (auto simp: store_ok_def e'_def set_files_def split: if_splits)
  moreover have "names_ok ?G e' fs"
    using ok(3) assms(5,12,13)
    by (intro names_ok_change [OF ok(3)]) (auto simp: e'_def set_files_def names_ok_def unused_def)
  ultimately show "engine_ok cd ?G e' (fs, c)"
    using d(1) assms(2) by (simp add: engine_ok_def e'_def set_files_def)
qed


subsection \<open>\<^verbatim>\<open>flushPartition\<close>\<close>

lemma engine_ok_rotate:
  assumes "engine_ok cd G e (fs, c)"
  defines "p \<equiv> walPath e (e_walSeq e + 1)"
  obtains w fs' where "wal_Rotate (e_wal e) p fs = (None, w, fs')" "wal_log w fs' []"
    "engine_ok cd G (e\<lparr>e_wal := w, e_walSeq := e_walSeq e + 1\<rparr>) (fs', c)"
    "file_recs cd e fs' = file_recs cd e fs" "fs_frame {p} {w_file (e_wal e)} fs fs'"
    "fs_lookup fs' (flushPath e win (e_walSeq e + 1)) = None" "w_file w < fs_next fs'"
    "w_file w = fs_next fs" "fs_next fs' = Suc (fs_next fs)" "w_path w = p" "w_syncMode w = w_syncMode (e_wal e)"
    "fs_lookup fs' p = Some (fs_next fs)" "sealed_log (e_wal e) fs fs'"
proof -
  have ok: "data_ok cd G e fs" "store_ok cd G e (fs, c)" "names_ok G e fs" using assms(1) by (auto simp: engine_ok_def)
  from ok(2) obtain es rs where st: "fs_faults fs = []" "manifest_log (e_manifest e) fs es" "wal_log (e_wal e) fs rs"
    "w_file (e_wal e) < fs_next fs" by (auto simp: store_ok_def)
  have seq: "0 \<le> e_walSeq e" and un: "fs_lookup fs p = None" "fs_lookup fs (flushPath e win (e_walSeq e + 1)) = None"
    using ok(3) by (auto simp: names_ok_def unused_def p_def)
  from wal_Rotate_ok [OF st(1,3) un(1) st(4)] obtain w fs' where w: "wal_Rotate (e_wal e) p fs = (None, w, fs')"
    "wal_log w fs' []" "w_file w = fs_next fs" "w_path w = p" "fs_frame {p} {w_file (e_wal e)} fs fs'"
    "fs_next fs' = Suc (fs_next fs)" "w_syncMode w = w_syncMode (e_wal e)" "fs_lookup fs' p = Some (fs_next fs)"
    "fs_data fs' (w_file (e_wal e)) = wal_bytes rs" "fs_synced fs' (w_file (e_wal e)) = length (wal_bytes rs)" by metis
  then have seal: "sealed_log (e_wal e) fs fs'" using st(3) by (simp add: sealed_log_def wal_log_def)
  let ?e = "e\<lparr>e_wal := w, e_walSeq := e_walSeq e + 1\<rparr>"
  have same: "same_files G fs fs'" using fs_frame_same_files [OF ok(2) w(5)] by simp
  have live: "G p = None" "p \<noteq> mf_path (e_manifest e)" using ok(3) by (auto simp: names_ok_def p_def)
  have "\<forall>r \<in> set (all_readers e). same_file (r_file r) fs fs' \<and>
      fs_lookup fs' (sm_Path (r_meta r)) = fs_lookup fs (sm_Path (r_meta r))"
    using same data_ok_registered(1) [OF ok(1)] w(5) live(1) unfolding same_files_def fs_frame_def
    by (metis option.distinct(1) singletonD)
  note d = data_ok_same [OF ok(1) this]
  have "manifest_log (e_manifest e) fs' es"
    using st(2) ok(2) w(5) live(2) by (intro manifest_log_same [OF st(2)]) (auto simp: fs_frame_def store_ok_def)
  moreover have "cache_ok cd G (fs', c)" using ok(2) same by (auto simp: store_ok_def intro: cache_ok_same)
  ultimately have "store_ok cd G ?e (fs', c)"
    using ok(2) w(2,3,5,6) unfolding store_ok_def fs_frame_def by fastforce
  moreover have "names_ok G ?e fs'"
  proof -
    have "walPath e sq \<noteq> p" if "e_walSeq e + 1 < sq" for sq
      using that wal_name [of "e_walSeq e + 1" sq e] seq unfolding p_def by auto
    moreover have "p \<noteq> flushPath e v sq" "p \<noteq> compactPath e v sq" for v sq by (simp_all add: p_def)
    ultimately show ?thesis using ok(3) w(4,5) path_fields [of ?e e]
      by (auto simp: names_ok_def unused_def fs_frame_def p_def)
  qed
  ultimately have "engine_ok cd G ?e (fs', c)" using d(1) assms(1) by (simp add: engine_ok_def)
  moreover have "fs_lookup fs' (flushPath e win (e_walSeq e + 1)) = None"
    using w(5) un(2) by (simp add: fs_frame_def p_def)
  ultimately show ?thesis using that [of w fs'] w d(2) seal by simp
qed

text \<open>The limits of the formats: the file has a layout, the edit fits into the manifest.\<close>

definition flush_fits :: "codecs \<Rightarrow> Engine \<Rightarrow> PartitionWindow \<Rightarrow> file_sys \<Rightarrow> bool" where
  "flush_fits cd e win fs \<longleftrightarrow>
     (let p = flushPath e win (e_walSeq e + 1); wo = writerOptions e win;
          rs = mt_records (tp_mem (the (map_of (rt_partitions (e_router e)) win)))
      in layout_ok cd p (eff_opts wo) (merged_blocks wo rs) \<and>
         (\<forall>es. manifest_log (e_manifest e) fs es \<longrightarrow>
            edit_good (next_edit es (flush_edit p (merged_meta cd p wo rs)))))"


lemma raise_flushed_ok [simp]:
  "engine_ok cd G (raise_flushed win ts e) s = engine_ok cd G e s"
  "engine_recs cd (raise_flushed win ts e) fs = engine_recs cd e fs"
  "e_router (raise_flushed win ts e) = e_router e" "e_wal (raise_flushed win ts e) = e_wal e"
  "e_closed (raise_flushed win ts e) = e_closed e" "e_opts (raise_flushed win ts e) = e_opts e"
  "e_flushCh (raise_flushed win ts e) = e_flushCh e" "files_of (raise_flushed win ts e) w = files_of e w"
  by (simp_all add: raise_flushed_def files_of_def)

lemma file_recs_misc [simp]:
  "file_recs cd (e\<lparr>e_metrics := x\<rparr>) fs = file_recs cd e fs"
  "file_recs cd (e\<lparr>e_manifest := m\<rparr>) fs = file_recs cd e fs"
  "file_recs cd (e\<lparr>e_router := rt\<rparr>) fs = file_recs cd e fs"
  "file_recs cd (e\<lparr>e_wal := w\<rparr>) fs = file_recs cd e fs"
  "file_recs cd (e\<lparr>e_walSeq := n\<rparr>) fs = file_recs cd e fs"
  "file_recs cd (e\<lparr>e_compactCh := ch\<rparr>) fs = file_recs cd e fs"
  by (simp_all add: file_recs_def all_readers_def)

lemma flush_commit_ok:
  assumes "engine_ok cd G e (fs, c)" "map_of (rt_partitions (e_router e)) win \<noteq> None"
    and "p = flushPath e win (e_walSeq e)" "old = walPath e sq" "0 \<le> sq" "sq < e_walSeq e" "G p = None"
    and "fs_lookup fs p = Some f" "fs_data fs f = sst_layout cd p opts bs" "f < fs_next fs"
    "f \<noteq> mf_f (e_manifest e)" "f \<noteq> w_file (e_wal e)"
    and "layout_ok cd p opts bs" "bs \<noteq> []" "manifest_log (e_manifest e) fs es"
    "edit_good (next_edit es (flush_edit p (layout_meta cd p opts bs)))"
    and "\<forall>x \<in> set (concat bs). in_window win (Timestamp x) \<and> ts_ok (o_PartitionDuration (e_opts e)) (Timestamp x)"
  shows "\<exists>r e' fs'. flush_commit mm win old p (layout_meta cd p opts bs) e (fs, c) = (None, e', (fs', c)) \<and>
    engine_ok cd (G(p \<mapsto> r)) e' (fs', c) \<and> file_recs cd e' fs' = file_recs cd e fs + mset (concat bs) \<and>
    e_router e' = e_router e \<and> e_wal e' = e_wal e \<and> e_opts e' = e_opts e \<and> e_closed e' = e_closed e \<and>
    e_flushCh e' = e_flushCh e \<and> files_of e' win = files_of e win @ [r] \<and> recs_of cd fs' r = concat bs \<and>
    fs_lookup fs' old = None \<and> fs_frame {old} {mf_f (e_manifest e)} fs fs' \<and>
    r_meta r = layout_meta cd p opts bs \<and> r_file r = f \<and> fs_next fs' = fs_next fs \<and>
    manifest_log (e_manifest e') fs' (es @ [next_edit es (flush_edit p (layout_meta cd p opts bs))]) \<and>
    mset (all_readers e') = add_mset r (mset (all_readers e)) \<and>
    e_dir e' = e_dir e \<and> e_walSeq e' = e_walSeq e \<and> e_compactSeq e' = e_compactSeq e"
proof -
  let ?meta = "layout_meta cd p opts bs" let ?m = "e_manifest e"
  have ok: "store_ok cd G e (fs, c)" "names_ok G e fs" using assms(1) by (auto simp: engine_ok_def)
  then have ff: "fs_faults fs = []" "\<not> fs_bad fs f" by (auto simp: store_ok_def)
  from manifest_Append_ok [OF ff(1) assms(15,16)] obtain m' fs1 where
    ap: "manifest_Append ?m (flush_edit p ?meta) fs = (None, m', fs1)" "fs_faults fs1 = []" by blast
  note ap2 = manifest_Append_any [OF assms(15,16) ap(1)]
  note fr1 = fs_frame_own [OF ap2(1) ap(2)]
  have "cache_ok cd G (fs1, c)" using fs_frame_same_files [OF ok(1) fr1] ok(1)
    by (auto simp: store_ok_def intro: cache_ok_same)
  moreover have "harmless e {}" using ok(2) by (auto simp: harmless_def names_ok_def)
  ultimately have e1: "engine_ok cd G (e\<lparr>e_manifest := m'\<rparr>) (fs1, c)" "file_recs cd e fs1 = file_recs cd e fs"
    using engine_ok_frame [OF assms(1) fr1] ap2(4) by auto
  let ?fs2 = "snd (os_remove old fs1)" let ?e1 = "e\<lparr>e_manifest := m'\<rparr>"
  note rm = os_remove_frame [OF ap(2), of old]
  have pth: "walPath ?e1 = walPath e" "flushPath ?e1 = flushPath e" "compactPath ?e1 = compactPath e"
    using path_fields [of ?e1 e] by simp_all
  have n1: "names_ok G ?e1 fs1" "data_ok cd G ?e1 fs1" using e1(1) by (auto simp: engine_ok_def)
  have "harmless ?e1 {old}"
  proof -
    have "mf_path m' \<noteq> old" "\<forall>sq. G (walPath e sq) = None"
      using n1(1) assms(4) pth(1) by (auto simp: names_ok_def)
    then have "mf_path m' \<noteq> old" "\<forall>r \<in> set (all_readers ?e1). sm_Path (r_meta r) \<noteq> old"
      using data_ok_registered(1) [OF n1(2)] assms(4) by force+
    moreover have "walPath e sq \<noteq> walPath e q" if "e_walSeq e < q" for q
      using wal_name [OF assms(5), of q e] assms(5,6) that by auto
    then have "\<not> future ?e1 old" using assms(4) by (auto simp: future_def pth)
    ultimately show ?thesis by (simp add: harmless_def)
  qed
  note e2 = engine_ok_names [OF e1(1) rm(1) this]
  have f2: "fs_lookup ?fs2 p = Some f" "fs_data ?fs2 f = sst_layout cd p opts bs" "\<not> fs_bad ?fs2 f"
    "fs_next ?fs2 = fs_next fs"
    using rm fr1 ap2(1) assms(3,4,8-11) ff(2) by (auto simp: fs_frame_def own_file_def)
  from NewReader_layout [OF assms(13) f2(1-3), of mm "e_cached e"] obtain r where
    r: "NewReader mm p (e_cached e) ?fs2 = (Inr r, ?fs2)" "layout_reader cd p opts bs r" "r_file r = f"
      "reads_as cd r ?fs2 bs" by auto
  have path: "sm_Path (r_meta r) = p" using r(2) by (simp add: layout_reader_def layout_meta_def Let_def)
  have mf: "mf_f m' = mf_f ?m" "mf_path m' = path_join (e_dir e) ''MANIFEST''" using ap2(4) ok(2) by (auto simp: names_ok_def)
  note inst = engine_ok_install [OF e2(1), of win r bs, unfolded path]
  have e3: "engine_ok cd (G(p \<mapsto> r)) (set_files win (files_of ?e1 win @ [r]) ?e1) (?fs2, c)"
    "file_recs cd (set_files win (files_of ?e1 win @ [r]) ?e1) ?fs2 = file_recs cd ?e1 ?fs2 + mset (concat bs)"
    using inst assms(2,3,7,10-12,14,17) f2 r(3,4) mf pth by auto
  let ?x = "(e_metrics e)\<lparr>m_FlushedTotal := inc (m_FlushedTotal (e_metrics e))\<rparr>"
  define x where "x = (case os_Stat p fs1 of None \<Rightarrow> ?x
     | Some n \<Rightarrow> ?x\<lparr>m_SSTFilesTotal := inc (m_SSTFilesTotal ?x), m_SSTBytesTotal := m_SSTBytesTotal ?x + n,
         m_BytesFlushedTotal := m_BytesFlushedTotal ?x + n\<rparr>)"
  let ?e3 = "raise_flushed win (sm_MaxTimestamp ?meta) (set_files win (files_of ?e1 win @ [r]) (?e1\<lparr>e_metrics := x\<rparr>))"
  let ?e4 = "?e3\<lparr>e_compactCh := chan_send (e_compactCh ?e3) win\<rparr>"
  have sf: "set_files win us (?e1\<lparr>e_metrics := x\<rparr>) = (set_files win us ?e1)\<lparr>e_metrics := x\<rparr>" for us
    by (simp add: set_files_def)
  have "flush_commit mm win old p ?meta e (fs, c) = (None, ?e4, (?fs2, c))"
    using ap(1) r(1) unfolding flush_commit_def by (simp add: Let_def flush_install_def files_of_def flip: x_def)
  moreover have "engine_ok cd (G(p \<mapsto> r)) ?e4 (?fs2, c)" using e3(1) sf by (simp add: files_of_def)
  moreover have "file_recs cd ?e4 ?fs2 = file_recs cd e fs + mset (concat bs)"
    using e3(2) e2(2) e1(2) by (simp add: sf files_of_def) (simp add: file_recs_def all_readers_def raise_flushed_def)
  moreover have "fs_frame {old} {mf_f ?m} fs ?fs2" using fs_frame_trans [OF fr1 rm(1)] by simp
  moreover have "manifest_log m' ?fs2 (es @ [next_edit es (flush_edit p ?meta)])"
  proof (rule manifest_log_same [of m' fs1])
    have "mf_path m' \<noteq> old" using mf(2) assms(4) by simp
    then show "fs_lookup ?fs2 (mf_path m') = fs_lookup fs1 (mf_path m')" using rm(1) by (simp add: fs_frame_def)
    have "mf_f m' < fs_next fs1" using e1(1) by (simp add: engine_ok_def store_ok_def)
    then show "fs_synced ?fs2 (mf_f m') = fs_synced fs1 (mf_f m')" using rm(1) by (simp add: fs_frame_def)
  qed (use ap2(4) rm in \<open>simp_all add: fs_frame_def\<close>)
  moreover have "mset (all_readers ?e4) = add_mset r (mset (all_readers e))"
  proof -
    have "distinct (map fst (e_files e))" using n1(2) by (simp add: data_ok_def)
    from all_readers_split [OF this, of win] obtain X Y where
      "all_readers e = X @ files_of e win @ Y" "all_readers (set_files win (files_of e win @ [r]) e) = X @ (files_of e win @ [r]) @ Y" by metis
    then show ?thesis by (simp add: all_readers_def set_files_def raise_flushed_def files_of_def)
  qed
  moreover have "r_meta r = ?meta" using r(2) by (simp add: layout_reader_def)
  ultimately show ?thesis using rm(2) recs_of_reads [OF r(4)] f2(4) r(3)
    by (intro exI [of _ r] exI [of _ ?e4] exI [of _ ?fs2]) (simp add: set_files_def files_of_def update_conv' raise_flushed_def)
qed


text \<open>The swap of the memtable takes its records out of the router.\<close>

lemma SwapMemtable_ok:
  assumes "engine_ok cd G e s" "map_of (rt_partitions (e_router e)) win = Some p"
  defines "rt \<equiv> set_partition (e_router e) win (p\<lparr>tp_mem := memtable_New\<rparr>)"
  shows "engine_ok cd G (e\<lparr>e_router := rt\<rparr>) s" "mem_recs rt + mset (mt_records (tp_mem p)) = mem_recs (e_router e)"
    "map_of (rt_partitions rt) = (map_of (rt_partitions (e_router e)))(win \<mapsto> p\<lparr>tp_mem := memtable_New\<rparr>)"
proof -
  let ?q = "p\<lparr>tp_mem := memtable_New\<rparr>"
  have d: "rt_inv (e_router e)" "\<forall>x \<in># mem_recs (e_router e). ts_ok (o_PartitionDuration (e_opts e)) (Timestamp x)"
    using assms(1) by (auto simp: engine_ok_def data_ok_def)
  note l = rt_inv_lookup [OF d(1) assms(2)]
  have s: "rt_inv rt" "mem_recs rt + mset (mt_records (tp_mem p)) = mem_recs (e_router e)"
    "map_of (rt_partitions rt) = (map_of (rt_partitions (e_router e)))(win \<mapsto> ?q)"
    using set_partition_ok [OF d(1) assms(2), of ?q] l by (auto simp: rt_def)
  then show "mem_recs rt + mset (mt_records (tp_mem p)) = mem_recs (e_router e)"
    "map_of (rt_partitions rt) = (map_of (rt_partitions (e_router e)))(win \<mapsto> ?q)" by auto
  have "rt_windowDuration rt = rt_windowDuration (e_router e)" by (simp add: rt_def set_partition_def)
  moreover have "\<forall>x \<in># mem_recs rt. ts_ok (o_PartitionDuration (e_opts e)) (Timestamp x)"
    using d(2) unfolding s(2) [symmetric] by simp
  ultimately show "engine_ok cd G (e\<lparr>e_router := rt\<rparr>) s"
    using engine_ok_router(1) [OF assms(1) s(1)] s(3) by simp
qed

lemma partition_recs:
  assumes "data_ok cd G e fs" "map_of (rt_partitions (e_router e)) win = Some p" "x \<in> set (mt_records (tp_mem p))"
  shows "in_window win (Timestamp x)" "ts_ok (o_PartitionDuration (e_opts e)) (Timestamp x)"
proof -
  have d: "rt_inv (e_router e)" "\<forall>x \<in># mem_recs (e_router e). ts_ok (o_PartitionDuration (e_opts e)) (Timestamp x)"
    using assms(1) by (auto simp: data_ok_def)
  show "in_window win (Timestamp x)" using rt_inv_lookup [OF d(1) assms(2)] assms(3) by blast
  have "p \<in> set (router_All (e_router e))" using assms(2) by (force simp: router_All_def dest: map_of_SomeD)
  then have "x \<in># mem_recs (e_router e)" using assms(3) by (auto simp: mem_recs_def)
  then show "ts_ok (o_PartitionDuration (e_opts e)) (Timestamp x)" using d(2) by blast
qed

lemma cut_blocks_empty: "cut_blocks n [] rs = [] \<longleftrightarrow> rs = []"
  using concat_cut_blocks [of n "[]" rs] by (cases rs) auto

text \<open>The log moves on to its next segment; the last one is complete, on stable storage or removed.\<close>

definition rotated :: "Engine \<Rightarrow> file_sys \<Rightarrow> Engine \<Rightarrow> file_sys \<Rightarrow> bool" where
  "rotated e fs e' fs' \<longleftrightarrow> e_dir e' = e_dir e \<and> e_walSeq e' = e_walSeq e + 1 \<and> w_file (e_wal e') = fs_next fs \<and>
     w_syncMode (e_wal e') = w_syncMode (e_wal e) \<and> fs_lookup fs' (walPath e (e_walSeq e + 1)) = Some (fs_next fs) \<and>
     fs_lookup fs' (walPath e (e_walSeq e)) \<in> {None, fs_lookup fs (walPath e (e_walSeq e))} \<and> sealed_log (e_wal e) fs fs'"

lemma flush_disk_edit:
  assumes "engine_ok cd G e (fs, c)" "e_dir e' = e_dir e" "e_walSeq e' = e_walSeq e + 1" "e_compactSeq e' = e_compactSeq e"
    and "fs_frame (W \<union> rpath ` set news) F fs fs'" "fs_inj fs \<Longrightarrow> fs_inj fs'"
    and "\<And>es. manifest_log (e_manifest e) fs es \<Longrightarrow> \<exists>eds. manifest_log (e_manifest e') fs' (es @ eds) \<and>
      added eds = map entry_of news \<and> deleted eds = [] \<and> (\<forall>ed \<in> set eds. length (ve_AddedFiles ed) \<le> 1)"
    and "mset (all_readers e') = mset (all_readers e) + mset news"
    and "\<forall>r \<in> set news. sst_stored cd fs' (o_PartitionDuration (e_opts e)) r \<and> rpath r = flushPath e win (e_walSeq e + 1)"
  shows "disk_edit cd W F e fs e' fs' news []"
proof -
  note pf = path_fields [OF assms(2)]
  have sq: "0 \<le> e_walSeq e" "0 \<le> e_compactSeq e" using assms(1) by (auto simp: engine_ok_def names_ok_def)
  have "future e (flushPath e win (e_walSeq e + 1))"
    unfolding future_def by (intro exI [of _ win] exI [of _ "e_walSeq e + 1"]) simp
  moreover have "\<not> future e' (flushPath e win (e_walSeq e + 1))"
  proof
    assume "future e' (flushPath e win (e_walSeq e + 1))"
    then obtain v q where "e_walSeq e + 1 < q \<and> flushPath e win (e_walSeq e + 1) = flushPath e v q \<or>
        e_compactSeq e < q \<and> flushPath e win (e_walSeq e + 1) = compactPath e v q"
      unfolding future_def pf assms(3,4) by auto
    then show False using sst_name(1) [of "e_walSeq e + 1" q e win v] sst_name(3) [of "e_walSeq e + 1" q e win v] sq by auto
  qed
  moreover have "future e' p \<Longrightarrow> future e p" for p
    unfolding future_def pf assms(3,4) by (elim exE, rule_tac x = w in exI, rule_tac x = sq in exI) auto
  ultimately show ?thesis unfolding disk_edit_def using assms(5-9) by (simp add: fs_frame_def sst_suffix)
qed

lemma rotated_later:
  assumes "engine_ok cd G e (fs, c)" "fs_frame {walPath e (e_walSeq e + 1)} {w_file (e_wal e)} fs fs1"
    and "fs_lookup fs1 (walPath e (e_walSeq e + 1)) = Some (fs_next fs)" "sealed_log (e_wal e) fs fs1"
    and "fs_frame N {mf_f (e_manifest e)} fs1 fs'" "walPath e (e_walSeq e + 1) \<notin> N"
    and "walPath e (e_walSeq e) \<notin> N \<or> fs_lookup fs' (walPath e (e_walSeq e)) = None"
    and "e_dir e' = e_dir e" "e_walSeq e' = e_walSeq e + 1" "w_file (e_wal e') = fs_next fs" "w_syncMode (e_wal e') = w_syncMode (e_wal e)"
  shows "rotated e fs e' fs'"
proof -
  have "0 \<le> e_walSeq e" "w_file (e_wal e) \<noteq> mf_f (e_manifest e)" "w_file (e_wal e) < fs_next fs"
    using assms(1) by (auto simp: engine_ok_def names_ok_def store_ok_def)
  note e = this
  have "walPath e (e_walSeq e) \<noteq> walPath e (e_walSeq e + 1)" using wal_name [of "e_walSeq e" "e_walSeq e + 1" e] e(1) by auto
  then have "fs_lookup fs' (walPath e (e_walSeq e)) \<in> {None, fs_lookup fs (walPath e (e_walSeq e))}"
    using assms(2,5,7) by (auto simp: fs_frame_def)
  moreover have "fs_data fs' (w_file (e_wal e)) = fs_data fs1 (w_file (e_wal e))" "fs_synced fs' (w_file (e_wal e)) = fs_synced fs1 (w_file (e_wal e))"
    using assms(2,5) e(2,3) by (auto simp: fs_frame_def)
  then have "sealed_log (e_wal e) fs fs'" using assms(4) by (simp add: sealed_log_def)
  ultimately show ?thesis using assms(3,5,6,8-11) by (simp add: rotated_def fs_frame_def)
qed

text \<open>
  The middle of a flush: the log is rotated (\<open>fs1\<close>), the memtable swapped, the file of its records
  written (\<open>fs4\<close>).
\<close>

abbreviation swapped :: "Engine \<Rightarrow> PartitionWindow \<Rightarrow> TimePartition \<Rightarrow> wal_state \<Rightarrow> Engine" where
  "swapped e win p w \<equiv> e\<lparr>e_wal := w, e_walSeq := e_walSeq e + 1,
     e_router := set_partition (e_router e) win (p\<lparr>tp_mem := memtable_New\<rparr>)\<rparr>"

abbreviation flush_bytes :: "codecs \<Rightarrow> Engine \<Rightarrow> PartitionWindow \<Rightarrow> TimePartition \<Rightarrow> bytes" where
  "flush_bytes cd e win p \<equiv> sst_layout cd (flushPath e win (e_walSeq e + 1)) (eff_opts (writerOptions e win))
     (merged_blocks (writerOptions e win) (mt_records (tp_mem p)))"

definition flush_ready :: "codecs \<Rightarrow> (path \<rightharpoonup> sst_reader) \<Rightarrow> Engine \<Rightarrow> PartitionWindow \<Rightarrow> TimePartition \<Rightarrow> wal_state \<Rightarrow>
    file_sys \<Rightarrow> file_sys \<Rightarrow> file_sys \<Rightarrow> block_cache \<Rightarrow> bool" where
  "flush_ready cd G e win p w fs fs1 fs4 c \<longleftrightarrow>
     (let np = walPath e (e_walSeq e + 1); sp = flushPath e win (e_walSeq e + 1) in
      engine_ok cd G (swapped e win p w) (fs1, c) \<and> wal_log w fs1 [] \<and> file_recs cd e fs1 = file_recs cd e fs \<and>
      fs_frame {np} {w_file (e_wal e)} fs fs1 \<and> fs_lookup fs1 sp = None \<and> w_file w = fs_next fs \<and>
      fs_next fs1 = Suc (fs_next fs) \<and> w_syncMode w = w_syncMode (e_wal e) \<and> fs_lookup fs1 np = Some (fs_next fs) \<and>
      sealed_log (e_wal e) fs fs1 \<and> fs_written sp (flush_bytes cd e win p) fs1 fs4 \<and> fs_frame {sp} {} fs1 fs4 \<and>
      harmless (swapped e win p w) {sp} \<and> (fs_inj fs \<longrightarrow> fs_inj fs4))"

lemma flush_harmless:
  assumes "engine_ok cd G (swapped e win p w) (fs, c)" "G (flushPath e win (e_walSeq e + 1)) = None" "names_ok G e fs0"
  shows "harmless (swapped e win p w) {flushPath e win (e_walSeq e + 1)}"
proof -
  let ?e = "swapped e win p w" let ?n = "e_walSeq e + 1" let ?sp = "flushPath e win ?n"
  have "names_ok G ?e fs" "data_ok cd G ?e fs" using assms(1) by (auto simp: engine_ok_def)
  then have "mf_path (e_manifest e) \<noteq> ?sp" "\<forall>r \<in> set (all_readers ?e). sm_Path (r_meta r) \<noteq> ?sp"
    using data_ok_registered(1) [of cd G ?e fs] assms(2) by (simp add: names_ok_def, metis option.distinct(1))
  note live = this
  have sq: "0 \<le> e_walSeq e" "0 \<le> e_compactSeq e" using assms(3) by (auto simp: names_ok_def)
  then have "?sp \<noteq> flushPath e v q" if "?n < q" for v q using sst_name(1) [of ?n q e win v] that by auto
  moreover have "?sp \<noteq> compactPath e v q" if "e_compactSeq e < q" for v q using sst_name(3) [of ?n q e win v] sq that by simp
  ultimately have "\<not> future ?e ?sp" using path_fields [of ?e e] unfolding future_def by simp
  with live show ?thesis by (simp add: harmless_def)
qed

lemma flush_ready_ok:
  assumes "engine_ok cd G e (fs, c)" "map_of (rt_partitions (e_router e)) win = Some p"
  defines "sp \<equiv> flushPath e win (e_walSeq e + 1)" and "meta \<equiv> merged_meta cd (flushPath e win (e_walSeq e + 1)) (writerOptions e win) (mt_records (tp_mem p))"
  shows "\<exists>w fs1 fs4. flush_ready cd G e win p w fs fs1 fs4 c \<and> flushPartition cd mm e win (fs, c) =
    (if sm_RecordCount meta = 0 then (None, swapped e win p w, (snd (os_remove sp fs4), c))
     else flush_commit mm win (walPath e (e_walSeq e)) sp meta (swapped e win p w) (fs4, c))"
proof -
  let ?n = "e_walSeq e + 1" let ?np = "walPath e ?n" let ?wo = "writerOptions e win" let ?rs = "mt_records (tp_mem p)"
  have ok: "data_ok cd G e fs" "names_ok G e fs" "o_CompressionType (e_opts e) \<le> 2"
    using assms(1) by (auto simp: engine_ok_def)
  from engine_ok_rotate [OF assms(1), of win] obtain w fs1 where rot: "wal_Rotate (e_wal e) ?np fs = (None, w, fs1)"
    "wal_log w fs1 []" "engine_ok cd G (e\<lparr>e_wal := w, e_walSeq := ?n\<rparr>) (fs1, c)"
    "file_recs cd e fs1 = file_recs cd e fs" "fs_frame {?np} {w_file (e_wal e)} fs fs1" "fs_lookup fs1 sp = None"
    "w_file w = fs_next fs" "fs_next fs1 = Suc (fs_next fs)" "w_syncMode w = w_syncMode (e_wal e)"
    "fs_lookup fs1 ?np = Some (fs_next fs)" "sealed_log (e_wal e) fs fs1" unfolding sp_def by metis
  let ?e1 = "e\<lparr>e_wal := w, e_walSeq := ?n\<rparr>"
  have swap: "engine_ok cd G (swapped e win p w) (fs1, c)" using SwapMemtable_ok [OF rot(3), of win p] assms(2) by simp
  have st: "fs_faults fs1 = []" using rot(3) by (auto simp: engine_ok_def store_ok_def)
  have inv: "memtable_inv (tp_mem p)" using rt_inv_lookup [of "e_router e" win p] ok(1) assms(2) by (simp add: data_ok_def)
  have "\<forall>x \<in> set ?rs. Timestamp x < MaxInt64" using partition_recs(2) [OF ok(1) assms(2)] by (fastforce simp: ts_ok_def)
  from flush_write_ok [OF st _ inv this, of ?wo sp cd] ok(3) obtain wr fs2 wr' fs3 fs4 where
    wr: "NewWriter sp ?wo fs1 = (Inr wr, fs2)" "flush_loop cd (memtable_Freeze (tp_mem p)) wr fs2 = (None, wr', fs3)"
    "sst_Finish cd wr' fs3 = (Inr meta, fs4)" "fs_written sp (flush_bytes cd e win p) fs1 fs4"
    unfolding sp_def meta_def by (metis WriterOptions.select_convs(5) writerOptions_def)
  note fr = fs_frame_written [OF wr(4) st rot(6)]
  have "flushPartition cd mm e win (fs, c) =
      (if sm_RecordCount meta = 0 then (None, swapped e win p w, (snd (os_remove sp fs4), c))
       else flush_commit mm win (walPath e (e_walSeq e)) sp meta (swapped e win p w) (fs4, c))"
    using rot(1) wr(1-3) assms(2) path_fields [of "swapped e win p w" e] path_fields [of ?e1 e]
    by (simp add: flushPartition_def Let_def SwapMemtable_def writerOptions_def sp_def)
  moreover have "G sp = None" using ok(2) by (auto simp: names_ok_def unused_def sp_def)
  then have "harmless (swapped e win p w) {sp}" unfolding sp_def using flush_harmless [OF swap _ ok(2)] by blast
  moreover have "fs_inj fs4" if "fs_inj fs"
  proof -
    have "fs_inj fs1" using that rot(5,8,10) by (intro fs_inj_new [OF that, of _ ?np]) (auto simp: fs_frame_def)
    then show ?thesis using fr wr(4) rot(6)
      by (intro fs_inj_new [of fs1 fs4 sp]) (auto simp: fs_frame_def fs_written_def fs_created_def)
  qed
  ultimately show ?thesis using rot swap wr(4) fr
    by (intro exI [of _ w] exI [of _ fs1] exI [of _ fs4]) (simp add: flush_ready_def sp_def)
qed

text \<open>A memtable without records: the new file is removed again.\<close>

lemma flush_ready_empty:
  assumes "engine_ok cd G e (fs, c)" "flush_ready cd G e win p w fs fs1 fs4 c"
  defines "fs' \<equiv> snd (os_remove (flushPath e win (e_walSeq e + 1)) fs4)" and "e' \<equiv> swapped e win p w"
  shows "engine_ok cd G e' (fs', c)" "file_recs cd e fs' = file_recs cd e fs" "wal_log w fs' []" "rotated e fs e' fs'"
    "disk_edit cd {walPath e (e_walSeq e + 1), walPath e (e_walSeq e)} {mf_f (e_manifest e), w_file (e_wal e)} e fs e' fs' [] []"
proof -
  let ?n = "e_walSeq e + 1" let ?np = "walPath e ?n" let ?sp = "flushPath e win ?n" let ?old = "walPath e (e_walSeq e)"
  have ok: "store_ok cd G e (fs, c)" "names_ok G e fs" using assms(1) by (auto simp: engine_ok_def)
  have f: "engine_ok cd G e' (fs1, c)" "wal_log w fs1 []" "file_recs cd e fs1 = file_recs cd e fs"
    "fs_frame {?np} {w_file (e_wal e)} fs fs1" "w_file w = fs_next fs" "fs_next fs1 = Suc (fs_next fs)"
    "w_syncMode w = w_syncMode (e_wal e)" "fs_lookup fs1 ?np = Some (fs_next fs)" "sealed_log (e_wal e) fs fs1"
    "fs_frame {?sp} {} fs1 fs4" "harmless e' {?sp}" "fs_inj fs \<Longrightarrow> fs_inj fs4"
    using assms(2) by (simp_all add: flush_ready_def Let_def e'_def)
  have "fs_faults fs4 = []" using f(10) by (simp add: fs_frame_def)
  note gone = os_remove_frame [OF this, of ?sp, folded fs'_def]
  from fs_frame_trans [OF f(10) gone(1)] have fr: "fs_frame {?sp} {} fs1 fs'" by simp
  show "engine_ok cd G e' (fs', c)" by (rule engine_ok_names(1) [OF f(1) fr f(11)])
  show "file_recs cd e fs' = file_recs cd e fs" using engine_ok_names(2) [OF f(1) fr f(11)] f(3) by (simp add: e'_def)
  show "wal_log w fs' []" using f(5,6) fr by (intro wal_log_same [OF f(2)]) (auto simp: fs_frame_def)
  have "fs_frame {?sp} {mf_f (e_manifest e)} fs1 fs'" using fs_frame_mono [OF fr] by blast
  then show "rotated e fs e' fs'" using f(5,7) by (intro rotated_later [OF assms(1) f(4,8,9)]) (auto simp: e'_def)
  show "disk_edit cd {?np, ?old} {mf_f (e_manifest e), w_file (e_wal e)} e fs e' fs' [] []"
  proof (rule flush_disk_edit [OF assms(1)])
    have "fs_lookup fs ?sp = None" using ok(2) by (auto simp: names_ok_def unused_def)
    then show "fs_frame ({?np, ?old} \<union> rpath ` set []) {mf_f (e_manifest e), w_file (e_wal e)} fs fs'"
      using fs_frame_trans [OF f(4) fr] gone(2) by (auto simp: fs_frame_def) metis
    show "fs_inj fs'" if "fs_inj fs" by (rule fs_inj_removed [OF f(12) [OF that] gone(1)]) (use gone(2) in simp)
    show "\<exists>eds. manifest_log (e_manifest e') fs' (es @ eds) \<and> added eds = map entry_of [] \<and>
        deleted eds = [] \<and> (\<forall>ed \<in> set eds. length (ve_AddedFiles ed) \<le> 1)" if "manifest_log (e_manifest e) fs es" for es
      using ok f(4) fr by (intro exI [of _ "[]"])
        (auto simp: e'_def added_def deleted_def fs_frame_def store_ok_def names_ok_def intro!: manifest_log_same [OF that])
  qed (simp_all add: all_readers_def e'_def)
qed

text \<open>A memtable with records: the file is committed.\<close>

lemma flush_ready_commit:
  assumes "engine_ok cd G e (fs, c)" "map_of (rt_partitions (e_router e)) win = Some p" "flush_fits cd e win fs"
    and "flush_ready cd G e win p w fs fs1 fs4 c" "mt_records (tp_mem p) \<noteq> []"
  defines "sp \<equiv> flushPath e win (e_walSeq e + 1)" and "old \<equiv> walPath e (e_walSeq e)" and "rs \<equiv> mt_records (tp_mem p)"
  shows "\<exists>r e' fs'. flush_commit mm win old sp (merged_meta cd sp (writerOptions e win) rs) (swapped e win p w) (fs4, c) = (None, e', (fs', c)) \<and>
    engine_ok cd (G(sp \<mapsto> r)) e' (fs', c) \<and> file_recs cd e' fs' = file_recs cd e fs + mset rs \<and>
    e_router e' = set_partition (e_router e) win (p\<lparr>tp_mem := memtable_New\<rparr>) \<and> e_wal e' = w \<and> e_opts e' = e_opts e \<and>
    e_closed e' = e_closed e \<and> e_flushCh e' = e_flushCh e \<and> fs_lookup fs' old = None \<and> wal_log w fs' [] \<and> rotated e fs e' fs' \<and>
    disk_edit cd {walPath e (e_walSeq e + 1), old} {mf_f (e_manifest e), w_file (e_wal e)} e fs e' fs' [r] [] \<and>
    r_meta r = merged_meta cd sp (writerOptions e win) rs \<and>
    (\<forall>es. manifest_log (e_manifest e) fs es \<longrightarrow> manifest_log (e_manifest e') fs' (es @ [next_edit es (flush_edit sp (r_meta r))]))"
proof -
  let ?n = "e_walSeq e + 1" let ?np = "walPath e ?n" let ?wo = "writerOptions e win" let ?e2 = "swapped e win p w"
  let ?bs = "merged_blocks ?wo rs" let ?meta = "merged_meta cd sp ?wo rs" let ?dur = "o_PartitionDuration (e_opts e)"
  have ok: "data_ok cd G e fs" "store_ok cd G e (fs, c)" "names_ok G e fs" using assms(1) by (auto simp: engine_ok_def)
  have f: "engine_ok cd G ?e2 (fs1, c)" "wal_log w fs1 []" "file_recs cd e fs1 = file_recs cd e fs"
    "fs_frame {?np} {w_file (e_wal e)} fs fs1" "w_file w = fs_next fs" "fs_next fs1 = Suc (fs_next fs)"
    "w_syncMode w = w_syncMode (e_wal e)" "fs_lookup fs1 ?np = Some (fs_next fs)" "sealed_log (e_wal e) fs fs1"
    "fs_written sp (sst_layout cd sp (eff_opts ?wo) ?bs) fs1 fs4" "fs_frame {sp} {} fs1 fs4" "harmless ?e2 {sp}"
    "fs_inj fs \<Longrightarrow> fs_inj fs4" "fs_lookup fs1 sp = None"
    using assms(4) by (simp_all add: flush_ready_def Let_def sp_def rs_def)
  have fits: "layout_ok cd sp (eff_opts ?wo) ?bs" "\<And>es. manifest_log (e_manifest e) fs es \<Longrightarrow> edit_good (next_edit es (flush_edit sp ?meta))"
    using assms(2,3) by (auto simp: flush_fits_def Let_def rs_def sp_def)
  have recs: "\<forall>x \<in> set (concat ?bs). in_window win (Timestamp x) \<and> ts_ok ?dur (Timestamp x)"
    using partition_recs [OF ok(1) assms(2)] unfolding rs_def concat_cut_blocks by simp
  have new: "fs_lookup fs4 sp = Some (fs_next fs1)" "fs_data fs4 (fs_next fs1) = sst_layout cd sp (eff_opts ?wo) ?bs"
    "fs_next fs4 = Suc (fs_next fs1)" "fs_synced fs4 (fs_next fs1) = length (fs_data fs4 (fs_next fs1))"
    using f(10,14) by (auto simp: fs_written_def fs_created_def)
  have st: "mf_f (e_manifest e) < fs_next fs1" "w_file w \<noteq> mf_f (e_manifest e)" using f(1) by (auto simp: engine_ok_def store_ok_def)
  have sq: "0 \<le> e_walSeq e" and gs: "G sp = None" using ok(3) by (auto simp: names_ok_def unused_def sp_def)
  have nps: "?np \<noteq> sp" "old \<noteq> sp" "old \<noteq> ?np" using wal_name [of "e_walSeq e" ?n e] sq by (auto simp: old_def sp_def)
  note e4 = engine_ok_names [OF f(1,11,12)]
  from ok(2) obtain es where es: "manifest_log (e_manifest e) fs es" by (auto simp: store_ok_def)
  have es4: "manifest_log (e_manifest e) fs4 es"
    using ok(2,3) f(4,11) by (intro manifest_log_same [OF es]) (auto simp: fs_frame_def store_ok_def names_ok_def sp_def)
  have ne: "?bs \<noteq> []" using assms(5) by (simp add: cut_blocks_empty rs_def)
  have "map_of (rt_partitions (e_router ?e2)) win \<noteq> None" using assms(2) by (simp add: set_partition_def update_conv')
  from flush_commit_ok [OF e4(1) this, of sp old "e_walSeq e" "fs_next fs1" "eff_opts ?wo" ?bs es mm]
  obtain r e' fs' where cm: "flush_commit mm win old sp ?meta ?e2 (fs4, c) = (None, e', (fs', c))"
    "engine_ok cd (G(sp \<mapsto> r)) e' (fs', c)" "file_recs cd e' fs' = file_recs cd e fs4 + mset rs"
    "e_router e' = e_router ?e2" "e_wal e' = w" "e_opts e' = e_opts e" "e_closed e' = e_closed e" "e_flushCh e' = e_flushCh e"
    "fs_lookup fs' old = None" "fs_frame {old} {mf_f (e_manifest e)} fs4 fs'" "r_meta r = ?meta" "r_file r = fs_next fs1"
    "manifest_log (e_manifest e') fs' (es @ [next_edit es (flush_edit sp ?meta)])"
    "mset (all_readers e') = add_mset r (mset (all_readers e))" "e_dir e' = e_dir e" "e_walSeq e' = ?n" "e_compactSeq e' = e_compactSeq e"
    "recs_of cd fs' r = concat ?bs"
    using sq gs new st fits es es4 ne recs path_fields [of ?e2 e] f(5,6)
    by (auto simp: concat_cut_blocks all_readers_def old_def sp_def)
  have rp: "rpath r = sp" using cm(11) by (simp add: layout_meta_def Let_def)
  have fr: "fs_frame {old, sp} {mf_f (e_manifest e)} fs1 fs'" using fs_frame_trans [OF f(11) cm(10)] by simp
  have "disk_edit cd {?np, old} {mf_f (e_manifest e), w_file (e_wal e)} e fs e' fs' [r] []"
  proof (rule flush_disk_edit [OF assms(1) cm(15-17)])
    show "fs_frame ({?np, old} \<union> rpath ` set [r]) {mf_f (e_manifest e), w_file (e_wal e)} fs fs'"
      using fs_frame_trans [OF f(4) fr] rp by (simp add: insert_commute)
    show "fs_inj fs'" if "fs_inj fs" by (rule fs_inj_removed [OF f(13) [OF that] cm(10)]) (use cm(9) in simp)
    show "\<exists>eds. manifest_log (e_manifest e') fs' (es' @ eds) \<and> added eds = map entry_of [r] \<and>
        deleted eds = [] \<and> (\<forall>ed \<in> set eds. length (ve_AddedFiles ed) \<le> 1)" if "manifest_log (e_manifest e) fs es'" for es'
      using cm(11,13) manifest_log_unique [OF that es] rp
      by (intro exI [of _ "[next_edit es (flush_edit sp ?meta)]"])
        (simp add: added_def deleted_def next_edit_def flush_edit_def meta_entry_def)
    have "sst_stored cd fs' ?dur r"
      using new cm(10,12) nps st(1)
      by (intro sst_storedI [OF cm(11) fits(1) ne _ _ _ cm(18) _ _ recs]) (auto simp: fs_frame_def eff_opts_def writerOptions_def)
    then show "\<forall>x \<in> set [r]. sst_stored cd fs' ?dur x \<and> rpath x = flushPath e win ?n" using rp by (simp add: sp_def)
  qed (use cm(14) in simp)
  moreover have "rotated e fs e' fs'"
    using nps cm(5,9,15,16) f(5,7) by (intro rotated_later [OF assms(1) f(4,8,9) fr]) (auto simp: old_def)
  moreover have "wal_log w fs' []" using fr f(5,6) st(2) by (intro wal_log_same [OF f(2)]) (auto simp: fs_frame_def)
  moreover have "file_recs cd e fs4 = file_recs cd e fs" using e4(2) f(3) by simp
  moreover have "manifest_log (e_manifest e') fs' (es' @ [next_edit es' (flush_edit sp (r_meta r))])"
    if "manifest_log (e_manifest e) fs es'" for es' using cm(11,13) manifest_log_unique [OF that es] by simp
  ultimately show ?thesis using cm by (intro exI [of _ r] exI [of _ e'] exI [of _ fs']) simp
qed

lemma flushPartition_ok:
  assumes "engine_ok cd G e (fs, c)" "map_of (rt_partitions (e_router e)) win = Some p" "flush_fits cd e win fs"
  defines "rs \<equiv> mt_records (tp_mem p)" and "old \<equiv> walPath e (e_walSeq e)"
  shows "\<exists>G' e' fs'. flushPartition cd mm e win (fs, c) = (None, e', (fs', c)) \<and> engine_ok cd G' e' (fs', c) \<and>
    engine_recs cd e' fs' = engine_recs cd e fs \<and> mem_recs (e_router e') + mset rs = mem_recs (e_router e) \<and>
    e_router e' = set_partition (e_router e) win (p\<lparr>tp_mem := memtable_New\<rparr>) \<and>
    e_opts e' = e_opts e \<and> e_closed e' = e_closed e \<and> e_flushCh e' = e_flushCh e \<and>
    wal_log (e_wal e') fs' [] \<and> (rs \<noteq> [] \<longrightarrow> fs_lookup fs' old = None) \<and> rotated e fs e' fs' \<and>
    (\<exists>news. disk_edit cd {walPath e (e_walSeq e + 1), old} {mf_f (e_manifest e), w_file (e_wal e)} e fs e' fs' news [])"
proof -
  let ?sp = "flushPath e win (e_walSeq e + 1)" let ?meta = "merged_meta cd ?sp (writerOptions e win) rs"
  from flush_ready_ok [OF assms(1,2), of mm] obtain w fs1 fs4 where rd: "flush_ready cd G e win p w fs fs1 fs4 c"
    "flushPartition cd mm e win (fs, c) = (if sm_RecordCount ?meta = 0 then (None, swapped e win p w, (snd (os_remove ?sp fs4), c))
     else flush_commit mm win old ?sp ?meta (swapped e win p w) (fs4, c))" unfolding rs_def old_def by blast
  have "layout_ok cd ?sp (eff_opts (writerOptions e win)) (merged_blocks (writerOptions e win) rs)"
    using assms(2,3) by (auto simp: flush_fits_def Let_def rs_def)
  from layout_meta_ranges(9) [OF this] have cnt: "sm_RecordCount ?meta = 0 \<longleftrightarrow> rs = []" by (simp add: concat_cut_blocks)
  have mem: "mem_recs (set_partition (e_router e) win (p\<lparr>tp_mem := memtable_New\<rparr>)) + mset rs = mem_recs (e_router e)"
    using SwapMemtable_ok(2) [OF assms(1,2)] by (simp add: rs_def)
  show ?thesis
  proof (cases "rs = []")
    case True
    note em = flush_ready_empty [OF assms(1) rd(1)]
    have "engine_recs cd (swapped e win p w) (snd (os_remove ?sp fs4)) = engine_recs cd e fs"
      using em(2) mem True by (simp add: engine_recs_def)
    then show ?thesis using em rd(2) cnt True mem unfolding old_def
      by (intro exI [of _ G] exI [of _ "swapped e win p w"] exI [of _ "snd (os_remove ?sp fs4)"]) auto
  next
    case False
    from flush_ready_commit [OF assms(1-3) rd(1), of mm, folded rs_def old_def] False obtain r e' fs' where
      cm: "flush_commit mm win old ?sp ?meta (swapped e win p w) (fs4, c) = (None, e', (fs', c))"
      "engine_ok cd (G(?sp \<mapsto> r)) e' (fs', c)" "file_recs cd e' fs' = file_recs cd e fs + mset rs"
      "e_router e' = set_partition (e_router e) win (p\<lparr>tp_mem := memtable_New\<rparr>)" "e_wal e' = w" "e_opts e' = e_opts e"
      "e_closed e' = e_closed e" "e_flushCh e' = e_flushCh e" "fs_lookup fs' old = None" "wal_log w fs' []" "rotated e fs e' fs'"
      "disk_edit cd {walPath e (e_walSeq e + 1), old} {mf_f (e_manifest e), w_file (e_wal e)} e fs e' fs' [r] []" by blast
    have "engine_recs cd e' fs' = engine_recs cd e fs"
      using cm(3,4) mem unfolding engine_recs_def mem [symmetric] by (simp add: ac_simps)
    then show ?thesis using cm rd(2) cnt False mem
      by (intro exI [of _ "G(?sp \<mapsto> r)"] exI [of _ e'] exI [of _ fs']) auto
  qed
qed

text \<open>The reader of the file that a flush of records adds, and the list of files.\<close>

lemma flushPartition_reader:
  assumes "engine_ok cd G e (fs, c)" "map_of (rt_partitions (e_router e)) win = Some p" "flush_fits cd e win fs"
    and "mt_records (tp_mem p) \<noteq> []"
  defines "sp \<equiv> flushPath e win (e_walSeq e + 1)"
  shows "\<exists>r e' fs'. flushPartition cd mm e win (fs, c) = (None, e', (fs', c)) \<and>
    r_meta r = merged_meta cd sp (writerOptions e win) (mt_records (tp_mem p)) \<and>
    disk_edit cd {walPath e (e_walSeq e + 1), walPath e (e_walSeq e)} {mf_f (e_manifest e), w_file (e_wal e)} e fs e' fs' [r] [] \<and>
    (\<forall>es. manifest_log (e_manifest e) fs es \<longrightarrow> manifest_log (e_manifest e') fs' (es @ [next_edit es (flush_edit sp (r_meta r))])) \<and>
    e_walSeq e' = e_walSeq e + 1"
proof -
  let ?rs = "mt_records (tp_mem p)" let ?meta = "merged_meta cd sp (writerOptions e win) ?rs"
  from flush_ready_ok [OF assms(1,2), of mm, folded sp_def] obtain w fs1 fs4 where rd: "flush_ready cd G e win p w fs fs1 fs4 c"
    "flushPartition cd mm e win (fs, c) = (if sm_RecordCount ?meta = 0 then (None, swapped e win p w, (snd (os_remove sp fs4), c))
     else flush_commit mm win (walPath e (e_walSeq e)) sp ?meta (swapped e win p w) (fs4, c))" by blast
  have "layout_ok cd sp (eff_opts (writerOptions e win)) (merged_blocks (writerOptions e win) ?rs)"
    using assms(2,3) by (auto simp: flush_fits_def Let_def sp_def)
  from layout_meta_ranges(9) [OF this] assms(4) have "sm_RecordCount ?meta \<noteq> 0" by (simp add: concat_cut_blocks)
  then show ?thesis using flush_ready_commit [OF assms(1-3) rd(1) assms(4), of mm, folded sp_def] rd(2) by (fastforce simp: rotated_def)
qed

lemma flushPartition_files:
  assumes "flushPartition cd mm e win s = (None, e', s')"
  shows "e_files e' = e_files e \<or> (\<exists>r. e_files e' = AList.update win (files_of e win @ [r]) (e_files e))"
  using assms by (auto simp: flushPartition_def flush_commit_def flush_install_def raise_flushed_def set_files_def files_of_def Let_def
      split: prod.splits option.splits sum.splits if_splits)

end
