(* ===== verification/EngineCompact.thy ===== *)
theory EngineCompact
  imports EngineFlush
begin

text \<open>
  \<^verbatim>\<open>maybeCompact\<close>, \<^verbatim>\<open>sweepCompaction\<close> and the retention sweep: a merge replaces the files of a window by
  one file with the same records; the retention sweep drops the files whose records are all older
  than the horizon, and only those.
\<close>

subsection \<open>Removing files\<close>

lemma filter_split_sum:
  "(\<Sum>r \<in># mset rs. f r) = (\<Sum>r \<in># mset (filter P rs). f r) + (\<Sum>r \<in># mset (filter (\<lambda>r. \<not> P r) rs). f r)"
  for f :: "'a \<Rightarrow> 'b multiset"
  by (induction rs) auto

lemma list_all2_ex: "\<forall>x \<in> set xs. \<exists>y. P x y \<Longrightarrow> \<exists>ys. list_all2 P xs ys"
proof (induction xs)
  case (Cons x xs)
  then obtain y ys where "P x y" "list_all2 P xs ys" by auto
  then show ?case by (intro exI [of _ "y # ys"]) simp
qed (auto intro: exI [of _ "[]"])

text \<open>A window keeps some of its files: the engine's invariant survives while the files are still there.\<close>

lemma engine_ok_keep_files:
  fixes P :: "sst_reader \<Rightarrow> bool"
  assumes "engine_ok cd G e (fs, c)" "map_of (rt_partitions (e_router e)) win \<noteq> None"
  defines "e' \<equiv> set_files win (filter P (files_of e win)) e"
  shows "engine_ok cd G e' (fs, c)"
    "file_recs cd e' fs + (\<Sum>r \<in># mset (filter (\<lambda>r. \<not> P r) (files_of e win)). mset (recs_of cd fs r)) = file_recs cd e fs"
proof -
  let ?rs = "filter P (files_of e win)"
  have ok: "data_ok cd G e fs" "store_ok cd G e (fs, c)" "names_ok G e fs" using assms(1) by (auto simp: engine_ok_def)
  obtain X Y where "all_readers e = X @ files_of e win @ Y"
    using all_readers_split [of e win] ok(1) by (metis data_ok_def)
  then have "distinct (reader_paths (files_of e win))" using ok(1) by (simp add: data_ok_def reader_paths_append)
  then have "distinct (reader_paths ?rs)" by (simp add: reader_paths_def distinct_map_filter)
  note d = data_ok_set_files [OF ok(1) map_le_refl assms(2) _ this]
  have d1: "data_ok cd G e' fs" unfolding e'_def using files_of_ok [OF ok(1)] by (intro d(1)) auto
  have "names_ok G e' fs" using ok(3) by (elim names_ok_fields) (simp_all add: e'_def set_files_def)
  with d1 show "engine_ok cd G e' (fs, c)" using assms(1) by (simp add: engine_ok_def store_ok_def e'_def set_files_def)
  have "file_recs cd e' fs + (\<Sum>r \<in># mset (files_of e win). mset (recs_of cd fs r)) =
      file_recs cd e fs + (\<Sum>r \<in># mset ?rs. mset (recs_of cd fs r))"
    unfolding e'_def using files_of_ok [OF ok(1)] by (intro d(2)) auto
  moreover have "(\<Sum>r \<in># mset (files_of e win). mset (recs_of cd fs r)) =
      (\<Sum>r \<in># mset ?rs. mset (recs_of cd fs r)) + (\<Sum>r \<in># mset (filter (\<lambda>r. \<not> P r) (files_of e win)). mset (recs_of cd fs r))"
    by (rule filter_split_sum)
  ultimately show "file_recs cd e' fs + (\<Sum>r \<in># mset (filter (\<lambda>r. \<not> P r) (files_of e win)). mset (recs_of cd fs r)) = file_recs cd e fs"
    by simp
qed


subsection \<open>\<^verbatim>\<open>maybeCompact\<close>\<close>

text \<open>The limits of the formats for the merged file.\<close>

definition compact_fits :: "codecs \<Rightarrow> Engine \<Rightarrow> PartitionWindow \<Rightarrow> file_sys \<Rightarrow> bool" where
  "compact_fits cd e win fs \<longleftrightarrow> (\<forall>es. manifest_log (e_manifest e) fs es \<longrightarrow>
     merge_fits cd (compactPath e win (e_compactSeq e + 1)) (writerOptions e win)
       (map reader_Meta (files_of e win)) es (\<Sum>r \<in># mset (files_of e win). mset (recs_of cd fs r)))"

lemma with_paths_all [simp]:
  "with_paths (set (reader_paths rs)) rs = rs" "without_paths (set (reader_paths rs)) rs = []"
  by (auto simp: with_paths_def without_paths_def reader_paths_def filter_id_conv filter_empty_conv)

lemma merge_inputs:
  assumes "data_ok cd G e fs"
  obtains bss where "list_all2 (input_ok cd G fs) (files_of e win) bss"
    "(\<Sum>bs \<in># mset bss. mset (input_recs bs)) = (\<Sum>r \<in># mset (files_of e win). mset (recs_of cd fs r))"
proof -
  have "\<exists>bs. input_ok cd G fs r bs" if "r \<in> set (files_of e win)" for r
  proof -
    from files_of_ok [OF assms that] obtain bs where "reads_as cd r fs bs" "G (sm_Path (r_meta r)) = Some r"
      "\<forall>x \<in> set (recs_of cd fs r). ts_ok (o_PartitionDuration (e_opts e)) (Timestamp x)" by (auto simp: reader_ok_def)
    moreover have "MinInt64 < Timestamp x" if "ts_ok (o_PartitionDuration (e_opts e)) (Timestamp x)" for x
      using that unfolding ts_ok_def by linarith
    ultimately show ?thesis unfolding input_ok_def by (metis recs_of_reads)
  qed
  from list_all2_ex [of "files_of e win" "input_ok cd G fs"] this obtain bss where
    l: "list_all2 (input_ok cd G fs) (files_of e win) bss" by blast
  have "(\<Sum>bs \<in># mset bss. mset (input_recs bs)) = (\<Sum>r \<in># mset rs. mset (recs_of cd fs r))"
    if "list_all2 (input_ok cd G fs) rs bss" "set rs \<subseteq> set (files_of e win)" for rs bss
    using that
  proof (induction rs bss rule: list_all2_induct)
    case (Cons r rs bs bss)
    then have "reads_as cd r fs bs" by (simp add: input_ok_def)
    moreover have "\<forall>x \<in> set (recs_of cd fs r). MinInt64 \<le> Timestamp x \<and> Timestamp x < MaxInt64"
      using files_of_ok [OF assms, of r win] Cons.prems by (auto simp: reader_ok_def ts_ok_def)
    ultimately have "input_recs bs = recs_of cd fs r"
      by (auto simp: recs_of_reads query_def filter_id_conv in_range_def src_match_def)
    then show ?case using Cons by simp
  qed simp
  with l that show ?thesis by blast
qed

lemma compactSeq_ok:
  "engine_ok cd G e (fs, c) \<Longrightarrow> engine_ok cd G (e\<lparr>e_compactSeq := e_compactSeq e + 1\<rparr>) (fs, c)"
  using path_fields [of "e\<lparr>e_compactSeq := e_compactSeq e + 1\<rparr>" e]
  by (auto simp: engine_ok_def store_ok_def names_ok_def)

lemma files_of_set_files [simp]: "files_of (set_files win rs e) w = (if w = win then rs else files_of e w)"
  by (simp add: files_of_def set_files_def update_conv')

lemma set_files_twice [simp]: "set_files win rs (set_files win us e) = set_files win rs e"
  by (simp add: set_files_def)

lemma registered_not_future: "names_ok G e fs \<Longrightarrow> G p = Some r \<Longrightarrow> \<not> future e p"
  by (auto simp: names_ok_future unused_def)

text \<open>The files that a window gives up may be removed.\<close>

lemma harmless_removed:
  assumes "engine_ok cd G e (fs, c)" "map_of (rt_partitions (e_router e)) win \<noteq> None"
  shows "harmless (set_files win (filter P (files_of e win)) e)
    (set (reader_paths (filter (\<lambda>r. \<not> P r) (files_of e win))))" (is "harmless ?e ?N")
proof -
  have ok: "data_ok cd G e fs" "names_ok G e fs" "names_ok G ?e fs"
    using assms(1) engine_ok_keep_files(1) [OF assms, of P] by (auto simp: engine_ok_def)
  have reg: "\<exists>r. G q = Some r" if "q \<in> ?N" for q
    using files_of_ok [OF ok(1)] that by (auto simp: reader_ok_def reader_paths_def)
  have "mf_path (e_manifest e) \<notin> ?N" using reg [of "mf_path (e_manifest e)"] ok(2) by (auto simp: names_ok_def)
  moreover have "sm_Path (r_meta x) \<notin> ?N" if "x \<in> set (all_readers ?e)" for x
  proof -
    obtain X Y where xy: "all_readers e = X @ files_of e win @ Y"
        "all_readers ?e = X @ filter P (files_of e win) @ Y"
      using all_readers_split [of e win] ok(1) by (metis data_ok_def)
    then have d: "distinct (reader_paths X @ reader_paths (files_of e win) @ reader_paths Y)"
      using ok(1) by (simp add: data_ok_def reader_paths_append)
    show ?thesis
    proof
      assume "sm_Path (r_meta x) \<in> ?N"
      then obtain y where y: "y \<in> set (files_of e win)" "\<not> P y" "sm_Path (r_meta x) = sm_Path (r_meta y)"
        by (auto simp: reader_paths_def)
      moreover have "x \<in> set (all_readers e)" "y \<in> set (all_readers e)" using that y(1) xy by auto
      ultimately have "x = y" using data_ok_registered(1) [OF ok(1)] by (metis option.inject)
      then have "x \<in> set X \<union> set Y" using that y(1,2) xy(2) by auto
      then show False using d y(1) \<open>x = y\<close> by (auto simp: reader_paths_def)
    qed
  qed
  moreover have "\<not> future ?e q" if "q \<in> ?N" for q using reg [OF that] registered_not_future [OF ok(3)] by blast
  ultimately show ?thesis by (simp add: harmless_def set_files_def)
qed

lemma compactPath_not_future:
  assumes "names_ok G e fs"
  shows "\<not> future e (compactPath e win (e_compactSeq e))"
proof -
  have "0 \<le> e_compactSeq e" "0 \<le> e_walSeq e" using assms by (auto simp: names_ok_def)
  then have "compactPath e win (e_compactSeq e) \<noteq> flushPath e v q" if "e_walSeq e < q" for v q
    using sst_name(3) [of q "e_compactSeq e" e v win] that by auto
  moreover have "compactPath e win (e_compactSeq e) \<noteq> compactPath e v q" if "e_compactSeq e < q" for v q
    using sst_name(2) [of "e_compactSeq e" q e win v] that \<open>0 \<le> e_compactSeq e\<close> by auto
  ultimately show ?thesis by (auto simp: future_def)
qed

lemma files_nonempty:
  assumes "data_ok cd G e fs" "files_of e win \<noteq> []"
  shows "\<exists>r \<in> set (files_of e win). \<exists>x. x \<in> set (recs_of cd fs r)"
proof -
  from assms(2) obtain r where r: "r \<in> set (files_of e win)" by (cases "files_of e win") auto
  from files_of_ok [OF assms(1) r] obtain b bs where "reads_as cd r fs (b # bs)"
    by (metis neq_Nil_conv reader_ok_def)
  then have "recs_of cd fs r = concat (b # bs)" "b \<noteq> []"
    using recs_of_reads by (metis, auto simp: reads_as_def)
  then have "hd b \<in> set (recs_of cd fs r)" by simp
  with r show ?thesis by blast
qed

text \<open>Inputs out, output in: \<open>p\<close> is the path of the output, \<open>r\<close> its reader.\<close>

lemma compact_swap_ok:
  fixes r :: sst_reader
  defines "p \<equiv> sm_Path (r_meta r)"
  assumes "engine_ok cd G e (fs, c)" "files_of e win \<noteq> []" "p = compactPath e win (e_compactSeq e)" "G p = None"
    and "fs_frame (set (reader_paths (files_of e win)) \<union> {p}) {mf_f (e_manifest e)} fs fs'"
    and "fs_lookup fs' p = Some (r_file r)" "r_file r = fs_next fs" "fs_next fs' = Suc (fs_next fs)"
    and "reads_as cd r fs' bs" "mset (concat bs) = (\<Sum>r \<in># mset (files_of e win). mset (recs_of cd fs r))"
    and "manifest_log m fs' es" "mf_f m = mf_f (e_manifest e)" "mf_path m = mf_path (e_manifest e)"
    and "cache_ok cd G (fs', c')"
  defines "e' \<equiv> set_files win [r] (e\<lparr>e_manifest := m\<rparr>)"
  shows "engine_ok cd (G(p \<mapsto> r)) e' (fs', c')" "file_recs cd e' fs' = file_recs cd e fs"
proof -
  have ok: "data_ok cd G e fs" "store_ok cd G e (fs, c)" "names_ok G e fs" using assms(2) by (auto simp: engine_ok_def)
  have part: "map_of (rt_partitions (e_router e)) win \<noteq> None"
    using assms(3) ok(1) by (fastforce simp: data_ok_def files_of_def split: option.splits dest: map_of_SomeD)
  let ?ea = "set_files win [] e"
  have ea: "engine_ok cd G ?ea (fs, c)"
    "file_recs cd ?ea fs + (\<Sum>r \<in># mset (files_of e win). mset (recs_of cd fs r)) = file_recs cd e fs"
    using engine_ok_keep_files [OF assms(2) part, of "\<lambda>_. False"] by simp_all
  then have oka: "data_ok cd G ?ea fs" "names_ok G ?ea fs" by (auto simp: engine_ok_def)
  have "harmless ?ea (set (reader_paths (files_of e win)))"
    using harmless_removed [OF assms(2) part, of "\<lambda>_. False"] by simp
  moreover have "harmless ?ea {p}"
    using data_ok_registered(1) [OF oka(1)] assms(4,5) oka(2) compactPath_not_future [OF oka(2), of win]
      path_fields(3) [of ?ea e]
    by (fastforce simp: harmless_def names_ok_def set_files_def)
  ultimately have harm: "harmless ?ea (set (reader_paths (files_of e win)) \<union> {p})" by (auto simp: harmless_def)
  have mf: "mf_f (e_manifest ?ea) = mf_f (e_manifest e)" "mf_path (e_manifest ?ea) = mf_path (e_manifest e)"
    by (simp_all add: set_files_def)
  have e1: "engine_ok cd G (?ea\<lparr>e_manifest := m\<rparr>) (fs', c')" "file_recs cd ?ea fs' = file_recs cd ?ea fs"
    using engine_ok_frame [OF ea(1) _ _ harm assms(15,12)] assms(6,13,14) mf by auto
  have recs: "x \<in> set (concat bs) \<longleftrightarrow> (\<exists>r \<in> set (files_of e win). x \<in> set (recs_of cd fs r))" for x
    using arg_cong [OF assms(11), of set_mset] by auto
  then have win: "\<forall>x \<in> set (concat bs). in_window win (Timestamp x) \<and> ts_ok (o_PartitionDuration (e_opts e)) (Timestamp x)"
    using files_of_ok [OF ok(1)] unfolding reader_ok_def by metis
  have "bs \<noteq> []" using recs files_nonempty [OF ok(1) assms(3)] by fastforce
  then have e2: "engine_ok cd (G(p \<mapsto> r)) e' (fs', c')" "file_recs cd e' fs' = file_recs cd ?ea fs' + mset (concat bs)"
    using engine_ok_install [OF e1(1), of win r bs] part assms(4,5,7-10,13,14) win ok(2,3) path_fields [of ?ea e]
    unfolding p_def [symmetric] e'_def
    by (auto simp: set_files_def store_ok_def names_ok_def files_of_def update_conv')
  from e2(1) show "engine_ok cd (G(p \<mapsto> r)) e' (fs', c')" .
  from e2(2) show "file_recs cd e' fs' = file_recs cd e fs" using e1(2) ea(2) assms(11) by simp
qed

text \<open>The readers of an engine whose window gives up some of its files.\<close>

lemma readers_without:
  assumes "data_ok cd G e fs" "all_readers e = X @ files_of e win @ Y"
  shows "filter_mset (\<lambda>r. rpath r \<notin> rpath ` set (filter (\<lambda>r. \<not> P r) (files_of e win))) (mset (all_readers e)) =
    mset X + mset (filter P (files_of e win)) + mset Y"
proof -
  let ?xs = "filter (\<lambda>r. \<not> P r) (files_of e win)"
  have d: "distinct (map rpath (X @ files_of e win @ Y))" using assms by (simp add: data_ok_def reader_paths_def)
  have "filter (\<lambda>r. rpath r \<notin> rpath ` set ?xs) (files_of e win) = filter P (files_of e win)"
    using d by (intro filter_cong) (auto simp: distinct_map inj_on_def)
  moreover have "filter (\<lambda>r. rpath r \<notin> rpath ` set ?xs) Z = Z" if "rpath ` set Z \<inter> rpath ` set (files_of e win) = {}" for Z
    using that by (intro filter_True) auto
  moreover have "rpath ` set X \<inter> rpath ` set (files_of e win) = {}" "rpath ` set Y \<inter> rpath ` set (files_of e win) = {}"
    using d by auto
  ultimately show ?thesis unfolding assms(2) mset_filter [symmetric] by simp
qed

lemma compact_disk_edit:
  assumes "engine_ok cd G e (fs, c)" "e_dir e' = e_dir e" "e_walSeq e' = e_walSeq e" "e_compactSeq e' = e_compactSeq e + 1"
    and "fs_frame ({rpath r} \<union> set (reader_paths (files_of e win))) F fs fs'" "fs_inj fs \<Longrightarrow> fs_inj fs'"
    and "\<forall>x \<in> set (files_of e win). fs_lookup fs' (rpath x) = None"
    and "\<And>es. manifest_log (e_manifest e) fs es \<Longrightarrow> \<exists>ed. manifest_log (e_manifest e') fs' (es @ [ed]) \<and>
      ve_AddedFiles ed = [entry_of r] \<and> ve_DeletedFiles ed = map entry_of (files_of e win)"
    and "e_files e' = AList.update win [r] (e_files e)" "rpath r = compactPath e win (e_compactSeq e + 1)"
    and "sst_stored cd fs' (o_PartitionDuration (e_opts e)) r"
  shows "disk_edit cd {} F e fs e' fs' [r] (files_of e win)"
proof -
  note pf = path_fields [OF assms(2)]
  have d: "data_ok cd G e fs" "distinct (map fst (e_files e))" using assms(1) by (auto simp: engine_ok_def data_ok_def)
  have sq: "0 \<le> e_walSeq e" "0 \<le> e_compactSeq e" using assms(1) by (auto simp: engine_ok_def names_ok_def)
  obtain X Y where xy: "all_readers e = X @ files_of e win @ Y" "all_readers (set_files win [r] e) = X @ [r] @ Y"
    using all_readers_split [OF d(2), of win] by metis
  then have "all_readers e' = X @ [r] @ Y" using assms(9) by (simp add: all_readers_def set_files_def)
  then have rd: "mset (all_readers e') = filter_mset (\<lambda>x. rpath x \<notin> rpath ` set (files_of e win)) (mset (all_readers e)) + mset [r]"
    using readers_without [OF d(1) xy(1), of "\<lambda>_. False"] by simp
  have "future e (rpath r)" unfolding future_def assms(10)
    by (intro exI [of _ win] exI [of _ "e_compactSeq e + 1"]) simp
  moreover have "\<not> future e' (rpath r)"
  proof
    assume "future e' (rpath r)"
    then obtain v q where "e_walSeq e < q \<and> rpath r = flushPath e v q \<or> e_compactSeq e + 1 < q \<and> rpath r = compactPath e v q"
      unfolding future_def pf assms(3,4,10) by auto
    then show False using sst_name(3) [of q "e_compactSeq e + 1" e v win] sst_name(2) [of "e_compactSeq e + 1" q e win v] sq
      unfolding assms(10) by auto
  qed
  moreover have "future e' p \<Longrightarrow> future e p" for p
    unfolding future_def pf assms(3,4) by (elim exE, rule_tac x = w in exI, rule_tac x = sq in exI) auto
  moreover have "\<exists>eds. manifest_log (e_manifest e') fs' (es @ eds) \<and> added eds = [entry_of r] \<and>
      deleted eds = map entry_of (files_of e win) \<and> (\<forall>ed \<in> set eds. length (ve_AddedFiles ed) \<le> 1)"
    if "manifest_log (e_manifest e) fs es" for es
  proof -
    from assms(8) [OF that] obtain ed where "manifest_log (e_manifest e') fs' (es @ [ed])"
      "ve_AddedFiles ed = [entry_of r]" "ve_DeletedFiles ed = map entry_of (files_of e win)" by blast
    then show ?thesis by (intro exI [of _ "[ed]"]) (simp add: added_def deleted_def)
  qed
  moreover have "fs_lookup fs' q = (if q \<in> rpath ` set (files_of e win) then None else fs_lookup fs q)"
    if "q \<noteq> rpath r" for q using assms(5,7) that by (auto simp: fs_frame_def reader_paths_def)
  ultimately show ?thesis unfolding disk_edit_def using assms(5,6,10,11) rd xy(1) sst_suffix(2) by (auto simp: fs_frame_def)
qed

lemma maybeCompact_ok:
  assumes "engine_ok cd G e (fs, c)" "compact_fits cd e win fs"
  shows "\<exists>G' e' fs' c'. maybeCompact cd mm dt win e (fs, c) = Some (e', (fs', c')) \<and> engine_ok cd G' e' (fs', c') \<and>
    engine_recs cd e' fs' = engine_recs cd e fs \<and> e_router e' = e_router e \<and> e_opts e' = e_opts e \<and>
    e_closed e' = e_closed e \<and> e_flushCh e' = e_flushCh e \<and> e_wal e' = e_wal e \<and> e_strategy e' = e_strategy e \<and>
    length (files_of e' win) =
      (if files_of e win = [] \<or> int (length (files_of e win)) \<le> ff_MaxFilesPerPartition (e_strategy e)
       then length (files_of e win) else 1) \<and>
    (e' = e \<and> fs' = fs \<or> (\<exists>news xs. disk_edit cd {} {mf_f (e_manifest e)} e fs e' fs' news xs)) \<and>
    e_dir e' = e_dir e \<and> e_walSeq e' = e_walSeq e"
proof (cases "files_of e win = [] \<or> int (length (files_of e win)) \<le> ff_MaxFilesPerPartition (e_strategy e)")
  case True
  then have "maybeCompact cd mm dt win e (fs, c) = Some (e, (fs, c))"
    by (auto simp: maybeCompact_def PickMerge_def Let_def)
  with assms(1) True show ?thesis by auto
next
  case False
  let ?rs = "files_of e win" let ?sq = "e_compactSeq e + 1" let ?p = "compactPath e win ?sq"
  let ?wo = "writerOptions e win" let ?e0 = "e\<lparr>e_compactSeq := ?sq\<rparr>"
  have ok: "data_ok cd G e fs" "store_ok cd G e (fs, c)" "names_ok G e fs" "o_CompressionType (e_opts e) \<le> 2"
    using assms(1) by (auto simp: engine_ok_def)
  from ok(2) obtain es where st: "fs_faults fs = []" "cache_ok cd G (fs, c)" "manifest_log (e_manifest e) fs es"
    by (auto simp: store_ok_def)
  from merge_inputs [OF ok(1)] obtain bss where bss: "list_all2 (input_ok cd G fs) ?rs bss"
    "(\<Sum>bs \<in># mset bss. mset (input_recs bs)) = (\<Sum>r \<in># mset ?rs. mset (recs_of cd fs r))" by metis
  have part: "map_of (rt_partitions (e_router e)) win \<noteq> None"
    using False ok(1) by (fastforce simp: data_ok_def files_of_def split: option.splits dest: map_of_SomeD)
  have wo: "wo_CompressionType ?wo \<le> 2" using ok(4) by (simp add: writerOptions_def)
  have reg: "G (sm_Path (r_meta r)) = Some r" if "r \<in> set ?rs" for r using files_of_ok [OF ok(1) that] by (simp add: reader_ok_def)
  have out: "fresh_output G (e_manifest e) ?p fs"
    using ok(3) store_free [OF ok(2)] ok(2) by (auto simp: fresh_output_def names_ok_def unused_def store_ok_def)
  have mfp: "mf_path (e_manifest e) \<notin> (\<lambda>r. sm_Path (r_meta r)) ` set ?rs" using reg ok(3) by (auto simp: names_ok_def)
  have "merge_fits cd ?p ?wo (map r_meta ?rs) es (\<Sum>bs \<in># mset bss. mset (input_recs bs))"
    using assms(2) st(3) bss(2) by (simp add: compact_fits_def)
  from Merge_ok [OF st(1,2) bss(1) st(3) mfp out wo this, of mm "e_cached e", unfolded bss(2)] obtain rs r m' fs' c' where
    mg: "Merge cd mm ?rs ?p ?wo (e_manifest e) (e_cached e) (fs, c) = Some (Inr r, m', fs', c')"
    "mset rs = (\<Sum>r \<in># mset ?rs. mset (recs_of cd fs r))" "reads_as cd r fs' (merged_blocks ?wo rs)"
    "r_meta r = merged_meta cd ?p ?wo rs" "r_file r = fs_next fs"
    "manifest_log m' fs' (es @ [next_edit es (merge_edit (merged_meta cd ?p ?wo rs) (map r_meta ?rs))])"
    "mf_path m' = mf_path (e_manifest e)" "mf_f m' = mf_f (e_manifest e)" "cache_ok cd G (fs', c')"
    "fs_faults fs' = []" "fs_bad fs' = fs_bad fs" "fs_next fs' = Suc (fs_next fs)"
    "\<forall>j. j \<noteq> fs_next fs \<and> j \<noteq> mf_f (e_manifest e) \<longrightarrow> fs_data fs' j = fs_data fs j \<and> fs_synced fs' j = fs_synced fs j"
    "\<forall>q. fs_lookup fs' q = (if q \<in> (\<lambda>r. sm_Path (r_meta r)) ` set ?rs then None
       else if q = ?p then Some (fs_next fs) else fs_lookup fs q)" "rec_sorted rs"
    "fs_data fs' (fs_next fs) = sst_layout cd ?p (eff_opts ?wo) (merged_blocks ?wo rs)"
    "fs_synced fs' (fs_next fs) = length (fs_data fs' (fs_next fs))"
    by (elim exE conjE) (rule that; assumption)
  have fr: "fs_frame (set (reader_paths ?rs) \<union> {?p}) {mf_f (e_manifest e)} fs fs'"
    using mg by (auto simp: fs_frame_def reader_paths_def)
  have rp: "sm_Path (r_meta r) = ?p" using mg(4) by (simp add: layout_meta_def Let_def)
  have gp: "G ?p = None" "?p \<notin> (\<lambda>r. sm_Path (r_meta r)) ` set ?rs" using out reg by (auto simp: fresh_output_def)
  note sw = compact_swap_ok [OF compactSeq_ok [OF assms(1)] _ _ _ _ _ _ _ mg(3) _ mg(6), of win c', unfolded rp]
  have res: "engine_ok cd (G(?p \<mapsto> r)) (set_files win [r] (?e0\<lparr>e_manifest := m'\<rparr>)) (fs', c') \<and>
      file_recs cd (set_files win [r] (?e0\<lparr>e_manifest := m'\<rparr>)) fs' = file_recs cd e fs"
    using sw False fr gp mg path_fields [of ?e0 e]
    by (auto simp: files_of_def concat_cut_blocks file_recs_def all_readers_def)
  let ?x = "(e_metrics e)\<lparr>m_CompactionDuration := m_CompactionDuration (e_metrics e) @ [dt],
    m_CompactionsTotal := inc (m_CompactionsTotal (e_metrics e)),
    m_SSTFilesTotal := m_SSTFilesTotal (e_metrics e) + (1 - int (length ?rs)),
    m_SSTBytesTotal := m_SSTBytesTotal (e_metrics e) + (file_bytes [?p] fs' - file_bytes (reader_paths ?rs) fs),
    m_BytesCompactedTotal := m_BytesCompactedTotal (e_metrics e) + file_bytes [?p] fs'\<rparr>"
  let ?e' = "(set_files win [r] (?e0\<lparr>e_manifest := m'\<rparr>))\<lparr>e_metrics := ?x, e_closedReaders := e_closedReaders e @ ?rs\<rparr>"
  have "maybeCompact cd mm dt win e (fs, c) = Some (?e', (fs', c'))"
    using False mg(1) path_fields [of ?e0 e] with_paths_all [of ?rs]
    by (simp add: maybeCompact_def PickMerge_def Let_def comp_def compact_install_def writerOptions_def
        files_of_def set_files_def reader_paths_def)
  moreover have de: "disk_edit cd {} {mf_f (e_manifest e)} e fs ?e' fs' [r] ?rs"
  proof (rule compact_disk_edit [OF assms(1)])
    show "fs_inj fs'" if "fs_inj fs"
    proof (rule fs_inj_sub [of "fs'\<lparr>fs_names := (?p, fs_next fs) # fs_names fs\<rparr>"])
      show "fs_inj (fs'\<lparr>fs_names := (?p, fs_next fs) # fs_names fs\<rparr>)"
        using mg(12) by (intro fs_inj_new [OF that, of _ ?p]) (auto simp: fs_lookup_def)
    qed (use mg(14) in \<open>auto simp: fs_lookup_def split: if_splits\<close>)
    show "\<exists>ed. manifest_log (e_manifest ?e') fs' (es' @ [ed]) \<and> ve_AddedFiles ed = [entry_of r] \<and>
      ve_DeletedFiles ed = map entry_of ?rs" if "manifest_log (e_manifest e) fs es'" for es'
      using mg(4,6) manifest_log_unique [OF that st(3)]
      by (intro exI [of _ "next_edit es (merge_edit (merged_meta cd ?p ?wo rs) (map r_meta ?rs))"])
        (simp add: set_files_def next_edit_def merge_edit_def)
    have "layout_ok cd ?p (eff_opts ?wo) (merged_blocks ?wo rs)"
      using assms(2) st(3) mg(2,15) by (simp add: compact_fits_def merge_fits_def)
    moreover have "x \<in> set rs \<longleftrightarrow> (\<exists>r \<in> set ?rs. x \<in> set (recs_of cd fs r))" for x
      using arg_cong [OF mg(2), of set_mset] by auto
    then have "\<forall>x \<in> set (concat (merged_blocks ?wo rs)). in_window win (Timestamp x) \<and> ts_ok (o_PartitionDuration (e_opts e)) (Timestamp x)"
      "rs \<noteq> []" using files_of_ok [OF ok(1)] files_nonempty [OF ok(1)] False unfolding reader_ok_def concat_cut_blocks by fastforce+
    ultimately show "sst_stored cd fs' (o_PartitionDuration (e_opts e)) r"
      using mg(3-5,14,16,17) gp(2)
      by (intro sst_storedI [where win = win]) (auto simp: recs_of_reads cut_blocks_empty eff_opts_def writerOptions_def)
  qed (use fr rp mg(14) in \<open>auto simp: set_files_def insert_commute\<close>)
  moreover have "engine_ok cd (G(?p \<mapsto> r)) ?e' (fs', c')" "engine_recs cd ?e' fs' = engine_recs cd e fs" "length (files_of ?e' win) = 1"
    "e_router ?e' = e_router e \<and> e_opts ?e' = e_opts e \<and> e_closed ?e' = e_closed e \<and> e_flushCh ?e' = e_flushCh e \<and>
     e_wal ?e' = e_wal e \<and> e_strategy ?e' = e_strategy e \<and> e_dir ?e' = e_dir e \<and> e_walSeq ?e' = e_walSeq e"
    using res by (simp_all add: engine_recs_def set_files_def files_of_def update_conv' file_recs_def all_readers_def)
  ultimately show ?thesis using False
    by (intro exI [of _ "G(?p \<mapsto> r)"] exI [of _ ?e'] exI [of _ fs'] exI [of _ c'] conjI) (blast | simp)+
qed


subsection \<open>Retention\<close>

lemma engine_ok_delete_files:
  assumes "engine_ok cd G (set_files win [] e) (fs, c)" "distinct (map fst (e_files e))"
  defines "e' \<equiv> e\<lparr>e_files := AList.delete win (e_files e)\<rparr>"
  shows "engine_ok cd G e' (fs, c)" "file_recs cd e' fs = file_recs cd (set_files win [] e) fs"
proof -
  obtain X Y where xy: "all_readers (set_files win [] e) = X @ Y" "all_readers e' = X @ Y"
    using all_readers_split [OF assms(2), of win] unfolding e'_def by (metis append_Nil)
  then show "file_recs cd e' fs = file_recs cd (set_files win [] e) fs" by (simp add: file_recs_def)
  have "set (AList.delete win (e_files e)) \<subseteq> set (AList.update win [] (e_files e))"
  proof
    fix x
    assume "x \<in> set (AList.delete win (e_files e))"
    then have "fst x \<noteq> win" "map_of (e_files e) (fst x) = Some (snd x)"
      using assms(2) by (auto simp: AList.delete_eq)
    then have "map_of (AList.update win [] (e_files e)) (fst x) = Some (snd x)" by (simp add: update_conv')
    then show "x \<in> set (AList.update win [] (e_files e))" using map_of_SomeD by fastforce
  qed
  moreover have "data_ok cd G (set_files win [] e) fs" using assms(1) by (simp add: engine_ok_def)
  ultimately have "data_ok cd G e' fs" using assms(2) xy
    unfolding data_ok_def e'_def by (simp add: set_files_def distinct_delete) blast
  moreover have "names_ok G e' fs"
    using assms(1) unfolding engine_ok_def by (elim conjE names_ok_fields) (simp_all add: e'_def set_files_def)
  ultimately show "engine_ok cd G e' (fs, c)"
    using assms(1) by (simp add: engine_ok_def store_ok_def e'_def set_files_def)
qed

lemma remove_expired_fs: "snd (remove_expired ms n fs) = remove_all (map sm_Path ms) fs"
  by (induction ms arbitrary: n fs) (simp_all add: remove_all_def)

lemma remove_all_frame:
  assumes "fs_faults fs = []"
  shows "fs_frame (set ps) {} fs (remove_all ps fs)" "q \<in> set ps \<Longrightarrow> fs_lookup (remove_all ps fs) q = None"
  using assms by (auto simp: remove_all_ok fs_frame_def lookup_removed)

lemma retire_partition_inv:
  assumes "rt_inv rt"
  shows "rt_inv (retire_partition win rt)" "mem_recs (retire_partition win rt) = mem_recs rt"
    "dom (map_of (rt_partitions (retire_partition win rt))) = dom (map_of (rt_partitions rt))"
    "rt_windowDuration (retire_partition win rt) = rt_windowDuration rt"
proof -
  have "rt_inv (retire_partition win rt) \<and> mem_recs (retire_partition win rt) = mem_recs rt \<and>
    dom (map_of (rt_partitions (retire_partition win rt))) = dom (map_of (rt_partitions rt)) \<and>
    rt_windowDuration (retire_partition win rt) = rt_windowDuration rt"
  proof (cases "find (\<lambda>p. tp_Window p = win \<and> partition_State p = StateSealed) (router_All rt)")
    case None
    then show ?thesis using assms by (simp add: retire_partition_def)
  next
    case (Some p)
    then have "p \<in> set (router_All rt)" "tp_Window p = win" by (auto simp: find_Some_iff in_set_conv_nth)
    then have l: "map_of (rt_partitions rt) win = Some p" using assms by (auto simp: router_All_def rt_inv_def)
    note i = rt_inv_lookup [OF assms l]
    have s: "rt_inv (set_partition rt win (MarkDeleted p))" "mem_recs (set_partition rt win (MarkDeleted p)) = mem_recs rt"
      "map_of (rt_partitions (set_partition rt win (MarkDeleted p))) = (map_of (rt_partitions rt))(win \<mapsto> MarkDeleted p)"
      using set_partition_ok [OF assms l, of "MarkDeleted p"] i by (auto simp: MarkDeleted_def)
    have "rt_windowDuration (set_partition rt win (MarkDeleted p)) = rt_windowDuration rt" by (simp add: set_partition_def)
    then show ?thesis using s l Some by (simp add: retire_partition_def dom_def insert_absorb) auto
  qed
  then show "rt_inv (retire_partition win rt)" "mem_recs (retire_partition win rt) = mem_recs rt"
    "dom (map_of (rt_partitions (retire_partition win rt))) = dom (map_of (rt_partitions rt))"
    "rt_windowDuration (retire_partition win rt) = rt_windowDuration rt" by auto
qed

lemma retire_partition_ok:
  assumes "engine_ok cd G e s"
  shows "engine_ok cd G (e\<lparr>e_router := retire_partition win (e_router e)\<rparr>) s"
    "mem_recs (retire_partition win (e_router e)) = mem_recs (e_router e)"
proof -
  have d: "rt_inv (e_router e)" "\<forall>x \<in># mem_recs (e_router e). ts_ok (o_PartitionDuration (e_opts e)) (Timestamp x)"
    using assms by (auto simp: engine_ok_def data_ok_def)
  note r = retire_partition_inv [OF d(1), of win]
  have "map_of (rt_partitions (retire_partition win (e_router e))) w \<noteq> None" if "map_of (rt_partitions (e_router e)) w \<noteq> None" for w
    using that r(3) by blast
  then show "engine_ok cd G (e\<lparr>e_router := retire_partition win (e_router e)\<rparr>) s"
    using engine_ok_router(1) [OF assms r(1,4)] r(2) d(2) by simp
  show "mem_recs (retire_partition win (e_router e)) = mem_recs (e_router e)" by (rule r(2))
qed


lemma split_paths:
  assumes "data_ok cd G e fs"
  shows "with_paths (set (reader_paths (filter P (files_of e win)))) (files_of e win) = filter P (files_of e win)"
    "without_paths (set (reader_paths (filter P (files_of e win)))) (files_of e win) = filter (\<lambda>r. \<not> P r) (files_of e win)"
proof -
  have "sm_Path (r_meta r) \<in> set (reader_paths (filter P (files_of e win))) \<longleftrightarrow> P r" if r: "r \<in> set (files_of e win)" for r
  proof
    assume "sm_Path (r_meta r) \<in> set (reader_paths (filter P (files_of e win)))"
    then obtain y where y: "y \<in> set (files_of e win)" "P y" "sm_Path (r_meta r) = sm_Path (r_meta y)"
      by (auto simp: reader_paths_def)
    with files_of_ok [OF assms r] files_of_ok [OF assms y(1)] show "P r" by (auto simp: reader_ok_def)
  qed (use r in \<open>auto simp: reader_paths_def\<close>)
  then show "with_paths (set (reader_paths (filter P (files_of e win)))) (files_of e win) = filter P (files_of e win)"
    "without_paths (set (reader_paths (filter P (files_of e win)))) (files_of e win) = filter (\<lambda>r. \<not> P r) (files_of e win)"
    by (auto simp: with_paths_def without_paths_def intro: filter_cong)
qed

text \<open>The engine's part of a retirement, after the files have been removed.\<close>

lemma retire_install_ok:
  assumes "data_ok cd G e fs" "engine_ok cd G (set_files win (filter (\<lambda>r. \<not> P r) (files_of e win)) e) (fs', c)"
  defines "e' \<equiv> retire_install win (filter P (files_of e win)) e"
  shows "engine_ok cd G e' (fs', c)" "mem_recs (e_router e') = mem_recs (e_router e)"
    "file_recs cd e' fs' = file_recs cd (set_files win (filter (\<lambda>r. \<not> P r) (files_of e win)) e) fs'"
    "files_of e' w = (if w = win then filter (\<lambda>r. \<not> P r) (files_of e win) else files_of e w)"
    "all_readers e' = all_readers (set_files win (filter (\<lambda>r. \<not> P r) (files_of e win)) e)"
proof -
  let ?keep = "filter (\<lambda>r. \<not> P r) (files_of e win)" let ?xs = "filter P (files_of e win)"
  have dist: "distinct (map fst (e_files e))" using assms(1) by (simp add: data_ok_def)
  have "engine_ok cd G e' (fs', c) \<and> mem_recs (e_router e') = mem_recs (e_router e) \<and>
    file_recs cd e' fs' = file_recs cd (set_files win ?keep e) fs' \<and>
    files_of e' w = (if w = win then ?keep else files_of e w) \<and> all_readers e' = all_readers (set_files win ?keep e)"
  proof (cases "?keep = []")
    case False
    then have e': "e' = (set_files win ?keep e)\<lparr>e_closedReaders := e_closedReaders e @ ?xs\<rparr>"
      by (simp add: e'_def retire_install_def Let_def split_paths [OF assms(1)] set_files_def)
    show ?thesis unfolding e' using assms(2)
      by (simp add: set_files_def file_recs_def all_readers_def files_of_def update_conv')
  next
    case True
    let ?e1 = "e\<lparr>e_files := AList.delete win (e_files e)\<rparr>"
    have e': "e' = (?e1\<lparr>e_router := retire_partition win (e_router ?e1)\<rparr>)
        \<lparr>e_maxFlushedTS := AList.delete win (e_maxFlushedTS e), e_closedReaders := e_closedReaders e @ ?xs\<rparr>"
      by (simp add: e'_def retire_install_def Let_def split_paths [OF assms(1)] True)
    have e1: "engine_ok cd G ?e1 (fs', c)" "file_recs cd ?e1 fs' = file_recs cd (set_files win [] e) fs'"
      using engine_ok_delete_files [OF _ dist] assms(2) True by auto
    have "all_readers ?e1 = all_readers (set_files win [] e)" using all_readers_split [OF dist, of win] by (metis append_Nil)
    then show ?thesis unfolding e' using retire_partition_ok [OF e1(1), of win] True e1
      by (simp add: file_recs_def all_readers_def files_of_def delete_conv')
  qed
  then show "engine_ok cd G e' (fs', c)" "mem_recs (e_router e') = mem_recs (e_router e)"
    "file_recs cd e' fs' = file_recs cd (set_files win ?keep e) fs'"
    "files_of e' w = (if w = win then ?keep else files_of e w)" "all_readers e' = all_readers (set_files win ?keep e)" by auto
qed

lemma retire_install_fields [simp]:
  "e_opts (retire_install win xs e) = e_opts e" "e_closed (retire_install win xs e) = e_closed e"
  "e_flushCh (retire_install win xs e) = e_flushCh e" "e_wal (retire_install win xs e) = e_wal e"
  "e_manifest (retire_install win xs e) = e_manifest e" "e_strategy (retire_install win xs e) = e_strategy e"
  "e_dir (retire_install win xs e) = e_dir e" "e_walSeq (retire_install win xs e) = e_walSeq e"
  "e_compactSeq (retire_install win xs e) = e_compactSeq e"
  by (simp_all add: retire_install_def Let_def set_files_def)

definition retire_edit :: "sst_reader list \<Rightarrow> VersionEdit" where
  "retire_edit xs = \<lparr>ve_Seq = 0, ve_AddedFiles = [], ve_DeletedFiles = map meta_entry (map r_meta xs)\<rparr>"

definition old_files :: "int \<Rightarrow> sst_reader list \<Rightarrow> sst_reader list" where
  "old_files horizon rs = filter (\<lambda>r. sm_MaxTimestamp (r_meta r) < horizon) rs"

lemma retire_disk_edit:
  assumes "data_ok cd G e fs" "filter (\<lambda>r. \<not> P r) (files_of e win) = xs"
    and "all_readers e' = all_readers (set_files win (filter P (files_of e win)) e)"
    and "e_dir e' = e_dir e" "e_walSeq e' = e_walSeq e" "e_compactSeq e' = e_compactSeq e"
    and "fs_frame (rpath ` set xs) F fs fs'" "\<forall>x \<in> set xs. fs_lookup fs' (rpath x) = None"
    and "manifest_log (e_manifest e) fs es" "manifest_log (e_manifest e') fs' (es @ [next_edit es (retire_edit xs)])"
  shows "disk_edit cd {} F e fs e' fs' [] xs"
proof -
  have d: "distinct (map fst (e_files e))" using assms(1) by (simp add: data_ok_def)
  obtain X Y where xy: "all_readers e = X @ files_of e win @ Y" "all_readers e' = X @ filter P (files_of e win) @ Y"
    using all_readers_split [OF d, of win] assms(3) by metis
  have "mset (all_readers e') = filter_mset (\<lambda>x. rpath x \<notin> rpath ` set xs) (mset (all_readers e))"
    using readers_without [OF assms(1) xy(1), of P] xy(2) assms(2) by simp
  moreover have "future e' p = future e p" for p using path_fields [OF assms(4)] assms(5,6) by (simp add: future_def)
  moreover have "\<exists>eds. manifest_log (e_manifest e') fs' (es' @ eds) \<and> added eds = [] \<and>
      deleted eds = map entry_of xs \<and> (\<forall>ed \<in> set eds. length (ve_AddedFiles ed) \<le> 1)"
    if "manifest_log (e_manifest e) fs es'" for es'
    using assms(10) manifest_log_unique [OF that assms(9)]
    by (intro exI [of _ "[next_edit es (retire_edit xs)]"]) (simp add: added_def deleted_def next_edit_def retire_edit_def)
  moreover have "set xs \<subseteq> set (all_readers e)" using assms(2) xy(1) by auto
  moreover have "fs_inj fs'" if "fs_inj fs" using assms(8) by (intro fs_inj_removed [OF that assms(7)]) auto
  moreover have "fs_lookup fs' q = (if q \<in> rpath ` set xs then None else fs_lookup fs q)" for q
    using assms(7,8) by (auto simp: fs_frame_def)
  ultimately show ?thesis unfolding disk_edit_def using assms(7) by (simp add: fs_frame_def)
qed

lemma retireWindow_ok:
  assumes "engine_ok cd G e (fs, c)" "xs = old_files horizon (files_of e win)" "xs \<noteq> []"
    and "manifest_log (e_manifest e) fs es" "edit_good (next_edit es (retire_edit xs))"
  defines "cn \<equiv> \<lparr>cn_win = win, cn_expiredReaders = xs, cn_expiredMetas = map r_meta xs\<rparr>"
  shows "\<exists>e' fs'. retireWindow cn e (fs, c) = (e', (fs', c)) \<and> engine_ok cd G e' (fs', c) \<and>
    engine_recs cd e' fs' + (\<Sum>r \<in># mset xs. mset (recs_of cd fs r)) = engine_recs cd e fs \<and>
    (\<forall>r \<in> set xs. fs_lookup fs' (sm_Path (r_meta r)) = None) \<and>
    (\<forall>w. files_of e' w = (if w = win then filter (\<lambda>r. \<not> sm_MaxTimestamp (r_meta r) < horizon) (files_of e win) else files_of e w)) \<and>
    manifest_log (e_manifest e') fs' (es @ [next_edit es (retire_edit xs)]) \<and> same_files G fs fs' \<and>
    e_opts e' = e_opts e \<and> e_closed e' = e_closed e \<and> e_flushCh e' = e_flushCh e \<and> e_wal e' = e_wal e \<and>
    e_strategy e' = e_strategy e \<and> e_dir e' = e_dir e \<and> e_walSeq e' = e_walSeq e \<and>
    disk_edit cd {} {mf_f (e_manifest e)} e fs e' fs' [] xs"
proof -
  let ?P = "\<lambda>r. \<not> sm_MaxTimestamp (r_meta r) < horizon" let ?keep = "filter ?P (files_of e win)"
  have xs: "filter (\<lambda>r. \<not> ?P r) (files_of e win) = xs" using assms(2) by (simp add: old_files_def)
  let ?ea = "set_files win ?keep e"
  have ok: "data_ok cd G e fs" "store_ok cd G e (fs, c)" using assms(1) by (auto simp: engine_ok_def)
  have "files_of e win \<noteq> []" using assms(2,3) by (auto simp: old_files_def)
  then have part: "map_of (rt_partitions (e_router e)) win \<noteq> None"
    using ok(1) by (fastforce simp: data_ok_def files_of_def split: option.splits dest: map_of_SomeD)
  have ff: "fs_faults fs = []" using ok(2) by (simp add: store_ok_def)
  from manifest_Append_ok [OF ff assms(4,5)] obtain m' fs1 where
    ap: "manifest_Append (e_manifest e) (retire_edit xs) fs = (None, m', fs1)" "fs_faults fs1 = []" by blast
  note ap2 = manifest_Append_any [OF assms(4,5) ap(1)]
  note fr1 = fs_frame_own [OF ap2(1) ap(2)]
  let ?ps = "map sm_Path (map r_meta xs)" let ?fs2 = "remove_all ?ps fs1"
  note rm = remove_all_frame [OF ap(2), where ps = ?ps]
  note keep = engine_ok_keep_files [OF assms(1) part, of ?P, unfolded xs]
  have ps: "set (reader_paths xs) = set ?ps" by (auto simp: reader_paths_def)
  note harm = harmless_removed [OF assms(1) part, of ?P, unfolded xs ps]
  have fr: "fs_frame (set ?ps) {mf_f (e_manifest e)} fs ?fs2" using fs_frame_trans [OF fr1 rm(1)] by simp
  have same: "same_files G fs ?fs2" using fs_frame_same_files [OF ok(2) fr] by simp
  then have "cache_ok cd G (?fs2, c)" using ok(2) by (auto simp: store_ok_def intro: cache_ok_same)
  moreover have log: "manifest_log m' ?fs2 (es @ [next_edit es (retire_edit xs)])"
  proof (rule manifest_log_same [of m' fs1])
    have "mf_path m' \<notin> set ?ps" using harm ap2(4) unfolding harmless_def set_files_def by simp
    then show "fs_lookup ?fs2 (mf_path m') = fs_lookup fs1 (mf_path m')" using rm(1) unfolding fs_frame_def by blast
  qed (use ap2(4) in \<open>simp_all add: remove_all_ok [OF ap(2)]\<close>)
  moreover have "mf_f (e_manifest ?ea) = mf_f (e_manifest e)" "mf_path (e_manifest ?ea) = mf_path (e_manifest e)"
    "mf_f m' = mf_f (e_manifest e)" "mf_path m' = mf_path (e_manifest e)"
    using ap2(4) by (simp_all add: set_files_def)
  ultimately have e2: "engine_ok cd G (?ea\<lparr>e_manifest := m'\<rparr>) (?fs2, c)" "file_recs cd ?ea ?fs2 = file_recs cd ?ea fs"
    using engine_ok_frame [OF keep(1) fr _ harm] by (metis subset_refl)+
  obtain n where re: "remove_expired (map r_meta xs) 0 fs1 = (n, ?fs2)"
    using remove_expired_fs [of "map r_meta xs" 0 fs1] by (metis prod.collapse)
  let ?x = "(e_metrics e)\<lparr>m_FilesExpiredTotal := m_FilesExpiredTotal (e_metrics e) + int (length xs),
    m_BytesReclaimedTotal := m_BytesReclaimedTotal (e_metrics e) + n,
    m_SSTFilesTotal := m_SSTFilesTotal (e_metrics e) - int (length xs),
    m_SSTBytesTotal := m_SSTBytesTotal (e_metrics e) - n\<rparr>"
  let ?em = "e\<lparr>e_manifest := m', e_metrics := ?x\<rparr>" let ?Q = "\<lambda>r. sm_MaxTimestamp (r_meta r) < horizon"
  have ret: "retireWindow cn e (fs, c) = (retire_install win xs ?em, (?fs2, c))"
    using ap(1) re by (simp add: retireWindow_def cn_def retire_edit_def Let_def)
  have fo: "files_of ?em = files_of e" by (simp add: fun_eq_iff files_of_def)
  have sf: "set_files win ?keep ?em = (?ea\<lparr>e_manifest := m'\<rparr>)\<lparr>e_metrics := ?x\<rparr>" by (simp add: set_files_def)
  have xq: "filter ?Q (files_of e win) = xs" using assms(2) by (simp add: old_files_def)
  have inst: "engine_ok cd G (retire_install win xs ?em) (?fs2, c)"
    "mem_recs (e_router (retire_install win xs ?em)) = mem_recs (e_router e)"
    "file_recs cd (retire_install win xs ?em) ?fs2 = file_recs cd ?ea ?fs2"
    "files_of (retire_install win xs ?em) w = (if w = win then ?keep else files_of e w)"
    "all_readers (retire_install win xs ?em) = all_readers ?ea" for w
    using retire_install_ok [of cd G ?em fs win ?Q ?fs2 c] ok(1) e2(1) sf fo xq by (simp_all add: all_readers_def)
  have de: "disk_edit cd {} {mf_f (e_manifest e)} e fs (retire_install win xs ?em) ?fs2 [] xs"
  proof (rule retire_disk_edit [OF ok(1) xs _ _ _ _ _ _ assms(4)])
    show "all_readers (retire_install win xs ?em) = all_readers ?ea" by (rule inst(5))
    show "fs_frame (rpath ` set xs) {mf_f (e_manifest e)} fs ?fs2" using fr by (simp add: image_image)
    show "\<forall>x \<in> set xs. fs_lookup ?fs2 (rpath x) = None" using rm(2) by simp
  qed (use log in simp_all)
  have "engine_recs cd (retire_install win xs ?em) ?fs2 + (\<Sum>r \<in># mset xs. mset (recs_of cd fs r)) = engine_recs cd e fs"
    using keep(2) inst(2,3) e2(2) by (simp add: engine_recs_def add.assoc)
  then show ?thesis unfolding ret using inst(1,4) rm(2) log same de
    by (intro exI [of _ "retire_install win xs ?em"] exI [of _ ?fs2]) auto
qed


subsection \<open>Steps that leave the log alone\<close>

text \<open>One change of the files, or none; the log and its segments stay as they are.\<close>

definition quiet_step :: "codecs \<Rightarrow> Engine \<times> file_sys \<Rightarrow> Engine \<times> file_sys \<Rightarrow> bool" where
  "quiet_step cd = (\<lambda>(e, fs) (e', fs'). (\<exists>G c. engine_ok cd G e (fs, c)) \<and> e_wal e' = e_wal e \<and> e_dir e' = e_dir e \<and>
     e_walSeq e' = e_walSeq e \<and> e_opts e' = e_opts e \<and> e_closed e' = e_closed e \<and>
     (fs' = fs \<and> e_manifest e' = e_manifest e \<and> e_files e' = e_files e \<and> e_compactSeq e' = e_compactSeq e \<or>
      (\<exists>news xs. disk_edit cd {} {mf_f (e_manifest e)} e fs e' fs' news xs)))"

lemma maybeCompact_quiet:
  assumes "engine_ok cd G e (fs, c)" "compact_fits cd e win fs" "maybeCompact cd mm dt win e (fs, c) = Some (e', s')"
  shows "quiet_step cd (e, fs) (e', fst s')"
  using maybeCompact_ok [OF assms(1,2), of mm dt] assms(1,3) unfolding quiet_step_def by auto

lemma retireWindow_quiet:
  assumes "engine_ok cd G e (fs, c)" "old_files horizon (files_of e win) \<noteq> []"
    and "manifest_log (e_manifest e) fs es" "edit_good (next_edit es (retire_edit (old_files horizon (files_of e win))))"
    and "retireWindow \<lparr>cn_win = win, cn_expiredReaders = old_files horizon (files_of e win),
      cn_expiredMetas = map r_meta (old_files horizon (files_of e win))\<rparr> e (fs, c) = (e', s')"
  shows "quiet_step cd (e, fs) (e', fst s')"
  using retireWindow_ok [OF assms(1) refl assms(2-4)] assms(1,5) unfolding quiet_step_def by auto

lemma metrics_quiet: "engine_ok cd G e (fs, c) \<Longrightarrow> quiet_step cd (e, fs) (e\<lparr>e_metrics := x\<rparr>, fs)"
  unfolding quiet_step_def by auto

lemma router_quiet: "engine_ok cd G e (fs, c) \<Longrightarrow> quiet_step cd (e, fs) (e\<lparr>e_router := rt\<rparr>, fs)"
  unfolding quiet_step_def by auto

definition retire_candidate :: "int \<Rightarrow> Engine \<Rightarrow> PartitionWindow \<Rightarrow> candidate" where
  "retire_candidate horizon e w = \<lparr>cn_win = w, cn_expiredReaders = old_files horizon (files_of e w),
     cn_expiredMetas = map r_meta (old_files horizon (files_of e w))\<rparr>"

lemma candidates_eq:
  assumes "data_ok cd G e fs"
  shows "candidates e horizon =
    map (retire_candidate horizon e) (filter (\<lambda>w. old_files horizon (files_of e w) \<noteq> []) (map fst (e_files e)))"
proof -
  have "files_of e w = rs" if "(w, rs) \<in> set (e_files e)" for w rs
    using that assms by (simp add: files_of_def data_ok_def)
  moreover have exp: "PickExpired f (map reader_Meta rs) horizon = map r_meta (old_files horizon rs)" for f rs
    by (simp add: PickExpired_def old_files_def filter_map comp_def)
  moreover have "with_paths (sm_Path ` r_meta ` set (old_files horizon rs)) rs = old_files horizon rs"
    if "(w, rs) \<in> set (e_files e)" for w rs
    using split_paths(1) [OF assms, of "\<lambda>r. sm_MaxTimestamp (r_meta r) < horizon" w] that calculation(1) [OF that]
    by (simp add: old_files_def reader_paths_def image_image)
  ultimately show ?thesis
    unfolding candidates_def by (auto simp: retire_candidate_def filter_map comp_def intro!: map_cong filter_cong)
qed

lemma retire_fold_ok:
  assumes "engine_ok cd G e (fs, c)" "distinct wins" "\<forall>w \<in> set wins. old_files horizon (files_of e w) \<noteq> []"
    and "manifest_log (e_manifest e) fs es0"
    and "\<forall>w \<in> set wins. \<forall>es. length es0 \<le> length es \<and> length es < length es0 + length wins \<longrightarrow>
      edit_good (next_edit es (retire_edit (old_files horizon (files_of e w))))"
  shows "\<exists>e' fs'. fold (\<lambda>c (e, s). retireWindow c e s) (map (retire_candidate horizon e) wins) (e, (fs, c)) = (e', (fs', c)) \<and>
    engine_ok cd G e' (fs', c) \<and> e_opts e' = e_opts e \<and> e_closed e' = e_closed e \<and> e_flushCh e' = e_flushCh e \<and>
    e_wal e' = e_wal e \<and> e_strategy e' = e_strategy e \<and>
    engine_recs cd e' fs' + (\<Sum>w \<in># mset wins. \<Sum>r \<in># mset (old_files horizon (files_of e w)). mset (recs_of cd fs r)) =
      engine_recs cd e fs \<and>
    (\<forall>w. files_of e' w = (if w \<in> set wins then filter (\<lambda>r. \<not> sm_MaxTimestamp (r_meta r) < horizon) (files_of e w)
       else files_of e w)) \<and> (quiet_step cd)\<^sup>*\<^sup>* (e, fs) (e', fs')"
  using assms
proof (induction wins arbitrary: e fs es0)
  case (Cons w wins)
  let ?xs = "old_files horizon (files_of e w)"
  have "edit_good (next_edit es0 (retire_edit ?xs))" using Cons.prems(5) by simp
  from retireWindow_ok [OF Cons.prems(1) refl _ Cons.prems(4) this] Cons.prems(3) obtain e1 fs1 where
    r: "retireWindow (retire_candidate horizon e w) e (fs, c) = (e1, (fs1, c))" "engine_ok cd G e1 (fs1, c)"
    "engine_recs cd e1 fs1 + (\<Sum>r \<in># mset ?xs. mset (recs_of cd fs r)) = engine_recs cd e fs"
    "\<And>v. files_of e1 v = (if v = w then filter (\<lambda>r. \<not> sm_MaxTimestamp (r_meta r) < horizon) (files_of e w) else files_of e v)"
    "manifest_log (e_manifest e1) fs1 (es0 @ [next_edit es0 (retire_edit ?xs)])" "same_files G fs fs1"
    "e_opts e1 = e_opts e" "e_closed e1 = e_closed e" "e_flushCh e1 = e_flushCh e" "e_wal e1 = e_wal e"
    "e_strategy e1 = e_strategy e" by (auto simp: retire_candidate_def)
  have other: "files_of e1 v = files_of e v" if "v \<in> set wins" for v using that r(4) Cons.prems(2) by auto
  then have cs: "map (retire_candidate horizon e) wins = map (retire_candidate horizon e1) wins"
    by (simp add: retire_candidate_def)
  have ok: "data_ok cd G e fs" using Cons.prems(1) by (simp add: engine_ok_def)
  have recs: "recs_of cd fs1 r = recs_of cd fs r" if "r \<in> set (files_of e v)" for r v
    using files_of_ok [OF ok that] r(6) by (auto simp: reader_ok_def same_files_def intro: recs_of_same)
  have "\<exists>e' fs'. fold (\<lambda>c (e, s). retireWindow c e s) (map (retire_candidate horizon e1) wins) (e1, (fs1, c)) = (e', (fs', c)) \<and>
    engine_ok cd G e' (fs', c) \<and> e_opts e' = e_opts e1 \<and> e_closed e' = e_closed e1 \<and> e_flushCh e' = e_flushCh e1 \<and>
    e_wal e' = e_wal e1 \<and> e_strategy e' = e_strategy e1 \<and>
    engine_recs cd e' fs' + (\<Sum>w \<in># mset wins. \<Sum>r \<in># mset (old_files horizon (files_of e1 w)). mset (recs_of cd fs1 r)) =
      engine_recs cd e1 fs1 \<and>
    (\<forall>w. files_of e' w = (if w \<in> set wins then filter (\<lambda>r. \<not> sm_MaxTimestamp (r_meta r) < horizon) (files_of e1 w)
       else files_of e1 w)) \<and> (quiet_step cd)\<^sup>*\<^sup>* (e1, fs1) (e', fs')"
    using Cons.prems(2,3,5) other by (intro Cons.IH [OF r(2) _ _ r(5)]) auto
  then obtain e' fs' where ih: "fold (\<lambda>c (e, s). retireWindow c e s) (map (retire_candidate horizon e1) wins) (e1, (fs1, c)) = (e', (fs', c))"
    "engine_ok cd G e' (fs', c)" "e_opts e' = e_opts e" "e_closed e' = e_closed e" "e_flushCh e' = e_flushCh e"
    "e_wal e' = e_wal e" "e_strategy e' = e_strategy e"
    "engine_recs cd e' fs' + (\<Sum>w \<in># mset wins. \<Sum>r \<in># mset (old_files horizon (files_of e1 w)). mset (recs_of cd fs1 r)) =
      engine_recs cd e1 fs1"
    "\<And>w. files_of e' w = (if w \<in> set wins then filter (\<lambda>r. \<not> sm_MaxTimestamp (r_meta r) < horizon) (files_of e1 w)
       else files_of e1 w)" "(quiet_step cd)\<^sup>*\<^sup>* (e1, fs1) (e', fs')" using r(7-11) by auto
  have "quiet_step cd (e, fs) (e1, fs1)"
    using retireWindow_quiet [OF Cons.prems(1) _ Cons.prems(4) \<open>edit_good _\<close>] Cons.prems(3) r(1) by (auto simp: retire_candidate_def)
  note quiet = converse_rtranclp_into_rtranclp [OF this ih(10)]
  have sums: "(\<Sum>w \<in># mset wins. \<Sum>r \<in># mset (old_files horizon (files_of e1 w)). mset (recs_of cd fs1 r)) =
      (\<Sum>w \<in># mset wins. \<Sum>r \<in># mset (old_files horizon (files_of e w)). mset (recs_of cd fs r))"
  proof (rule arg_cong [where f = sum_mset], rule image_mset_cong)
    fix v
    assume "v \<in># mset wins"
    then show "(\<Sum>r \<in># mset (old_files horizon (files_of e1 v)). mset (recs_of cd fs1 r)) =
        (\<Sum>r \<in># mset (old_files horizon (files_of e v)). mset (recs_of cd fs r))"
      using other recs by (intro arg_cong [where f = sum_mset]) (auto simp: old_files_def intro!: image_mset_cong)
  qed
  have "files_of e' v = (if v \<in> set (w # wins) then filter (\<lambda>r. \<not> sm_MaxTimestamp (r_meta r) < horizon) (files_of e v)
      else files_of e v)" for v using ih(9) r(4) Cons.prems(2) by auto
  then show ?case using ih(1) [folded cs] ih(2-7) ih(8) [unfolded sums] r(1) r(3) [symmetric] quiet
    by (intro exI [of _ e'] exI [of _ fs']) (simp add: add.assoc add.commute)
qed simp

end
