(* ===== verification/EngineOpen.thy ===== *)
theory EngineOpen
  imports EngineCompact Lifecycle
begin

text \<open>
  \<^verbatim>\<open>Open\<close> establishes the invariant of the engine.
\<close>

subsection \<open>\<^verbatim>\<open>Open\<close> of a new directory\<close>

lemma glob_MANIFEST [simp]:
  "\<not> glob_match d '''' ''.sst'' (path_join d' ''MANIFEST'')" "\<not> glob_match d ''wal-'' ''.wal'' (path_join d' ''MANIFEST'')"
proof -
  have "last p = CHR ''t''" if "suffix ''.sst'' p" for p using that by (auto simp: suffix_def)
  moreover have "last p = CHR ''l''" if "suffix ''.wal'' p" for p using that by (auto simp: suffix_def)
  ultimately show "\<not> glob_match d '''' ''.sst'' (path_join d' ''MANIFEST'')"
    "\<not> glob_match d ''wal-'' ''.wal'' (path_join d' ''MANIFEST'')"
    using name_ends(4) [of d'] by (auto simp: glob_match_def Let_def)
qed

lemma engine_init_fields [simp]:
  "e_dir (engine_init dir opts m) = dir" "e_opts (engine_init dir opts m) = opts"
  "e_router (engine_init dir opts m) =
     NewRouter (o_PartitionDuration opts) (o_LateArrivalWindow opts) (o_LateArrivalMode opts)"
  "e_manifest (engine_init dir opts m) = m" "e_files (engine_init dir opts m) = []"
  "e_cached (engine_init dir opts m) = (o_BlockCacheBytes opts > 0)"
  "e_maxFlushedTS (engine_init dir opts m) = []" "e_flushCh (engine_init dir opts m) = []"
  "e_compactCh (engine_init dir opts m) = []" "e_walSeq (engine_init dir opts m) = 0"
  "e_compactSeq (engine_init dir opts m) = 0" "e_closedReaders (engine_init dir opts m) = []"
  "e_strategy (engine_init dir opts m) = \<lparr>ff_MaxFilesPerPartition = o_MaxFilesPerPartition opts\<rparr>"
  "e_closed (engine_init dir opts m) = False"
  by (simp_all add: engine_init_def)

definition new_store :: "file_sys \<Rightarrow> bool" where
  "new_store fs \<longleftrightarrow> fs_names fs = [] \<and> fs_faults fs = [] \<and> (\<forall>i. \<not> fs_bad fs i)"

lemma manifest_Open_new:
  assumes "new_store fs"
  obtains m fs1 where "manifest_Open p fs = (Inr m, fs1)" "manifest_file fs1 p (fs_next fs) []" "fs_names fs1 = [(p, fs_next fs)]"
    "fs_faults fs1 = []" "\<forall>i. \<not> fs_bad fs1 i" "fs_next fs1 = Suc (fs_next fs)"
    "m = \<lparr>mf_f = fs_next fs, mf_path = p, mf_bw = bufio_New (fs_next fs) (64 * 1024), mf_seq = 0\<rparr>"
    "\<And>j. j \<noteq> fs_next fs \<Longrightarrow> fs_data fs1 j = fs_data fs j \<and> fs_synced fs1 j = fs_synced fs j"
  using assms that by (simp add: manifest_Open_def os_open_create_def new_store_def fs_lookup_def Let_def
      manifest_file_def seq_ok_def)

lemma Open_new:
  assumes "new_store fs" "0 < o_PartitionDuration opts" "o_CompressionType opts \<le> 2"
  shows "\<exists>e s. engine_Open mm now dir opts fs = (Inr e, s) \<and> engine_ok cd Map.empty e s \<and>
    engine_recs cd e (fst s) = {#} \<and> \<not> e_closed e \<and> e_opts e = opts \<and> e_flushCh e = [] \<and> e_compactCh e = [] \<and>
    e_files e = [] \<and> rt_partitions (e_router e) = [] \<and> e_walSeq e = 1 \<and> e_dir e = dir \<and>
    e_router e = NewRouter (o_PartitionDuration opts) (o_LateArrivalWindow opts) (o_LateArrivalMode opts) \<and>
    wal_log (e_wal e) (fst s) [] \<and> manifest_log (e_manifest e) (fst s) [] \<and>
    w_syncMode (e_wal e) = o_WALSyncMode opts \<and> fs_lookup (fst s) (w_path (e_wal e)) = Some (w_file (e_wal e)) \<and>
    fs_names (fst s) = [(w_path (e_wal e), w_file (e_wal e)), (mf_path (e_manifest e), mf_f (e_manifest e))] \<and>
    (\<forall>j. j \<noteq> w_file (e_wal e) \<and> j \<noteq> mf_f (e_manifest e) \<longrightarrow>
       fs_data (fst s) j = fs_data fs j \<and> fs_synced (fst s) j = fs_synced fs j)"
proof -
  let ?mp = "path_join dir ''MANIFEST''"
  from manifest_Open_new [OF assms(1), of ?mp] obtain m fs1 where m: "manifest_Open ?mp fs = (Inr m, fs1)"
    "manifest_file fs1 ?mp (fs_next fs) []" "fs_names fs1 = [(?mp, fs_next fs)]"
    "fs_faults fs1 = []" "\<forall>i. \<not> fs_bad fs1 i" "fs_next fs1 = Suc (fs_next fs)"
    "m = \<lparr>mf_f = fs_next fs, mf_path = ?mp, mf_bw = bufio_New (fs_next fs) (64 * 1024), mf_seq = 0\<rparr>"
    "\<And>j. j \<noteq> fs_next fs \<Longrightarrow> fs_data fs1 j = fs_data fs j \<and> fs_synced fs1 j = fs_synced fs j" by metis
  from manifest_Replay_whole [OF m(4,2,7)] obtain m' fs2 where r: "manifest_Replay m fs1 = ([], None, m', fs2)"
    "manifest_log m' fs2 []" "fs_faults fs2 = []" "own_file (fs_next fs) fs1 fs2" "mf_path m' = ?mp" "mf_f m' = fs_next fs" by blast
  then have n: "fs_names fs2 = [(?mp, fs_next fs)]" "fs_next fs2 = Suc (fs_next fs)" "\<forall>i. \<not> fs_bad fs2 i"
    using m by (auto simp: own_file_def)
  let ?init = "engine_init dir opts m'"
  let ?e1 = "?init\<lparr>e_walSeq := 1\<rparr>" let ?wp = "walPath ?e1 1"
  let ?i = "fs_next fs2"
  let ?fs3 = "fs2\<lparr>fs_names := (?wp, ?i) # fs_names fs2, fs_data := (fs_data fs2)(?i := []),
    fs_synced := (fs_synced fs2)(?i := 0), fs_next := Suc ?i\<rparr>"
  let ?w = "\<lparr>w_file = ?i, w_path = ?wp, w_bw = bufio_New ?i (64 * 1024), w_syncMode = o_WALSyncMode opts,
    w_ticker = (o_WALSyncMode opts = SyncPeriodic)\<rparr>"
  let ?e = "?e1\<lparr>e_wal := ?w, e_metrics := metrics_New\<rparr>"
  have orph: "remove_orphans ?init fs2 = fs2" using n(1) by (simp add: remove_orphans_def file_Glob_def Let_def)
  have wg: "file_Glob dir ''wal-'' ''.wal'' fs2 = []" using n(1) by (simp add: file_Glob_def)
  have "wal_Open ?wp (o_WALSyncMode opts) fs2 = (Inr ?w, ?fs3)"
    using r(3) n by (simp add: wal_Open_def os_open_create_def fs_lookup_def Let_def)
  then have op: "engine_Open mm now dir opts fs = (Inr ?e, (?fs3, NewBlockCache (o_BlockCacheBytes opts)))"
    using assms(1)
    by (simp add: m(1) r(1) orph wg engine_Open_def os_MkdirAll_def new_store_def Let_def highest_walSeq_def)
  have log: "manifest_log m' ?fs3 []" using r(2,6) n by (auto simp: manifest_log_def manifest_file_def fs_lookup_def)
  have wl: "wal_log ?w ?fs3 []" by (rule wal_log_fresh) auto
  have c: "cache_ok cd Map.empty (?fs3, NewBlockCache n)" for n
    using cache_inv_New by (simp add: cache_ok_def cache_abs_def NewBlockCache_def)
  have d: "data_ok cd Map.empty ?e ?fs3"
    using rt_inv_New [OF assms(2)] by (simp add: data_ok_def all_readers_def reader_paths_def NewRouter_def
        mem_recs_def router_All_def)
  have st: "store_ok cd Map.empty ?e (?fs3, NewBlockCache (o_BlockCacheBytes opts))"
    using c log wl r(3,6) n unfolding store_ok_def by auto
  have nm: "names_ok Map.empty ?e ?fs3"
  proof -
    have "walPath ?e sq \<noteq> ?wp" if "1 < sq" for sq using wal_name [of 1 sq ?e1] path_fields(1) [of ?e ?e1] that by auto
    moreover have "flushPath ?e v sq \<noteq> ?wp" "compactPath ?e v sq \<noteq> ?wp" for v sq by simp_all
    ultimately show ?thesis using n(1) r(5) path_fields(1) [of ?e ?e1] unfolding names_ok_def unused_def fs_lookup_def
      by simp
  qed
  have "engine_ok cd Map.empty ?e (?fs3, NewBlockCache (o_BlockCacheBytes opts))"
    using d st nm assms(3) by (simp add: engine_ok_def)
  moreover have "fs_data fs2 j = fs_data fs j \<and> fs_synced fs2 j = fs_synced fs j" if "j \<noteq> fs_next fs" for j
    using r(4) m(8) that by (simp add: own_file_def)
  ultimately show ?thesis using op log wl n(1) r(5,6)
    by (intro exI [of _ ?e] exI [of _ "(?fs3, NewBlockCache (o_BlockCacheBytes opts))"])
      (simp add: engine_recs_def file_recs_def all_readers_def mem_recs_def router_All_def NewRouter_def
        fs_lookup_def)
qed

end
