(* ===== verification/EngineRun.thy ===== *)
theory EngineRun
  imports EngineOpen
begin

text \<open>
  Runs of an engine: clients that append and scan, the flusher, the compactor and the retention sweep,
  interleaved in any order, one operation at a time. A run refines a bag of records.
\<close>

subsection \<open>Sweeps\<close>

lemma engine_ok_cache:
  "engine_ok cd G e (fs, c) \<Longrightarrow> cache_ok cd G (fs, c') \<Longrightarrow> engine_ok cd G e (fs, c')"
  by (simp add: engine_ok_def store_ok_def)

lemma SealExpired_engine_ok:
  assumes "engine_ok cd G e s"
  shows "engine_ok cd G (e\<lparr>e_router := SealExpired (e_router e) now\<rparr>) s"
    "engine_recs cd (e\<lparr>e_router := SealExpired (e_router e) now\<rparr>) fs = engine_recs cd e fs"
proof -
  have d: "rt_inv (e_router e)" "\<forall>x \<in># mem_recs (e_router e). ts_ok (o_PartitionDuration (e_opts e)) (Timestamp x)"
    using assms by (auto simp: engine_ok_def data_ok_def)
  note s = SealExpired_ok [OF d(1), of now]
  have keys: "map_of (rt_partitions (SealExpired (e_router e) now)) w \<noteq> None"
    if "map_of (rt_partitions (e_router e)) w \<noteq> None" for w
    using that by (auto simp: SealExpired_def map_of_eq_None_iff image_iff split_beta)
  have "rt_windowDuration (SealExpired (e_router e) now) = rt_windowDuration (e_router e)"
    by (simp add: SealExpired_def)
  from engine_ok_router [OF assms s(1) this] keys d(2) s(2)
  show "engine_ok cd G (e\<lparr>e_router := SealExpired (e_router e) now\<rparr>) s"
    "engine_recs cd (e\<lparr>e_router := SealExpired (e_router e) now\<rparr>) fs = engine_recs cd e fs"
    by (simp_all add: engine_recs_def)
qed

text \<open>The formats have room for the merges of a sweep, one after the other.\<close>

fun sweep_fits :: "codecs \<Rightarrow> bool \<Rightarrow> int \<Rightarrow> PartitionWindow list \<Rightarrow> Engine \<Rightarrow> store \<Rightarrow> bool" where
  "sweep_fits cd mm dt [] e s = True"
| "sweep_fits cd mm dt (w # ws) e s \<longleftrightarrow> compact_fits cd e w (fst s) \<and>
     (case maybeCompact cd mm dt w e s of None \<Rightarrow> True | Some (e', s') \<Rightarrow> sweep_fits cd mm dt ws e' s')"

lemma compact_windows_ok:
  assumes "engine_ok cd G e s" "sweep_fits cd mm dt ws e s"
  shows "\<exists>G' e' s'. compact_windows cd mm dt ws e s = Some (e', s') \<and> engine_ok cd G' e' s' \<and>
    engine_recs cd e' (fst s') = engine_recs cd e (fst s) \<and> e_router e' = e_router e \<and> e_opts e' = e_opts e \<and>
    e_closed e' = e_closed e \<and> e_flushCh e' = e_flushCh e \<and> e_wal e' = e_wal e \<and> e_strategy e' = e_strategy e \<and>
    (quiet_step cd)\<^sup>*\<^sup>* (e, fst s) (e', fst s')"
  using assms
proof (induction ws arbitrary: G e s)
  case (Cons w ws)
  obtain fs c where s: "s = (fs, c)" by (cases s)
  from maybeCompact_ok [of cd G e fs c w mm dt] Cons.prems s obtain G1 e1 fs1 c1 where
    m: "maybeCompact cd mm dt w e s = Some (e1, (fs1, c1))" "engine_ok cd G1 e1 (fs1, c1)"
    "engine_recs cd e1 fs1 = engine_recs cd e fs" "e_router e1 = e_router e" "e_opts e1 = e_opts e"
    "e_closed e1 = e_closed e" "e_flushCh e1 = e_flushCh e" "e_wal e1 = e_wal e" "e_strategy e1 = e_strategy e" by auto
  have "quiet_step cd (e, fst s) (e1, fs1)" using maybeCompact_quiet [of cd G e fs c w mm dt] Cons.prems m(1) s by auto
  note quiet = converse_rtranclp_into_rtranclp [of "quiet_step cd", OF this]
  from Cons.IH [OF m(2)] Cons.prems(2) m(1) obtain G' e' s' where
    "compact_windows cd mm dt ws e1 (fs1, c1) = Some (e', s')" "engine_ok cd G' e' s'" "engine_recs cd e' (fst s') = engine_recs cd e1 fs1"
    "e_router e' = e_router e1" "e_opts e' = e_opts e1" "e_closed e' = e_closed e1" "e_flushCh e' = e_flushCh e1" "e_wal e' = e_wal e1"
    "e_strategy e' = e_strategy e1" "(quiet_step cd)\<^sup>*\<^sup>* (e1, fs1) (e', fst s')" by auto
  with m s quiet show ?case by (intro exI [of _ G'] exI [of _ e'] exI [of _ s']) auto
qed auto

definition retire_fits :: "Engine \<Rightarrow> int \<Rightarrow> file_sys \<Rightarrow> bool" where
  "retire_fits e horizon fs \<longleftrightarrow> (\<forall>es0 es w. manifest_log (e_manifest e) fs es0 \<and>
     length es0 \<le> length es \<and> length es < length es0 + length (e_files e) \<longrightarrow>
       edit_good (next_edit es (retire_edit (old_files horizon (files_of e w)))))"

lemma reads_as_max:
  assumes "reads_as cd r fs bs" "bs \<noteq> []"
  shows "sm_MaxTimestamp (r_meta r) < h \<longleftrightarrow> (\<forall>x \<in> set (recs_of cd fs r). Timestamp x < h)"
proof -
  have b: "recs_of cd fs r = concat bs" "rec_sorted (concat bs)" "sm_MaxTimestamp (r_meta r) = Timestamp (last (concat bs))"
    using assms by (simp_all add: recs_of_reads reads_as_def)
  have "concat bs \<noteq> []" using assms by (cases bs) (auto simp: reads_as_def)
  then show ?thesis using b rec_sorted_bounds(2) [OF b(2)] last_in_set [of "concat bs"] by fastforce
qed

lemma sum_mset_if:
  "(\<Sum>x \<in># mset xs. if P x then f x else {#}) = (\<Sum>x \<in># mset (filter P xs). f x)" for f :: "'a \<Rightarrow> 'b multiset"
  by (induction xs) auto

lemma expired_recs:
  fixes h :: int
  assumes "data_ok cd G e fs"
  defines "ws \<equiv> filter (\<lambda>w. old_files h (files_of e w) \<noteq> []) (map fst (e_files e))"
  shows "(\<Sum>w \<in># mset ws. \<Sum>r \<in># mset (old_files h (files_of e w)). mset (recs_of cd fs r)) =
    (\<Sum>r \<in># mset (old_files h (all_readers e)). mset (recs_of cd fs r))"
proof -
  let ?F = "\<lambda>w. \<Sum>r \<in># mset (old_files h (files_of e w)). mset (recs_of cd fs r)"
  have d: "distinct (map fst (e_files e))" using assms(1) by (simp add: data_ok_def)
  have "(\<Sum>w \<in># mset ws. ?F w) = (\<Sum>w \<in># mset (map fst (e_files e)). ?F w)"
    unfolding ws_def by (intro sum_mset_filter_zero) simp
  also have "\<dots> = (\<Sum>w \<in> fst ` set (e_files e). \<Sum>r \<in># mset (files_of e w).
      if sm_MaxTimestamp (r_meta r) < h then mset (recs_of cd fs r) else {#})"
    using d by (subst distinct_sum_mset) (auto simp: old_files_def sum_mset_if intro!: sum.cong)
  also have "\<dots> = (\<Sum>r \<in># mset (all_readers e). if sm_MaxTimestamp (r_meta r) < h then mset (recs_of cd fs r) else {#})"
    by (rule files_sum [OF d, symmetric])
  also have "\<dots> = (\<Sum>r \<in># mset (old_files h (all_readers e)). mset (recs_of cd fs r))"
    by (simp add: old_files_def sum_mset_if)
  finally show ?thesis .
qed


lemma sweepRetention_ok:
  assumes "engine_ok cd G e (fs, c)" "o_RetentionDuration (e_opts e) \<noteq> 0"
    and "retire_fits e (i64 (now - o_RetentionDuration (e_opts e))) fs"
  defines "h \<equiv> i64 (now - o_RetentionDuration (e_opts e))"
  shows "\<exists>e' fs'. sweepRetention now e (fs, c) = (e', (fs', c)) \<and> engine_ok cd G e' (fs', c) \<and>
    e_opts e' = e_opts e \<and> e_closed e' = e_closed e \<and> e_flushCh e' = e_flushCh e \<and> e_wal e' = e_wal e \<and>
    engine_recs cd e' fs' + (\<Sum>r \<in># mset (old_files h (all_readers e)). mset (recs_of cd fs r)) = engine_recs cd e fs \<and>
    (\<forall>w. files_of e' w = filter (\<lambda>r. \<not> sm_MaxTimestamp (r_meta r) < h) (files_of e w)) \<and>
    (quiet_step cd)\<^sup>*\<^sup>* (e, fs) (e', fs')"
proof -
  let ?e = "e\<lparr>e_metrics := (e_metrics e)\<lparr>m_RetentionHorizonTS := h\<rparr>\<rparr>"
  let ?ws = "filter (\<lambda>w. old_files h (files_of ?e w) \<noteq> []) (map fst (e_files ?e))"
  have ok: "engine_ok cd G ?e (fs, c)" "data_ok cd G ?e fs" using assms(1) by (simp, simp add: engine_ok_def)
  then obtain es0 where log: "manifest_log (e_manifest ?e) fs es0" by (auto simp: engine_ok_def store_ok_def)
  have fo: "files_of ?e = files_of e" "all_readers ?e = all_readers e" by (simp_all add: fun_eq_iff files_of_def all_readers_def)
  have le: "length ?ws \<le> length (e_files e)" using length_filter_le [of _ "map fst (e_files e)"] by simp
  have "edit_good (next_edit es (retire_edit (old_files h (files_of ?e w))))"
    if "length es0 \<le> length es" "length es < length es0 + length ?ws" for w es
  proof -
    have "length es < length es0 + length (e_files e)" using that(2) le by linarith
    then show ?thesis using assms(3) log fo that(1) unfolding retire_fits_def h_def [symmetric] by simp
  qed
  then have "\<forall>w \<in> set ?ws. \<forall>es. length es0 \<le> length es \<and> length es < length es0 + length ?ws \<longrightarrow>
      edit_good (next_edit es (retire_edit (old_files h (files_of ?e w))))" by blast
  moreover have "distinct ?ws" using ok(2) by (auto simp: data_ok_def distinct_map_filter)
  moreover have "\<forall>w \<in> set ?ws. old_files h (files_of ?e w) \<noteq> []" by simp
  ultimately obtain e' fs' where
    f: "fold (\<lambda>c (e, s). retireWindow c e s) (map (retire_candidate h ?e) ?ws) (?e, (fs, c)) = (e', (fs', c))"
    "engine_ok cd G e' (fs', c)" "e_opts e' = e_opts ?e" "e_closed e' = e_closed ?e" "e_flushCh e' = e_flushCh ?e"
    "e_wal e' = e_wal ?e"
    "engine_recs cd e' fs' + (\<Sum>w \<in># mset ?ws. \<Sum>r \<in># mset (old_files h (files_of ?e w)). mset (recs_of cd fs r)) =
      engine_recs cd ?e fs"
    "\<And>w. files_of e' w = (if w \<in> set ?ws then filter (\<lambda>r. \<not> sm_MaxTimestamp (r_meta r) < h) (files_of ?e w)
       else files_of ?e w)" "(quiet_step cd)\<^sup>*\<^sup>* (?e, fs) (e', fs')" using retire_fold_ok [OF ok(1) _ _ log, of ?ws h] by blast
  have "sweepRetention now e (fs, c) = (e', (fs', c))"
    using assms(2) f(1) candidates_eq [OF ok(2), of h] by (simp add: sweepRetention_def Let_def h_def)
  moreover have "files_of e' w = filter (\<lambda>r. \<not> sm_MaxTimestamp (r_meta r) < h) (files_of e w)" for w
  proof (cases "w \<in> set ?ws")
    case False
    then have "old_files h (files_of e w) = []"
      using fo by (cases "map_of (e_files e) w")
        (auto simp: old_files_def files_of_def dest!: map_of_SomeD intro: rev_image_eqI)
    then show ?thesis using f(8) [of w] False fo by (simp add: old_files_def filter_empty_conv filter_id_conv)
  qed (use f(8) [of w] fo in simp)
  moreover have "(quiet_step cd)\<^sup>*\<^sup>* (e, fs) (e', fs')"
    by (rule converse_rtranclp_into_rtranclp [OF metrics_quiet [OF assms(1)] f(9)])
  ultimately show ?thesis using f expired_recs [OF ok(2), of h] fo by auto
qed


subsection \<open>Channels\<close>

text \<open>A channel holds at most 16 entries; the windows in it have a partition.\<close>

abbreviation windows :: "Engine \<Rightarrow> PartitionWindow set" where
  "windows e \<equiv> dom (map_of (rt_partitions (e_router e)))"

definition chan_ok :: "Engine \<Rightarrow> bool" where
  "chan_ok e \<longleftrightarrow> length (e_flushCh e) \<le> 16 \<and> length (e_compactCh e) \<le> 16 \<and> set (e_flushCh e) \<subseteq> windows e"

lemma chan_send_ok [simp]: "length ch \<le> 16 \<Longrightarrow> length (chan_send ch x) \<le> 16" "set (chan_send ch x) \<subseteq> insert x (set ch)"
  by (auto simp: chan_send_def)

lemma Route_keys:
  assumes "Route rt now ts = (res, rt')"
  shows "dom (map_of (rt_partitions rt)) \<subseteq> dom (map_of (rt_partitions rt'))"
    "res = Inr w \<Longrightarrow> w \<in> dom (map_of (rt_partitions rt'))"
  using assms by (auto simp: Route_def Let_def update_conv' split: if_splits sum.splits)

lemma set_partition_keys [simp]: "dom (map_of (rt_partitions (set_partition rt w p))) = insert w (dom (map_of (rt_partitions rt)))"
  by (simp add: set_partition_def update_conv')

lemma Append_chan:
  assumes "chan_ok e" "engine_Append now e r s = (err, e', s')"
  shows "chan_ok e'"
proof (cases "e_closed e \<or> fst (wal_Append (e_wal e) r (fst s)) \<noteq> None")
  case True
  then show ?thesis using assms
    by (auto simp: engine_Append_def chan_ok_def Let_def split: prod.splits option.splits if_splits)
next
  case False
  then obtain w fs where w: "wal_Append (e_wal e) r (fst s) = (None, w, fs)" "\<not> e_closed e"
    by (metis prod.collapse fst_conv)
  obtain res rt where r: "Route (e_router e) now (Timestamp r) = (res, rt)" by force
  note k = Route_keys [OF r]
  have sub: "\<forall>x \<in> set (e_flushCh e). map_of (rt_partitions rt) x \<noteq> None"
    using assms(1) k(1) unfolding chan_ok_def by blast
  show ?thesis
  proof (cases res)
    case (Inl er)
    then show ?thesis using assms w r sub by (auto simp: engine_Append_def chan_ok_def Let_def)
  next
    case (Inr win)
    obtain perr p where p: "partition_Append (the (map_of (rt_partitions rt) win)) r = (perr, p)" by force
    have "e_compactCh e' = e_compactCh e \<and> (e_flushCh e' = e_flushCh e \<or> e_flushCh e' = chan_send (e_flushCh e) win) \<and>
        (e_router e' = rt \<or> e_router e' = set_partition rt win p)"
      using assms(2) w r Inr p by (cases perr) (auto simp: engine_Append_def Let_def)
    moreover have "win \<in> dom (map_of (rt_partitions rt))" using k(2) Inr by blast
    ultimately show ?thesis using assms(1) sub unfolding chan_ok_def
      by (auto simp: chan_send_def set_partition_def update_conv' split: if_splits)
  qed
qed

lemma flush_commit_chan:
  assumes "flush_commit mm win old p meta e s = (err, e', s')" "chan_ok e"
  shows "chan_ok e'" "e_flushCh e' = e_flushCh e" "windows e' = windows e"
  using assms by (auto simp: flush_commit_def flush_install_def Let_def chan_ok_def set_files_def raise_flushed_def
      split: prod.splits sum.splits option.splits if_splits)

lemma flushPartition_chan:
  assumes "flushPartition cd mm e win s = (err, e', s')" "chan_ok e"
  shows "chan_ok e' \<and> e_flushCh e' = e_flushCh e \<and> windows e \<subseteq> windows e'"
proof -
  let ?n = "e_walSeq e + 1"
  obtain rerr w fs1 where r: "wal_Rotate (e_wal e) (walPath e ?n) (fst s) = (rerr, w, fs1)" by (metis prod_cases3)
  show ?thesis
  proof (cases rerr)
    case (Some x)
    then show ?thesis using assms r by (auto simp: flushPartition_def Let_def chan_ok_def)
  next
    case None
    let ?e1 = "e\<lparr>e_wal := w, e_walSeq := ?n\<rparr>"
    let ?rt = "set_partition (e_router e) win ((the (map_of (rt_partitions (e_router e)) win))\<lparr>tp_mem := memtable_New\<rparr>)"
    let ?e2 = "?e1\<lparr>e_router := ?rt\<rparr>"
    have e2: "chan_ok ?e1" "chan_ok ?e2" "windows e \<subseteq> windows ?e2" "windows ?e1 = windows e"
      using assms(2) by (auto simp: chan_ok_def)
    have "e' = ?e1 \<or> e' = ?e2 \<or> (\<exists>old p meta s1. flush_commit mm win old p meta ?e2 s1 = (err, e', s'))"
      using assms(1) r None by (auto simp: flushPartition_def Let_def SwapMemtable_def
          split: prod.splits sum.splits option.splits if_splits)
    then consider "e' = ?e1" | "e' = ?e2" | old p meta s1 where "flush_commit mm win old p meta ?e2 s1 = (err, e', s')"
      by blast
    then show ?thesis
    proof cases
      case 3
      from flush_commit_chan [OF this e2(2)] e2(3) show ?thesis by simp
    qed (use e2 in auto)
  qed
qed


lemma maybeCompact_chan:
  assumes "maybeCompact cd mm dt win e s = Some (e', s')" "chan_ok e"
  shows "chan_ok e' \<and> e_flushCh e' = e_flushCh e \<and> windows e' = windows e"
proof -
  have "e_router e' = e_router e \<and> e_flushCh e' = e_flushCh e \<and> e_compactCh e' = e_compactCh e"
    using assms(1) by (auto simp: maybeCompact_def Let_def compact_install_def set_files_def
        split: if_splits option.splits sum.splits)
  then show ?thesis using assms(2) by (simp add: chan_ok_def)
qed

lemma compact_windows_chan:
  "compact_windows cd mm dt ws e s = Some (e', s') \<Longrightarrow> chan_ok e \<Longrightarrow>
   chan_ok e' \<and> e_flushCh e' = e_flushCh e \<and> windows e' = windows e"
proof (induction ws arbitrary: e s)
  case (Cons w ws)
  then obtain e1 s1 where m: "maybeCompact cd mm dt w e s = Some (e1, s1)" "compact_windows cd mm dt ws e1 s1 = Some (e', s')"
    by (auto split: option.splits)
  note c = maybeCompact_chan [OF m(1) Cons.prems(2)]
  from Cons.IH [OF m(2)] c show ?case by simp
qed simp

lemma SealExpired_windows [simp]: "dom (map_of (rt_partitions (SealExpired rt now))) = dom (map_of (rt_partitions rt))"
  by (auto simp: SealExpired_def dom_map_of_conv_image_fst image_image split_beta)

lemma retire_partition_keys: "dom (map_of (rt_partitions rt)) \<subseteq> dom (map_of (rt_partitions (retire_partition win rt)))"
  unfolding retire_partition_def by (cases "find (\<lambda>p. tp_Window p = win \<and> partition_State p = StateSealed) (router_All rt)") auto

lemma retire_install_chan:
  assumes "chan_ok e"
  shows "chan_ok (retire_install win xs e)" "windows e \<subseteq> windows (retire_install win xs e)"
proof -
  have "windows e \<subseteq> windows (retire_install win xs e)" "e_compactCh (retire_install win xs e) = e_compactCh e"
    using retire_partition_keys [of "e_router e" win] by (simp_all add: retire_install_def Let_def set_files_def)
  then show "chan_ok (retire_install win xs e)" "windows e \<subseteq> windows (retire_install win xs e)"
    using assms unfolding chan_ok_def retire_install_fields by (simp_all, blast)
qed

lemma retireWindow_chan:
  assumes "retireWindow c e s = (e', s')" "chan_ok e"
  shows "chan_ok e' \<and> e_flushCh e' = e_flushCh e \<and> windows e \<subseteq> windows e'"
proof -
  obtain err mf fs1 where m: "manifest_Append (e_manifest e) \<lparr>ve_Seq = 0, ve_AddedFiles = [],
        ve_DeletedFiles = map meta_entry (cn_expiredMetas c)\<rparr> (fst s) = (err, mf, fs1)" by (metis prod_cases3)
  have ch: "chan_ok (e\<lparr>e_manifest := mf\<rparr>)" "chan_ok (e\<lparr>e_manifest := mf, e_metrics := x\<rparr>)" for x
    using assms(2) by (simp_all add: chan_ok_def)
  show ?thesis
  proof (cases err)
    case (Some er)
    then show ?thesis using assms(1) m ch(1) by (auto simp: retireWindow_def)
  next
    case None
    then obtain x where "e' = retire_install (cn_win c) (cn_expiredReaders c) (e\<lparr>e_manifest := mf, e_metrics := x\<rparr>)"
      using assms(1) m by (cases "remove_expired (cn_expiredMetas c) 0 fs1") (auto simp: retireWindow_def Let_def)
    then show ?thesis using retire_install_chan [OF ch(2) [of x]] by simp
  qed
qed

lemma retire_fold_chan:
  "fold (\<lambda>c (e, s). retireWindow c e s) cs (e, s) = (e', s') \<Longrightarrow> chan_ok e \<Longrightarrow>
   chan_ok e' \<and> e_flushCh e' = e_flushCh e \<and> windows e \<subseteq> windows e'"
proof (induction cs arbitrary: e s)
  case (Cons c cs)
  obtain e1 s1 where r: "retireWindow c e s = (e1, s1)" by (metis prod.exhaust)
  from retireWindow_chan [OF this Cons.prems(2)] Cons.IH [of e1 s1] Cons.prems(1) r show ?case by auto
qed simp

lemma sweepRetention_chan:
  assumes "sweepRetention now e s = (e', s')" "chan_ok e"
  shows "chan_ok e' \<and> e_flushCh e' = e_flushCh e \<and> windows e \<subseteq> windows e'"
proof (cases "o_RetentionDuration (e_opts e) = 0")
  case False
  let ?e = "e\<lparr>e_metrics := (e_metrics e)\<lparr>m_RetentionHorizonTS := i64 (now - o_RetentionDuration (e_opts e))\<rparr>\<rparr>"
  have "chan_ok ?e" using assms(2) by (simp add: chan_ok_def)
  from retire_fold_chan [OF _ this] assms(1) False show ?thesis by (fastforce simp: sweepRetention_def Let_def)
qed (use assms in \<open>simp add: sweepRetention_def\<close>)

subsection \<open>A retention sweep leaves the memtables alone\<close>

lemma retireWindow_mem:
  assumes "retireWindow c e s = (e', s')" "rt_inv (e_router e)"
  shows "rt_inv (e_router e') \<and> mem_recs (e_router e') = mem_recs (e_router e)"
proof -
  have "e_router e' = e_router e \<or> e_router e' = retire_partition (cn_win c) (e_router e)"
    using assms(1) by (auto simp: retireWindow_def retire_install_def set_files_def Let_def split: prod.splits option.splits if_splits)
  then show ?thesis using assms(2) retire_partition_inv [OF assms(2)] by auto
qed

lemma sweepRetention_mem:
  assumes "sweepRetention now e s = (e', s')" "rt_inv (e_router e)"
  shows "mem_recs (e_router e') = mem_recs (e_router e)"
proof -
  have "mem_recs (e_router e') = mem_recs (e_router e)"
    if "fold (\<lambda>c (e, s). retireWindow c e s) cs (e, s) = (e', s')" "rt_inv (e_router e)" for cs e s
    using that
  proof (induction cs arbitrary: e s)
    case (Cons c cs)
    obtain e1 s1 where r: "retireWindow c e s = (e1, s1)" by (metis prod.exhaust)
    from retireWindow_mem [OF this Cons.prems(2)] Cons.IH [of e1 s1] Cons.prems(1) r show ?case by simp
  qed simp
  then show ?thesis using assms by (fastforce simp: sweepRetention_def Let_def split: if_splits)
qed

end
