(* ===== verification/EngineSteps.thy ===== *)
theory EngineSteps
  imports EngineRun
begin

text \<open>
  The engine as a transition system. A step is one call of a client or one turn of a background
  goroutine; a run is a sequence of steps in any order. The engine refines a bag of records: an
  accepted append adds its record, a scan delivers the matching records in order, flushes and merges
  change nothing, and the retention sweep takes out whole files of old records.
\<close>

subsection \<open>Steps\<close>

datatype step_label =
    LAppend go_record
  | LReject go_record go_error
  | LScan int int "bytes option" "go_record list"
  | LFlush
  | LCompact
  | LRetain int

definition scan_source :: "ScanOptions option \<Rightarrow> bytes option" where
  "scan_source opts = (case opts of None \<Rightarrow> None | Some so \<Rightarrow> so_SourceID so)"

definition turn_fits :: "codecs \<Rightarrow> bool \<Rightarrow> int \<Rightarrow> int \<Rightarrow> compactor_event \<Rightarrow> Engine \<Rightarrow> store \<Rightarrow> bool" where
  "turn_fits cd mm now dt ev e s = (case ev of
     CompactSignal \<Rightarrow> (case e_compactCh e of [] \<Rightarrow> True | win # _ \<Rightarrow> compact_fits cd e win (fst s))
   | CompactTick \<Rightarrow>
       sweep_fits cd mm dt (map fst (e_files e)) (e\<lparr>e_router := SealExpired (e_router e) now\<rparr>) s
   | RetentionTick \<Rightarrow> retire_fits e (i64 (now - o_RetentionDuration (e_opts e))) (fst s))"

inductive engine_step :: "codecs \<Rightarrow> bool \<Rightarrow> Engine \<times> store \<Rightarrow> step_label \<Rightarrow> Engine \<times> store \<Rightarrow> bool" for cd mm where
  append: "engine_Append now e r s = (None, e', s') \<Longrightarrow> ts_ok (o_PartitionDuration (e_opts e)) (Timestamp r) \<Longrightarrow>
    engine_step cd mm (e, s) (LAppend r) (e', s')"
| reject: "engine_Append now e r s = (Some err, e', s') \<Longrightarrow> ts_ok (o_PartitionDuration (e_opts e)) (Timestamp r) \<Longrightarrow>
    engine_step cd mm (e, s) (LReject r err) (e', s')"
| scan: "engine_Scan cd now e t0 t1 opts s = (Inr it, e', s1) \<Longrightarrow> is_i64 t0 \<Longrightarrow> is_i64 t1 \<Longrightarrow> t0 \<le> t1 \<Longrightarrow>
    scan_source opts \<noteq> Some [] \<Longrightarrow> iter_collect (counting_Next cd) counting_View it s1 = Some (rs, it', s') \<Longrightarrow>
    counting_Close now' it' (e_metrics e') = (err, it'', m) \<Longrightarrow>
    engine_step cd mm (e, s) (LScan t0 t1 (scan_source opts) rs) (e'\<lparr>e_metrics := m\<rparr>, s')"
| flush: "e_flushCh e = win # ch \<Longrightarrow> flush_fits cd e win (fst s) \<Longrightarrow> runFlusher_turn cd mm e s = (e', s') \<Longrightarrow>
    engine_step cd mm (e, s) LFlush (e', s')"
| compact: "ev \<noteq> RetentionTick \<Longrightarrow> turn_fits cd mm now dt ev e s \<Longrightarrow>
    runCompactor_turn cd mm now dt ev e s = Some (e', s') \<Longrightarrow> engine_step cd mm (e, s) LCompact (e', s')"
| retain: "0 < o_RetentionDuration (e_opts e) \<Longrightarrow> turn_fits cd mm now dt RetentionTick e s \<Longrightarrow>
    runCompactor_turn cd mm now dt RetentionTick e s = Some (e', s') \<Longrightarrow>
    engine_step cd mm (e, s) (LRetain (i64 (now - o_RetentionDuration (e_opts e)))) (e', s')"

text \<open>The abstract store is a bag of records.\<close>

inductive store_step :: "go_record multiset \<Rightarrow> step_label \<Rightarrow> go_record multiset \<Rightarrow> bool" where
  "store_step M (LAppend r) (add_mset r M)"
| "store_step M (LReject r err) M"
| "rec_sorted rs \<Longrightarrow> mset rs \<subseteq># matching t0 t1 src M \<Longrightarrow>
    filter_mset (\<lambda>x. Timestamp x \<noteq> t0) (mset rs) = filter_mset (\<lambda>x. Timestamp x \<noteq> t0) (matching t0 t1 src M) \<Longrightarrow>
    store_step M (LScan t0 t1 src rs) M"
| "store_step M LFlush M"
| "store_step M LCompact M"
| "\<forall>x \<in># D. Timestamp x < h \<Longrightarrow> store_step (M + D) (LRetain h) M"

definition engine_good :: "codecs \<Rightarrow> Engine \<Rightarrow> store \<Rightarrow> bool" where
  "engine_good cd e s \<longleftrightarrow> engine_inv cd e s \<and> chan_ok e"

subsection \<open>Scans\<close>

lemma src_norm_id: "src \<noteq> Some [] \<Longrightarrow> src_norm src = src"
  by (auto simp: src_norm_def split: option.splits list.splits)

lemma scan_sums:
  fixes t0 t1 :: int
  assumes "data_ok cd G e fs" "src \<noteq> Some []"
  defines "M \<equiv> matching t0 t1 src (mem_recs (e_router e)) + (\<Sum>r \<in># mset (all_readers e). mset (scan_recs cd fs t0 t1 src r))"
  shows "M \<subseteq># matching t0 t1 src (engine_recs cd e fs)"
    "filter_mset (\<lambda>x. Timestamp x \<noteq> t0) M = filter_mset (\<lambda>x. Timestamp x \<noteq> t0) (matching t0 t1 src (engine_recs cd e fs))"
proof -
  have q: "matching t0 t1 src (engine_recs cd e fs) = matching t0 t1 src (mem_recs (e_router e)) +
      (\<Sum>r \<in># mset (all_readers e). mset (query t0 t1 (src_norm src) (recs_of cd fs r)))"
    using src_norm_id [OF assms(2)] by (simp add: engine_recs_def matching_add matching_files)
  have r: "\<exists>bs. reads_as cd r fs bs" if "r \<in> set (all_readers e)" for r
    using all_readers_files [OF assms(1) that] by (auto simp: reader_ok_def)
  show "M \<subseteq># matching t0 t1 src (engine_recs cd e fs)"
    unfolding q M_def using r scan_recs_bounds(1) by (intro subset_mset.add_left_mono sum_mset_subseteq) blast
  have "filter_mset (\<lambda>x. Timestamp x \<noteq> t0) (\<Sum>r \<in># mset (all_readers e). mset (scan_recs cd fs t0 t1 src r)) =
      filter_mset (\<lambda>x. Timestamp x \<noteq> t0) (\<Sum>r \<in># mset (all_readers e). mset (query t0 t1 (src_norm src) (recs_of cd fs r)))"
    unfolding filter_sum_mset using r scan_recs_bounds(2) by (intro arg_cong [where f = sum_mset] image_mset_cong) fastforce
  then show "filter_mset (\<lambda>x. Timestamp x \<noteq> t0) M = filter_mset (\<lambda>x. Timestamp x \<noteq> t0) (matching t0 t1 src (engine_recs cd e fs))"
    unfolding q M_def by simp
qed

lemma scan_step_ok:
  assumes "engine_ok cd G e s" "\<not> e_closed e" "is_i64 t0" "is_i64 t1" "t0 \<le> t1"
  shows "\<exists>it m s1 rs it' s2. engine_Scan cd now e t0 t1 opts s = (Inr it, e\<lparr>e_metrics := m\<rparr>, s1) \<and>
    iter_collect (counting_Next cd) counting_View it s1 = Some (rs, it', s2) \<and> counting_Err it' = None \<and>
    ct_n it' = int (length rs) \<and> rec_sorted rs \<and> fst s2 = fst s \<and> engine_ok cd G e s2 \<and>
    (scan_source opts \<noteq> Some [] \<longrightarrow> (let M = matching t0 t1 (scan_source opts) (engine_recs cd e (fst s)) in
       mset rs \<subseteq># M \<and> filter_mset (\<lambda>x. Timestamp x \<noteq> t0) (mset rs) = filter_mset (\<lambda>x. Timestamp x \<noteq> t0) M))"
proof -
  obtain fs c where s: "s = (fs, c)" by (cases s)
  have ok: "data_ok cd G e fs" "cache_ok cd G (fs, c)" using assms(1) s by (auto simp: engine_ok_def store_ok_def)
  from engine_Scan_ok [OF ok assms(2-5), of now opts, folded scan_source_def] obtain it m s1 rs it' s2 where
    sc: "engine_Scan cd now e t0 t1 opts (fs, c) = (Inr it, e\<lparr>e_metrics := m\<rparr>, s1)"
    "iter_collect (counting_Next cd) counting_View it s1 = Some (rs, it', s2)" "counting_Err it' = None"
    "ct_n it' = int (length rs)" "rec_sorted rs" "fst s2 = fs" "cache_ok cd G s2"
    "mset rs = matching t0 t1 (scan_source opts) (mem_recs (e_router e)) +
      (\<Sum>r \<in># mset (all_readers e). mset (scan_recs cd fs t0 t1 (scan_source opts) r))" by blast
  have "engine_ok cd G e s2" using engine_ok_cache [of cd G e fs c "snd s2"] assms(1) s sc(6,7) by (metis prod.collapse)
  then show ?thesis using sc s scan_sums [OF ok(1), of "scan_source opts" t0 t1] by (cases s2) (auto simp: Let_def)
qed


subsection \<open>Every step keeps the invariant and follows the abstract store\<close>

lemma append_step_ok:
  assumes "engine_good cd e s" "engine_Append now e r s = (err, e', s')" "ts_ok (o_PartitionDuration (e_opts e)) (Timestamp r)"
  shows "engine_good cd e' s' \<and> engine_recs cd e' (fst s') =
    (if err = None then add_mset r (engine_recs cd e (fst s)) else engine_recs cd e (fst s))"
proof (cases "e_closed e")
  case True
  then show ?thesis using assms by (auto simp: engine_Append_def)
next
  case False
  obtain fs c where s: "s = (fs, c)" by (cases s)
  from assms(1) s obtain G rs where g: "engine_ok cd G e (fs, c)" "wal_log (e_wal e) fs rs" "chan_ok e"
    by (auto simp: engine_good_def engine_inv_def engine_ok_def store_ok_def)
  from engine_Append_ok [OF g(1) False assms(3) g(2), of now] assms(2) s have
    "engine_ok cd G e' s'" "case err of None \<Rightarrow> engine_recs cd e' (fst s') = add_mset r (engine_recs cd e fs)
      | Some er \<Rightarrow> engine_recs cd e' (fst s') = engine_recs cd e fs" by (auto split: option.splits)
  then show ?thesis using Append_chan [OF g(3) assms(2)] s
    by (auto simp: engine_good_def engine_inv_def split: option.splits)
qed

lemma flush_step_ok:
  assumes "engine_good cd e s" "e_flushCh e = win # ch" "flush_fits cd e win (fst s)" "runFlusher_turn cd mm e s = (e', s')"
  shows "engine_good cd e' s' \<and> engine_recs cd e' (fst s') = engine_recs cd e (fst s) \<and> e_flushCh e' = ch \<and>
    (\<exists>p. map_of (rt_partitions (e_router e)) win = Some p \<and>
      map_of (rt_partitions (e_router e')) = (map_of (rt_partitions (e_router e)))(win \<mapsto> p\<lparr>tp_mem := memtable_New\<rparr>))"
proof -
  obtain fs c where s: "s = (fs, c)" by (cases s)
  from assms(1,2) s obtain G p where g: "engine_ok cd G e (fs, c)" "chan_ok e" "map_of (rt_partitions (e_router e)) win = Some p"
    by (auto simp: engine_good_def engine_inv_def chan_ok_def)
  let ?e = "e\<lparr>e_flushCh := ch\<rparr>"
  have fits: "flush_fits cd ?e win fs"
    using assms(3) s path_fields [of ?e e] by (simp add: flush_fits_def writerOptions_def)
  have "engine_ok cd G ?e (fs, c)" "map_of (rt_partitions (e_router ?e)) win = Some p" using g by simp_all
  from flushPartition_ok [OF this fits, of mm] obtain G' e1 fs1 where
    f: "flushPartition cd mm ?e win (fs, c) = (None, e1, (fs1, c))" "engine_ok cd G' e1 (fs1, c)"
    "engine_recs cd e1 fs1 = engine_recs cd ?e fs" "e_router e1 = set_partition (e_router e) win (p\<lparr>tp_mem := memtable_New\<rparr>)"
    by auto
  have "chan_ok ?e" using g(2) assms(2) by (auto simp: chan_ok_def)
  from flushPartition_chan [OF f(1) this] f assms(2,4) s g(3) show ?thesis
    by (auto simp: runFlusher_turn_def engine_good_def engine_inv_def set_partition_def update_conv')
qed


text \<open>
  After the flush of one partition the log is empty and its old segment is gone, and the files have
  gained the records of this partition only: those of the other memtables were in the deleted segment.
\<close>

lemma flush_empties_log:
  assumes "engine_good cd e s" "e_flushCh e = win # ch" "flush_fits cd e win (fst s)" "runFlusher_turn cd mm e s = (e', s')"
    "map_of (rt_partitions (e_router e)) win = Some p" "mt_records (tp_mem p) \<noteq> []"
  shows "wal_log (e_wal e') (fst s') []" "fs_lookup (fst s') (walPath e (e_walSeq e)) = None"
    "mem_recs (e_router e') + mset (mt_records (tp_mem p)) = mem_recs (e_router e)"
    "file_recs cd e' (fst s') = file_recs cd e (fst s) + mset (mt_records (tp_mem p))"
proof -
  obtain fs c where s: "s = (fs, c)" by (cases s)
  from assms(1) s obtain G where g: "engine_ok cd G e (fs, c)" by (auto simp: engine_good_def engine_inv_def)
  let ?e = "e\<lparr>e_flushCh := ch\<rparr>"
  have fits: "flush_fits cd ?e win fs"
    using assms(3) s path_fields [of ?e e] by (simp add: flush_fits_def writerOptions_def)
  have "engine_ok cd G ?e (fs, c)" "map_of (rt_partitions (e_router ?e)) win = Some p" using g assms(5) by simp_all
  from flushPartition_ok [OF this fits, of mm] assms(2,4,6) s path_fields(1) [of ?e e]
  show "wal_log (e_wal e') (fst s') []" "fs_lookup (fst s') (walPath e (e_walSeq e)) = None"
    and m: "mem_recs (e_router e') + mset (mt_records (tp_mem p)) = mem_recs (e_router e)"
    by (auto simp: runFlusher_turn_def)
  have "engine_recs cd e' (fst s') = engine_recs cd e (fst s)" using flush_step_ok [OF assms(1-4)] by blast
  then show "file_recs cd e' (fst s') = file_recs cd e (fst s) + mset (mt_records (tp_mem p))"
    unfolding engine_recs_def m [symmetric] by (simp add: ac_simps)
qed

lemma compact_step_ok:
  assumes "engine_good cd e s" "ev \<noteq> RetentionTick" "turn_fits cd mm now dt ev e s"
  shows "\<exists>e' s'. runCompactor_turn cd mm now dt ev e s = Some (e', s') \<and> engine_good cd e' s' \<and>
    engine_recs cd e' (fst s') = engine_recs cd e (fst s)"
proof -
  obtain fs c where s: "s = (fs, c)" by (cases s)
  from assms(1) s obtain G where g: "engine_ok cd G e (fs, c)" "chan_ok e" by (auto simp: engine_good_def engine_inv_def)
  show ?thesis
  proof (cases ev)
    case CompactSignal
    show ?thesis
    proof (cases "e_compactCh e")
      case Nil
      then show ?thesis using CompactSignal assms(1) by simp
    next
      case (Cons win ch)
      let ?e = "e\<lparr>e_compactCh := ch\<rparr>"
      have "compact_fits cd ?e win fs"
        using assms(3) CompactSignal Cons s path_fields [of ?e e]
        by (simp add: turn_fits_def compact_fits_def writerOptions_def files_of_def)
      from maybeCompact_ok [OF _ this, of G c mm dt] g(1) obtain G' e' fs' c' where
        m: "maybeCompact cd mm dt win ?e (fs, c) = Some (e', (fs', c'))" "engine_ok cd G' e' (fs', c')"
        "engine_recs cd e' fs' = engine_recs cd e fs" by auto
      have "chan_ok ?e" using g(2) Cons by (simp add: chan_ok_def)
      from maybeCompact_chan [OF m(1) this] m CompactSignal Cons s show ?thesis
        by (auto simp: engine_good_def engine_inv_def)
    qed
  next
    case CompactTick
    let ?e = "e\<lparr>e_router := SealExpired (e_router e) now\<rparr>"
    have fits: "sweep_fits cd mm dt (map fst (e_files ?e)) ?e s" using assms(3) CompactTick by (simp add: turn_fits_def)
    note seal = SealExpired_engine_ok [OF g(1), of now]
    from compact_windows_ok [OF _ fits] seal s obtain G' e' s' where
      m: "compact_windows cd mm dt (map fst (e_files ?e)) ?e s = Some (e', s')" "engine_ok cd G' e' s'"
      "engine_recs cd e' (fst s') = engine_recs cd e (fst s)" by fastforce
    have "chan_ok ?e" using g(2) by (simp add: chan_ok_def)
    from compact_windows_chan [OF m(1) this] m CompactTick show ?thesis
      by (auto simp: engine_good_def engine_inv_def sweepCompaction_def Let_def)
  qed (use assms(2) in simp)
qed

lemma old_files_recs:
  assumes "data_ok cd G e fs" "x \<in># (\<Sum>r \<in># mset (old_files h (all_readers e)). mset (recs_of cd fs r))"
  shows "Timestamp x < h"
proof -
  from assms(2) obtain r where r: "r \<in> set (all_readers e)" "sm_MaxTimestamp (r_meta r) < h" "x \<in> set (recs_of cd fs r)"
    by (auto simp: old_files_def)
  from all_readers_files [OF assms(1) r(1)] obtain bs where "reads_as cd r fs bs" "bs \<noteq> []" by (auto simp: reader_ok_def)
  from reads_as_max [OF this] r show ?thesis by blast
qed

lemma retain_step_ok:
  assumes "engine_good cd e s" "0 < o_RetentionDuration (e_opts e)" "turn_fits cd mm now dt RetentionTick e s"
  defines "h \<equiv> i64 (now - o_RetentionDuration (e_opts e))"
  shows "\<exists>e' s' D. runCompactor_turn cd mm now dt RetentionTick e s = Some (e', s') \<and> engine_good cd e' s' \<and>
    engine_recs cd e (fst s) = engine_recs cd e' (fst s') + D \<and> (\<forall>x \<in># D. Timestamp x < h) \<and>
    mem_recs (e_router e') = mem_recs (e_router e) \<and> file_recs cd e (fst s) = file_recs cd e' (fst s') + D \<and>
    (\<forall>w. files_of e' w = filter (\<lambda>r. \<not> sm_MaxTimestamp (r_meta r) < h) (files_of e w)) \<and>
    (\<forall>r \<in> set (all_readers e'). \<exists>x \<in> set (recs_of cd (fst s') r). h \<le> Timestamp x)"
proof -
  obtain fs c where s: "s = (fs, c)" by (cases s)
  from assms(1) s obtain G where g: "engine_ok cd G e (fs, c)" "chan_ok e" by (auto simp: engine_good_def engine_inv_def)
  then have d: "data_ok cd G e fs" by (simp add: engine_ok_def)
  have "retire_fits e h fs" using assms(3) s by (simp add: turn_fits_def h_def)
  from sweepRetention_ok [OF g(1) _ this [unfolded h_def]] assms(2) obtain e' fs' where
    r: "sweepRetention now e (fs, c) = (e', (fs', c))" "engine_ok cd G e' (fs', c)"
    "engine_recs cd e' fs' + (\<Sum>r \<in># mset (old_files h (all_readers e)). mset (recs_of cd fs r)) = engine_recs cd e fs"
    "\<And>w. files_of e' w = filter (\<lambda>r. \<not> sm_MaxTimestamp (r_meta r) < h) (files_of e w)" by (auto simp: h_def)
  have d': "data_ok cd G e' fs'" using r(2) by (simp add: engine_ok_def)
  have "\<exists>x \<in> set (recs_of cd fs' r). h \<le> Timestamp x" if a: "r \<in> set (all_readers e')" for r
  proof -
    from all_readers_files [OF d' a] obtain w bs where w: "r \<in> set (files_of e' w)" "reads_as cd r fs' bs" "bs \<noteq> []"
      by (auto simp: reader_ok_def)
    with r(4) have "\<not> sm_MaxTimestamp (r_meta r) < h" by simp
    then show ?thesis using reads_as_max [OF w(2,3)] by (auto simp: not_less)
  qed
  moreover have "engine_good cd e' (fs', c)"
    using r(2) sweepRetention_chan [OF r(1) g(2)] by (auto simp: engine_good_def engine_inv_def)
  moreover have "mem_recs (e_router e') = mem_recs (e_router e)" using sweepRetention_mem [OF r(1)] d by (simp add: data_ok_def)
  moreover from this r(3) have "file_recs cd e fs = file_recs cd e' fs' + (\<Sum>r \<in># mset (old_files h (all_readers e)). mset (recs_of cd fs r))"
    by (simp add: engine_recs_def add.assoc)
  ultimately show ?thesis using assms(2) r(1,3,4) s old_files_recs [OF d, of _ h]
    by (intro exI [of _ e'] exI [of _ "(fs', c)"] exI [of _ "\<Sum>r \<in># mset (old_files h (all_readers e)). mset (recs_of cd fs r)"]) auto
qed

lemma step_refines:
  assumes "engine_good cd e s" "engine_step cd mm (e, s) l (e', s')"
  shows "engine_good cd e' s' \<and> store_step (engine_recs cd e (fst s)) l (engine_recs cd e' (fst s'))"
  using assms(2)
proof cases
  case (append now r)
  then show ?thesis using append_step_ok [OF assms(1), of now r None e' s'] by (auto intro: store_step.intros)
next
  case (reject now r err)
  then show ?thesis using append_step_ok [OF assms(1), of now r "Some err" e' s'] by (auto intro: store_step.intros)
next
  case (scan now t0 t1 opts it e1 s1 rs it' now' err it'' m)
  from assms(1) obtain G where g: "engine_ok cd G e s" "chan_ok e" by (auto simp: engine_good_def engine_inv_def)
  have "\<not> e_closed e" using scan(3) by (auto simp: engine_Scan_def)
  from scan_step_ok [OF g(1) this scan(4-6), of now opts] obtain it2 m2 s2 rs2 it3 s3 where
    k: "engine_Scan cd now e t0 t1 opts s = (Inr it2, e\<lparr>e_metrics := m2\<rparr>, s2)"
    "iter_collect (counting_Next cd) counting_View it2 s2 = Some (rs2, it3, s3)" "rec_sorted rs2" "fst s3 = fst s"
    "engine_ok cd G e s3"
    "scan_source opts \<noteq> Some [] \<Longrightarrow> mset rs2 \<subseteq># matching t0 t1 (scan_source opts) (engine_recs cd e (fst s))"
    "scan_source opts \<noteq> Some [] \<Longrightarrow> filter_mset (\<lambda>x. Timestamp x \<noteq> t0) (mset rs2) =
       filter_mset (\<lambda>x. Timestamp x \<noteq> t0) (matching t0 t1 (scan_source opts) (engine_recs cd e (fst s)))"
    unfolding Let_def by metis
  have "it2 = it" "e1 = e\<lparr>e_metrics := m2\<rparr>" "s2 = s1" using k(1) scan(3) by simp_all
  then have "rs2 = rs" "s3 = s'" using k(2) scan(8) by simp_all
  then have e': "e' = e\<lparr>e_metrics := m\<rparr>" and st: "store_step (engine_recs cd e (fst s)) l (engine_recs cd e (fst s'))"
    using k(3,4,6,7) scan(1,2,7) \<open>e1 = _\<close> by (simp_all add: store_step.intros(3))
  have "engine_good cd e' s'" using k(5) g(2) e' \<open>s3 = s'\<close> by (auto simp: engine_good_def engine_inv_def chan_ok_def)
  then show ?thesis using st e' by simp
next
  case (flush win ch)
  then show ?thesis using flush_step_ok [OF assms(1) flush(2-4)] by (simp add: store_step.intros)
next
  case (compact ev now dt)
  then show ?thesis using compact_step_ok [OF assms(1) compact(2,3)] by (auto simp: store_step.intros)
next
  case (retain now dt)
  from retain_step_ok [OF assms(1) retain(2,3)] retain(4) obtain D where
    d: "engine_good cd e' s'" "engine_recs cd e (fst s) = engine_recs cd e' (fst s') + D"
    "\<forall>x \<in># D. Timestamp x < i64 (now - o_RetentionDuration (e_opts e))" by auto
  then show ?thesis using store_step.intros(6) [OF d(3)] retain(1) by simp
qed

subsection \<open>No step changes the options\<close>

lemma Append_opts: "e_opts (fst (snd (engine_Append now e r s))) = e_opts e"
  by (auto simp: engine_Append_def Let_def split: prod.splits option.splits sum.splits)

lemma step_opts:
  assumes "engine_good cd e s" "engine_step cd mm (e, s) l (e', s')"
  shows "e_opts e' = e_opts e"
proof -
  obtain fs c where s: "s = (fs, c)" by (cases s)
  from assms(1) s obtain G where g: "engine_ok cd G e (fs, c)" "chan_ok e" by (auto simp: engine_good_def engine_inv_def)
  from assms(2) show ?thesis
  proof cases
    case (append now r)
    then show ?thesis using Append_opts [of now e r s] by simp
  next
    case (reject now r err)
    then show ?thesis using Append_opts [of now e r s] by simp
  next
    case (scan now t0 t1 opts it e1 s1)
    then show ?thesis by (auto simp: engine_Scan_def Let_def split: prod.splits sum.splits if_splits)
  next
    case (flush win ch)
    let ?e = "e\<lparr>e_flushCh := ch\<rparr>"
    from g(2) flush(2) obtain p where p: "map_of (rt_partitions (e_router ?e)) win = Some p" by (auto simp: chan_ok_def)
    have fits: "flush_fits cd ?e win fs"
      using flush(3) s path_fields [of ?e e] by (simp add: flush_fits_def writerOptions_def)
    from flushPartition_ok [OF _ p fits, of G c mm] g(1) flush s show ?thesis by (auto simp: runFlusher_turn_def)
  next
    case (compact ev now dt)
    show ?thesis
    proof (cases ev)
      case CompactSignal
      show ?thesis
      proof (cases "e_compactCh e")
        case (Cons win ch)
        let ?e = "e\<lparr>e_compactCh := ch\<rparr>"
        have "compact_fits cd ?e win fs"
          using compact(3) CompactSignal Cons s path_fields [of ?e e]
          by (simp add: turn_fits_def compact_fits_def writerOptions_def files_of_def)
        from maybeCompact_ok [OF _ this, of G c mm dt] g(1) compact(4) CompactSignal Cons s show ?thesis by auto
      qed (use compact CompactSignal in simp)
    next
      case CompactTick
      let ?e = "e\<lparr>e_router := SealExpired (e_router e) now\<rparr>"
      have fits: "sweep_fits cd mm dt (map fst (e_files ?e)) ?e s" using compact(3) CompactTick by (simp add: turn_fits_def)
      from compact_windows_ok [OF _ fits] SealExpired_engine_ok [OF g(1), of now] s compact(4) CompactTick show ?thesis
        by (fastforce simp: sweepCompaction_def Let_def)
    qed (use compact in simp)
  next
    case (retain now dt)
    then have "retire_fits e (i64 (now - o_RetentionDuration (e_opts e))) fs" using s by (simp add: turn_fits_def)
    from sweepRetention_ok [OF g(1) _ this] retain s show ?thesis by auto
  qed
qed


subsection \<open>Runs\<close>

inductive engine_run :: "codecs \<Rightarrow> bool \<Rightarrow> Engine \<times> store \<Rightarrow> step_label list \<Rightarrow> Engine \<times> store \<Rightarrow> bool" for cd mm c where
  run_start: "engine_run cd mm c [] c"
| run_step: "engine_run cd mm c ls c1 \<Longrightarrow> engine_step cd mm c1 l c2 \<Longrightarrow> engine_run cd mm c (ls @ [l]) c2"

inductive store_run :: "go_record multiset \<Rightarrow> step_label list \<Rightarrow> go_record multiset \<Rightarrow> bool" for M where
  "store_run M [] M"
| "store_run M ls M1 \<Longrightarrow> store_step M1 l M2 \<Longrightarrow> store_run M (ls @ [l]) M2"

inductive_cases store_appendE: "store_step M (LAppend r) M'"
inductive_cases store_rejectE: "store_step M (LReject r err) M'"
inductive_cases store_scanE: "store_step M (LScan t0 t1 src rs) M'"
inductive_cases store_flushE: "store_step M LFlush M'"
inductive_cases store_compactE: "store_step M LCompact M'"
inductive_cases store_retainE: "store_step M (LRetain h) M'"

lemma run_snocE:
  assumes "engine_run cd mm c (ls @ [l]) c2"
  obtains c1 where "engine_run cd mm c ls c1" "engine_step cd mm c1 l c2"
  using assms by (cases rule: engine_run.cases) auto

lemma run_one: "engine_step cd mm c l c' \<Longrightarrow> engine_run cd mm c [l] c'"
  using run_step [OF run_start] by fastforce

lemma run_refines:
  assumes "engine_run cd mm c ls c'" "engine_good cd (fst c) (snd c)"
  shows "engine_good cd (fst c') (snd c') \<and>
    store_run (engine_recs cd (fst c) (fst (snd c))) ls (engine_recs cd (fst c') (fst (snd c')))"
  using assms
proof induction
  case run_start
  then show ?case by (simp add: store_run.intros)
next
  case (run_step ls c1 l c2)
  then show ?case using step_refines [of cd "fst c1" "snd c1" mm l "fst c2" "snd c2"]
    by (auto intro: store_run.intros)
qed

text \<open>The records whose append was acknowledged, and what is left of them after the retention sweeps.\<close>

fun label_recs :: "step_label \<Rightarrow> go_record multiset" where
  "label_recs (LAppend r) = {#r#}"
| "label_recs _ = {#}"

definition acked :: "step_label list \<Rightarrow> go_record multiset" where
  "acked ls = (\<Sum>l \<in># mset ls. label_recs l)"

definition kept_by :: "step_label list \<Rightarrow> go_record \<Rightarrow> bool" where
  "kept_by ls x \<longleftrightarrow> (\<forall>h. LRetain h \<in> set ls \<longrightarrow> h \<le> Timestamp x)"

lemma kept_by_snoc: "kept_by (ls @ [l]) x \<longleftrightarrow> kept_by ls x \<and> (\<forall>h. l = LRetain h \<longrightarrow> h \<le> Timestamp x)"
  by (auto simp: kept_by_def)

lemma acked_snoc [simp]: "acked [] = {#}" "acked (ls @ [l]) = acked ls + label_recs l"
  by (simp_all add: acked_def)

lemma store_step_recs:
  assumes "store_step M l M'"
  shows "M' \<subseteq># M + label_recs l"
    "filter_mset (kept_by [l]) M' = filter_mset (kept_by [l]) (M + label_recs l)"
  using assms
proof -
  show "M' \<subseteq># M + label_recs l" using assms by cases auto
  show "filter_mset (kept_by [l]) M' = filter_mset (kept_by [l]) (M + label_recs l)"
    using assms
  proof cases
    case (6 D h)
    then have "filter_mset (kept_by [l]) D = filter_mset (\<lambda>_. False) D"
      by (intro filter_mset_cong) (auto simp: kept_by_def)
    then show ?thesis using 6 by simp
  qed (simp_all)
qed

lemma filter_mset_weaken:
  "filter_mset P A = filter_mset P B \<Longrightarrow> (\<And>x. Q x \<Longrightarrow> P x) \<Longrightarrow> filter_mset Q A = filter_mset Q B"
  by (metis (mono_tags, lifting) filter_filter_mset filter_mset_cong0)

lemma store_run_recs:
  assumes "store_run {#} ls M"
  shows "M \<subseteq># acked ls \<and> filter_mset (kept_by ls) M = filter_mset (kept_by ls) (acked ls)"
  using assms
proof induction
  case (2 ls M1 l M2)
  note st = store_step_recs [OF 2(2)]
  have "M2 \<subseteq># acked (ls @ [l])" using st(1) 2(3) by (simp add: subset_mset.order_trans [OF st(1)])
  moreover have "filter_mset (kept_by (ls @ [l])) M2 = filter_mset (kept_by (ls @ [l])) (M1 + label_recs l)"
    by (rule filter_mset_weaken [OF st(2)]) (auto simp: kept_by_def)
  moreover have "filter_mset (kept_by (ls @ [l])) M1 = filter_mset (kept_by (ls @ [l])) (acked ls)"
    by (rule filter_mset_weaken [of "kept_by ls"]) (use 2(3) in \<open>auto simp: kept_by_snoc\<close>)
  ultimately show ?case by simp
qed (simp add: kept_by_def)

lemma Open_good:
  assumes "new_store fs" "0 < o_PartitionDuration opts" "o_CompressionType opts \<le> 2"
    "engine_Open mm now dir opts fs = (Inr e, s)"
  shows "engine_good cd e s" "engine_recs cd e (fst s) = {#}"
  using Open_new [OF assms(1-3), of mm now dir cd] assms(4)
  by (auto simp: engine_good_def engine_inv_def chan_ok_def)

subsection \<open>The flusher\<close>

primrec run_flusher :: "codecs \<Rightarrow> bool \<Rightarrow> nat \<Rightarrow> Engine \<Rightarrow> store \<Rightarrow> Engine \<times> store" where
  "run_flusher cd mm 0 e s = (e, s)"
| "run_flusher cd mm (Suc n) e s = (case runFlusher_turn cd mm e s of (e, s) \<Rightarrow> run_flusher cd mm n e s)"

primrec flusher_fits :: "codecs \<Rightarrow> bool \<Rightarrow> nat \<Rightarrow> Engine \<Rightarrow> store \<Rightarrow> bool" where
  "flusher_fits cd mm 0 e s = True"
| "flusher_fits cd mm (Suc n) e s = (case e_flushCh e of [] \<Rightarrow> True
     | win # _ \<Rightarrow> flush_fits cd e win (fst s) \<and>
         (case runFlusher_turn cd mm e s of (e, s) \<Rightarrow> flusher_fits cd mm n e s))"

definition mem_empty :: "Engine \<Rightarrow> PartitionWindow \<Rightarrow> bool" where
  "mem_empty e w \<longleftrightarrow> (\<exists>p. map_of (rt_partitions (e_router e)) w = Some p \<and> mt_records (tp_mem p) = [])"

lemma run_flusher_ok:
  assumes "engine_good cd e s" "length (e_flushCh e) = n" "flusher_fits cd mm n e s"
    "run_flusher cd mm n e s = (e', s')"
  shows "engine_good cd e' s' \<and> engine_recs cd e' (fst s') = engine_recs cd e (fst s) \<and> e_flushCh e' = [] \<and>
    (\<forall>w. w \<in> set (e_flushCh e) \<or> mem_empty e w \<longrightarrow> mem_empty e' w)"
  using assms
proof (induction n arbitrary: e s)
  case (Suc n)
  obtain e1 s1 where t: "runFlusher_turn cd mm e s = (e1, s1)" by (metis surj_pair)
  from Suc(3) obtain win ch where ch: "e_flushCh e = win # ch" "length ch = n" by (cases "e_flushCh e") auto
  have fits: "flush_fits cd e win (fst s)" "flusher_fits cd mm n e1 s1" using Suc(4) ch t by simp_all
  from flush_step_ok [OF Suc(2) ch(1) fits(1) t] obtain p where
    f: "engine_good cd e1 s1" "engine_recs cd e1 (fst s1) = engine_recs cd e (fst s)" "e_flushCh e1 = ch"
    "map_of (rt_partitions (e_router e1)) = (map_of (rt_partitions (e_router e)))(win \<mapsto> p\<lparr>tp_mem := memtable_New\<rparr>)"
    by blast
  then have "mem_empty e1 win" "\<And>w. mem_empty e w \<Longrightarrow> mem_empty e1 w"
    by (simp_all add: mem_empty_def memtable_New_def)
  then show ?case using Suc(1) [OF f(1) _ fits(2)] Suc(5) t ch f by auto
qed simp

end
