(* ===== verification/EngineCorrect.thy ===== *)
theory EngineCorrect
  imports EngineSteps
begin

text \<open>
  The properties of the running engine, over the steps of its clients and goroutines, and a concrete
  engine that shows their hypotheses can hold: a store opened on an empty directory, with a memtable
  limit of zero, that takes one record.
\<close>

subsection \<open>A concrete engine\<close>

definition demo_opts :: Options where
  "demo_opts = DefaultOptions\<lparr>o_MemtableSizeBytes := 0, o_RetentionDuration := 1\<rparr>"

abbreviation demo_win :: PartitionWindow where
  "demo_win \<equiv> \<lparr>pw_Start = 0, pw_End = 3600000000000\<rparr>"

lemma demo_append:
  "\<exists>e0 s0 e s. engine_Open True 0 ''d'' demo_opts fs_empty = (Inr e0, s0) \<and>
     engine_Append 0 e0 zero_record s0 = (None, e, s) \<and> ts_ok (o_PartitionDuration (e_opts e0)) (Timestamp zero_record) \<and>
     e_flushCh e = [demo_win] \<and> e_opts e = demo_opts \<and> e_files e = [] \<and> e_closed e = False \<and> e_dir e = ''d'' \<and> e_walSeq e = 1 \<and>
     (\<exists>p. e_router e = (NewRouter (o_PartitionDuration demo_opts) (o_LateArrivalWindow demo_opts)
        (o_LateArrivalMode demo_opts))\<lparr>rt_partitions := [(demo_win, p)]\<rparr> \<and> mt_records (tp_mem p) = [zero_record]) \<and>
     mf_seq (e_manifest e) = 0"
proof -
  have n: "new_store fs_empty" by (simp add: new_store_def fs_empty_def)
  have o: "0 < o_PartitionDuration demo_opts" "o_CompressionType demo_opts \<le> 2"
    by (simp_all add: demo_opts_def DefaultOptions_def compression_types)
  from Open_new [OF n o, of True 0 "''d''" tag_codecs] obtain e0 s0 where
    e0: "engine_Open True 0 ''d'' demo_opts fs_empty = (Inr e0, s0)" "engine_ok tag_codecs Map.empty e0 s0"
    "\<not> e_closed e0" "e_opts e0 = demo_opts" "e_flushCh e0 = []" "e_files e0 = []" "e_dir e0 = ''d''" "e_walSeq e0 = 1"
    "e_router e0 = NewRouter (o_PartitionDuration demo_opts) (o_LateArrivalWindow demo_opts) (o_LateArrivalMode demo_opts)"
    "wal_log (e_wal e0) (fst s0) []" "manifest_log (e_manifest e0) (fst s0) []" by blast
  obtain fs c where s0: "s0 = (fs, c)" by (cases s0)
  have "wal_log (e_wal e0) fs []" using e0(10) s0 by simp
  from wal_Append_store [OF e0(2) [unfolded s0] this, of zero_record] obtain w fs' where
    w: "wal_Append (e_wal e0) zero_record fs = (None, w, fs')" by blast
  have m: "mf_seq (e_manifest e0) = 0" using e0(11) by (simp add: manifest_log_def)
  have r: "Route (e_router e0) 0 0 = (Inr demo_win, (e_router e0)\<lparr>rt_partitions := [(demo_win, NewPartition demo_win)]\<rparr>)"
    using windowFor_win_of [of "e_router e0" 0]
    by (simp add: e0(9) Route_def NewRouter_def demo_opts_def DefaultOptions_def ts_ok_def win_of_def i64_def)
  define p where "p = snd (partition_Append (NewPartition demo_win) zero_record)"
  have p: "partition_Append (NewPartition demo_win) zero_record = (None, p)" "mt_records (tp_mem p) = [zero_record]"
    "0 < MemtableSize p"
    by (simp_all add: p_def partition_Append_def NewPartition_def memtable_Append_def memtable_New_def insertionPoint_def
        sort_search_def search_loop.simps recordSize_def zero_record_def MemtableSize_def memtable_ApproximateSize_def i64_def)
  have "\<exists>e. engine_Append 0 e0 zero_record s0 = (None, e, fs', c) \<and> e_flushCh e = [demo_win] \<and> e_opts e = demo_opts \<and>
    e_files e = [] \<and> e_closed e = False \<and> e_dir e = ''d'' \<and> e_walSeq e = 1 \<and>
    e_router e = (e_router e0)\<lparr>rt_partitions := [(demo_win, p)]\<rparr> \<and> e_manifest e = e_manifest e0"
    using e0(3-8) w r p s0
    by (simp add: engine_Append_def zero_record_def chan_send_def set_partition_def demo_opts_def DefaultOptions_def Let_def)
  then show ?thesis using e0(1,4,9) m p(2)
    by (fastforce simp: ts_ok_def demo_opts_def DefaultOptions_def zero_record_def)
qed

text \<open>The file that a flush of this engine writes.\<close>

lemma demo_file:
  assumes "e_opts e = demo_opts" "e_dir e = ''d''"
  defines "p \<equiv> flushPath e demo_win 2" and "wo \<equiv> writerOptions e demo_win"
  shows "layout_ok tag_codecs p (eff_opts wo) (merged_blocks wo [zero_record])" "p = ''d/0-000002.sst''"
    "file_good (meta_entry (merged_meta tag_codecs p wo [zero_record]))"
proof -
  let ?p = "flushPath e demo_win 2" let ?wo = "writerOptions e demo_win"
  have wo: "eff_opts ?wo = ?wo" "wo_BlockSizeBytes ?wo = 32768" "wo_CompressionType ?wo = CompressionNone"
    "wo_PartitionStart ?wo = 0" "wo_PartitionEnd ?wo = 3600 * second" "\<not> wo_ColumnOriented ?wo" "\<not> wo_IndexSources ?wo"
    by (simp_all add: writerOptions_def assms(1) demo_opts_def DefaultOptions_def eff_opts_def defaultBlockSize_def)
  have bs: "merged_blocks ?wo [zero_record] = [[zero_record]]"
    by (simp add: wo rowSize_def zero_record_def)
  have lay: "layout_ok tag_codecs ?p ?wo [[zero_record]]"
    using wo by (simp add: layout_ok_def codecs_ok_tag is_i64_def col_ok_def rec_ok_def
      zero_record_def layout_lengths length_dataBytes srcIndexBytes_def layout_sources_def compression_types
      blk_def encBlock_def encodeBlock_def blockRecord_def fileHeader_none)
  have "fmt_d 0 = ''0''" "fmt_06d 2 = ''000002''" by code_simp+
  then have path: "?p = ''d/0-000002.sst''" by (simp add: flushPath_def path_join_def assms(2))
  have "file_good (meta_entry (layout_meta tag_codecs ?p ?wo [[zero_record]]))"
    by (rule meta_entry_good [OF lay]) (simp add: path ascii_path_def)
  then show "layout_ok tag_codecs p (eff_opts wo) (merged_blocks wo [zero_record])" "p = ''d/0-000002.sst''"
    "file_good (meta_entry (merged_meta tag_codecs p wo [zero_record]))"
    using lay bs wo path by (simp_all add: p_def wo_def)
qed

lemma demo_flush_fits:
  assumes "e_opts e = demo_opts" "e_dir e = ''d''" "e_walSeq e = 1" "mf_seq (e_manifest e) = 0"
    "map_of (rt_partitions (e_router e)) demo_win = Some p" "mt_records (tp_mem p) = [zero_record]"
  shows "flush_fits tag_codecs e demo_win fs"
proof -
  let ?p = "flushPath e demo_win 2"
  define meta where "meta = merged_meta tag_codecs ?p (writerOptions e demo_win) [zero_record]"
  note f = demo_file [OF assms(1,2), folded meta_def]
  have small: "small_edit (next_edit es (flush_edit ?p meta))" for es
    using f(2,3) by (simp add: small_edit_def files_good_def next_edit_def flush_edit_def file_good_def ascii_path_def)
  have "edit_good (next_edit es (flush_edit ?p meta))" if "manifest_log (e_manifest e) fs es" for es
    using that assms(4) by (intro edit_good_small small) (simp add: manifest_log_def next_edit_def)
  then show ?thesis using f(1) assms unfolding meta_def by (simp add: flush_fits_def Let_def)
qed

lemma demo_engine:
  "\<exists>e0 s0 e s. engine_Open True 0 ''d'' demo_opts fs_empty = (Inr e0, s0) \<and>
     engine_good tag_codecs e0 s0 \<and> engine_run tag_codecs True (e0, s0) [LAppend zero_record] (e, s) \<and>
     engine_good tag_codecs e s \<and> engine_recs tag_codecs e (fst s) = {#zero_record#} \<and>
     e_flushCh e = [demo_win] \<and> e_opts e = demo_opts \<and> \<not> e_closed e \<and> e_files e = [] \<and>
     flush_fits tag_codecs e demo_win (fst s) \<and>
     (\<exists>p. map_of (rt_partitions (e_router e)) demo_win = Some p \<and> mt_records (tp_mem p) = [zero_record])"
proof -
  have n: "new_store fs_empty" by (simp add: new_store_def fs_empty_def)
  have o: "0 < o_PartitionDuration demo_opts" "o_CompressionType demo_opts \<le> 2"
    by (simp_all add: demo_opts_def DefaultOptions_def compression_types)
  from demo_append obtain e0 s0 e s p where
    d: "engine_Open True 0 ''d'' demo_opts fs_empty = (Inr e0, s0)" "engine_Append 0 e0 zero_record s0 = (None, e, s)"
    "ts_ok (o_PartitionDuration (e_opts e0)) (Timestamp zero_record)"
    "e_flushCh e = [demo_win]" "e_opts e = demo_opts" "e_files e = []" "\<not> e_closed e" "e_dir e = ''d''" "e_walSeq e = 1"
    "e_router e = (NewRouter (o_PartitionDuration demo_opts) (o_LateArrivalWindow demo_opts)
        (o_LateArrivalMode demo_opts))\<lparr>rt_partitions := [(demo_win, p)]\<rparr>" "mt_records (tp_mem p) = [zero_record]" "mf_seq (e_manifest e) = 0"
    by blast
  have p: "map_of (rt_partitions (e_router e)) demo_win = Some p" using d(10) by simp
  note g = Open_good [OF n o d(1), of tag_codecs]
  have "engine_run tag_codecs True (e0, s0) [LAppend zero_record] (e, s)"
    by (rule run_one, rule engine_step.append [OF d(2,3)])
  then show ?thesis
    using d g p append_step_ok [OF g(1) d(2,3)] demo_flush_fits [OF d(5,8,9,12) p d(11)] by fastforce
qed

text \<open>The same engine after a second record, of the next window.\<close>

definition next_record :: go_record where
  "next_record = zero_record\<lparr>Timestamp := 3600000000000\<rparr>"

abbreviation next_win :: PartitionWindow where
  "next_win \<equiv> \<lparr>pw_Start = 3600000000000, pw_End = 7200000000000\<rparr>"

lemma demo_two:
  "\<exists>e0 s0 e s p. engine_Open True 0 ''d'' demo_opts fs_empty = (Inr e0, s0) \<and>
     engine_good tag_codecs e0 s0 \<and> engine_run tag_codecs True (e0, s0) [LAppend zero_record, LAppend next_record] (e, s) \<and>
     engine_good tag_codecs e s \<and> engine_recs tag_codecs e (fst s) = {#zero_record, next_record#} \<and>
     e_flushCh e = [demo_win, next_win] \<and> e_opts e = demo_opts \<and> e_files e = [] \<and> e_dir e = ''d'' \<and> e_walSeq e = 1 \<and>
     flush_fits tag_codecs e demo_win (fst s) \<and> mf_seq (e_manifest e) = 0 \<and>
     map_of (rt_partitions (e_router e)) demo_win = Some p \<and> mt_records (tp_mem p) = [zero_record]"
proof -
  have n: "new_store fs_empty" by (simp add: new_store_def fs_empty_def)
  have o: "0 < o_PartitionDuration demo_opts" "o_CompressionType demo_opts \<le> 2"
    by (simp_all add: demo_opts_def DefaultOptions_def compression_types)
  let ?rt = "NewRouter (o_PartitionDuration demo_opts) (o_LateArrivalWindow demo_opts) (o_LateArrivalMode demo_opts)"
  from demo_append obtain e0 s0 e s p where
    d: "engine_Open True 0 ''d'' demo_opts fs_empty = (Inr e0, s0)" "engine_Append 0 e0 zero_record s0 = (None, e, s)"
    "ts_ok (o_PartitionDuration (e_opts e0)) (Timestamp zero_record)"
    "e_flushCh e = [demo_win]" "e_opts e = demo_opts" "e_files e = []" "\<not> e_closed e" "e_dir e = ''d''" "e_walSeq e = 1"
    "e_router e = ?rt\<lparr>rt_partitions := [(demo_win, p)]\<rparr>" "mt_records (tp_mem p) = [zero_record]" "mf_seq (e_manifest e) = 0"
    by blast
  note g0 = Open_good [OF n o d(1), of tag_codecs]
  note g = append_step_ok [OF g0(1) d(2,3)]
  obtain fs c where s: "s = (fs, c)" by (cases s)
  from g s obtain G rs where ok: "engine_ok tag_codecs G e (fs, c)" "wal_log (e_wal e) fs rs"
    by (auto simp: engine_good_def engine_inv_def engine_ok_def store_ok_def)
  from wal_Append_store [OF ok, of next_record] obtain w fs' where w: "wal_Append (e_wal e) next_record fs = (None, w, fs')" by blast
  have r: "Route (e_router e) 0 3600000000000 =
      (Inr next_win, (e_router e)\<lparr>rt_partitions := [(demo_win, p), (next_win, NewPartition next_win)]\<rparr>)"
    using windowFor_win_of [of "e_router e" 3600000000000]
    by (simp add: d(10) Route_def NewRouter_def demo_opts_def DefaultOptions_def ts_ok_def win_of_def i64_def)
  define q where "q = snd (partition_Append (NewPartition next_win) next_record)"
  have q: "partition_Append (NewPartition next_win) next_record = (None, q)" "0 < MemtableSize q"
    by (simp_all add: q_def partition_Append_def NewPartition_def memtable_Append_def memtable_New_def insertionPoint_def
        sort_search_def search_loop.simps recordSize_def zero_record_def next_record_def MemtableSize_def memtable_ApproximateSize_def i64_def)
  have "\<exists>e2. engine_Append 0 e next_record s = (None, e2, fs', c) \<and> e_flushCh e2 = [demo_win, next_win] \<and> e_opts e2 = demo_opts \<and>
    e_files e2 = [] \<and> e_dir e2 = ''d'' \<and> e_walSeq e2 = 1 \<and>
    map_of (rt_partitions (e_router e2)) demo_win = Some p \<and> e_manifest e2 = e_manifest e"
    using d(4-9) w r q s
    by (simp add: engine_Append_def next_record_def chan_send_def set_partition_def demo_opts_def DefaultOptions_def Let_def)
  then obtain e2 s2 where e2: "engine_Append 0 e next_record s = (None, e2, s2)" "e_flushCh e2 = [demo_win, next_win]" "e_opts e2 = demo_opts"
    "e_files e2 = []" "e_dir e2 = ''d''" "e_walSeq e2 = 1" "map_of (rt_partitions (e_router e2)) demo_win = Some p"
    "mf_seq (e_manifest e2) = 0" using d(12) by auto
  have ts: "ts_ok (o_PartitionDuration (e_opts e)) (Timestamp next_record)"
    by (simp add: d(5) ts_ok_def demo_opts_def DefaultOptions_def next_record_def)
  have "engine_run tag_codecs True (e0, s0) ([LAppend zero_record] @ [LAppend next_record]) (e2, s2)"
    by (rule run_step [OF run_one [OF engine_step.append [OF d(2,3)]] engine_step.append [OF e2(1) ts]])
  then show ?thesis
    using d(1) g0 g e2 append_step_ok [OF conjunct1 [OF g] e2(1) ts] demo_flush_fits [OF e2(3,5,6,8,7) d(11)] d(11)
    by (intro exI [of _ e0] exI [of _ s0] exI [of _ e2] exI [of _ s2] exI [of _ p]) (auto simp: add_mset_commute)
qed

text \<open>The flusher has written the first record: one file, and the second record in its memtable.\<close>

lemma demo_retire_fits:
  assumes "e_files e = [(w, [r])]" "file_good (entry_of r)" "length (rpath r) \<le> 4096" "manifest_log (e_manifest e) fs [ed]"
  shows "retire_fits e h fs"
  unfolding retire_fits_def
proof (intro allI impI)
  fix es0 es :: "VersionEdit list" and v
  assume a: "manifest_log (e_manifest e) fs es0 \<and> length es0 \<le> length es \<and> length es < length es0 + length (e_files e)"
  then have "es0 = [ed]" using manifest_log_unique [OF _ assms(4)] by blast
  then have "length es = 1" using a assms(1) by simp
  moreover have "files_of e v \<in> {[], [r]}" using assms(1) by (simp add: files_of_def)
  then have "set (old_files h (files_of e v)) \<subseteq> {r}" "length (old_files h (files_of e v)) \<le> 1" by (auto simp: old_files_def)
  then have "small_edit (next_edit es (retire_edit (old_files h (files_of e v))))"
    using assms(2,3) by (auto simp: small_edit_def next_edit_def retire_edit_def files_good_def list_all_iff meta_entry_def)
  ultimately show "edit_good (next_edit es (retire_edit (old_files h (files_of e v))))"
    by (intro edit_good_small) (simp_all add: next_edit_def)
qed

lemma demo_flushed:
  "\<exists>e0 s0 e s e' s' r ed. engine_Open True 0 ''d'' demo_opts fs_empty = (Inr e0, s0) \<and>
     engine_run tag_codecs True (e0, s0) [LAppend zero_record, LAppend next_record] (e, s) \<and> engine_good tag_codecs e s \<and>
     e_flushCh e = [demo_win, next_win] \<and> flush_fits tag_codecs e demo_win (fst s) \<and> e_walSeq e = 1 \<and>
     (\<exists>p. map_of (rt_partitions (e_router e)) demo_win = Some p \<and> mt_records (tp_mem p) = [zero_record]) \<and>
     mem_recs (e_router e) = {#zero_record, next_record#} \<and>
     runFlusher_turn tag_codecs True e s = (e', s') \<and> engine_good tag_codecs e' s' \<and> e_opts e' = demo_opts \<and>
     engine_recs tag_codecs e' (fst s') = {#zero_record, next_record#} \<and>
     file_recs tag_codecs e' (fst s') = {#zero_record#} \<and> e_files e' = [(demo_win, [r])] \<and>
     manifest_log (e_manifest e') (fst s') [ed] \<and> added [ed] = [entry_of r] \<and> (\<forall>h. retire_fits e' h (fst s')) \<and> e_walSeq e' = 2"
proof -
  from demo_two obtain e0 s0 e s p where d: "engine_Open True 0 ''d'' demo_opts fs_empty = (Inr e0, s0)"
    "engine_run tag_codecs True (e0, s0) [LAppend zero_record, LAppend next_record] (e, s)"
    "engine_good tag_codecs e s" "engine_recs tag_codecs e (fst s) = {#zero_record, next_record#}"
    "e_flushCh e = [demo_win, next_win]" "e_opts e = demo_opts" "e_files e = []" "e_dir e = ''d''" "e_walSeq e = 1"
    "flush_fits tag_codecs e demo_win (fst s)" "mf_seq (e_manifest e) = 0"
    "map_of (rt_partitions (e_router e)) demo_win = Some p" "mt_records (tp_mem p) = [zero_record]" by blast
  obtain fs c where s: "s = (fs, c)" by (cases s)
  let ?e = "e\<lparr>e_flushCh := [next_win]\<rparr>"
  have mem: "mem_recs (e_router e) = {#zero_record, next_record#}" using d(4,7) by (simp add: engine_recs_def file_recs_def all_readers_def)
  from d(3) s obtain G where ok: "engine_ok tag_codecs G e (fs, c)" by (auto simp: engine_good_def engine_inv_def)
  then obtain es where "manifest_log (e_manifest e) fs es" by (auto simp: engine_ok_def store_ok_def)
  then have g: "engine_ok tag_codecs G ?e (fs, c)" "manifest_log (e_manifest ?e) fs es" using ok by simp_all
  then have es: "es = []" using d(11) by (simp add: manifest_log_def)
  have pe: "flushPath ?e = flushPath e" "walPath ?e = walPath e" using path_fields [of ?e e] by simp_all
  have fits: "flush_fits tag_codecs ?e demo_win fs" using d(10) s pe by (simp add: flush_fits_def writerOptions_def)
  have p: "map_of (rt_partitions (e_router ?e)) demo_win = Some p" "mt_records (tp_mem p) \<noteq> []" using d(12,13) by simp_all
  from flushPartition_reader [OF g(1) p(1) fits p(2), of True] obtain r e' fs' where
    f: "flushPartition tag_codecs True ?e demo_win (fs, c) = (None, e', (fs', c))"
    "r_meta r = merged_meta tag_codecs (flushPath e demo_win 2) (writerOptions e demo_win) [zero_record]"
    "manifest_log (e_manifest e') fs' [next_edit [] (flush_edit (flushPath e demo_win 2) (r_meta r))]"
    "mset (all_readers e') = {#r#}" "e_walSeq e' = 2"
    using d(7,9,13) g(2) es pe by (auto simp: disk_edit_def all_readers_def writerOptions_def)
  have turn: "runFlusher_turn tag_codecs True e s = (e', (fs', c))" using d(5) f(1) s by (simp add: runFlusher_turn_def)
  have fl: "engine_good tag_codecs e' (fs', c)" "engine_recs tag_codecs e' fs' = {#zero_record, next_record#}"
    using flush_step_ok [OF d(3,5,10) turn] d(4) by simp_all
  have files: "file_recs tag_codecs e' fs' = {#zero_record#}"
    using flush_empties_log(4) [OF d(3,5,10) turn d(12)] d(7,13) by (simp add: file_recs_def all_readers_def)
  from flushPartition_files [OF f(1)] f(4) d(7) have ef: "e_files e' = [(demo_win, [r])]"
    by (auto simp: all_readers_def files_of_def)
  have opt: "e_opts e' = demo_opts" using flushPartition_ok [OF g(1) p(1) fits, of True] f(1) d(6) by auto
  note df = demo_file [OF d(6,8)]
  have "rpath r = ''d/0-000002.sst''" using f(2) df(2) by (simp add: layout_meta_def Let_def)
  moreover have "file_good (entry_of r)" unfolding f(2) by (rule df(3))
  ultimately have rf: "retire_fits e' h fs'" for h by (intro demo_retire_fits [OF ef _ _ f(3)]) simp_all
  have "added [next_edit [] (flush_edit (flushPath e demo_win 2) (r_meta r))] = [entry_of r]"
    using \<open>rpath r = _\<close> df(2) by (simp add: added_def next_edit_def flush_edit_def meta_entry_def)
  then show ?thesis using d(1-3,5,9,10,12,13) mem turn fl opt files ef f(3,5) rf
    by (intro exI [of _ e0] exI [of _ s0] exI [of _ e] exI [of _ s] exI [of _ e'] exI [of _ "(fs', c)"] exI [of _ r]
      exI [of _ "next_edit [] (flush_edit (flushPath e demo_win 2) (r_meta r))"]) simp
qed

text \<open>A scan without source filter is a step of every engine that is open.\<close>

lemma demo_scan:
  assumes "engine_good cd e s" "\<not> e_closed e" "is_i64 t0" "is_i64 t1" "t0 \<le> t1"
  shows "\<exists>rs c. engine_step cd mm (e, s) (LScan t0 t1 None rs) c"
proof -
  from assms(1) obtain G where "engine_ok cd G e s" by (auto simp: engine_good_def engine_inv_def)
  from scan_step_ok [OF this assms(2-5), of 0 None] obtain it m s1 rs it' s2 where
    k: "engine_Scan cd 0 e t0 t1 None s = (Inr it, e\<lparr>e_metrics := m\<rparr>, s1)"
    "iter_collect (counting_Next cd) counting_View it s1 = Some (rs, it', s2)" by blast
  obtain err it'' m' where "counting_Close 0 it' (e_metrics (e\<lparr>e_metrics := m\<rparr>)) = (err, it'', m')" by (metis prod_cases3)
  from engine_step.scan [OF k(1) assms(3-5) _ k(2) this, of mm] show ?thesis unfolding scan_source_def by fastforce
qed

subsection \<open>Properties\<close>

text \<open>
  C1: the engine refines a bag of records. Whatever order clients and goroutines run in, every run of
  the engine is a run of the abstract store: an acknowledged append adds exactly its record, a rejected
  one nothing; a scan delivers, in order, the records that match, at most the ones exactly at the start
  of the range being incomplete; flushes, compactions and the sealing of partitions change nothing; a
  retention sweep removes only records older than its horizon. The invariant of the engine holds
  throughout.
\<close>

theorem engine_refines_store:
  assumes "engine_good cd e s" "engine_run cd mm (e, s) ls (e', s')"
  shows "engine_good cd e' s' \<and> store_run (engine_recs cd e (fst s)) ls (engine_recs cd e' (fst s'))"
  using run_refines [OF assms(2)] assms(1) by simp

theorem engine_refines_store_witness:
  "\<exists>e0 s0 e s. engine_Open True 0 ''d'' demo_opts fs_empty = (Inr e0, s0) \<and>
     engine_run tag_codecs True (e0, s0) [LAppend zero_record] (e, s) \<and>
     store_run (engine_recs tag_codecs e0 (fst s0)) [LAppend zero_record] (engine_recs tag_codecs e (fst s))"
  using demo_engine engine_refines_store [of tag_codecs _ _ True] by metis

text \<open>
  C2: what was acknowledged can be read back. A store is opened on an empty directory and runs through
  any sequence of appends, scans, flushes, compactions and retention sweeps. A scan at the end delivers
  its records in order; each delivered record was acknowledged, as often as it is delivered; and every
  acknowledged record of the range and source that no retention horizon has passed is delivered,
  records exactly at the start of the range excepted.
\<close>

theorem engine_reads_acknowledged:
  assumes "new_store fs" "0 < o_PartitionDuration opts" "o_CompressionType opts \<le> 2"
    and "engine_Open mm now dir opts fs = (Inr e0, s0)"
    and "engine_run cd mm (e0, s0) (ls @ [LScan t0 t1 src rs]) c"
  shows "rec_sorted rs \<and> mset rs \<subseteq># matching t0 t1 src (acked ls) \<and>
    filter_mset (\<lambda>x. Timestamp x \<noteq> t0 \<and> kept_by ls x) (mset rs) =
      filter_mset (\<lambda>x. Timestamp x \<noteq> t0 \<and> kept_by ls x) (matching t0 t1 src (acked ls))"
proof -
  note g = Open_good [OF assms(1-4), of cd]
  from assms(5) obtain e s where r: "engine_run cd mm (e0, s0) ls (e, s)"
    "engine_step cd mm (e, s) (LScan t0 t1 src rs) c" by (auto elim!: run_snocE)
  let ?M = "engine_recs cd e (fst s)"
  have good: "engine_good cd e s" "store_run {#} ls ?M" using run_refines [OF r(1)] g by simp_all
  from step_refines [OF good(1), of mm _ "fst c" "snd c"] r(2)
  have st: "rec_sorted rs" "mset rs \<subseteq># matching t0 t1 src ?M"
    "filter_mset (\<lambda>x. Timestamp x \<noteq> t0) (mset rs) = filter_mset (\<lambda>x. Timestamp x \<noteq> t0) (matching t0 t1 src ?M)"
    by (auto elim: store_scanE)
  note k = store_run_recs [OF good(2)]
  have "matching t0 t1 src ?M \<subseteq># matching t0 t1 src (acked ls)"
    using k unfolding matching_def by (intro multiset_filter_mono) simp
  moreover have "filter_mset (\<lambda>x. Timestamp x \<noteq> t0 \<and> kept_by ls x) (mset rs) =
      filter_mset (\<lambda>x. Timestamp x \<noteq> t0 \<and> kept_by ls x) (matching t0 t1 src ?M)"
    by (rule filter_mset_weaken [OF st(3)]) simp
  moreover have "filter_mset (\<lambda>x. Timestamp x \<noteq> t0 \<and> kept_by ls x) (matching t0 t1 src ?M) =
      filter_mset (\<lambda>x. Timestamp x \<noteq> t0 \<and> kept_by ls x) (matching t0 t1 src (acked ls))"
    unfolding matching_def filter_filter_mset by (rule filter_mset_weaken [of "kept_by ls"]) (use k in auto)
  ultimately show ?thesis using st(1,2) subset_mset.order_trans by auto
qed

theorem engine_reads_acknowledged_witness:
  "\<exists>e0 s0 rs c. engine_Open True 0 ''d'' demo_opts fs_empty = (Inr e0, s0) \<and>
     engine_run tag_codecs True (e0, s0) ([LAppend zero_record] @ [LScan (-1) 1 None rs]) c \<and> rec_sorted rs \<and>
     filter_mset (\<lambda>x. Timestamp x \<noteq> -1 \<and> kept_by [LAppend zero_record] x) (mset rs) =
       filter_mset (\<lambda>x. Timestamp x \<noteq> -1 \<and> kept_by [LAppend zero_record] x) (matching (-1) 1 None (acked [LAppend zero_record]))"
proof -
  from demo_engine obtain e0 s0 e s where d: "engine_Open True 0 ''d'' demo_opts fs_empty = (Inr e0, s0)"
    "engine_run tag_codecs True (e0, s0) [LAppend zero_record] (e, s)" "engine_good tag_codecs e s" "\<not> e_closed e" by blast
  have "is_i64 (-1)" "is_i64 1" by (simp_all add: is_i64_def)
  from demo_scan [OF d(3,4) this, of True] obtain rs c where "engine_step tag_codecs True (e, s) (LScan (-1) 1 None rs) c"
    by fastforce
  from run_step [OF d(2) this] have r: "engine_run tag_codecs True (e0, s0) ([LAppend zero_record] @ [LScan (-1) 1 None rs]) c" .
  have n: "new_store fs_empty" "0 < o_PartitionDuration demo_opts" "o_CompressionType demo_opts \<le> 2"
    by (simp_all add: new_store_def fs_empty_def demo_opts_def DefaultOptions_def compression_types)
  from engine_reads_acknowledged [OF n d(1) r] d(1) r show ?thesis by blast
qed

text \<open>
  C4: a scan of the running engine succeeds for every well-ordered range: it opens, its iteration ends
  without error, counts what it delivers, leaves every file as it is, and delivers in order the records
  of memtables and files that match, records exactly at the start of the range excepted.
\<close>

theorem engine_Scan_correct:
  assumes "engine_good cd e s" "\<not> e_closed e" "is_i64 t0" "is_i64 t1" "t0 \<le> t1" "scan_source opts \<noteq> Some []"
  shows "\<exists>it m s1 rs it' s2. engine_Scan cd now e t0 t1 opts s = (Inr it, e\<lparr>e_metrics := m\<rparr>, s1) \<and>
    iter_collect (counting_Next cd) counting_View it s1 = Some (rs, it', s2) \<and> counting_Err it' = None \<and>
    ct_n it' = int (length rs) \<and> rec_sorted rs \<and> fst s2 = fst s \<and> engine_good cd e s2 \<and>
    mset rs \<subseteq># matching t0 t1 (scan_source opts) (engine_recs cd e (fst s)) \<and>
    filter_mset (\<lambda>x. Timestamp x \<noteq> t0) (mset rs) =
      filter_mset (\<lambda>x. Timestamp x \<noteq> t0) (matching t0 t1 (scan_source opts) (engine_recs cd e (fst s)))"
proof -
  from assms(1) obtain G where g: "engine_ok cd G e s" "chan_ok e" by (auto simp: engine_good_def engine_inv_def)
  have "engine_ok cd G e s2 \<Longrightarrow> engine_good cd e s2" for s2 using g(2) by (auto simp: engine_good_def engine_inv_def)
  then show ?thesis using scan_step_ok [OF g(1) assms(2-5), of now opts] assms(6) unfolding Let_def by blast
qed

theorem engine_Scan_correct_witness:
  "\<exists>e0 s0 e s it m s1 rs it' s2. engine_Open True 0 ''d'' demo_opts fs_empty = (Inr e0, s0) \<and>
     engine_run tag_codecs True (e0, s0) [LAppend zero_record] (e, s) \<and>
     engine_Scan tag_codecs 0 e (-1) 1 None s = (Inr it, e\<lparr>e_metrics := m\<rparr>, s1) \<and>
     iter_collect (counting_Next tag_codecs) counting_View it s1 = Some (rs, it', s2) \<and> rs = [zero_record]"
proof -
  from demo_engine obtain e0 s0 e s where d: "engine_Open True 0 ''d'' demo_opts fs_empty = (Inr e0, s0)"
    "engine_run tag_codecs True (e0, s0) [LAppend zero_record] (e, s)" "engine_good tag_codecs e s" "\<not> e_closed e"
    "engine_recs tag_codecs e (fst s) = {#zero_record#}" by blast
  have "is_i64 (-1)" "is_i64 1" "scan_source None \<noteq> Some []" by (simp_all add: is_i64_def scan_source_def)
  from engine_Scan_correct [OF d(3,4) this(1,2) _ this(3), of 0] obtain it m s1 rs it' s2 where
    k: "engine_Scan tag_codecs 0 e (-1) 1 None s = (Inr it, e\<lparr>e_metrics := m\<rparr>, s1)"
    "iter_collect (counting_Next tag_codecs) counting_View it s1 = Some (rs, it', s2)"
    "mset rs \<subseteq># matching (-1) 1 None {#zero_record#}"
    "filter_mset (\<lambda>x. Timestamp x \<noteq> -1) (mset rs) = filter_mset (\<lambda>x. Timestamp x \<noteq> -1) (matching (-1) 1 None {#zero_record#})"
    using d(5) unfolding scan_source_def by auto
  have m: "matching (-1) 1 None {#zero_record#} = {#zero_record#}"
    by (simp add: matching_def in_range_def src_match_def zero_record_def)
  have "zero_record \<in># filter_mset (\<lambda>x. Timestamp x \<noteq> -1) (mset rs)" unfolding k(4) m by (simp add: zero_record_def)
  then have "{#zero_record#} \<subseteq># mset rs" by simp
  with k(3) have "mset rs = {#zero_record#}" unfolding m by (rule subset_mset.antisym)
  then have "rs = [zero_record]" by simp
  then show ?thesis using d(1,2) k(1,2) by blast
qed

text \<open>
  C5: the retention sweep. It returns and keeps the invariant. Every window keeps exactly its files whose
  largest timestamp is not before the horizon, in their order: files go as a whole and one by one, not
  whole partitions. The records that go are records of SSTables and all older than the horizon, every
  file that stays holds a record that is not older, and the records in the memtables stay. Assumed is that
  the manifest edits of the sweep fit the manifest's limits.
\<close>

theorem sweepRetention_correct:
  assumes "engine_good cd e s" "0 < o_RetentionDuration (e_opts e)"
    "retire_fits e (i64 (now - o_RetentionDuration (e_opts e))) (fst s)"
  shows "\<exists>e' s' D. sweepRetention now e s = (e', s') \<and> engine_good cd e' s' \<and>
    engine_recs cd e (fst s) = engine_recs cd e' (fst s') + D \<and>
    (\<forall>x \<in># D. Timestamp x < i64 (now - o_RetentionDuration (e_opts e))) \<and>
    mem_recs (e_router e') = mem_recs (e_router e) \<and> file_recs cd e (fst s) = file_recs cd e' (fst s') + D \<and>
    (\<forall>w. files_of e' w = filter (\<lambda>r. i64 (now - o_RetentionDuration (e_opts e)) \<le> sm_MaxTimestamp (r_meta r)) (files_of e w)) \<and>
    (\<forall>r \<in> set (all_readers e'). \<exists>x \<in> set (recs_of cd (fst s') r).
       i64 (now - o_RetentionDuration (e_opts e)) \<le> Timestamp x)"
  using retain_step_ok [OF assms(1,2), of True now 0 for mm dt] assms(2,3) by (simp add: turn_fits_def not_less)

theorem sweepRetention_correct_witness:
  "\<exists>e0 s0 e s e1 s1 e' s' r. engine_Open True 0 ''d'' demo_opts fs_empty = (Inr e0, s0) \<and>
     engine_run tag_codecs True (e0, s0) [LAppend zero_record, LAppend next_record] (e, s) \<and>
     runFlusher_turn tag_codecs True e s = (e1, s1) \<and> e_files e1 = [(demo_win, [r])] \<and>
     engine_recs tag_codecs e1 (fst s1) = {#zero_record, next_record#} \<and>
     sweepRetention 5 e1 s1 = (e', s') \<and> engine_good tag_codecs e' s' \<and> all_readers e' = [] \<and>
     engine_recs tag_codecs e' (fst s') = {#next_record#}"
proof -
  from demo_flushed obtain e0 s0 e s e1 s1 r where d: "engine_Open True 0 ''d'' demo_opts fs_empty = (Inr e0, s0)"
    "engine_run tag_codecs True (e0, s0) [LAppend zero_record, LAppend next_record] (e, s)"
    "runFlusher_turn tag_codecs True e s = (e1, s1)" "engine_good tag_codecs e1 s1" "e_opts e1 = demo_opts"
    "engine_recs tag_codecs e1 (fst s1) = {#zero_record, next_record#}" "file_recs tag_codecs e1 (fst s1) = {#zero_record#}"
    "e_files e1 = [(demo_win, [r])]" "\<forall>h. retire_fits e1 h (fst s1)" by blast
  have h: "0 < o_RetentionDuration (e_opts e1)" "i64 (5 - o_RetentionDuration (e_opts e1)) = 4"
    by (simp_all add: d(5) demo_opts_def i64_def)
  from sweepRetention_correct [OF d(4) h(1), of 5] d(9) obtain e' s' D where
    w: "sweepRetention 5 e1 s1 = (e', s')" "engine_good tag_codecs e' s'"
    "{#zero_record, next_record#} = engine_recs tag_codecs e' (fst s') + D" "\<forall>x \<in># D. Timestamp x < 4"
    "file_recs tag_codecs e1 (fst s1) = file_recs tag_codecs e' (fst s') + D"
    "\<forall>r \<in> set (all_readers e'). \<exists>x \<in> set (recs_of tag_codecs (fst s') r). 4 \<le> Timestamp x"
    "mem_recs (e_router e') = mem_recs (e_router e1)" unfolding h(2) d(6) by blast
  have no: "all_readers e' = []"
  proof (rule ccontr)
    assume "all_readers e' \<noteq> []"
    then obtain r x where "r \<in> set (all_readers e')" "x \<in> set (recs_of tag_codecs (fst s') r)" "4 \<le> Timestamp x"
      using w(6) by (cases "all_readers e'") auto
    moreover from this have "x \<in># file_recs tag_codecs e' (fst s')" by (auto simp: file_recs_def)
    then have "x \<in># file_recs tag_codecs e1 (fst s1)" unfolding w(5) by simp
    ultimately show False using d(7) by (simp add: zero_record_def)
  qed
  have "mem_recs (e_router e1) = {#next_record#}" using d(6,7) by (simp add: engine_recs_def)
  then have "engine_recs tag_codecs e' (fst s') = {#next_record#}" using no w(7) by (simp add: engine_recs_def file_recs_def)
  with d(1-3,6,8) w(1,2) no show ?thesis by blast
qed

text \<open>
  C6: the flusher drains its channel. However many partitions are queued, as many turns of the flusher
  as there are entries empty the channel and the memtables of all the queued partitions, and no record
  is lost or duplicated.
\<close>

theorem flusher_drains:
  assumes "engine_good cd e s" "flusher_fits cd mm (length (e_flushCh e)) e s"
    "run_flusher cd mm (length (e_flushCh e)) e s = (e', s')"
  shows "engine_good cd e' s' \<and> engine_recs cd e' (fst s') = engine_recs cd e (fst s) \<and> e_flushCh e' = [] \<and>
    (\<forall>w \<in> set (e_flushCh e). mem_empty e' w)"
  using run_flusher_ok [OF assms(1) _ assms(2,3)] by simp

theorem flusher_drains_witness:
  "\<exists>e0 s0 e s e' s'. engine_Open True 0 ''d'' demo_opts fs_empty = (Inr e0, s0) \<and>
     engine_run tag_codecs True (e0, s0) [LAppend zero_record] (e, s) \<and> e_flushCh e = [demo_win] \<and>
     run_flusher tag_codecs True 1 e s = (e', s') \<and> e_flushCh e' = [] \<and> mem_empty e' demo_win \<and>
     engine_recs tag_codecs e' (fst s') = {#zero_record#}"
proof -
  from demo_engine obtain e0 s0 e s where d: "engine_Open True 0 ''d'' demo_opts fs_empty = (Inr e0, s0)"
    "engine_run tag_codecs True (e0, s0) [LAppend zero_record] (e, s)" "engine_good tag_codecs e s"
    "engine_recs tag_codecs e (fst s) = {#zero_record#}" "e_flushCh e = [demo_win]"
    "flush_fits tag_codecs e demo_win (fst s)" by blast
  have n: "length (e_flushCh e) = 1" using d(5) by simp
  obtain e' s' where r: "run_flusher tag_codecs True 1 e s = (e', s')" by (metis surj_pair)
  have "flusher_fits tag_codecs True 1 e s" using d(5,6) by (auto split: prod.splits)
  from flusher_drains [OF d(3), unfolded n, OF this r] d r show ?thesis by (metis list.set_intros(1))
qed



text \<open>
  C15: the channels stay well formed, also when system calls fail. Every append, every turn of the
  flusher and every turn of the compactor keeps both channels within their capacity of sixteen and every queued partition known to the router, so the
  flusher never meets a partition that does not exist.
\<close>

theorem engine_channels_ok:
  assumes "chan_ok e"
  shows "chan_ok (fst (snd (engine_Append now e r s))) \<and> chan_ok (fst (runFlusher_turn cd mm e s)) \<and>
    (case runCompactor_turn cd mm now dt ev e s of None \<Rightarrow> True | Some (e', s') \<Rightarrow> chan_ok e')"
proof (intro conjI)
  show "chan_ok (fst (snd (engine_Append now e r s)))" using Append_chan [OF assms] by (metis prod.collapse)
  show "chan_ok (fst (runFlusher_turn cd mm e s))"
  proof (cases "e_flushCh e")
    case (Cons win ch)
    have "chan_ok (e\<lparr>e_flushCh := ch\<rparr>)" using assms Cons by (auto simp: chan_ok_def)
    then show ?thesis using Cons flushPartition_chan [of cd mm "e\<lparr>e_flushCh := ch\<rparr>" win s]
      by (simp add: runFlusher_turn_def) (metis prod.collapse)
  qed (simp add: runFlusher_turn_def assms)
  show "case runCompactor_turn cd mm now dt ev e s of None \<Rightarrow> True | Some (e', s') \<Rightarrow> chan_ok e'"
  proof (cases ev)
    case CompactSignal
    show ?thesis
    proof (cases "e_compactCh e")
      case (Cons win ch)
      have "chan_ok (e\<lparr>e_compactCh := ch\<rparr>)" using assms Cons by (simp add: chan_ok_def)
      then show ?thesis using CompactSignal Cons maybeCompact_chan [of cd mm dt win "e\<lparr>e_compactCh := ch\<rparr>" s]
        by (auto split: option.splits)
    qed (simp add: CompactSignal assms)
  next
    case CompactTick
    have "chan_ok (e\<lparr>e_router := SealExpired (e_router e) now\<rparr>)" using assms by (simp add: chan_ok_def)
    then show ?thesis using CompactTick compact_windows_chan [where e = "e\<lparr>e_router := SealExpired (e_router e) now\<rparr>"]
      by (auto simp: sweepCompaction_def Let_def split: option.splits)
  next
    case RetentionTick
    then show ?thesis using assms sweepRetention_chan [where e = e] by (auto split: prod.splits)
  qed
qed

theorem engine_channels_ok_witness:
  "chan_ok (engine_init ''d'' demo_opts demo_manifest) \<and>
   chan_ok (fst (snd (engine_Append 0 (engine_init ''d'' demo_opts demo_manifest) zero_record (fs_empty, NewBlockCache 0))))"
proof -
  have "chan_ok (engine_init ''d'' demo_opts demo_manifest)" by (simp add: chan_ok_def)
  with engine_channels_ok [OF this] show ?thesis by blast
qed

end
