(* ===== verification/Aggregate.thy ===== *)
theory Aggregate
  imports EngineCorrect
begin

text \<open>
  \<^verbatim>\<open>Engine.Aggregate\<close>: record counts per bucket of time, with the shortcut for columnar files that reads
  the timestamps only. The reference is \<open>bucket_counts\<close>, the histogram of a bag of timestamps.
  \<^verbatim>\<open>Bucket.Rate\<close> is floating-point arithmetic on the result and has no counterpart.
\<close>

subsection \<open>Operations\<close>

datatype AggFn = AggCount | AggRate

record AggregateOpts =
  ao_SourceID :: "bytes option"
  ao_BucketWidth :: int
  ao_Fn :: AggFn

record Bucket =
  bk_Start :: int
  bk_End :: int
  bk_Count :: int

text \<open>\<^verbatim>\<open>len(opts.SourceID) == 0\<close>\<close>

definition no_source :: "bytes option \<Rightarrow> bool" where
  "no_source src \<longleftrightarrow> (case src of None \<Rightarrow> True | Some b \<Rightarrow> b = [])"

text \<open>A negative length of \<^verbatim>\<open>make\<close> panics.\<close>

definition make_buckets :: "int \<Rightarrow> int \<Rightarrow> int \<Rightarrow> Bucket list result" where
  "make_buckets start bw n =
     (if n < 0 then Inl GoPanic
      else Inr (map (\<lambda>i. \<lparr>bk_Start = start + i64 (int i * bw), bk_End = start + i64 ((int i + 1) * bw), bk_Count = 0\<rparr>)
        [0..<nat n]))"

definition addCount :: "int \<Rightarrow> int \<Rightarrow> int \<Rightarrow> int \<Rightarrow> Bucket list \<Rightarrow> Bucket list result" where
  "addCount startNs endNs bwNs ts buckets =
     (if ts < startNs \<or> ts \<ge> endNs then Inr buckets
      else
        (let idx = go_div (i64 (ts - startNs)) bwNs in
         if idx < int (length buckets) then
           (if idx < 0 then Inl GoPanic
            else Inr (buckets[nat idx := (buckets ! nat idx)\<lparr>bk_Count := i64 (bk_Count (buckets ! nat idx) + 1)\<rparr>]))
         else Inr buckets))"

fun addCounts :: "int \<Rightarrow> int \<Rightarrow> int \<Rightarrow> int list \<Rightarrow> Bucket list \<Rightarrow> Bucket list result" where
  "addCounts startNs endNs bwNs [] buckets = Inr buckets"
| "addCounts startNs endNs bwNs (ts # tss) buckets =
     (case addCount startNs endNs bwNs ts buckets of
        Inl e \<Rightarrow> Inl e
      | Inr buckets \<Rightarrow> addCounts startNs endNs bwNs tss buckets)"

definition agg_memtable :: "int \<Rightarrow> int \<Rightarrow> int \<Rightarrow> bytes option \<Rightarrow> TimePartition \<Rightarrow> Bucket list \<Rightarrow> Bucket list result option" where
  "agg_memtable t0 t1 bw src p buckets =
     (case partition_Scan p t0 t1 src of
        Inl err \<Rightarrow> Some (Inl err)
      | Inr it \<Rightarrow>
          (case iter_collect mem_next mem_iter_View it () of
             None \<Rightarrow> None
           | Some (rs, it, _) \<Rightarrow> Some (addCounts t0 t1 bw (map Timestamp rs) buckets)))"

text \<open>The columnar shortcut, over the indexes of the blocks; a block that starts after the range ends it.\<close>

fun agg_columns :: "codecs \<Rightarrow> int \<Rightarrow> int \<Rightarrow> int \<Rightarrow> sst_reader \<Rightarrow> file_sys \<Rightarrow> nat list \<Rightarrow> Bucket list \<Rightarrow> Bucket list result" where
  "agg_columns cd t0 t1 bw r fs [] buckets = Inr buckets"
| "agg_columns cd t0 t1 bw r fs (i # is) buckets =
     (case TimeIndexEntry r i of
        Inl err \<Rightarrow> Inl err
      | Inr t \<Rightarrow>
          (if t \<ge> t1 then Inr buckets
           else
             (case ScanTimestamps cd r fs i t0 t1 of
                Inl err \<Rightarrow> Inl err
              | Inr timestamps \<Rightarrow>
                  (case addCounts t0 t1 bw timestamps buckets of
                     Inl err \<Rightarrow> Inl err
                   | Inr buckets \<Rightarrow> agg_columns cd t0 t1 bw r fs is buckets))))"

definition agg_file :: "codecs \<Rightarrow> int \<Rightarrow> int \<Rightarrow> int \<Rightarrow> bytes option \<Rightarrow> sst_reader \<Rightarrow> Bucket list \<Rightarrow> store \<Rightarrow>
    (Bucket list result \<times> store) option" where
  "agg_file cd t0 t1 bw src r buckets s =
     (let meta = reader_Meta r in
      if sm_MaxTimestamp meta < t0 \<or> sm_MinTimestamp meta \<ge> t1 then Some (Inr buckets, s)
      else if IsColumnar r \<and> no_source src
      then Some (agg_columns cd t0 t1 bw r (fst s) [0..<TimeIndexLen r] buckets, s)
      else
        (case reader_Scan cd r t0 t1 src s of
           (Inl err, s) \<Rightarrow> Some (Inl err, s)
         | (Inr sit, s) \<Rightarrow>
             (case iter_collect (sst_Next cd) sst_View sit s of
                None \<Rightarrow> None
              | Some (rs, sit, s) \<Rightarrow>
                  (case addCounts t0 t1 bw (map Timestamp rs) buckets of
                     Inl err \<Rightarrow> Some (Inl err, s)
                   | Inr buckets \<Rightarrow>
                       (case sst_Err sit of
                          Some err \<Rightarrow> Some (Inl err, s)
                        | None \<Rightarrow> Some (Inr buckets, s))))))"

fun agg_files :: "codecs \<Rightarrow> int \<Rightarrow> int \<Rightarrow> int \<Rightarrow> bytes option \<Rightarrow> sst_reader list \<Rightarrow> Bucket list \<Rightarrow> store \<Rightarrow>
    (Bucket list result \<times> store) option" where
  "agg_files cd t0 t1 bw src [] buckets s = Some (Inr buckets, s)"
| "agg_files cd t0 t1 bw src (r # rs) buckets s =
     (case agg_file cd t0 t1 bw src r buckets s of
        None \<Rightarrow> None
      | Some (Inl err, s) \<Rightarrow> Some (Inl err, s)
      | Some (Inr buckets, s) \<Rightarrow> agg_files cd t0 t1 bw src rs buckets s)"

fun agg_partitions :: "codecs \<Rightarrow> int \<Rightarrow> int \<Rightarrow> int \<Rightarrow> bytes option \<Rightarrow> Engine \<Rightarrow> TimePartition list \<Rightarrow> Bucket list \<Rightarrow> store \<Rightarrow>
    (Bucket list result \<times> store) option" where
  "agg_partitions cd t0 t1 bw src e [] buckets s = Some (Inr buckets, s)"
| "agg_partitions cd t0 t1 bw src e (p # ps) buckets s =
     (case agg_memtable t0 t1 bw src p buckets of
        None \<Rightarrow> None
      | Some (Inl err) \<Rightarrow> Some (Inl err, s)
      | Some (Inr buckets) \<Rightarrow>
          (case agg_files cd t0 t1 bw src (files_of e (tp_Window p)) buckets s of
             None \<Rightarrow> None
           | Some (Inl err, s) \<Rightarrow> Some (Inl err, s)
           | Some (Inr buckets, s) \<Rightarrow> agg_partitions cd t0 t1 bw src e ps buckets s))"

text \<open>A nil slice of buckets is the empty list.\<close>

definition engine_Aggregate :: "codecs \<Rightarrow> Engine \<Rightarrow> int \<Rightarrow> int \<Rightarrow> AggregateOpts \<Rightarrow> store \<Rightarrow> (Bucket list result \<times> store) option" where
  "engine_Aggregate cd e start end' opts s =
     (if ao_BucketWidth opts \<le> 0 then Some (Inl ErrInvalidBucketWidth, s)
      else if e_closed e then Some (Inl ErrClosed, s)
      else
        (let startNs = i64 start; endNs = i64 end' in
         if endNs \<le> startNs then Some (Inr [], s)
         else
           (let bwNs = ao_BucketWidth opts;
                nBuckets = go_div (i64 (i64 (i64 (endNs - startNs) + bwNs) - 1)) bwNs
            in case make_buckets start bwNs nBuckets of
                 Inl err \<Rightarrow> Some (Inl err, s)
               | Inr buckets \<Rightarrow>
                   agg_partitions cd startNs endNs bwNs (ao_SourceID opts) e
                     (Overlapping (e_router e) startNs endNs) buckets s)))"

subsection \<open>The histogram\<close>

definition bucket_counts :: "int \<Rightarrow> int \<Rightarrow> nat \<Rightarrow> int multiset \<Rightarrow> Bucket list" where
  "bucket_counts t0 bw n M = map (\<lambda>i. \<lparr>bk_Start = t0 + int i * bw, bk_End = t0 + (int i + 1) * bw,
     bk_Count = int (size (filter_mset (\<lambda>t. (t - t0) div bw = int i) M))\<rparr>) [0..<n]"

lemma i64_diff: "i64 (i64 a - b) = i64 (a - b)"
  using mod_diff_left_eq [of "a + 9223372036854775808" 18446744073709551616 b] by (simp add: i64_def algebra_simps)

lemma go_div_pos: "0 \<le> a \<Longrightarrow> 0 < b \<Longrightarrow> a \<le> MaxInt64 \<Longrightarrow> go_div a b = a div b"
proof -
  assume a: "0 \<le> a" "0 < b" "a \<le> MaxInt64"
  have "a div b \<le> a" using zdiv_mono2 [of a 1 b] a by simp
  moreover have "0 \<le> a div b" using a by (simp add: pos_imp_zdiv_nonneg_iff)
  ultimately have "i64 (a div b) = a div b" using a(3) by (intro i64_id) (auto simp: is_i64_def)
  then show ?thesis using a by (cases "a = 0") (auto simp: go_div_def)
qed

lemma addCount_ok:
  assumes "0 < bw" "t0 \<le> ts" "ts < t1" "t1 - t0 \<le> MaxInt64" "int (size M) < MaxInt64"
    "n = nat ((t1 - t0 + bw - 1) div bw)"
  shows "addCount t0 t1 bw ts (bucket_counts t0 bw n M) = Inr (bucket_counts t0 bw n (add_mset ts M))"
proof -
  let ?i = "(ts - t0) div bw"
  have "i64 (ts - t0) = ts - t0" using assms by (intro i64_id) (auto simp: is_i64_def)
  then have idx: "go_div (i64 (ts - t0)) bw = ?i" using assms by (simp add: go_div_pos)
  have pos: "0 \<le> ?i" using assms by (simp add: pos_imp_zdiv_nonneg_iff)
  have "?i \<le> (t1 - t0 - 1) div bw" using assms by (intro zdiv_mono1) auto
  also have "\<dots> < (t1 - t0 - 1 + bw) div bw" using assms(1) div_add_self2 [of bw "t1 - t0 - 1"] by simp
  finally have lt: "?i < (t1 - t0 + bw - 1) div bw" by (simp add: algebra_simps)
  then have lt': "nat ?i < n" "?i < int n" using pos assms(6) by auto
  let ?c = "\<lambda>i. int (size (filter_mset (\<lambda>t. (t - t0) div bw = int i) M))"
  have c: "i64 (?c i + 1) = ?c i + 1" for i
    using assms(5) size_filter_mset_lesseq [of "\<lambda>t. (t - t0) div bw = int i" M]
    by (intro i64_id) (unfold is_i64_def, linarith)
  have "(bucket_counts t0 bw n M)[nat ?i := (bucket_counts t0 bw n M ! nat ?i)
      \<lparr>bk_Count := i64 (bk_Count (bucket_counts t0 bw n M ! nat ?i) + 1)\<rparr>] = bucket_counts t0 bw n (add_mset ts M)"
    by (rule nth_equalityI) (use pos lt' c [of "nat ?i"] in \<open>auto simp: bucket_counts_def nth_list_update\<close>)
  then show ?thesis using assms(2,3) pos lt' by (simp add: addCount_def idx Let_def) (simp add: bucket_counts_def)
qed

lemma addCounts_ok:
  assumes "0 < bw" "\<forall>t \<in> set tss. t0 \<le> t \<and> t < t1" "t1 - t0 \<le> MaxInt64" "int (size M) + int (length tss) \<le> MaxInt64"
    "n = nat ((t1 - t0 + bw - 1) div bw)"
  shows "addCounts t0 t1 bw tss (bucket_counts t0 bw n M) = Inr (bucket_counts t0 bw n (M + mset tss))"
  using assms(2,4)
proof (induction tss arbitrary: M)
  case (Cons t tss)
  from addCount_ok [OF assms(1) _ _ assms(3) _ assms(5), of t M] Cons.prems
  have "addCount t0 t1 bw t (bucket_counts t0 bw n M) = Inr (bucket_counts t0 bw n (add_mset t M))" by simp
  then show ?case using Cons.IH [of "add_mset t M"] Cons.prems by simp
qed simp

subsection \<open>Memtables and files\<close>

abbreviation ts_mset :: "go_record list \<Rightarrow> int multiset" where
  "ts_mset rs \<equiv> mset (map Timestamp rs)"

text \<open>What one file contributes.\<close>

definition agg_recs :: "codecs \<Rightarrow> file_sys \<Rightarrow> int \<Rightarrow> int \<Rightarrow> bytes option \<Rightarrow> sst_reader \<Rightarrow> go_record list" where
  "agg_recs cd fs t0 t1 src r =
     (if IsColumnar r \<and> no_source src then query t0 t1 None (recs_of cd fs r) else scan_recs cd fs t0 t1 src r)"

lemma query_in_range: "x \<in> set (query t0 t1 src rs) \<Longrightarrow> t0 \<le> Timestamp x \<and> Timestamp x < t1"
  by (auto simp: query_def in_range_def)

lemma agg_memtable_ok:
  assumes "memtable_inv (tp_mem p)" "0 < bw" "t0 \<le> t1" "t1 - t0 \<le> MaxInt64" "n = nat ((t1 - t0 + bw - 1) div bw)"
    "int (size M + length (query t0 t1 src (mt_records (tp_mem p)))) \<le> MaxInt64"
  shows "agg_memtable t0 t1 bw src p (bucket_counts t0 bw n M) =
    Some (Inr (bucket_counts t0 bw n (M + ts_mset (query t0 t1 src (mt_records (tp_mem p))))))"
proof -
  let ?q = "query t0 t1 src (mt_records (tp_mem p))"
  from memtable_Scan_rest [OF assms(1,3), of src] obtain it where
    it: "partition_Scan p t0 t1 src = Inr it" "-1 \<le> mi_pos it" "mem_rest it = ?q" by (auto simp: partition_Scan_def)
  from mem.collect_rest [OF it(2), of "()"] it(3) obtain it' where
    "iter_collect mem_next mem_iter_View it () = Some (?q, it', ())" by auto
  moreover have "\<forall>t \<in> set (map Timestamp ?q). t0 \<le> t \<and> t < t1" using query_in_range by fastforce
  ultimately show ?thesis using it(1) addCounts_ok [OF assms(2) _ assms(4) _ assms(5), of "map Timestamp ?q" M] assms(6)
    by (simp add: agg_memtable_def)
qed

lemma agg_columns_ok:
  assumes "reads_as cd r fs bs" "IsColumnar r" "0 < bw" "t1 - t0 \<le> MaxInt64" "n = nat ((t1 - t0 + bw - 1) div bw)"
    "int (size M + length (query t0 t1 None (concat (drop i bs)))) \<le> MaxInt64"
  shows "agg_columns cd t0 t1 bw r fs [i..<length bs] (bucket_counts t0 bw n M) =
    Inr (bucket_counts t0 bw n (M + ts_mset (query t0 t1 None (concat (drop i bs)))))"
  using assms(6)
proof (induction "length bs - i" arbitrary: i M)
  case (Suc k)
  then have i: "i < length bs" by simp
  then have d: "drop i bs = bs ! i # drop (Suc i) bs" by (simp add: Cons_nth_drop_Suc)
  have ti: "TimeIndexEntry r i = Inr (Timestamp (hd (bs ! i)))" "bs ! i \<noteq> []" "rec_sorted (concat bs)"
    using assms(1) i by (auto simp: TimeIndexEntry_def reads_as_def)
  show ?case
  proof (cases "t1 \<le> Timestamp (hd (bs ! i))")
    case True
    have "rec_sorted (concat (drop i bs))"
      using ti(3) by (metis append_take_drop_id concat_append rec_sorted_append)
    then have "Timestamp (hd (bs ! i)) \<le> Timestamp x" if "x \<in> set (concat (drop i bs))" for x
      using that ti(2) unfolding d by (cases "bs ! i") (auto simp: rec_sorted_append intro: rkey_le_ts)
    then have "query t0 t1 None (concat (drop i bs)) = []"
      using True by (intro query_none) (force simp: in_range_def)
    then show ?thesis using True ti(1) i by (simp add: upt_conv_Cons)
  next
    case False
    let ?q = "query t0 t1 None (bs ! i)"
    have "\<forall>t \<in> set (map Timestamp ?q). t0 \<le> t \<and> t < t1" using query_in_range by fastforce
    from addCounts_ok [OF assms(3) this assms(4) _ assms(5), of M] Suc.prems
    have a: "addCounts t0 t1 bw (map Timestamp ?q) (bucket_counts t0 bw n M) = Inr (bucket_counts t0 bw n (M + ts_mset ?q))"
      by (simp add: d)
    from Suc.hyps(1) [of "Suc i" "M + ts_mset ?q"] Suc.hyps(2) Suc.prems
    have "agg_columns cd t0 t1 bw r fs [Suc i..<length bs] (bucket_counts t0 bw n (M + ts_mset ?q)) =
        Inr (bucket_counts t0 bw n (M + ts_mset ?q + ts_mset (query t0 t1 None (concat (drop (Suc i) bs)))))"
      by (simp add: d)
    then show ?thesis using False ti(1) i a ScanTimestamps_ok [OF assms(1,2) i]
      by (simp add: upt_conv_Cons d add.assoc)
  qed
qed simp

lemma collect_fst:
  assumes "\<And>it s b it' s'. nxt it s = (b, it', s') \<Longrightarrow> fst s' = fst s"
  shows "iter_collect nxt view it s = Some (rs, it', s') \<Longrightarrow> fst s' = fst s"
proof (induction rs arbitrary: it s)
  case Nil
  then show ?case using assms
    by (subst (asm) iter_collect.simps) (auto simp: bind_eq_Some_conv split: prod.splits if_splits)
next
  case (Cons r rs)
  from Cons.prems obtain it1 s1 where "nxt it s = (True, it1, s1)" "iter_collect nxt view it1 s1 = Some (rs, it', s')"
    by (subst (asm) iter_collect.simps) (auto simp: bind_eq_Some_conv split: prod.splits if_splits)
  then show ?case using Cons.IH assms by metis
qed

lemma agg_file_ok:
  assumes "live cd G fs r" "cache_ok cd G (fs, c)" "0 < bw" "t1 - t0 \<le> MaxInt64"
    "n = nat ((t1 - t0 + bw - 1) div bw)" "int (size M + length (agg_recs cd fs t0 t1 src r)) \<le> MaxInt64"
  shows "\<exists>c'. agg_file cd t0 t1 bw src r (bucket_counts t0 bw n M) (fs, c) =
    Some (Inr (bucket_counts t0 bw n (M + ts_mset (agg_recs cd fs t0 t1 src r))), (fs, c')) \<and> cache_ok cd G (fs, c')"
proof -
  from assms(1) obtain bs where g: "G (sm_Path (r_meta r)) = Some r" and bs: "reads_as cd r fs bs" "bs \<noteq> []"
    by (auto simp: live_def)
  consider (skip) "sm_MaxTimestamp (r_meta r) < t0 \<or> sm_MinTimestamp (r_meta r) \<ge> t1"
    | (col) "\<not> (sm_MaxTimestamp (r_meta r) < t0 \<or> sm_MinTimestamp (r_meta r) \<ge> t1)" "IsColumnar r \<and> no_source src"
    | (row) "\<not> (sm_MaxTimestamp (r_meta r) < t0 \<or> sm_MinTimestamp (r_meta r) \<ge> t1)" "\<not> (IsColumnar r \<and> no_source src)"
    by blast
  then show ?thesis
  proof cases
    case skip
    then have "query t0 t1 (src_norm src') (concat bs) = []" for src' using Scan_empty_cases [OF bs(1)] by blast
    from this [of None] this [of src] have "agg_recs cd fs t0 t1 src r = []"
      using scan_recs_none [OF bs(1)] recs_of_reads [OF bs(1)] by (simp add: agg_recs_def src_norm_id)
    then show ?thesis using skip assms(2) by (auto simp: agg_file_def reader_Meta_def Let_def)
  next
    case col
    have "TimeIndexLen r = length bs" using bs(1) by (simp add: TimeIndexLen_def reads_as_def)
    then show ?thesis using col agg_columns_ok [OF bs(1) _ assms(3-5), of M 0] assms(2,6) recs_of_reads [OF bs(1)]
      by (auto simp: agg_file_def reader_Meta_def Let_def agg_recs_def)
  next
    case row
    from reader_Scan_ok [of cd r "(fs, c)" bs G t0 t1 src] bs(1) g assms(2) obtain it c1 where it:
      "reader_Scan cd r t0 t1 src (fs, c) = (Inr it, fs, c1)" "cache_ok cd G (fs, c1)" "sst_inv cd G (fs, c1) it"
      "sst_rest cd (fs, c1) it = query t0 t1 (src_norm src) (concat (drop (startBlock r t0) bs))" by auto
    have rest: "sst_rest cd (fs, c1) it = agg_recs cd fs t0 t1 src r"
      using bs(1) row it(4) by (auto simp: scan_recs_def later_recs_drop agg_recs_def)
    from sst.collect_frame [OF it(3)] obtain it' s2 where
      col: "iter_collect (sst_Next cd) sst_View it (fs, c1) = Some (agg_recs cd fs t0 t1 src r, it', s2)"
      "sst_Err it' = None" "sst_inv cd G s2 EmptyIter"
      using it(2) rest by (metis sst_inv.simps(1))
    have "fst s2 = fs" using collect_fst [OF sst_Next_fst col(1)] by simp
    then obtain c2 where s2: "s2 = (fs, c2)" by (cases s2) simp
    have "\<forall>t \<in> set (map Timestamp (agg_recs cd fs t0 t1 src r)). t0 \<le> t \<and> t < t1"
      by (auto simp: agg_recs_def scan_recs_def dest: query_in_range split: if_splits)
    from addCounts_ok [OF assms(3) this assms(4) _ assms(5), of M] assms(6) row it(1) col s2 show ?thesis
      by (auto simp: agg_file_def reader_Meta_def Let_def)
  qed
qed

lemma fits_size:
  assumes "M + ts_mset rs + N \<subseteq># B" "int (size B) \<le> MaxInt64"
  shows "int (size M + length rs) \<le> MaxInt64"
  using size_mset_mono [OF assms(1)] assms(2) by simp

lemma agg_files_ok:
  assumes "\<forall>r \<in> set rs. live cd G fs r" "cache_ok cd G (fs, c)" "0 < bw" "t1 - t0 \<le> MaxInt64"
    "n = nat ((t1 - t0 + bw - 1) div bw)" "int (size B) \<le> MaxInt64"
    "M + image_mset Timestamp (\<Sum>r \<in># mset rs. mset (agg_recs cd fs t0 t1 src r)) \<subseteq># B"
  shows "\<exists>c'. agg_files cd t0 t1 bw src rs (bucket_counts t0 bw n M) (fs, c) =
    Some (Inr (bucket_counts t0 bw n (M + image_mset Timestamp (\<Sum>r \<in># mset rs. mset (agg_recs cd fs t0 t1 src r)))), (fs, c')) \<and>
    cache_ok cd G (fs, c')"
  using assms(1,2,7)
proof (induction rs arbitrary: M c)
  case (Cons r rs)
  let ?M = "M + ts_mset (agg_recs cd fs t0 t1 src r)"
  let ?N = "image_mset Timestamp (\<Sum>r \<in># mset rs. mset (agg_recs cd fs t0 t1 src r))"
  have B: "?M + ?N \<subseteq># B" using Cons.prems(3) by (simp add: add.assoc)
  have l: "live cd G fs r" "\<forall>r \<in> set rs. live cd G fs r" using Cons.prems(1) by simp_all
  from agg_file_ok [OF l(1) Cons.prems(2) assms(3-5) fits_size [OF B assms(6)]] obtain c1 where
    a: "agg_file cd t0 t1 bw src r (bucket_counts t0 bw n M) (fs, c) = Some (Inr (bucket_counts t0 bw n ?M), (fs, c1))"
    "cache_ok cd G (fs, c1)" by blast
  from Cons.IH [OF l(2) a(2) B] a(1) show ?case by (simp add: add.assoc)
qed simp

lemma agg_partitions_ok:
  fixes t0 t1 :: int and src :: "bytes option"
  assumes "\<forall>p \<in> set ps. memtable_inv (tp_mem p) \<and> (\<forall>r \<in> set (files_of e (tp_Window p)). live cd G fs r)"
    "cache_ok cd G (fs, c)" "0 < bw" "t0 \<le> t1" "t1 - t0 \<le> MaxInt64" "n = nat ((t1 - t0 + bw - 1) div bw)"
    "int (size B) \<le> MaxInt64"
  defines "P \<equiv> \<lambda>p. mset (query t0 t1 src (mt_records (tp_mem p))) +
       (\<Sum>r \<in># mset (files_of e (tp_Window p)). mset (agg_recs cd fs t0 t1 src r))"
  assumes "M + image_mset Timestamp (\<Sum>p \<in># mset ps. P p) \<subseteq># B"
  shows "\<exists>c'. agg_partitions cd t0 t1 bw src e ps (bucket_counts t0 bw n M) (fs, c) =
    Some (Inr (bucket_counts t0 bw n (M + image_mset Timestamp (\<Sum>p \<in># mset ps. P p))), (fs, c')) \<and> cache_ok cd G (fs, c')"
  using assms(1,2,9)
proof (induction ps arbitrary: M c)
  case (Cons p ps)
  let ?q = "query t0 t1 src (mt_records (tp_mem p))"
  let ?f = "image_mset Timestamp (\<Sum>r \<in># mset (files_of e (tp_Window p)). mset (agg_recs cd fs t0 t1 src r))"
  let ?N = "image_mset Timestamp (\<Sum>p \<in># mset ps. P p)"
  have B: "M + ts_mset ?q + (?f + ?N) \<subseteq># B" "M + ts_mset ?q + ?f + ?N \<subseteq># B"
    using Cons.prems(3) by (simp_all add: P_def add.assoc)
  have l: "memtable_inv (tp_mem p)" "\<forall>r \<in> set (files_of e (tp_Window p)). live cd G fs r"
    "\<forall>p \<in> set ps. memtable_inv (tp_mem p) \<and> (\<forall>r \<in> set (files_of e (tp_Window p)). live cd G fs r)"
    using Cons.prems(1) by simp_all
  note m = agg_memtable_ok [OF l(1) assms(3-6) fits_size [OF B(1) assms(7)]]
  have "M + ts_mset ?q + ?f \<subseteq># B" using B(2) by (rule mset_subset_eq_add_left [THEN subset_mset.order_trans])
  from agg_files_ok [OF l(2) Cons.prems(2) assms(3,5,6,7) this] obtain c1 where
    f: "agg_files cd t0 t1 bw src (files_of e (tp_Window p)) (bucket_counts t0 bw n (M + ts_mset ?q)) (fs, c) =
      Some (Inr (bucket_counts t0 bw n (M + ts_mset ?q + ?f)), (fs, c1))" "cache_ok cd G (fs, c1)" by blast
  have e: "M + image_mset Timestamp (\<Sum>p \<in># mset (p # ps). P p) = M + ts_mset ?q + ?f + ?N"
    by (simp add: P_def add.assoc)
  from Cons.IH [OF l(3) f(2) B(2)] m f(1) show ?case unfolding e by simp
qed simp

lemma div_mult_le_self: "0 < b \<Longrightarrow> a div b * b \<le> a" for a b :: int
  using pos_mod_sign [of b a] div_mult_mod_eq [of a b] by linarith

lemma make_buckets_ok:
  assumes "0 < bw" "t0 < t1" "t1 - t0 + bw - 1 \<le> MaxInt64" "n = nat ((t1 - t0 + bw - 1) div bw)"
  shows "make_buckets t0 bw ((t1 - t0 + bw - 1) div bw) = Inr (bucket_counts t0 bw n {#})"
proof -
  have p: "0 \<le> (t1 - t0 + bw - 1) div bw" using assms by (simp add: pos_imp_zdiv_nonneg_iff)
  have w: "i64 (int i * bw) = int i * bw" "i64 ((int i + 1) * bw) = (int i + 1) * bw" if "i < n" for i
  proof -
    have "int i + 1 \<le> (t1 - t0 + bw - 1) div bw" using that assms(4) p by linarith
    then have "(int i + 1) * bw \<le> (t1 - t0 + bw - 1) div bw * bw" using assms(1) by (intro mult_right_mono) auto
    also have "\<dots> \<le> t1 - t0 + bw - 1" using assms(1) by (rule div_mult_le_self)
    finally have "(int i + 1) * bw \<le> MaxInt64" using assms(3) by simp
    moreover have "0 \<le> int i * bw" "int i * bw \<le> (int i + 1) * bw" using assms(1) by (simp_all add: algebra_simps)
    ultimately show "i64 (int i * bw) = int i * bw" "i64 ((int i + 1) * bw) = (int i + 1) * bw"
      by (auto intro!: i64_id simp: is_i64_def)
  qed
  then show ?thesis using p assms(4) by (simp add: make_buckets_def bucket_counts_def)
qed

text \<open>What the engine counts, as a bag of records.\<close>

definition counted :: "codecs \<Rightarrow> Engine \<Rightarrow> file_sys \<Rightarrow> int \<Rightarrow> int \<Rightarrow> bytes option \<Rightarrow> go_record multiset" where
  "counted cd e fs t0 t1 src = matching t0 t1 src (mem_recs (e_router e)) +
     (\<Sum>r \<in># mset (all_readers e). mset (agg_recs cd fs t0 t1 src r))"

lemma agg_recs_bounds:
  fixes t0 t1 :: int and src :: "bytes option"
  assumes "reads_as cd r fs bs"
  defines "Q \<equiv> mset (query t0 t1 (src_norm src) (recs_of cd fs r))"
  shows "mset (agg_recs cd fs t0 t1 src r) \<subseteq># Q"
    "filter_mset (\<lambda>x. Timestamp x \<noteq> t0) (mset (agg_recs cd fs t0 t1 src r)) = filter_mset (\<lambda>x. Timestamp x \<noteq> t0) Q"
    "IsColumnar r \<Longrightarrow> no_source src \<Longrightarrow> mset (agg_recs cd fs t0 t1 src r) = Q"
proof -
  have "no_source src \<Longrightarrow> src_norm src = None" by (auto simp: no_source_def src_norm_def split: option.splits list.splits)
  then show "mset (agg_recs cd fs t0 t1 src r) \<subseteq># Q"
    "filter_mset (\<lambda>x. Timestamp x \<noteq> t0) (mset (agg_recs cd fs t0 t1 src r)) = filter_mset (\<lambda>x. Timestamp x \<noteq> t0) Q"
    "IsColumnar r \<Longrightarrow> no_source src \<Longrightarrow> mset (agg_recs cd fs t0 t1 src r) = Q"
    using scan_recs_bounds [OF assms(1), of t0 t1 src] by (auto simp: agg_recs_def Q_def)
qed

lemma counted_bounds:
  fixes t0 t1 :: int
  assumes "data_ok cd G e fs" "src \<noteq> Some []"
  defines "N \<equiv> matching t0 t1 src (engine_recs cd e fs)" and "M \<equiv> counted cd e fs t0 t1 src"
  shows "M \<subseteq># N" "filter_mset (\<lambda>x. Timestamp x \<noteq> t0) M = filter_mset (\<lambda>x. Timestamp x \<noteq> t0) N"
    "src = None \<Longrightarrow> \<forall>r \<in> set (all_readers e). IsColumnar r \<Longrightarrow> M = N"
proof -
  let ?q = "\<lambda>r. mset (query t0 t1 (src_norm src) (recs_of cd fs r))"
  let ?a = "\<lambda>r. mset (agg_recs cd fs t0 t1 src r)"
  have N: "N = matching t0 t1 src (mem_recs (e_router e)) + (\<Sum>r \<in># mset (all_readers e). ?q r)"
    using src_norm_id [OF assms(2)] by (simp add: N_def engine_recs_def matching_add matching_files)
  have M: "M = matching t0 t1 src (mem_recs (e_router e)) + (\<Sum>r \<in># mset (all_readers e). ?a r)"
    by (simp add: M_def counted_def)
  have r: "\<exists>bs. reads_as cd r fs bs" if "r \<in> set (all_readers e)" for r
    using all_readers_files [OF assms(1) that] by (auto simp: reader_ok_def)
  show "M \<subseteq># N" unfolding N M
    by (intro subset_mset.add_left_mono sum_mset_subseteq) (use r agg_recs_bounds(1) in blast)
  have "(\<Sum>r \<in># mset (all_readers e). filter_mset (\<lambda>x. Timestamp x \<noteq> t0) (?a r)) =
      (\<Sum>r \<in># mset (all_readers e). filter_mset (\<lambda>x. Timestamp x \<noteq> t0) (?q r))"
    by (rule arg_cong [where f = sum_mset], rule image_mset_cong) (use r agg_recs_bounds(2) in fastforce)
  then show "filter_mset (\<lambda>x. Timestamp x \<noteq> t0) M = filter_mset (\<lambda>x. Timestamp x \<noteq> t0) N"
    unfolding N M by (simp add: filter_sum_mset)
  assume s: "src = None" "\<forall>r \<in> set (all_readers e). IsColumnar r"
  have "(\<Sum>r \<in># mset (all_readers e). ?a r) = (\<Sum>r \<in># mset (all_readers e). ?q r)"
    by (rule arg_cong [where f = sum_mset], rule image_mset_cong)
      (use r agg_recs_bounds(3) s in \<open>fastforce simp: no_source_def\<close>)
  then show "M = N" unfolding N M by simp
qed

lemma Aggregate_ok:
  assumes "data_ok cd G e fs" "cache_ok cd G (fs, c)" "\<not> e_closed e" "is_i64 t0" "is_i64 t1" "t0 < t1"
    "0 < ao_BucketWidth opts" "t1 - t0 + ao_BucketWidth opts - 1 \<le> MaxInt64"
    "int (size (counted cd e fs t0 t1 (ao_SourceID opts))) \<le> MaxInt64"
  shows "\<exists>c'. engine_Aggregate cd e t0 t1 opts (fs, c) =
    Some (Inr (bucket_counts t0 (ao_BucketWidth opts) (nat ((t1 - t0 + ao_BucketWidth opts - 1) div ao_BucketWidth opts))
      (image_mset Timestamp (counted cd e fs t0 t1 (ao_SourceID opts)))), (fs, c')) \<and> cache_ok cd G (fs, c')"
proof -
  let ?ps = "Overlapping (e_router e) t0 t1" let ?src = "ao_SourceID opts" let ?bw = "ao_BucketWidth opts"
  define n where "n = nat ((t1 - t0 + ?bw - 1) div ?bw)"
  have inv: "rt_inv (e_router e)" using assms(1) by (simp add: data_ok_def)
  then have "memtable_inv (tp_mem p)" if "p \<in> set ?ps" for p
    using that by (auto simp: rt_inv_def Overlapping_def)
  then have l: "\<forall>p \<in> set ?ps. memtable_inv (tp_mem p) \<and> (\<forall>r \<in> set (files_of e (tp_Window p)). live cd G fs r)"
    using files_of_ok [OF assms(1)] reader_ok_live by blast
  have "mset (agg_recs cd fs t0 t1 ?src r) = {#}" if r: "r \<in> set (files_of e w)" "\<not> Overlaps w t0 t1" for w r
  proof -
    note ok = files_of_ok [OF assms(1) r(1)]
    then obtain bs where "reads_as cd r fs bs" by (auto simp: reader_ok_def)
    from agg_recs_bounds(1) [OF this, of t0 t1 ?src] window_query_none [OF ok r(2), of "src_norm ?src"] show ?thesis by simp
  qed
  from overlapping_files [OF assms(1) this] Overlapping_query [OF inv, of t0 t1 ?src]
  have sum: "(\<Sum>p \<in># mset ?ps. mset (query t0 t1 ?src (mt_records (tp_mem p))) +
       (\<Sum>r \<in># mset (files_of e (tp_Window p)). mset (agg_recs cd fs t0 t1 ?src r))) = counted cd e fs t0 t1 ?src"
    by (simp add: counted_def matching_def sum_mset.distrib)
  have nb: "go_div (i64 (i64 (i64 (t1 - t0) + ?bw) - 1)) ?bw = (t1 - t0 + ?bw - 1) div ?bw"
  proof -
    have "i64 (t1 - t0) = t1 - t0" using assms(6-8) by (intro i64_id) (simp add: is_i64_def)
    moreover have "i64 (i64 (t1 - t0 + ?bw) - 1) = t1 - t0 + ?bw - 1"
      using assms(6-8) i64_diff [of "t1 - t0 + ?bw" 1] by (simp add: i64_id is_i64_def)
    ultimately show ?thesis using assms(6-8) by (simp add: go_div_pos)
  qed
  have "{#} + image_mset Timestamp (counted cd e fs t0 t1 ?src) \<subseteq># image_mset Timestamp (counted cd e fs t0 t1 ?src)" by simp
  from agg_partitions_ok [OF l assms(2,7) _ _ n_def, of "image_mset Timestamp (counted cd e fs t0 t1 ?src)" "{#}" ?src,
      unfolded sum, OF _ _ _ this] assms(6-9)
  obtain c' where "agg_partitions cd t0 t1 ?bw ?src e ?ps (bucket_counts t0 ?bw n {#}) (fs, c) =
      Some (Inr (bucket_counts t0 ?bw n (image_mset Timestamp (counted cd e fs t0 t1 ?src))), (fs, c'))" "cache_ok cd G (fs, c')"
    by auto
  then show ?thesis using assms(3-8) make_buckets_ok [OF assms(7,6,8) n_def] nb
    by (simp add: engine_Aggregate_def Let_def i64_id n_def)
qed

subsection \<open>Property\<close>

text \<open>
  C13: aggregation equals a reference histogram. For a range and a bucket width that do not overflow,
  \<^verbatim>\<open>Aggregate\<close> succeeds, changes nothing but the block cache, and its buckets cover the range from its
  start in steps of the width, each with the number of records counted in it. The records counted are
  those of the range and source, except that files that are scanned by rows may leave out records at
  exactly the start of the range; when every file is columnar and no source is given, none is left out.
\<close>

theorem Aggregate_correct:
  assumes "engine_good cd e s" "\<not> e_closed e" "is_i64 t0" "is_i64 t1" "t0 < t1" "0 < ao_BucketWidth opts"
    "t1 - t0 + ao_BucketWidth opts - 1 \<le> MaxInt64" "ao_SourceID opts \<noteq> Some []"
    "int (size (engine_recs cd e (fst s))) \<le> MaxInt64"
  shows "\<exists>M s'. engine_Aggregate cd e t0 t1 opts s = Some (Inr (bucket_counts t0 (ao_BucketWidth opts)
        (nat ((t1 - t0 + ao_BucketWidth opts - 1) div ao_BucketWidth opts)) (image_mset Timestamp M)), s') \<and>
    fst s' = fst s \<and> engine_good cd e s' \<and>
    (let N = matching t0 t1 (ao_SourceID opts) (engine_recs cd e (fst s)) in M \<subseteq># N \<and>
       filter_mset (\<lambda>x. Timestamp x \<noteq> t0) M = filter_mset (\<lambda>x. Timestamp x \<noteq> t0) N \<and>
       (ao_SourceID opts = None \<and> (\<forall>r \<in> set (all_readers e). IsColumnar r) \<longrightarrow> M = N))"
proof -
  obtain fs c where s: "s = (fs, c)" by (cases s)
  from assms(1) s obtain G where g: "engine_ok cd G e (fs, c)" "chan_ok e" by (auto simp: engine_good_def engine_inv_def)
  then have ok: "data_ok cd G e fs" "cache_ok cd G (fs, c)" by (auto simp: engine_ok_def store_ok_def)
  note b = counted_bounds [OF ok(1) assms(8), of t0 t1]
  have "size (counted cd e fs t0 t1 (ao_SourceID opts)) \<le> size (engine_recs cd e fs)"
    using size_mset_mono [OF b(1)] size_filter_mset_lesseq [of _ "engine_recs cd e fs"]
    unfolding matching_def by (meson le_trans)
  then have "int (size (counted cd e fs t0 t1 (ao_SourceID opts))) \<le> MaxInt64" using assms(9) s by simp
  from Aggregate_ok [OF ok assms(2-7) this] obtain c' where
    a: "engine_Aggregate cd e t0 t1 opts (fs, c) = Some (Inr (bucket_counts t0 (ao_BucketWidth opts)
        (nat ((t1 - t0 + ao_BucketWidth opts - 1) div ao_BucketWidth opts))
        (image_mset Timestamp (counted cd e fs t0 t1 (ao_SourceID opts)))), (fs, c'))" "cache_ok cd G (fs, c')" by blast
  have "engine_good cd e (fs, c')" using engine_ok_cache [OF g(1) a(2)] g(2) by (auto simp: engine_good_def engine_inv_def)
  then show ?thesis using a(1) s b unfolding Let_def by (metis fst_conv)
qed

theorem Aggregate_correct_witness:
  "\<exists>e0 s0 e s s'. engine_Open True 0 ''d'' demo_opts fs_empty = (Inr e0, s0) \<and>
     engine_run tag_codecs True (e0, s0) [LAppend zero_record] (e, s) \<and>
     engine_Aggregate tag_codecs e (-5) 7 \<lparr>ao_SourceID = None, ao_BucketWidth = 4, ao_Fn = AggCount\<rparr> s =
       Some (Inr [\<lparr>bk_Start = -5, bk_End = -1, bk_Count = 0\<rparr>, \<lparr>bk_Start = -1, bk_End = 3, bk_Count = 1\<rparr>,
         \<lparr>bk_Start = 3, bk_End = 7, bk_Count = 0\<rparr>], s')"
proof -
  let ?o = "\<lparr>ao_SourceID = None, ao_BucketWidth = 4, ao_Fn = AggCount\<rparr>"
  from demo_engine obtain e0 s0 e s where d: "engine_Open True 0 ''d'' demo_opts fs_empty = (Inr e0, s0)"
    "engine_run tag_codecs True (e0, s0) [LAppend zero_record] (e, s)" "engine_good tag_codecs e s" "\<not> e_closed e"
    "engine_recs tag_codecs e (fst s) = {#zero_record#}" "e_files e = []" by blast
  have h: "is_i64 (-5)" "is_i64 7" "(-5 :: int) < 7" "0 < ao_BucketWidth ?o" "7 - -5 + ao_BucketWidth ?o - 1 \<le> MaxInt64"
    "ao_SourceID ?o \<noteq> Some []" "int (size (engine_recs tag_codecs e (fst s))) \<le> MaxInt64"
    using d(5) by (simp_all add: is_i64_def)
  have m: "matching (-5) 7 None {#zero_record#} = {#zero_record#}"
    by (simp add: matching_def in_range_def src_match_def zero_record_def)
  from Aggregate_correct [OF d(3,4) h] d(5,6) m obtain s' where
    "engine_Aggregate tag_codecs e (-5) 7 ?o s = Some (Inr (bucket_counts (-5) 4 3 {#0#}), s')"
    by (auto simp: all_readers_def zero_record_def Let_def)
  moreover have "bucket_counts (-5) 4 3 {#0#} = [\<lparr>bk_Start = -5, bk_End = -1, bk_Count = 0\<rparr>,
      \<lparr>bk_Start = -1, bk_End = 3, bk_Count = 1\<rparr>, \<lparr>bk_Start = 3, bk_End = 7, bk_Count = 0\<rparr>]"
    by (simp add: bucket_counts_def numeral_3_eq_3)
  ultimately show ?thesis using d(1,2) by metis
qed

end
