(* ===== verification/Returns.thy ===== *)
theory Returns
  imports Aggregate
begin

text \<open>
  The loops without a syntactic bound come to an end, whatever the contents of the files and whichever
  system calls fail: the drain of a scan, the k-way merge of a compaction, and with them every turn of
  the compactor and every aggregation. An iterator has a rank, the number of blocks ahead and the number
  of records left in the current block, which every successful \<^verbatim>\<open>Next\<close> lowers; a merge lowers the bag of
  the ranks of its inputs, or keeps it and shortens the heap.
\<close>

subsection \<open>Ranks\<close>

abbreviation rank_less :: "((nat \<times> nat) \<times> nat \<times> nat) set" where
  "rank_less \<equiv> less_than <*lex*> less_than"

fun sst_rank :: "sst_iter \<Rightarrow> nat \<times> nat" where
  "sst_rank EmptyIter = (0, 0)"
| "sst_rank (ScanIter it) = (length (r_timeIndex (si_r it)) - si_blockIdx it, si_blockRem it)"
| "sst_rank (ColScanIter it) = (length (r_timeIndex (ci_r it)) - ci_blockIdx it, length (ci_blockRecs it) - ci_recIdx it)"

abbreviation lowered :: "bool \<Rightarrow> nat \<times> nat \<Rightarrow> nat \<times> nat \<Rightarrow> bool" where
  "lowered strict a b \<equiv> (a, b) \<in> rank_less \<or> (\<not> strict \<and> a = b)"

lemma scan_Next_rank:
  "scan_Next cd it s = (b, it', s') \<Longrightarrow> lowered b (sst_rank (ScanIter it')) (sst_rank (ScanIter it))"
proof (induction cd it s rule: scan_Next.induct)
  case (1 cd it s)
  show ?case
  proof (cases "0 < si_blockRem it")
    case True
    then show ?thesis using "1.prems" "1.IH"(1,2)
      by (subst (asm) scan_Next.simps) (fastforce simp: Let_def split: sum.splits prod.splits if_splits)
  next
    case False
    then show ?thesis using "1.prems" "1.IH"(3)
      by (subst (asm) scan_Next.simps) (fastforce simp: Let_def split: sum.splits prod.splits if_splits)
  qed
qed

lemma col_Next_rank:
  "col_Next cd it s = (b, it', s') \<Longrightarrow> lowered b (sst_rank (ColScanIter it')) (sst_rank (ColScanIter it))"
proof (induction cd it s rule: col_Next.induct)
  case (1 cd it s)
  show ?case
  proof (cases "ci_recIdx it < length (ci_blockRecs it)")
    case True
    then show ?thesis using "1.prems" "1.IH"(1,2)
      by (subst (asm) col_Next.simps) (fastforce simp: Let_def split: if_splits)
  next
    case False
    then show ?thesis using "1.prems" "1.IH"(3)
      by (subst (asm) col_Next.simps) (fastforce simp: Let_def split: sum.splits if_splits)
  qed
qed

lemma sst_Next_rank: "sst_Next cd it s = (b, it', s') \<Longrightarrow> lowered b (sst_rank it') (sst_rank it)"
  by (cases it) (auto split: prod.splits dest: scan_Next_rank col_Next_rank)

lemma wf_rank: "wf rank_less"
  by (simp add: wf_lex_prod)

subsection \<open>Drains\<close>

lemma collect_ends:
  assumes "wf R" "\<And>it s it' s'. nxt it s = (True, it', s') \<Longrightarrow> (rank it', rank it) \<in> R"
  shows "iter_collect nxt view it s \<noteq> None"
  using assms(1)
proof (induction "rank it" arbitrary: it s rule: wf_induct_rule)
  case less
  obtain b it' s' where n: "nxt it s = (b, it', s')" by (metis prod_cases3)
  then have "b \<Longrightarrow> iter_collect nxt view it' s' \<noteq> None" using less assms(2) [of it s it' s'] by simp
  then show ?case using n by (subst iter_collect.simps) auto
qed

lemma sst_collect_ends: "iter_collect (sst_Next cd) sst_View it s \<noteq> None"
  by (rule collect_ends [OF wf_rank, where rank = sst_rank]) (use sst_Next_rank in blast)

lemma mem_collect_ends: "iter_collect mem_next mem_iter_View it s \<noteq> None"
  by (rule collect_ends [OF wf_measure [of "\<lambda>it. nat (int (length (mi_records it)) - mi_pos it)"], where rank = id])
    (auto dest!: mem_iter_Next_pos split: prod.splits)

subsection \<open>The merge\<close>

definition heap_in :: "nat \<Rightarrow> mergeItem list \<Rightarrow> bool" where
  "heap_in n h \<longleftrightarrow> heap_inv mgi_key h \<and> (\<forall>x \<in> set h. mgi_iter x < n)"

lemma heap_in_push: "heap_in n h \<Longrightarrow> i < n \<Longrightarrow> heap_in n (mergeHeap_push h (merge_item v i))"
  using mergeHeap.push_ok [of h] mergeHeap.push_set [of h] by (auto simp: heap_in_def merge_item_def)

lemma merge_heads_heap:
  "merge_heads cd i its h s = (Inr (its', h'), s') \<Longrightarrow> heap_in n h \<Longrightarrow> i + length its \<le> n \<Longrightarrow>
   length its' = length its \<and> heap_in n h'"
proof (induction its arbitrary: i h s its' h' s')
  case (Cons it its)
  obtain b it1 s1 where n: "sst_Next cd it s = (b, it1, s1)" by (metis prod_cases3)
  let ?h = "if b then mergeHeap_push h (merge_item (sst_View it1) i) else h"
  obtain res s2 where r: "merge_heads cd (Suc i) its ?h s1 = (res, s2)" by (metis surj_pair)
  have "heap_in n ?h" using Cons.prems(2,3) by (simp add: heap_in_push)
  then show ?case using Cons.IH [of "Suc i" ?h s1] Cons.prems n r by (auto split: if_splits sum.splits)
qed simp

lemma ranks_update:
  assumes "i < length its" "lowered strict (sst_rank it) (sst_rank (its ! i))"
  shows "(mset (map sst_rank (its[i := it])), mset (map sst_rank its)) \<in> mult rank_less \<or>
    (\<not> strict \<and> mset (map sst_rank (its[i := it])) = mset (map sst_rank its))"
proof -
  let ?M = "mset (map sst_rank its) - {#sst_rank (its ! i)#}"
  have m: "mset (map sst_rank its) = add_mset (sst_rank (its ! i)) ?M" 
    by (intro insert_DiffM [symmetric]) (use assms(1) in simp)
  have u: "mset (map sst_rank (its[i := it])) = add_mset (sst_rank it) ?M"
    using assms(1) by (simp add: mset_update map_update)
  have "(add_mset (sst_rank it) ?M, add_mset (sst_rank (its ! i)) ?M) \<in> mult rank_less"
    if "(sst_rank it, sst_rank (its ! i)) \<in> rank_less"
    using that one_step_implies_mult [of "{#sst_rank (its ! i)#}" "{#sst_rank it#}" rank_less ?M] by simp
  then show ?thesis using assms(2) m u by metis
qed

lemma merge_loop_ends:
  "heap_in (length its) h \<Longrightarrow> merge_loop cd its h w s \<noteq> None"
  using wf_lex_prod [OF wf_mult [OF wf_rank] wf_less_than]
proof (induction "(mset (map sst_rank its), length h)" arbitrary: its h w s rule: wf_induct_rule)
  case less
  show ?case
  proof (cases "h = []")
    case True
    then show ?thesis by (subst merge_loop.simps) simp
  next
    case False
    have ok: "heap_inv mgi_key h" using less.prems by (simp add: heap_in_def)
    from mergeHeap.pop_cases [OF ok False] obtain x h' where
      p: "mergeHeap_pop h = (x, h')" "heap_inv mgi_key h'" "mset h = add_mset x (mset h')" "x \<in> set h" "set h' \<subseteq> set h" .
    let ?i = "mgi_iter x"
    have i: "?i < length its" "heap_in (length its) h'" using less.prems p by (auto simp: heap_in_def)
    obtain e1 w1 fs1 where a: "sst_Add cd w (Clone (sst_View (its ! ?i))) (fst s) = (e1, w1, fs1)" by (metis prod_cases3)
    obtain b it s1 where n: "sst_Next cd (its ! ?i) (fs1, snd s) = (b, it, s1)" by (metis prod_cases3)
    let ?h = "if b then mergeHeap_push h' (merge_item (sst_View it) ?i) else h'"
    have "((mset (map sst_rank (its[?i := it])), length ?h), (mset (map sst_rank its), length h))
        \<in> mult rank_less <*lex*> less_than"
      using ranks_update [OF i(1) sst_Next_rank [OF n]] arg_cong [OF p(3), of size] by auto
    from less.hyps [OF this] have "merge_loop cd (its[?i := it]) ?h w1 s1 \<noteq> None"
      using i by (simp add: heap_in_push)
    then show ?thesis using False p(1) a n by (subst merge_loop.simps) (auto simp: Let_def split: option.splits)
  qed
qed

lemma Merge_ends: "Merge cd mm readers p wopts m cached s \<noteq> None"
proof -
  have "heap_in (length its) (mergeHeap_init [])" for its :: "sst_iter list"
    using mergeHeap.init_ok [of "[]"] mergeHeap.init_items [of "[]"] by (simp add: heap_in_def)
  then have "merge_loop cd its' h w s2 \<noteq> None" if "merge_heads cd 0 its (mergeHeap_init []) s1 = (Inr (its', h), s')"
    for its its' h w s1 s2 s'
    using merge_heads_heap [OF that, of "length its"] merge_loop_ends [of its' h cd w s2] by simp
  then have l: "merge_heads cd 0 its (mergeHeap_init []) s1 = (Inr (its', h), s') \<Longrightarrow> merge_loop cd its' h w s2 = None \<Longrightarrow> False"
    for its its' h w s1 s2 s' by blast
  show ?thesis
    by (auto simp: Merge_def Let_def split: sum.splits prod.splits option.splits bind_splits dest: l)
qed

subsection \<open>The engine\<close>

lemma maybeCompact_ends: "maybeCompact cd mm dt win e s \<noteq> None"
  using Merge_ends by (simp add: maybeCompact_def Let_def del: not_None_eq split: option.split sum.split prod.split)

lemma compact_windows_ends: "compact_windows cd mm dt wins e s \<noteq> None"
  using maybeCompact_ends by (induction wins arbitrary: e s) (simp_all del: not_None_eq split: option.split prod.split)

lemma runCompactor_ends: "runCompactor_turn cd mm now dt ev e s \<noteq> None"
  using maybeCompact_ends compact_windows_ends
  by (cases ev) (simp_all add: sweepCompaction_def Let_def del: not_None_eq split: list.splits)

lemma agg_file_ends: "agg_file cd t0 t1 bw src r buckets s \<noteq> None"
  using sst_collect_ends
  by (simp add: agg_file_def Let_def del: not_None_eq split: prod.split sum.split option.split)

lemma agg_files_ends: "agg_files cd t0 t1 bw src rs buckets s \<noteq> None"
  using agg_file_ends
  by (induction rs arbitrary: buckets s) (simp_all del: not_None_eq split: option.split sum.split prod.split)

lemma agg_memtable_ends: "agg_memtable t0 t1 bw src p buckets \<noteq> None"
  using mem_collect_ends by (simp add: agg_memtable_def del: not_None_eq split: sum.split option.split prod.split)

lemma agg_partitions_ends: "agg_partitions cd t0 t1 bw src e ps buckets s \<noteq> None"
  using agg_files_ends agg_memtable_ends
  by (induction ps arbitrary: buckets s) (simp_all del: not_None_eq split: option.split sum.split prod.split)

text \<open>
  C14: the engine does not hang. Whatever the state of the engine, the contents of its files, the cache
  and the failures of system calls, every turn of the compactor (a merge, a sweep over all windows, a
  retention sweep) and every aggregation returns.
\<close>

theorem engine_returns:
  "(\<exists>e' s'. runCompactor_turn cd mm now dt ev e s = Some (e', s')) \<and>
   (\<exists>res s'. engine_Aggregate cd e t0 t1 opts s = Some (res, s'))"
proof -
  have "engine_Aggregate cd e t0 t1 opts s \<noteq> None"
    using agg_partitions_ends by (simp add: engine_Aggregate_def Let_def del: not_None_eq split: sum.splits)
  then show ?thesis using runCompactor_ends [of cd mm now dt ev e s] by auto
qed

end
