(* ===== verification/Recovery.thy ===== *)
theory Recovery
  imports Returns
begin

text \<open>
  \<^verbatim>\<open>Open\<close> of a directory with contents: which records an engine has after a restart. The manifest names
  the files to load, orphans are removed, and the segments of the log bring back the records that no
  file of their window covers.
\<close>

subsection \<open>The directory\<close>

text \<open>
  The files that the manifest names: one at most per edit; a file that still exists is sound, is named
  once, and no edit has deleted it.
\<close>

definition files_disk :: "codecs \<Rightarrow> file_sys \<Rightarrow> int \<Rightarrow> VersionEdit list \<Rightarrow> (path \<Rightarrow> go_record list) \<Rightarrow> bool" where
  "files_disk cd fs dur es recs \<longleftrightarrow> (\<forall>ed \<in> set es. length (ve_AddedFiles ed) \<le> 1) \<and>
     distinct (map fe_Path (filter (on_disk fs) (added es))) \<and>
     (\<forall>fe \<in> set (added es). on_disk fs fe \<longrightarrow> stored cd fs dur fe (recs (fe_Path fe)) \<and> fe_Path fe \<notin> fe_Path ` set (deleted es))"

subsection \<open>Replay of the manifest\<close>

definition fresh_router :: "Router \<Rightarrow> bool" where
  "fresh_router rt \<longleftrightarrow> 0 < rt_windowDuration rt \<and> distinct (map fst (rt_partitions rt)) \<and>
     (\<forall>(w, p) \<in> set (rt_partitions rt). p = NewPartition w)"

lemma fresh_router_ok: "fresh_router rt \<Longrightarrow> rt_inv rt" "fresh_router rt \<Longrightarrow> mem_recs rt = {#}"
proof -
  assume f: "fresh_router rt"
  then show "rt_inv rt" by (fastforce simp: fresh_router_def rt_inv_def NewPartition_def)
  have "mt_records (tp_mem p) = []" if "p \<in> set (router_All rt)" for p
    using f that by (fastforce simp: fresh_router_def router_All_def NewPartition_def)
  then have "image_mset (\<lambda>p. mset (mt_records (tp_mem p))) (mset (router_All rt)) = image_mset (\<lambda>p. {#}) (mset (router_All rt))"
    by (intro image_mset_cong) simp
  then show "mem_recs rt = {#}" by (simp add: mem_recs_def)
qed

lemma fresh_AddPartition:
  assumes "fresh_router rt"
  shows "fresh_router (AddPartition rt (NewPartition win))"
    "map_of (rt_partitions (AddPartition rt (NewPartition win))) = (map_of (rt_partitions rt))(win \<mapsto> NewPartition win)"
proof -
  have "set (AList.update win (NewPartition win) xs) \<subseteq> insert (win, NewPartition win) (set xs)" for xs :: "(PartitionWindow \<times> TimePartition) list"
    by (induction xs) auto
  then show "fresh_router (AddPartition rt (NewPartition win))"
    using assms by (fastforce simp: fresh_router_def AddPartition_def NewPartition_def distinct_update)
  show "map_of (rt_partitions (AddPartition rt (NewPartition win))) = (map_of (rt_partitions rt))(win \<mapsto> NewPartition win)"
    by (simp add: AddPartition_def update_conv' NewPartition_def)
qed

text \<open>What the map of the highest flushed timestamps covers.\<close>

definition covered :: "FileEntry list \<Rightarrow> PartitionWindow \<Rightarrow> int \<Rightarrow> bool" where
  "covered A w t \<longleftrightarrow> (\<exists>fe \<in> set A. entry_window fe = w \<and> 0 < fe_MaxTimestamp fe \<and> t \<le> fe_MaxTimestamp fe)"

definition flushed_as :: "FileEntry list \<Rightarrow> (PartitionWindow \<times> int) list \<Rightarrow> bool" where
  "flushed_as A mx \<longleftrightarrow> (\<forall>w m. map_of mx w = Some m \<longrightarrow> 0 < m) \<and>
     (\<forall>w t. (\<exists>m. map_of mx w = Some m \<and> t \<le> m) \<longleftrightarrow> covered A w t)"

lemma flushed_raise:
  assumes "flushed_as A (e_maxFlushedTS e)"
  shows "flushed_as (A @ [fe]) (e_maxFlushedTS (raise_flushed (entry_window fe) (fe_MaxTimestamp fe) e))"
proof -
  let ?w = "entry_window fe" let ?t = "fe_MaxTimestamp fe"
  have a: "\<And>w m. map_of (e_maxFlushedTS e) w = Some m \<Longrightarrow> 0 < m"
    "\<And>w t. (\<exists>m. map_of (e_maxFlushedTS e) w = Some m \<and> t \<le> m) \<longleftrightarrow> covered A w t"
    using assms by (auto simp: flushed_as_def)
  have c: "covered (A @ [fe]) w t \<longleftrightarrow> covered A w t \<or> (w = ?w \<and> 0 < ?t \<and> t \<le> ?t)" for w t
    by (auto simp: covered_def)
  show ?thesis
  proof (cases "?t > maxFlushed e ?w")
    case True
    then have t: "0 < ?t" "\<And>m. map_of (e_maxFlushedTS e) ?w = Some m \<Longrightarrow> m < ?t"
      using a(1) [of ?w] by (auto simp: maxFlushed_def split: option.splits)
    then have "covered A ?w t \<Longrightarrow> t \<le> ?t" for t using a(2) [of ?w t] by fastforce
    then have "(\<exists>m. ((map_of (e_maxFlushedTS e))(?w \<mapsto> ?t)) w = Some m \<and> t \<le> m) \<longleftrightarrow> covered (A @ [fe]) w t" for w t
      using t(1) a(2) [of w t] by (auto simp: c)
    moreover have "((map_of (e_maxFlushedTS e))(?w \<mapsto> ?t)) w = Some m \<Longrightarrow> 0 < m" for w m
      using t(1) a(1) by (auto split: if_splits)
    ultimately show ?thesis using True by (simp add: flushed_as_def raise_flushed_def update_conv')
  next
    case False
    have "\<exists>m. map_of (e_maxFlushedTS e) ?w = Some m \<and> ?t \<le> m" if "0 < ?t"
      using False that by (auto simp: maxFlushed_def split: option.splits)
    then have "covered (A @ [fe]) w t \<longleftrightarrow> covered A w t" for w t using a(2) [of w t] by (fastforce simp: c)
    then show ?thesis using False a by (simp add: flushed_as_def raise_flushed_def)
  qed
qed

text \<open>The replay changes the files, the highest flushed timestamps and the partitions only.\<close>

definition replayed :: "Engine \<Rightarrow> Engine \<Rightarrow> bool" where
  "replayed e0 e \<longleftrightarrow> e_opts e = e_opts e0 \<and> e_dir e = e_dir e0 \<and> e_manifest e = e_manifest e0 \<and>
     e_cached e = e_cached e0 \<and> e_flushCh e = e_flushCh e0 \<and> e_compactCh e = e_compactCh e0 \<and>
     e_walSeq e = e_walSeq e0 \<and> e_compactSeq e = e_compactSeq e0 \<and> e_closed e = e_closed e0 \<and>
     e_strategy e = e_strategy e0 \<and> e_closedReaders e = e_closedReaders e0 \<and>
     rt_windowDuration (e_router e) = rt_windowDuration (e_router e0) \<and>
     rt_lateArrivalWindow (e_router e) = rt_lateArrivalWindow (e_router e0) \<and>
     rt_lateArrivalMode (e_router e) = rt_lateArrivalMode (e_router e0)"

lemma replayed_load:
  "replayed e0 e \<Longrightarrow> replayed e0 (raise_flushed w t (set_files w rs (e\<lparr>e_router := AddPartition (e_router e) q\<rparr>)))"
  by (simp add: replayed_def raise_flushed_def set_files_def AddPartition_def)

text \<open>The state of the replay after the entries \<open>A\<close>.\<close>

definition loaded :: "codecs \<Rightarrow> file_sys \<Rightarrow> (path \<Rightarrow> go_record list) \<Rightarrow> Engine \<Rightarrow> FileEntry list \<Rightarrow>
    (path \<rightharpoonup> sst_reader) \<Rightarrow> Engine \<Rightarrow> bool" where
  "loaded cd fs recs e0 A G e \<longleftrightarrow> data_ok cd G e fs \<and> fresh_router (e_router e) \<and>
     file_recs cd e fs = (\<Sum>fe \<in># mset A. mset (recs (fe_Path fe))) \<and> dom G = fe_Path ` set A \<and>
     (\<forall>p r. G p = Some r \<longrightarrow> fs_lookup fs p = Some (r_file r)) \<and>
     set (reader_paths (all_readers e)) = fe_Path ` set A \<and> flushed_as A (e_maxFlushedTS e) \<and>
     replayed e0 e"

lemma data_ok_AddPartition:
  assumes "data_ok cd G e fs" "fresh_router (e_router e)"
  shows "data_ok cd G (e\<lparr>e_router := AddPartition (e_router e) (NewPartition win)\<rparr>) fs"
  using assms fresh_router_ok [OF fresh_AddPartition(1) [OF assms(2)]] fresh_AddPartition(2) [OF assms(2), of win]
  unfolding data_ok_def all_readers_def by (auto simp: AddPartition_def)

lemma load_entry:
  assumes "loaded cd fs recs e0 A G e" "stored cd fs (o_PartitionDuration (e_opts e0)) fe (recs (fe_Path fe))"
    "fe_Path fe \<notin> fe_Path ` set A" "\<forall>i. \<not> fs_bad fs i"
  shows "\<exists>G' e'. apply_added mm [fe] e fs = (True, e', fs) \<and> loaded cd fs recs e0 (A @ [fe]) G' e'"
proof -
  let ?p = "fe_Path fe" let ?w = "entry_window fe" let ?dur = "o_PartitionDuration (e_opts e0)"
  from assms(2) obtain f wo bs where s: "fs_lookup fs ?p = Some f" "fs_data fs f = sst_layout cd ?p wo bs"
    "layout_ok cd ?p wo bs" "bs \<noteq> []" "recs ?p = concat bs" "fe = meta_entry (layout_meta cd ?p wo bs)"
    "\<forall>x \<in> set (recs ?p). in_window ?w (Timestamp x) \<and> ts_ok ?dur (Timestamp x)" unfolding stored_def by blast
  from NewReader_layout [OF s(3,1,2), of mm "e_cached e"] assms(4) obtain r where
    r: "NewReader mm ?p (e_cached e) fs = (Inr r, fs)" "layout_reader cd ?p wo bs r" "r_file r = f" "reads_as cd r fs bs" by blast
  have path: "sm_Path (r_meta r) = ?p" using r(2) by (simp add: layout_reader_def layout_meta_def Let_def)
  let ?e1 = "e\<lparr>e_router := AddPartition (e_router e) (NewPartition ?w)\<rparr>"
  let ?rs = "files_of e ?w @ [r]" let ?G = "G(?p \<mapsto> r)"
  let ?e' = "raise_flushed ?w (fe_MaxTimestamp fe) (set_files ?w ?rs ?e1)"
  have a: "apply_added mm [fe] e fs = (True, ?e', fs)"
    using r(1) by (auto simp: raise_flushed_def set_files_def files_of_def maxFlushed_def Let_def)
  have l: "data_ok cd G e fs" "fresh_router (e_router e)" "file_recs cd e fs = (\<Sum>fe \<in># mset A. mset (recs (fe_Path fe)))"
    "dom G = fe_Path ` set A" "set (reader_paths (all_readers e)) = fe_Path ` set A"
    "flushed_as A (e_maxFlushedTS e)" "replayed e0 e"
    using assms(1) unfolding loaded_def by auto
  have o: "e_opts e = e_opts e0" using l(7) by (simp add: replayed_def)
  have d1: "data_ok cd G ?e1 fs" by (rule data_ok_AddPartition [OF l(1,2)])
  have "G ?p = None" using l(4) assms(3) by (metis domIff)
  then have g: "G (sm_Path (r_meta r)) = None" by (simp add: path)
  have "map_of (rt_partitions (e_router ?e1)) ?w \<noteq> None" using fresh_AddPartition(2) [OF l(2), of ?w] by simp
  moreover have "fs_lookup fs (sm_Path (r_meta r)) = Some (r_file r)" using s(1) r(3) path by simp
  moreover have "\<forall>x \<in> set (concat bs). in_window ?w (Timestamp x) \<and> ts_ok (o_PartitionDuration (e_opts ?e1)) (Timestamp x)"
    using s(5,7) o by simp
  ultimately have i: "data_ok cd ?G (set_files ?w ?rs ?e1) fs"
    "file_recs cd (set_files ?w ?rs ?e1) fs = file_recs cd e fs + mset (recs ?p)"
    "set (reader_paths (all_readers (set_files ?w ?rs ?e1))) = insert ?p (fe_Path ` set A)"
    using data_ok_install [OF d1 _ g _ r(4) s(4), of ?w] l(5) s(5) path
    by (auto simp: files_of_def file_recs_def all_readers_def)
  have c: "e_files ?e' = e_files (set_files ?w ?rs ?e1)" "e_router ?e' = AddPartition (e_router e) (NewPartition ?w)"
    by (simp_all add: raise_flushed_def set_files_def)
  have "loaded cd fs recs e0 (A @ [fe]) ?G ?e'"
    unfolding loaded_def
  proof (intro conjI)
    show "data_ok cd ?G ?e' fs" using i(1) by (simp add: raise_flushed_def)
    show "fresh_router (e_router ?e')" using c(2) fresh_AddPartition(1) [OF l(2)] by simp
    show "file_recs cd ?e' fs = (\<Sum>fe \<in># mset (A @ [fe]). mset (recs (fe_Path fe)))"
      using i(2) l(3) c(1) by (simp add: file_recs_def all_readers_def)
    show "dom ?G = fe_Path ` set (A @ [fe])" using l(4) by simp
    show "\<forall>p r. ?G p = Some r \<longrightarrow> fs_lookup fs p = Some (r_file r)"
      using assms(1) s(1) r(3) by (auto simp: loaded_def)
    show "set (reader_paths (all_readers ?e')) = fe_Path ` set (A @ [fe])"
      using i(3) c(1) by (simp add: all_readers_def)
    show "flushed_as (A @ [fe]) (e_maxFlushedTS ?e')"
      using flushed_raise [of A "set_files ?w ?rs ?e1" fe] l(6) by (simp add: set_files_def)
    show "replayed e0 ?e'" by (rule replayed_load [OF l(7)])
  qed
  then show ?thesis using a by blast
qed

lemma apply_deleted_none:
  assumes "fe_Path ` set fes \<inter> set (reader_paths (all_readers e)) = {}" "distinct (map fst (e_files e))"
  shows "apply_deleted fes e fs = (e, fs)"
  using assms(1)
proof (induction fes)
  case (Cons fe fes)
  obtain X Y where "all_readers e = X @ files_of e (entry_window fe) @ Y" using all_readers_split [OF assms(2)] by metis
  then have "\<forall>r \<in> set (files_of e (entry_window fe)). sm_Path (reader_Meta r) \<noteq> fe_Path fe"
    using Cons.prems by (fastforce simp: reader_paths_def image_iff)
  then have "List.extract (\<lambda>r. sm_Path (reader_Meta r) = fe_Path fe) (files_of e (entry_window fe)) = None"
    by (simp add: extract_None_iff)
  then show ?case using Cons by (simp add: Let_def)
qed simp

lemma apply_edits_ok:
  assumes "loaded cd fs recs e0 A G e" "\<forall>i. \<not> fs_bad fs i" "\<forall>ed \<in> set es. length (ve_AddedFiles ed) \<le> 1"
    "distinct (map fe_Path (A @ filter (on_disk fs) (added es)))"
    "\<forall>fe \<in> set (added es). on_disk fs fe \<longrightarrow> stored cd fs (o_PartitionDuration (e_opts e0)) fe (recs (fe_Path fe))"
    "fe_Path ` set (deleted es) \<inter> fe_Path ` set (A @ filter (on_disk fs) (added es)) = {}"
  shows "\<exists>G' e'. fold (apply_edit mm) es (e, fs) = (e', fs) \<and> loaded cd fs recs e0 (A @ filter (on_disk fs) (added es)) G' e'"
  using assms
proof (induction es arbitrary: A G e)
  case (Cons ed es)
  let ?B = "A @ filter (on_disk fs) (ve_AddedFiles ed)"
  have rest: "added (ed # es) = ve_AddedFiles ed @ added es" "deleted (ed # es) = ve_DeletedFiles ed @ deleted es"
    by (simp_all add: added_def deleted_def)
  have "\<exists>G1 e1. apply_edit mm ed (e, fs) = (e1, fs) \<and> loaded cd fs recs e0 ?B G1 e1"
  proof -
    have del: "apply_deleted (ve_DeletedFiles ed) e1 fs = (e1, fs)" if "loaded cd fs recs e0 ?B G1 e1" for G1 e1
      by (rule apply_deleted_none) (use that Cons.prems(6) rest in \<open>auto simp: loaded_def data_ok_def\<close>)
    consider (none) "ve_AddedFiles ed = []" | (one) fe where "ve_AddedFiles ed = [fe]"
      using Cons.prems(3) by (cases "ve_AddedFiles ed") auto
    then show ?thesis
    proof cases
      case none
      then show ?thesis using Cons.prems(1) del [of G e] by (auto simp: apply_edit_def)
    next
      case (one fe)
      show ?thesis
      proof (cases "on_disk fs fe")
        case False
        then have "NewReader mm (fe_Path fe) (e_cached e) fs = (Inl ErrNotExist, fs)"
          by (simp add: NewReader_def os_open_def on_disk_def)
        then show ?thesis using one False Cons.prems(1) by (auto simp: apply_edit_def)
      next
        case True
        have "stored cd fs (o_PartitionDuration (e_opts e0)) fe (recs (fe_Path fe))" "fe_Path fe \<notin> fe_Path ` set A"
          using Cons.prems(4,5) one True rest by auto
        from load_entry [OF Cons.prems(1) this Cons.prems(2), of mm] one True obtain G1 e1 where
          l: "apply_added mm (ve_AddedFiles ed) e fs = (True, e1, fs)" "loaded cd fs recs e0 ?B G1 e1" by auto
        then show ?thesis using del [OF l(2)] by (auto simp: apply_edit_def)
      qed
    qed
  qed
  then obtain G1 e1 where "apply_edit mm ed (e, fs) = (e1, fs)" "loaded cd fs recs e0 ?B G1 e1" by blast
  moreover have eq: "?B @ filter (on_disk fs) (added es) = A @ filter (on_disk fs) (added (ed # es))" by (simp add: rest)
  moreover have "distinct (map fe_Path (?B @ filter (on_disk fs) (added es)))" using Cons.prems(4) unfolding eq .
  moreover have "fe_Path ` set (deleted es) \<inter> fe_Path ` set (?B @ filter (on_disk fs) (added es)) = {}"
    using Cons.prems(6) unfolding eq rest(2) by auto
  moreover have "\<forall>ed \<in> set es. length (ve_AddedFiles ed) \<le> 1" "\<forall>fe \<in> set (added es). on_disk fs fe \<longrightarrow>
      stored cd fs (o_PartitionDuration (e_opts e0)) fe (recs (fe_Path fe))" using Cons.prems(3,5) rest by auto
  ultimately show ?case using Cons.IH [of ?B G1 e1] Cons.prems(2) by (metis fold_simps(2))
qed (simp add: added_def, blast)

lemma replay_manifest:
  assumes "files_disk cd fs (o_PartitionDuration opts) es recs" "\<forall>i. \<not> fs_bad fs i" "0 < o_PartitionDuration opts"
  shows "\<exists>G e. fold (apply_edit mm) es (engine_init dir opts m, fs) = (e, fs) \<and>
    loaded cd fs recs (engine_init dir opts m) (filter (on_disk fs) (added es)) G e"
proof -
  have "fresh_router (NewRouter (o_PartitionDuration opts) (o_LateArrivalWindow opts) (o_LateArrivalMode opts))"
    using assms(3) by (simp add: fresh_router_def NewRouter_def)
  then have "loaded cd fs recs (engine_init dir opts m) [] Map.empty (engine_init dir opts m)"
    using fresh_router_ok [of "NewRouter (o_PartitionDuration opts) (o_LateArrivalWindow opts) (o_LateArrivalMode opts)"]
    by (simp add: loaded_def data_ok_def all_readers_def reader_paths_def file_recs_def flushed_as_def covered_def
        replayed_def NewRouter_def)
  moreover have "fe_Path ` set (deleted es) \<inter> fe_Path ` set ([] @ filter (on_disk fs) (added es)) = {}"
  proof -
    have "fe_Path fe \<notin> fe_Path ` set (deleted es)" if "fe \<in> set ([] @ filter (on_disk fs) (added es))" for fe
      using assms(1) that by (simp add: files_disk_def)
    then show ?thesis unfolding disjoint_iff by (metis imageE)
  qed
  moreover have "distinct (map fe_Path ([] @ filter (on_disk fs) (added es)))"
    "\<forall>ed \<in> set es. length (ve_AddedFiles ed) \<le> 1" using assms(1) by (simp_all add: files_disk_def)
  moreover have "\<forall>fe \<in> set (added es). on_disk fs fe \<longrightarrow>
      stored cd fs (o_PartitionDuration (e_opts (engine_init dir opts m))) fe (recs (fe_Path fe))"
    using assms(1) by (simp add: files_disk_def)
  ultimately show ?thesis using apply_edits_ok [OF _ assms(2), of cd recs _ "[]"] by (metis append_Nil)
qed

subsection \<open>Orphans\<close>

text \<open>Names are removed, nothing else changes.\<close>

definition unlinked :: "path set \<Rightarrow> file_sys \<Rightarrow> file_sys \<Rightarrow> bool" where
  "unlinked D fs fs' \<longleftrightarrow> (\<forall>p. fs_lookup fs' p = (if p \<in> D then None else fs_lookup fs p)) \<and> fs_data fs' = fs_data fs \<and>
     fs_bad fs' = fs_bad fs \<and> fs_next fs' = fs_next fs \<and> fs_faults fs' = fs_faults fs \<and>
     (\<forall>i. fs_synced fs i = length (fs_data fs i) \<longrightarrow> fs_synced fs' i = length (fs_data fs' i))"

lemma unlinked_trans: "unlinked D fs fs1 \<Longrightarrow> unlinked D' fs1 fs2 \<Longrightarrow> unlinked (D \<union> D') fs fs2"
  by (auto simp: unlinked_def)

lemma unlinked_refl: "unlinked {} fs fs"
  by (simp add: unlinked_def)

lemma os_remove_unlinked: "fs_faults fs = [] \<Longrightarrow> unlinked {p} fs (snd (os_remove p fs))"
proof -
  have "map_of (filter (\<lambda>(q, _). q \<noteq> p) xs) k = (if k = p then None else map_of xs k)" for xs :: "(path \<times> inode) list" and k
    by (induction xs) auto
  then show "fs_faults fs = [] \<Longrightarrow> unlinked {p} fs (snd (os_remove p fs))"
    by (auto simp: os_remove_def unlinked_def fs_lookup_def)
qed

lemma remove_orphans_ok:
  fixes e :: Engine
  defines "L \<equiv> set (reader_paths (all_readers e))"
  assumes "fs_faults fs = []"
  shows "\<exists>D. unlinked D fs (remove_orphans e fs) \<and> D \<inter> L = {} \<and> (\<forall>p \<in> D. glob_match (e_dir e) '''' ''.sst'' p)"
proof -
  have fold: "unlinked {p \<in> set ps. p \<notin> L} fs (fold (\<lambda>p fs. if p \<in> L then fs else snd (os_remove p fs)) ps fs)"
    if "fs_faults fs = []" for ps fs
    using that
  proof (induction ps arbitrary: fs)
    case (Cons p ps)
    let ?fs = "if p \<in> L then fs else snd (os_remove p fs)"
    have u: "unlinked (if p \<in> L then {} else {p}) fs ?fs" using Cons.prems by (simp add: unlinked_refl os_remove_unlinked)
    then have "fs_faults ?fs = []" using Cons.prems by (simp add: unlinked_def)
    from unlinked_trans [OF u Cons.IH [OF this]]
    have "unlinked ((if p \<in> L then {} else {p}) \<union> {p \<in> set ps. p \<notin> L}) fs
      (fold (\<lambda>p fs. if p \<in> L then fs else snd (os_remove p fs)) (p # ps) fs)" by simp
    moreover have "(if p \<in> L then {} else {p}) \<union> {p \<in> set ps. p \<notin> L} = {q \<in> set (p # ps). q \<notin> L}" by auto
    ultimately show ?case by metis
  qed (simp add: unlinked_refl)
  have "set (concat (map (\<lambda>(w, rs). reader_paths rs) (e_files e))) = L"
    by (force simp: L_def all_readers_def reader_paths_def split_beta)
  then show ?thesis using fold [OF assms(2), of "file_Glob (e_dir e) '''' ''.sst'' fs"]
    by (intro exI [of _ "{p \<in> set (file_Glob (e_dir e) '''' ''.sst'' fs). p \<notin> L}"])
      (auto simp: remove_orphans_def Let_def file_Glob_def)
qed

subsection \<open>Replay of the log\<close>

definition all_open :: "Router \<Rightarrow> bool" where
  "all_open rt \<longleftrightarrow> (\<forall>(w, p) \<in> set (rt_partitions rt). tp_state p = StateOpen)"

lemma set_update_subset: "set (AList.update k v xs) \<subseteq> insert (k, v) (set xs)"
  by (induction xs) auto

lemma all_open_update:
  "all_open rt \<Longrightarrow> tp_state p = StateOpen \<Longrightarrow> all_open (rt\<lparr>rt_partitions := AList.update w p (rt_partitions rt)\<rparr>)"
  using set_update_subset [of w p "rt_partitions rt"] by (fastforce simp: all_open_def)

lemma Route_open:
  assumes "Route rt now ts = (res, rt')" "all_open rt"
  shows "all_open rt'" "rt_lateArrivalWindow rt' = rt_lateArrivalWindow rt" "rt_lateArrivalMode rt' = rt_lateArrivalMode rt"
  using assms all_open_update [OF assms(2), of "NewPartition w" w for w]
  by (auto simp: Route_def Let_def NewPartition_def split: if_splits sum.splits)

lemma data_ok_router:
  assumes "data_ok cd G e fs" "rt_inv rt" "rt_windowDuration rt = rt_windowDuration (e_router e)"
    "\<forall>x \<in># mem_recs rt. ts_ok (o_PartitionDuration (e_opts e)) (Timestamp x)"
    "\<And>w. map_of (rt_partitions (e_router e)) w \<noteq> None \<Longrightarrow> map_of (rt_partitions rt) w \<noteq> None"
  shows "data_ok cd G (e\<lparr>e_router := rt\<rparr>) fs"
  using assms unfolding data_ok_def all_readers_def by fastforce

text \<open>A record of the log that comes back: no file covers it, and it does not arrive late in strict mode.\<close>

definition kept :: "int \<Rightarrow> Options \<Rightarrow> FileEntry list \<Rightarrow> go_record \<Rightarrow> bool" where
  "kept now opts A r \<longleftrightarrow> \<not> covered A (win_of (o_PartitionDuration opts) (Timestamp r)) (Timestamp r) \<and>
     \<not> (o_LateArrivalMode opts = Strict \<and> Timestamp r < i64 (now - o_LateArrivalWindow opts))"

text \<open>The state of the engine while the log is replayed.\<close>

definition replaying :: "codecs \<Rightarrow> (path \<rightharpoonup> sst_reader) \<Rightarrow> file_sys \<Rightarrow> FileEntry list \<Rightarrow> Engine \<Rightarrow> bool" where
  "replaying cd G fs A e \<longleftrightarrow> data_ok cd G e fs \<and> all_open (e_router e) \<and> flushed_as A (e_maxFlushedTS e) \<and>
     rt_lateArrivalWindow (e_router e) = o_LateArrivalWindow (e_opts e) \<and>
     rt_lateArrivalMode (e_router e) = o_LateArrivalMode (e_opts e)"

lemma replay_record_ok:
  assumes "replaying cd G fs A e" "ts_ok (o_PartitionDuration (e_opts e)) (Timestamp r)"
  shows "\<exists>rt. replay_record now e r = Inr (\<not> covered A (win_of (o_PartitionDuration (e_opts e)) (Timestamp r)) (Timestamp r), e\<lparr>e_router := rt\<rparr>) \<and>
    replaying cd G fs A (e\<lparr>e_router := rt\<rparr>) \<and>
    mem_recs rt = mem_recs (e_router e) + (if kept now (e_opts e) A r then {#r#} else {#})"
proof -
  let ?dur = "o_PartitionDuration (e_opts e)" let ?w = "win_of ?dur (Timestamp r)" let ?rt = "e_router e"
  have i: "data_ok cd G e fs" "all_open ?rt" "flushed_as A (e_maxFlushedTS e)"
    "rt_lateArrivalWindow ?rt = o_LateArrivalWindow (e_opts e)" "rt_lateArrivalMode ?rt = o_LateArrivalMode (e_opts e)"
    using assms(1) by (auto simp: replaying_def)
  then have d: "rt_inv ?rt" "rt_windowDuration ?rt = ?dur" "\<forall>x \<in># mem_recs ?rt. ts_ok ?dur (Timestamp x)"
    by (auto simp: data_ok_def)
  have win: "WindowFor ?rt (Timestamp r) = Inr ?w" using windowFor_win_of [of ?rt] d(2) assms(2) by (simp add: WindowFor_def)
  have cov: "(case map_of (e_maxFlushedTS e) ?w of None \<Rightarrow> False | Some maxTS \<Rightarrow> Timestamp r \<le> maxTS) \<longleftrightarrow> covered A ?w (Timestamp r)"
  proof -
    have "covered A ?w (Timestamp r) \<longleftrightarrow> (\<exists>m. map_of (e_maxFlushedTS e) ?w = Some m \<and> Timestamp r \<le> m)"
      using i(3) by (simp add: flushed_as_def)
    then show ?thesis by (simp split: option.split)
  qed
  have self: "e\<lparr>e_router := ?rt\<rparr> = e" by simp
  show ?thesis
  proof (cases "covered A ?w (Timestamp r)")
    case True
    then show ?thesis using win cov assms(1) self
      by (intro exI [of _ ?rt]) (simp add: replay_record_def kept_def)
  next
    case False
    obtain res rt1 where ro: "Route ?rt now (Timestamp r) = (res, rt1)" by (metis surj_pair)
    note rk = Route_ok [OF d(1), of "Timestamp r" now, unfolded d(2), OF assms(2)] and op = Route_open [OF ro i(2)]
    show ?thesis
    proof (cases res)
      case (Inl err)
      then have "rt1 = ?rt" "\<not> kept now (e_opts e) A r" using rk ro i(4,5) by (auto simp: kept_def)
      then show ?thesis using win cov False ro Inl assms(1) self
        by (intro exI [of _ ?rt]) (simp add: replay_record_def)
    next
      case (Inr w)
      then obtain p where p: "w = ?w" "in_window w (Timestamp r)" "rt_inv rt1" "mem_recs rt1 = mem_recs ?rt"
        "map_of (rt_partitions rt1) w = Some p" "rt_windowDuration rt1 = ?dur" "kept now (e_opts e) A r"
        "\<And>v q. map_of (rt_partitions ?rt) v = Some q \<Longrightarrow> map_of (rt_partitions rt1) v = Some q"
        using rk ro i(4,5) False by (auto simp: kept_def)
      have o: "tp_state p = StateOpen" using op(1) p(5) by (auto simp: all_open_def dest!: map_of_SomeD)
      let ?q = "p\<lparr>tp_mem := memtable_Append (tp_mem p) r\<rparr>" let ?rt2 = "set_partition rt1 w ?q"
      note l = rt_inv_lookup [OF p(3,5)]
      note mr = memtable_Append_recs [of "tp_mem p" r]
      have "set (mt_records (tp_mem ?q)) = insert r (set (mt_records (tp_mem p)))"
        using mr(2) l by (metis Multiset.set_mset_add_mset_insert set_mset_mset TimePartition.select_convs(3)
            TimePartition.update_convs(3) TimePartition.surjective)
      then have sp: "rt_inv ?rt2" "mem_recs ?rt2 + mset (mt_records (tp_mem p)) = mem_recs rt1 + mset (mt_records (tp_mem ?q))"
        "map_of (rt_partitions ?rt2) = (map_of (rt_partitions rt1))(w \<mapsto> ?q)"
        using set_partition_ok [OF p(3,5), of ?q] l mr(1) p(2) by auto
      then have mem: "mem_recs ?rt2 = add_mset r (mem_recs ?rt)" using mr(2) l p(4) by simp
      have "data_ok cd G (e\<lparr>e_router := ?rt2\<rparr>) fs"
        using sp(1,3) mem d(2,3) p(6,8) assms(2)
        by (intro data_ok_router [OF i(1)]) (auto simp: set_partition_def)
      moreover have "all_open ?rt2" using all_open_update [OF op(1), of ?q w] o by (simp add: set_partition_def)
      ultimately have "replaying cd G fs A (e\<lparr>e_router := ?rt2\<rparr>)"
        using i(3-5) op(2,3) by (simp add: replaying_def set_partition_def)
      moreover have "replay_record now e r = Inr (True, e\<lparr>e_router := ?rt2\<rparr>)"
        using win cov False ro Inr p(5) o by (simp add: replay_record_def partition_Append_def)
      ultimately show ?thesis using False mem p(7) by (intro exI [of _ ?rt2]) simp
    qed
  qed
qed

lemma replay_records_ok:
  assumes "replaying cd G fs A e" "\<forall>r \<in> set rs. ts_ok (o_PartitionDuration (e_opts e)) (Timestamp r)"
  shows "\<exists>new rt. replay_records now e rs = Inr (new, e\<lparr>e_router := rt\<rparr>) \<and> replaying cd G fs A (e\<lparr>e_router := rt\<rparr>) \<and>
    mem_recs rt = mem_recs (e_router e) + filter_mset (kept now (e_opts e) A) (mset rs) \<and>
    (new \<longleftrightarrow> (\<exists>r \<in> set rs. \<not> covered A (win_of (o_PartitionDuration (e_opts e)) (Timestamp r)) (Timestamp r)))"
  using assms
proof (induction rs arbitrary: e)
  case Nil
  then show ?case by (intro exI [of _ False] exI [of _ "e_router e"]) simp
next
  case (Cons r rs)
  from replay_record_ok [OF Cons.prems(1), of r now] Cons.prems(2) obtain rt where
    r: "replay_record now e r = Inr (\<not> covered A (win_of (o_PartitionDuration (e_opts e)) (Timestamp r)) (Timestamp r), e\<lparr>e_router := rt\<rparr>)"
    "replaying cd G fs A (e\<lparr>e_router := rt\<rparr>)"
    "mem_recs rt = mem_recs (e_router e) + (if kept now (e_opts e) A r then {#r#} else {#})" by auto
  from Cons.IH [OF r(2)] Cons.prems(2) obtain new rt' where
    "replay_records now (e\<lparr>e_router := rt\<rparr>) rs = Inr (new, e\<lparr>e_router := rt'\<rparr>)" "replaying cd G fs A (e\<lparr>e_router := rt'\<rparr>)"
    "mem_recs rt' = mem_recs rt + filter_mset (kept now (e_opts e) A) (mset rs)"
    "new \<longleftrightarrow> (\<exists>r \<in> set rs. \<not> covered A (win_of (o_PartitionDuration (e_opts e)) (Timestamp r)) (Timestamp r))" by auto
  then show ?case using r(1,3) by (intro exI [of _ "\<not> covered A (win_of (o_PartitionDuration (e_opts e)) (Timestamp r)) (Timestamp r) \<or> new"] exI [of _ rt']) auto
qed

text \<open>A segment of the log that holds the records \<open>rs\<close>, and what reading it through does to the store.\<close>

definition segment :: "file_sys \<Rightarrow> path \<Rightarrow> go_record list \<Rightarrow> bool" where
  "segment fs p rs \<longleftrightarrow> (\<exists>f. fs_lookup fs p = Some f \<and> fs_data fs f = wal_bytes rs \<and> list_all wal_good rs)"

lemma read_segment:
  assumes "fs_faults fs = []" "\<forall>i. \<not> fs_bad fs i" "segment fs p rs"
  shows "\<exists>w w' fs'. wal_Open p mode fs = (Inr w, fs) \<and> wal_Replay w fs = (rs, None, w', fs) \<and>
    snd (snd (wal_Close w' fs)) = fs' \<and> unlinked {} fs fs'"
proof -
  from assms(3) obtain f where f: "fs_lookup fs p = Some f" "fs_data fs f = wal_bytes rs" "list_all wal_good rs"
    by (auto simp: segment_def)
  have "wal_replay_loop (fs_data fs f) = (rs, None)" using wal.loop_log [OF f(3)] f(2) by simp
  then show ?thesis using assms(1,2) f(1)
    by (simp add: wal_Open_def os_open_create_def wal_Replay_def bufio_Flush_def bufio_New_def os_open_def Let_def
        wal_Close_def file_sync_def unlinked_def fs_lookup_def)
qed

lemma data_ok_unlinked:
  assumes "data_ok cd G e fs" "unlinked D fs fs'" "D \<inter> set (reader_paths (all_readers e)) = {}"
  shows "data_ok cd G e fs'" "file_recs cd e fs' = file_recs cd e fs"
proof -
  have "same_file (r_file r) fs fs' \<and> fs_lookup fs' (sm_Path (r_meta r)) = fs_lookup fs (sm_Path (r_meta r))"
    if "r \<in> set (all_readers e)" for r
    using assms(2,3) that by (auto simp: unlinked_def same_file_def reader_paths_def)
  then show "data_ok cd G e fs'" "file_recs cd e fs' = file_recs cd e fs" using data_ok_same [OF assms(1)] by blast+
qed

lemma segment_unlinked: "segment fs p rs \<Longrightarrow> unlinked D fs fs' \<Longrightarrow> p \<notin> D \<Longrightarrow> segment fs' p rs"
  by (auto simp: segment_def unlinked_def)

lemma replay_segments_ok:
  assumes "fs_faults fs = []" "\<forall>i. \<not> fs_bad fs i" "\<forall>p \<in> set ps. segment fs p (seg p)" "replaying cd G fs A e"
    "\<forall>p \<in> set ps. \<forall>r \<in> set (seg p). ts_ok (o_PartitionDuration (e_opts e)) (Timestamp r)" "distinct ps"
    "set ps \<inter> set (reader_paths (all_readers e)) = {}"
  shows "\<exists>rt fs' D. replay_segments now ps e fs = (Inr (e\<lparr>e_router := rt\<rparr>), fs') \<and> unlinked D fs fs' \<and> D \<subseteq> set ps \<and>
    replaying cd G fs' A (e\<lparr>e_router := rt\<rparr>) \<and>
    mem_recs rt = mem_recs (e_router e) + filter_mset (kept now (e_opts e) A) (mset (concat (map seg ps)))"
  using assms
proof (induction ps arbitrary: e fs)
  case Nil
  then show ?case by (intro exI [of _ "e_router e"] exI [of _ fs] exI [of _ "{}"]) (simp add: unlinked_refl)
next
  case (Cons p ps)
  from read_segment [OF Cons.prems(1,2), of p "seg p" "o_WALSyncMode (e_opts e)"] Cons.prems(3) obtain w w' fs1 where
    s: "wal_Open p (o_WALSyncMode (e_opts e)) fs = (Inr w, fs)" "wal_Replay w fs = (seg p, None, w', fs)"
    "snd (snd (wal_Close w' fs)) = fs1" "unlinked {} fs fs1" by auto
  from replay_records_ok [OF Cons.prems(4), of "seg p" now] Cons.prems(5) obtain new rt where
    r: "replay_records now e (seg p) = Inr (new, e\<lparr>e_router := rt\<rparr>)" "replaying cd G fs A (e\<lparr>e_router := rt\<rparr>)"
    "mem_recs rt = mem_recs (e_router e) + filter_mset (kept now (e_opts e) A) (mset (seg p))" by auto
  let ?fs2 = "if new then fs1 else snd (os_remove p fs1)" let ?D = "if new then {} else {p}"
  have "fs_faults fs1 = []" using s(4) Cons.prems(1) by (simp add: unlinked_def)
  then have u: "unlinked ?D fs ?fs2" using unlinked_trans [OF s(4) os_remove_unlinked] s(4) by auto
  have ar: "all_readers (e\<lparr>e_router := rt\<rparr>) = all_readers e" by (simp add: all_readers_def)
  have "data_ok cd G (e\<lparr>e_router := rt\<rparr>) ?fs2"
    using r(2) Cons.prems(7) ar by (intro data_ok_unlinked(1) [OF _ u]) (auto simp: replaying_def)
  then have rp: "replaying cd G ?fs2 A (e\<lparr>e_router := rt\<rparr>)" using r(2) by (simp add: replaying_def)
  have "fs_faults ?fs2 = []" "\<forall>i. \<not> fs_bad ?fs2 i" using u Cons.prems(1,2) by (auto simp: unlinked_def)
  moreover have "\<forall>q \<in> set ps. segment ?fs2 q (seg q)"
  proof
    fix q assume q: "q \<in> set ps"
    then show "segment ?fs2 q (seg q)" using Cons.prems(3,6) by (intro segment_unlinked [OF _ u]) auto
  qed
  ultimately obtain rt' fs' D where
    i: "replay_segments now ps (e\<lparr>e_router := rt\<rparr>) ?fs2 = (Inr (e\<lparr>e_router := rt'\<rparr>), fs')" "unlinked D ?fs2 fs'" "D \<subseteq> set ps"
    "replaying cd G fs' A (e\<lparr>e_router := rt'\<rparr>)"
    "mem_recs rt' = mem_recs rt + filter_mset (kept now (e_opts e) A) (mset (concat (map seg ps)))"
    using Cons.IH [OF _ _ _ rp] Cons.prems(5-7) ar by auto
  have "replay_segments now (p # ps) e fs = (Inr (e\<lparr>e_router := rt'\<rparr>), fs')"
    using s(1-3) r(1) i(1) by (cases new) (simp_all add: Let_def)
  moreover have "unlinked (?D \<union> D) fs fs'" by (rule unlinked_trans [OF u i(2)])
  moreover have "?D \<union> D \<subseteq> set (p # ps)" using i(3) by auto
  ultimately show ?case using i(4,5) r(3)
    by (intro exI [of _ rt'] exI [of _ fs'] exI [of _ "?D \<union> D"]) (simp add: add.assoc)
qed

subsection \<open>\<^verbatim>\<open>Open\<close>\<close>

abbreviation wal_paths :: "path \<Rightarrow> file_sys \<Rightarrow> path list" where
  "wal_paths dir fs \<equiv> file_Glob dir ''wal-'' ''.wal'' fs"

text \<open>
  A directory that an engine has left behind, with the edits \<open>es\<close> in the manifest, the records \<open>recs\<close> in
  the files and the records \<open>seg\<close> in the segments of the log.
\<close>

definition disk_ok :: "codecs \<Rightarrow> path \<Rightarrow> Options \<Rightarrow> file_sys \<Rightarrow> VersionEdit list \<Rightarrow> (path \<Rightarrow> go_record list) \<Rightarrow>
    (path \<Rightarrow> go_record list) \<Rightarrow> bool" where
  "disk_ok cd dir opts fs es recs seg \<longleftrightarrow> fs_faults fs = [] \<and> (\<forall>i. \<not> fs_bad fs i) \<and>
     (\<forall>p i. fs_lookup fs p = Some i \<longrightarrow> i < fs_next fs \<and> (\<forall>q. fs_lookup fs q = Some i \<longrightarrow> q = p)) \<and>
     (\<exists>f. manifest_file fs (path_join dir ''MANIFEST'') f es) \<and> files_disk cd fs (o_PartitionDuration opts) es recs \<and>
     (\<forall>fe \<in> set (added es). on_disk fs fe \<longrightarrow> suffix ''.sst'' (fe_Path fe)) \<and>
     (\<forall>p \<in> set (wal_paths dir fs). segment fs p (seg p) \<and>
        (\<forall>r \<in> set (seg p). ts_ok (o_PartitionDuration opts) (Timestamp r))) \<and>
     (\<forall>e w sq. e_dir e = dir \<and> highest_walSeq (wal_paths dir fs) 0 < sq \<longrightarrow>
        fs_lookup fs (flushPath e w sq) = None \<and> fs_lookup fs (walPath e sq) = None)"

lemma suffix_last: "suffix ''.sst'' p \<Longrightarrow> last p = CHR ''t''" "suffix ''.wal'' p \<Longrightarrow> last p = CHR ''l''"
  by (auto simp: suffix_def)

lemma highest_walSeq_le: "n \<le> highest_walSeq ps n"
proof (induction ps arbitrary: n)
  case (Cons p ps)
  let ?n = "case scan_walSeq (file_Base p) of Some sq \<Rightarrow> if sq > n then sq else n | None \<Rightarrow> n"
  have "n \<le> ?n" by (auto split: option.splits)
  then show ?case using Cons [of ?n] by (simp add: highest_walSeq_def)
qed (simp add: highest_walSeq_def)

lemma manifest_replay_unlinked:
  assumes "fs_faults fs = []" "manifest_file fs p f es"
  shows "\<exists>m m' fs1. manifest_Open p fs = (Inr m, fs) \<and> manifest_Replay m fs = (es, None, m', fs1) \<and>
    manifest_log m' fs1 es \<and> mf_path m' = p \<and> mf_f m' = f \<and> unlinked {} fs fs1 \<and> fs_names fs1 = fs_names fs"
proof -
  let ?m = "\<lparr>mf_f = f, mf_path = p, mf_bw = bufio_New f (64 * 1024), mf_seq = 0\<rparr>"
  have o: "manifest_Open p fs = (Inr ?m, fs)" using assms by (intro manifest_Open_existing) (auto simp: manifest_file_def)
  from manifest_Replay_whole [OF assms(1,2) refl] obtain m' fs1 where
    r: "manifest_Replay ?m fs = (es, None, m', fs1)" "manifest_log m' fs1 es" "fs_faults fs1 = []" "own_file f fs fs1"
    "mf_path m' = p" "mf_f m' = f" by blast
  then have "fs_data fs1 f = fs_data fs f" "fs_synced fs1 f = length (fs_data fs1 f)"
    using assms(2) by (simp_all add: manifest_log_def manifest_file_def)
  then have "fs_data fs1 i = fs_data fs i" "fs_synced fs i = length (fs_data fs i) \<longrightarrow> fs_synced fs1 i = length (fs_data fs1 i)" for i
    using r(4) by (cases "i = f"; auto simp: own_file_def)+
  then have "unlinked {} fs fs1" using r(3,4) assms(1) by (auto simp: unlinked_def own_file_def fs_lookup_def)
  then show ?thesis using o r by (auto simp: own_file_def)
qed

lemma files_disk_unlinked:
  assumes "unlinked D fs fs'" "\<forall>fe \<in> set (added es). fe_Path fe \<notin> D" "files_disk cd fs dur es recs"
  shows "files_disk cd fs' dur es recs" "filter (on_disk fs') (added es) = filter (on_disk fs) (added es)"
proof -
  have d: "on_disk fs' fe = on_disk fs fe" if "fe \<in> set (added es)" for fe
    using assms(1,2) that by (auto simp: on_disk_def unlinked_def)
  then show e: "filter (on_disk fs') (added es) = filter (on_disk fs) (added es)" by (intro filter_cong) auto
  have "stored cd fs' dur fe rs" if "stored cd fs dur fe rs" "fe \<in> set (added es)" for fe rs
    using that assms(1,2) unfolding stored_def unlinked_def by metis
  then show "files_disk cd fs' dur es recs" using assms(3) d e unfolding files_disk_def by metis
qed

lemma wal_paths_set: "p \<in> set (wal_paths dir fs) \<longleftrightarrow> fs_lookup fs p \<noteq> None \<and> glob_match dir ''wal-'' ''.wal'' p"
proof -
  have "p \<in> fst ` set (fs_names fs) \<longleftrightarrow> fs_lookup fs p \<noteq> None" by (metis fs_lookup_def map_of_eq_None_iff)
  then show ?thesis by (auto simp: file_Glob_def)
qed

lemma segment_paths:
  shows "distinct (wal_paths dir fs)" "p \<in> set (wal_paths dir fs) \<Longrightarrow> last p = CHR ''l''"
  using suffix_last(2) by (auto simp: file_Glob_def glob_match_def Let_def)

lemma wal_paths_cong:
  assumes "\<And>p. last p = CHR ''l'' \<Longrightarrow> fs_lookup fs' p = None \<longleftrightarrow> fs_lookup fs p = None"
  shows "wal_paths dir fs' = wal_paths dir fs"
proof -
  have "last p = CHR ''l''" if "glob_match dir ''wal-'' ''.wal'' p" for p
    using that suffix_last(2) by (auto simp: glob_match_def Let_def)
  then have "p \<in> set (wal_paths dir fs') \<longleftrightarrow> p \<in> set (wal_paths dir fs)" for p
    using assms [of p] unfolding wal_paths_set by metis
  then have "set (wal_paths dir fs') = set (wal_paths dir fs)" by (rule set_eqI)
  moreover have "sorted (wal_paths dir fs0)" for fs0 by (simp add: file_Glob_def)
  ultimately show ?thesis using segment_paths(1) sorted_distinct_set_unique by blast
qed

lemma wal_paths_unlinked:
  assumes "unlinked D fs fs'" "\<forall>p \<in> D. last p = CHR ''t''"
  shows "wal_paths dir fs' = wal_paths dir fs"
  using assms by (intro wal_paths_cong) (auto simp: unlinked_def)

text \<open>From the replayed manifest to the replayed log.\<close>

lemma replay_tail:
  fixes e1 :: Engine and dir :: path
  assumes "loaded cd fs recs (engine_init dir opts m) A G e1" "fs_faults fs = []" "\<forall>i. \<not> fs_bad fs i"
    "\<forall>fe \<in> set A. suffix ''.sst'' (fe_Path fe)"
    "\<forall>p \<in> set (wal_paths dir fs). segment fs p (seg p) \<and> (\<forall>r \<in> set (seg p). ts_ok (o_PartitionDuration opts) (Timestamp r))"
  defines "fs1 \<equiv> remove_orphans e1 fs" and "n \<equiv> highest_walSeq (wal_paths dir fs) 0"
  shows "\<exists>rt fs2 D. wal_paths dir fs1 = wal_paths dir fs \<and>
    replay_segments now (wal_paths dir fs) (e1\<lparr>e_walSeq := n\<rparr>) fs1 = (Inr (e1\<lparr>e_walSeq := n, e_router := rt\<rparr>), fs2) \<and>
    unlinked D fs fs2 \<and> (\<forall>p \<in> D. last p = CHR ''t'' \<or> last p = CHR ''l'') \<and> D \<inter> fe_Path ` set A = {} \<and>
    data_ok cd G (e1\<lparr>e_router := rt\<rparr>) fs2 \<and> file_recs cd e1 fs2 = file_recs cd e1 fs \<and>
    mem_recs rt = filter_mset (kept now opts A) (mset (concat (map seg (wal_paths dir fs))))"
proof -
  let ?ps = "wal_paths dir fs" let ?e = "e1\<lparr>e_walSeq := n\<rparr>"
  have l: "data_ok cd G e1 fs" "fresh_router (e_router e1)" "set (reader_paths (all_readers e1)) = fe_Path ` set A"
    "flushed_as A (e_maxFlushedTS e1)" "replayed (engine_init dir opts m) e1" using assms(1) by (auto simp: loaded_def)
  then have f: "e_opts e1 = opts" "e_dir e1 = dir" "rt_lateArrivalWindow (e_router e1) = o_LateArrivalWindow opts"
    "rt_lateArrivalMode (e_router e1) = o_LateArrivalMode opts" by (simp_all add: replayed_def NewRouter_def)
  from remove_orphans_ok [OF assms(2), of e1] obtain D where
    D: "unlinked D fs fs1" "D \<inter> fe_Path ` set A = {}" "\<forall>p \<in> D. glob_match dir '''' ''.sst'' p"
    using l(3) f(2) by (auto simp: fs1_def)
  then have t: "\<forall>p \<in> D. last p = CHR ''t''" using suffix_last(1) by (auto simp: glob_match_def Let_def)
  have ps: "wal_paths dir fs1 = ?ps" by (rule wal_paths_unlinked [OF D(1) t])
  note sp = segment_paths [where dir = dir and fs = fs]
  note du = data_ok_unlinked [OF l(1) D(1)]
  have lp: "set (reader_paths (all_readers ?e)) = fe_Path ` set A" using l(3) by (simp add: all_readers_def)
  have "all_open (e_router e1)" using l(2) by (fastforce simp: all_open_def fresh_router_def NewPartition_def)
  then have rp: "replaying cd G fs1 A ?e" using du D(2) l(3,4) f by (simp add: replaying_def)
  have "\<forall>p \<in> set ?ps. segment fs1 p (seg p)"
  proof
    fix p assume p: "p \<in> set ?ps"
    then have "p \<notin> D" using t sp(2) [OF p] by auto
    then show "segment fs1 p (seg p)" using assms(5) p segment_unlinked [OF _ D(1)] by blast
  qed
  moreover have dj: "set ?ps \<inter> set (reader_paths (all_readers ?e)) = {}"
  proof -
    have "last p = CHR ''t''" if "p \<in> fe_Path ` set A" for p using that assms(4) suffix_last(1) by auto
    then show ?thesis unfolding lp using sp(2) by fastforce
  qed
  moreover have "fs_faults fs1 = []" "\<forall>i. \<not> fs_bad fs1 i" using D(1) assms(2,3) by (simp_all add: unlinked_def)
  ultimately obtain rt fs2 D' where
    r: "replay_segments now ?ps ?e fs1 = (Inr (?e\<lparr>e_router := rt\<rparr>), fs2)" "unlinked D' fs1 fs2" "D' \<subseteq> set ?ps"
    "replaying cd G fs2 A (?e\<lparr>e_router := rt\<rparr>)"
    "mem_recs rt = mem_recs (e_router ?e) + filter_mset (kept now (e_opts ?e) A) (mset (concat (map seg ?ps)))"
    using replay_segments_ok [OF _ _ _ rp _ sp(1), of seg now] assms(5) f(1) by auto
  have dj': "D' \<inter> fe_Path ` set A = {}" using r(3) dj lp by auto
  have d2: "data_ok cd G (e1\<lparr>e_router := rt\<rparr>) fs2"
    using r(4) by (simp add: replaying_def data_ok_def all_readers_def)
  have f2: "file_recs cd e1 fs2 = file_recs cd e1 fs"
    using du D(2) l(3) data_ok_unlinked(2) [OF _ r(2), of cd G e1] dj' by simp
  have m2: "mem_recs rt = filter_mset (kept now opts A) (mset (concat (map seg ?ps)))"
    using r(5) fresh_router_ok(2) [OF l(2)] f(1) by simp
  have "\<forall>p \<in> D \<union> D'. last p = CHR ''t'' \<or> last p = CHR ''l''" "(D \<union> D') \<inter> fe_Path ` set A = {}"
    using t D(2) r(3) sp(2) dj' by blast+
  then show ?thesis using ps r(1) unlinked_trans [OF D(1) r(2)] d2 f2 m2
    by (intro exI [of _ rt] exI [of _ fs2] exI [of _ "D \<union> D'"]) simp
qed

text \<open>The end of \<^verbatim>\<open>Open\<close>: the new segment of the log.\<close>

lemma open_active:
  fixes e :: Engine and fs :: file_sys
  defines "p \<equiv> walPath e (e_walSeq e)"
  assumes "fs_faults fs = []" "\<forall>j. \<not> fs_bad fs j" "data_ok cd G e fs" "manifest_log (e_manifest e) fs es"
    "mf_f (e_manifest e) < fs_next fs" "fs_lookup fs p = None"
    "\<And>q x. G q = Some x \<Longrightarrow> fs_lookup fs q = Some (r_file x) \<and> r_file x < fs_next fs \<and> r_file x \<noteq> mf_f (e_manifest e)"
  obtains w fs' where "wal_Open p (o_WALSyncMode (e_opts e)) fs = (Inr w, fs')" "wal_log w fs' []"
    "data_ok cd G (e\<lparr>e_wal := w\<rparr>) fs'" "file_recs cd e fs' = file_recs cd e fs"
    "store_ok cd G (e\<lparr>e_wal := w\<rparr>) (fs', NewBlockCache k)" "w_path w = p"
    "\<And>q. fs_lookup fs' q = (if q = p then Some (fs_next fs) else fs_lookup fs q)"
proof -
  define i where "i = fs_next fs"
  define fs' where "fs' = fs\<lparr>fs_names := (p, i) # fs_names fs, fs_data := (fs_data fs)(i := []),
    fs_synced := (fs_synced fs)(i := 0), fs_next := Suc i\<rparr>"
  define w where "w = \<lparr>w_file = i, w_path = p, w_bw = bufio_New i (64 * 1024), w_syncMode = o_WALSyncMode (e_opts e),
      w_ticker = (o_WALSyncMode (e_opts e) = SyncPeriodic)\<rparr>"
  have o: "wal_Open p (o_WALSyncMode (e_opts e)) fs = (Inr w, fs')"
    using assms(2,7) by (simp add: wal_Open_def os_open_create_def Let_def w_def fs'_def i_def)
  have wl: "wal_log w fs' []" by (rule wal_log_fresh) (auto simp: w_def fs'_def)
  have look: "fs_lookup fs' q = (if q = p then Some i else fs_lookup fs q)" for q by (simp add: fs'_def fs_lookup_def)
  have "same_file (r_file x) fs fs' \<and> fs_lookup fs' (sm_Path (r_meta x)) = fs_lookup fs (sm_Path (r_meta x))"
    if x: "x \<in> set (all_readers e)" for x
  proof -
    from all_readers_files [OF assms(4) x] have "G (sm_Path (r_meta x)) = Some x" by (auto simp: reader_ok_def)
    then have "fs_lookup fs (sm_Path (r_meta x)) \<noteq> None" "r_file x < i" using assms(8) by (auto simp: i_def)
    then show ?thesis using assms(7) look by (auto simp: same_file_def fs'_def)
  qed
  then have d: "data_ok cd G (e\<lparr>e_wal := w\<rparr>) fs'" "file_recs cd e fs' = file_recs cd e fs"
    using data_ok_same [OF assms(4), of fs'] by auto
  have "manifest_log (e_manifest e) fs' es"
    using assms(5,6,7) look by (auto simp: manifest_log_def manifest_file_def fs'_def i_def)
  moreover have "cache_ok cd G (fs', NewBlockCache k)"
    using cache_inv_New by (simp add: cache_ok_def cache_abs_def NewBlockCache_def)
  moreover have "\<forall>q x. G q = Some x \<longrightarrow> r_file x < Suc i \<and> r_file x \<noteq> mf_f (e_manifest e) \<and> r_file x \<noteq> i"
    using assms(8) less_SucI by (fastforce simp: i_def)
  ultimately have "store_ok cd G (e\<lparr>e_wal := w\<rparr>) (fs', NewBlockCache k)"
    using wl assms(2,3,6) unfolding store_ok_def by (auto simp: fs'_def w_def i_def)
  then show ?thesis using that [OF o wl d] look by (simp add: w_def i_def)
qed

lemma Open_disk:
  assumes "disk_ok cd dir opts fs es recs seg" "0 < o_PartitionDuration opts" "o_CompressionType opts \<le> 2"
  defines "A \<equiv> filter (on_disk fs) (added es)"
  shows "\<exists>G e s. engine_Open mm now dir opts fs = (Inr e, s) \<and> data_ok cd G e (fst s) \<and> store_ok cd G e s \<and>
    engine_recs cd e (fst s) = (\<Sum>fe \<in># mset A. mset (recs (fe_Path fe))) +
      filter_mset (kept now opts A) (mset (concat (map seg (wal_paths dir fs)))) \<and>
    wal_log (e_wal e) (fst s) [] \<and> \<not> e_closed e \<and> e_opts e = opts \<and> e_dir e = dir \<and> e_flushCh e = [] \<and> e_compactCh e = [] \<and>
    e_compactSeq e = 0 \<and> set (reader_paths (all_readers e)) = fe_Path ` set A \<and>
    ((\<forall>e w sq. e_dir e = dir \<and> 0 < sq \<longrightarrow> fs_lookup fs (compactPath e w sq) = None) \<longrightarrow> names_ok G e (fst s))"
proof -
  let ?dur = "o_PartitionDuration opts" let ?mp = "path_join dir ''MANIFEST''"
  let ?n = "highest_walSeq (wal_paths dir fs) 0"
  have k: "fs_faults fs = []" "\<forall>i. \<not> fs_bad fs i" "files_disk cd fs ?dur es recs"
    "\<And>fe. fe \<in> set (added es) \<Longrightarrow> on_disk fs fe \<Longrightarrow> suffix ''.sst'' (fe_Path fe)"
    "\<And>p. p \<in> set (wal_paths dir fs) \<Longrightarrow> segment fs p (seg p) \<and> (\<forall>r \<in> set (seg p). ts_ok ?dur (Timestamp r))"
    "\<And>p i. fs_lookup fs p = Some i \<Longrightarrow> i < fs_next fs" "\<And>p q i. fs_lookup fs p = Some i \<Longrightarrow> fs_lookup fs q = Some i \<Longrightarrow> q = p"
    "\<And>e w sq. e_dir e = dir \<Longrightarrow> highest_walSeq (wal_paths dir fs) 0 < sq \<Longrightarrow>
        fs_lookup fs (flushPath e w sq) = None \<and> fs_lookup fs (walPath e sq) = None"
    using assms(1) unfolding disk_ok_def by blast+
  from assms(1) obtain f where mf: "manifest_file fs ?mp f es" unfolding disk_ok_def by blast
  from manifest_replay_unlinked [OF k(1) mf] obtain m0 m fs1 where
    m: "manifest_Open ?mp fs = (Inr m0, fs)" "manifest_Replay m0 fs = (es, None, m, fs1)" "manifest_log m fs1 es"
    "mf_path m = ?mp" "mf_f m = f" "unlinked {} fs fs1" "fs_names fs1 = fs_names fs" by blast
  have fd1: "files_disk cd fs1 ?dur es recs" "filter (on_disk fs1) (added es) = A"
    using files_disk_unlinked [OF m(6) _ k(3)] by (simp_all add: A_def)
  have bad1: "\<forall>i. \<not> fs_bad fs1 i" "fs_faults fs1 = []" using m(6) k(1,2) by (simp_all add: unlinked_def)
  let ?init = "engine_init dir opts m"
  from replay_manifest [OF fd1(1) bad1(1) assms(2), of mm dir m] fd1(2) obtain G e1 where
    l: "fold (apply_edit mm) es (?init, fs1) = (e1, fs1)" "loaded cd fs1 recs ?init A G e1" by metis
  have sst: "\<forall>fe \<in> set A. suffix ''.sst'' (fe_Path fe)" using k(4) by (simp add: A_def)
  have wp1: "wal_paths dir fs1 = wal_paths dir fs" using m(7) by (simp add: file_Glob_def)
  have "\<forall>p \<in> set (wal_paths dir fs1). segment fs1 p (seg p) \<and> (\<forall>r \<in> set (seg p). ts_ok ?dur (Timestamp r))"
    using k(5) segment_unlinked [OF _ m(6)] wp1 by auto
  from replay_tail [OF l(2) bad1(2,1) sst this, of now] wp1 obtain rt fs2 D where
    r: "wal_paths dir (remove_orphans e1 fs1) = wal_paths dir fs"
    "replay_segments now (wal_paths dir fs) (e1\<lparr>e_walSeq := ?n\<rparr>) (remove_orphans e1 fs1) = (Inr (e1\<lparr>e_walSeq := ?n, e_router := rt\<rparr>), fs2)"
    "unlinked D fs1 fs2" "\<forall>p \<in> D. last p = CHR ''t'' \<or> last p = CHR ''l''" "D \<inter> fe_Path ` set A = {}"
    "data_ok cd G (e1\<lparr>e_router := rt\<rparr>) fs2" "file_recs cd e1 fs2 = file_recs cd e1 fs1"
    "mem_recs rt = filter_mset (kept now opts A) (mset (concat (map seg (wal_paths dir fs))))" by auto
  have u: "unlinked D fs fs2" using unlinked_trans [OF m(6) r(3)] by simp
  have e1: "replayed ?init e1" "dom G = fe_Path ` set A" "\<And>p x. G p = Some x \<Longrightarrow> fs_lookup fs1 p = Some (r_file x)"
    "file_recs cd e1 fs1 = (\<Sum>fe \<in># mset A. mset (recs (fe_Path fe)))"
    using l(2) by (auto simp: loaded_def)
  let ?e = "e1\<lparr>e_router := rt, e_walSeq := ?n + 1\<rparr>" let ?p = "walPath ?e (e_walSeq ?e)"
  have f: "e_opts e1 = opts" "e_dir e1 = dir" "e_manifest e1 = m" "e_compactSeq e1 = 0" "e_flushCh e1 = []" "e_compactCh e1 = []"
    "\<not> e_closed e1" using e1(1) by (simp_all add: replayed_def)
  have n: "0 \<le> ?n" by (rule highest_walSeq_le)
  have free: "fs_lookup fs2 ?p = None" using u k(8) [of ?e "?n + 1"] f(2) by (simp add: unlinked_def)
  have "?mp \<notin> D" using r(4) name_ends(4) [of dir] by auto
  then have ml: "manifest_log m fs2 es" using m(3,4) r(3) by (auto simp: manifest_log_def manifest_file_def unlinked_def)
  have fl: "fs_lookup fs ?mp = Some f" using mf by (simp add: manifest_file_def)
  have G: "fs_lookup fs2 q = Some (r_file x) \<and> r_file x < fs_next fs2 \<and> r_file x \<noteq> mf_f m" if q: "G q = Some x" for q x
  proof -
    have A: "q \<in> fe_Path ` set A" using e1(2) q by blast
    have "fs_lookup fs q = Some (r_file x)" using e1(3) [OF q] m(6) by (simp add: unlinked_def)
    moreover have "q \<noteq> ?mp" using A sst suffix_last(1) name_ends(4) [of dir] by fastforce
    moreover have "q \<notin> D" using A r(5) by blast
    ultimately show ?thesis using k(6,7) fl u m(5) by (auto simp: unlinked_def)
  qed
  have d2: "data_ok cd G ?e fs2" using r(6) by simp
  have "fs_faults fs2 = []" "\<forall>j. \<not> fs_bad fs2 j" "mf_f (e_manifest ?e) < fs_next fs2"
    using u k(1,2,6) fl m(5) f(3) by (auto simp: unlinked_def)
  from open_active [OF this(1,2) d2 _ this(3) free, of es "o_BlockCacheBytes opts"] ml f(1,3) G obtain w fs3 where
    w: "wal_Open ?p (o_WALSyncMode opts) fs2 = (Inr w, fs3)" "wal_log w fs3 []" "data_ok cd G (?e\<lparr>e_wal := w\<rparr>) fs3"
    "file_recs cd ?e fs3 = file_recs cd ?e fs2" "store_ok cd G (?e\<lparr>e_wal := w\<rparr>) (fs3, NewBlockCache (o_BlockCacheBytes opts))"
    "w_path w = ?p" "\<And>q. fs_lookup fs3 q = (if q = ?p then Some (fs_next fs2) else fs_lookup fs2 q)" by auto
  let ?e' = "?e\<lparr>e_wal := w, e_metrics := metrics_New\<rparr>"
  have op: "engine_Open mm now dir opts fs = (Inr ?e', (fs3, NewBlockCache (o_BlockCacheBytes opts)))"
    using k(1) m(1,2) l(1) r(1,2) w(1) f(1) e1(1)
    by (simp add: engine_Open_def os_MkdirAll_def Let_def replayed_def)
  have pf: "walPath ?e' = walPath ?e" by (rule path_fields) simp
  have none: "unused G fs3 q" if "fs_lookup fs q = None" "q \<noteq> ?p" for q
  proof -
    have "fs_lookup fs2 q = None" using that(1) u by (simp add: unlinked_def)
    moreover have "G q = None" using that(1) e1(3) [of q] m(6) by (cases "G q") (auto simp: unlinked_def)
    ultimately show ?thesis using w(7) that(2) by (simp add: unused_def)
  qed
  have Gt: "G q = None" if "last q \<noteq> CHR ''t''" for q
    using that e1(2) sst suffix_last(1) by (metis domIff imageE)
  have names: "names_ok G ?e' fs3" if c: "\<forall>e w sq. e_dir e = dir \<and> 0 < sq \<longrightarrow> fs_lookup fs (compactPath e w sq) = None"
    unfolding names_ok_def
  proof (intro conjI allI impI)
    show "0 \<le> e_walSeq ?e'" "0 \<le> e_compactSeq ?e'" using n f(4) by simp_all
    show "mf_path (e_manifest ?e') = path_join (e_dir ?e') ''MANIFEST''" using m(4) f(2,3) by simp
    show "G (mf_path (e_manifest ?e')) = None" using Gt name_ends(4) [of dir] m(4) f(3) by simp
    show "w_path (e_wal ?e') = walPath ?e' (e_walSeq ?e')" using w(6) pf by simp
    show "G (walPath ?e' sq) = None" for sq using Gt name_ends(3) [of ?e' sq] by simp
    fix v sq
    show "unused G fs3 (flushPath ?e' v sq)" if "e_walSeq ?e' < sq" using none k(8) [of ?e' sq v] f(2) that by simp
    show "unused G fs3 (walPath ?e' sq)" if "e_walSeq ?e' < sq"
      using none [of "walPath ?e' sq"] k(8) [of ?e' sq v] f(2) that wal_name [of sq "?n + 1" ?e] n pf by auto
    show "unused G fs3 (compactPath ?e' v sq)" if "e_compactSeq ?e' < sq" using none c f(2,4) that by simp
  qed
  have "engine_recs cd ?e' fs3 = (\<Sum>fe \<in># mset A. mset (recs (fe_Path fe))) +
      filter_mset (kept now opts A) (mset (concat (map seg (wal_paths dir fs))))"
    using w(4) r(7,8) e1(4) by (simp add: engine_recs_def file_recs_def all_readers_def)
  moreover have "set (reader_paths (all_readers ?e')) = fe_Path ` set A" using l(2) by (simp add: loaded_def all_readers_def)
  ultimately show ?thesis
    using op w(2,3,5) names f
    by (intro exI [of _ G] exI [of _ ?e'] exI [of _ "(fs3, NewBlockCache (o_BlockCacheBytes opts))"])
      (simp add: store_ok_def)
qed

subsection \<open>Property\<close>

text \<open>
  C7: recovery. The directory has a whole manifest whose edits add at most one file each, sound files, and
  whole log segments of records with bodies of at most 10 MB and with timestamps at least one window away
  from the ends of the 64-bit range; files that the manifest deletes are gone, no file has a name that a
  later flush or rotation will use, and no system call fails. Then \<^verbatim>\<open>Open\<close> succeeds, and the records of the
  new engine are exactly those of the files that the manifest names and that still exist, and those of
  the log that come back: a record is skipped when a file of its window has a largest timestamp that is
  positive and not below the record's, and rejected when it is older than the late-arrival window in
  strict mode. So a record of a window whose files all reach at most to the epoch is not skipped, even
  when one of them holds it. The engine can be read at once; all its invariants hold when no file carries
  the name of a compaction output, because the counter of these names starts again at zero.
\<close>

theorem Open_recovers:
  assumes "disk_ok cd dir opts fs es recs seg" "0 < o_PartitionDuration opts" "o_CompressionType opts \<le> 2"
  shows "\<exists>G e s. engine_Open mm now dir opts fs = (Inr e, s) \<and> \<not> e_closed e \<and> data_ok cd G e (fst s) \<and> cache_ok cd G s \<and>
    engine_recs cd e (fst s) = (\<Sum>fe \<in># mset (filter (on_disk fs) (added es)). mset (recs (fe_Path fe))) +
      filter_mset (kept now opts (filter (on_disk fs) (added es))) (mset (concat (map seg (wal_paths dir fs)))) \<and>
    e_compactSeq e = 0 \<and>
    ((\<forall>e w sq. e_dir e = dir \<and> 0 < sq \<longrightarrow> fs_lookup fs (compactPath e w sq) = None) \<longrightarrow> engine_good cd e s)"
proof -
  from Open_disk [OF assms, of mm now] obtain G e s where
    o: "engine_Open mm now dir opts fs = (Inr e, s)" "data_ok cd G e (fst s)" "store_ok cd G e s" "\<not> e_closed e" "e_opts e = opts"
    "e_flushCh e = []" "e_compactCh e = []" "e_compactSeq e = 0"
    "engine_recs cd e (fst s) = (\<Sum>fe \<in># mset (filter (on_disk fs) (added es)). mset (recs (fe_Path fe))) +
      filter_mset (kept now opts (filter (on_disk fs) (added es))) (mset (concat (map seg (wal_paths dir fs))))"
    "(\<forall>e w sq. e_dir e = dir \<and> 0 < sq \<longrightarrow> fs_lookup fs (compactPath e w sq) = None) \<longrightarrow> names_ok G e (fst s)" by blast
  have "names_ok G e (fst s) \<Longrightarrow> engine_good cd e s"
    using o(2,3,5-7) assms(3) by (auto simp: engine_good_def engine_inv_def engine_ok_def chan_ok_def)
  moreover have "cache_ok cd G s" using o(3) by (simp add: store_ok_def)
  ultimately show ?thesis using o(1,2,4,8-10) by blast
qed

text \<open>A directory with an empty manifest and one segment that holds one record.\<close>

definition demo_disk :: file_sys where
  "demo_disk = fs_empty\<lparr>fs_names := [(''d/MANIFEST'', 0), (''d/wal-000001.wal'', 1)], fs_next := 2,
     fs_data := (\<lambda>i. if i = 1 then wal_bytes [zero_record] else []),
     fs_synced := (\<lambda>i. if i = 1 then length (wal_bytes [zero_record]) else 0)\<rparr>"

lemma demo_disk_ok: "disk_ok tag_codecs ''d'' demo_opts demo_disk [] (\<lambda>_. []) (\<lambda>_. [zero_record])"
    "wal_paths ''d'' demo_disk = [''d/wal-000001.wal'']"
proof -
  have lk: "fs_lookup demo_disk p = (if p = ''d/MANIFEST'' then Some 0 else if p = ''d/wal-000001.wal'' then Some 1 else None)" for p
    by (simp add: demo_disk_def fs_lookup_def)
  show w: "wal_paths ''d'' demo_disk = [''d/wal-000001.wal'']"
    by (simp add: file_Glob_def demo_disk_def glob_match_def path_join_def suffix_to_prefix)
  have "scan_walSeq (file_Base ''d/wal-000001.wal'') = Some 1" by code_simp
  then have n: "highest_walSeq (wal_paths ''d'' demo_disk) 0 = 1" by (simp add: w highest_walSeq_def)
  have p1: "walPath e 1 = ''d/wal-000001.wal''" if "e_dir e = ''d''" for e
  proof -
    have "fmt_06d 1 = ''000001''" by code_simp
    then show ?thesis using that by (simp add: walPath_def path_join_def)
  qed
  have mp: "path_join ''d'' ''MANIFEST'' = ''d/MANIFEST''" by (simp add: path_join_def)
  have "fs_lookup demo_disk (flushPath e w sq) = None \<and> fs_lookup demo_disk (walPath e sq) = None"
    if "e_dir e = ''d''" "1 < sq" for e w sq
    using p1 [OF that(1)] wal_name [of sq 1 e] that(2) name_kinds(1) [of e w sq e 1] name_kinds(5) [of e w sq "''d''"]
      name_kinds(7) [of e sq "''d''"] by (auto simp: lk mp)
  then show "disk_ok tag_codecs ''d'' demo_opts demo_disk [] (\<lambda>_. []) (\<lambda>_. [zero_record])"
    unfolding disk_ok_def n unfolding w
    by (simp add: lk mp) (simp add: demo_disk_def fs_empty_def manifest_file_def fs_lookup_def seq_ok_def files_disk_def added_def
      segment_def wal_good_def zero_record_def maxRecordBodySize_def is_i64_def ts_ok_def demo_opts_def DefaultOptions_def)
qed

theorem Open_recovers_witness:
  "\<exists>G e s. engine_Open True 0 ''d'' demo_opts demo_disk = (Inr e, s) \<and> data_ok tag_codecs G e (fst s) \<and>
     engine_recs tag_codecs e (fst s) = {#zero_record#}"
proof -
  have "0 < o_PartitionDuration demo_opts" "o_CompressionType demo_opts \<le> 2"
    by (simp_all add: demo_opts_def DefaultOptions_def compression_types)
  moreover have "kept 0 demo_opts [] zero_record"
    by (simp add: kept_def covered_def zero_record_def demo_opts_def DefaultOptions_def i64_def)
  ultimately show ?thesis using Open_recovers [OF demo_disk_ok(1), of True 0] by (fastforce simp: added_def demo_disk_ok(2))
qed

end
