(* ===== verification/Cli.thy ===== *)
theory Cli
  imports Clock Base64 Recovery
begin

text \<open>
  \<^verbatim>\<open>cmd/timberdb\<close>: the commands append, scan and inspect. A command is the function that the source
  gives to cobra as \<^verbatim>\<open>RunE\<close>, applied to the values of its flags; it returns what it prints, its error
  and the file system it leaves. Strings are byte strings, as in Go. The environment of a command is
  the sequence of clock readings and what the goroutines of the engine do before each of its calls.
  Writes to the standard output succeed. A deferred \<^verbatim>\<open>Close\<close> runs last, and its error is only logged.
\<close>

subsection \<open>Errors and environment\<close>

text \<open>The messages of \<^verbatim>\<open>fmt.Errorf\<close> are constructors.\<close>

datatype cli_error =
    CliErr go_error
  | ErrFlags
  | ErrTime bytes
  | ErrTimestampFlag bytes
  | ErrStartFlag bytes
  | ErrEndFlag bytes
  | ErrJson
  | ErrTimestamp bytes
  | ErrSourceBase64
  | ErrPayloadBase64
  | ErrTooLong

type_synonym 'a cli_result = "cli_error + 'a"

record cli_env =
  env_now :: "nat \<Rightarrow> int"
  env_turns :: "nat \<Rightarrow> Engine \<times> store \<Rightarrow> Engine \<times> store"

subsection \<open>\<^verbatim>\<open>util.go\<close>\<close>

definition parseTime :: "bytes \<Rightarrow> go_time cli_result" where
  "parseTime s = (case time_Parse RFC3339Nano s of
     Some t \<Rightarrow> Inr t
   | None \<Rightarrow> (case time_Parse RFC3339 s of Some t \<Rightarrow> Inr t | None \<Rightarrow> Inl (ErrTime s)))"

text \<open>
  \<^verbatim>\<open>%.1f\<close> of a quotient by a power of two: the conversion to float64 rounds to 53 bits, the division is
  exact, and the decimal is rounded to the nearest, ties to even.
\<close>

definition round_even :: "nat \<Rightarrow> nat \<Rightarrow> nat" where
  "round_even a b = (let q = a div b; r = a mod b in if 2 * r > b \<or> 2 * r = b \<and> odd q then q + 1 else q)"

fun float_shift :: "nat \<Rightarrow> nat" where
  "float_shift n = (if n < 2 ^ 53 then 0 else Suc (float_shift (n div 2)))"

declare float_shift.simps [simp del]

definition to_float64 :: "nat \<Rightarrow> nat" where
  "to_float64 n = (let k = 2 ^ float_shift n in round_even n k * k)"

definition fmt_1f :: "nat \<Rightarrow> nat \<Rightarrow> bytes" where
  "fmt_1f n k = (let t = round_even (to_float64 n * 10) k in dec_nat (t div 10) @ [46] @ dec_nat (t mod 10))"

definition fmtBytes :: "int \<Rightarrow> bytes" where
  "fmtBytes n =
     (if n \<ge> 2 ^ 30 then fmt_1f (nat n) (2 ^ 30) @ str_bytes '' GiB''
      else if n \<ge> 2 ^ 20 then fmt_1f (nat n) (2 ^ 20) @ str_bytes '' MiB''
      else if n \<ge> 2 ^ 10 then fmt_1f (nat n) (2 ^ 10) @ str_bytes '' KiB''
      else dec_int n @ str_bytes '' B'')"

subsection \<open>\<^verbatim>\<open>append.go\<close>\<close>

record ndjsonRecord =
  nr_Timestamp :: bytes
  nr_Source :: bytes
  nr_Payload :: bytes

definition un_bytes :: "json \<Rightarrow> bytes \<Rightarrow> bytes option" where
  "un_bytes v old = (case v of JNull \<Rightarrow> Some old | JStr s \<Rightarrow> Some s | _ \<Rightarrow> None)"

definition un_ndjson_member :: "bytes \<times> json \<Rightarrow> ndjsonRecord \<Rightarrow> ndjsonRecord option" where
  "un_ndjson_member kv nr = (case kv of (k, v) \<Rightarrow>
     (case json_field [''timestamp'', ''source'', ''payload''] k of
        None \<Rightarrow> Some nr
      | Some n \<Rightarrow>
          if n = ''timestamp'' then map_option (\<lambda>x. nr\<lparr>nr_Timestamp := x\<rparr>) (un_bytes v (nr_Timestamp nr))
          else if n = ''source'' then map_option (\<lambda>x. nr\<lparr>nr_Source := x\<rparr>) (un_bytes v (nr_Source nr))
          else map_option (\<lambda>x. nr\<lparr>nr_Payload := x\<rparr>) (un_bytes v (nr_Payload nr))))"

definition unmarshal_ndjson :: "bytes \<Rightarrow> ndjsonRecord option" where
  "unmarshal_ndjson line =
     (let zero = \<lparr>nr_Timestamp = [], nr_Source = [], nr_Payload = []\<rparr> in
      case parse_json line of
        None \<Rightarrow> None
      | Some JNull \<Rightarrow> Some zero
      | Some (JObj kvs) \<Rightarrow> un_members un_ndjson_member kvs zero
      | Some _ \<Rightarrow> None)"

text \<open>The body of the loop over the lines of the file.\<close>

definition parse_line :: "bytes \<Rightarrow> go_record cli_result" where
  "parse_line line = (case unmarshal_ndjson line of
     None \<Rightarrow> Inl ErrJson
   | Some nr \<Rightarrow>
       (case parseTime (nr_Timestamp nr) of
          Inl _ \<Rightarrow> Inl (ErrTimestamp (nr_Timestamp nr))
        | Inr ts \<Rightarrow>
            (case DecodeString (nr_Source nr) of
               None \<Rightarrow> Inl ErrSourceBase64
             | Some srcID \<Rightarrow>
                 (case DecodeString (nr_Payload nr) of
                    None \<Rightarrow> Inl ErrPayloadBase64
                  | Some pay \<Rightarrow> Inr \<lparr>Timestamp = UnixNano ts, SourceID = srcID, Payload = pay\<rparr>))))"

text \<open>
  \<^verbatim>\<open>bufio.Scanner\<close> with \<^verbatim>\<open>ScanLines\<close>: the pieces between line feeds, without a last empty one; a carriage
  return at the end of a piece is dropped; a piece of 64 KiB or more does not fit the buffer.
\<close>

function split_lines :: "bytes \<Rightarrow> bytes list" where
  "split_lines bs = (if bs = [] then []
     else takeWhile (\<lambda>b. b \<noteq> 10) bs # split_lines (drop 1 (dropWhile (\<lambda>b. b \<noteq> 10) bs)))"
  by pat_completeness auto
termination
proof (relation "measure length", goal_cases)
  case (2 bs)
  have "length (dropWhile (\<lambda>b. b \<noteq> 10) bs) \<le> length bs" by (rule length_dropWhile_le)
  moreover have "0 < length bs" using 2 by simp
  ultimately have "length (dropWhile (\<lambda>b. b \<noteq> 10) bs) - 1 < length bs" by linarith
  then show ?case by simp
qed simp

declare split_lines.simps [simp del]

abbreviation maxScanTokenSize :: nat where "maxScanTokenSize \<equiv> 65536"

definition dropCR :: "bytes \<Rightarrow> bytes" where
  "dropCR l = (if l \<noteq> [] \<and> last l = 13 then butlast l else l)"

fun batch_records :: "bytes list \<Rightarrow> go_record list cli_result" where
  "batch_records [] = Inr []"
| "batch_records (l # ls) =
     (if length l \<ge> maxScanTokenSize then Inl ErrTooLong
      else if dropCR l = [] then batch_records ls
      else
        (case parse_line (dropCR l) of
           Inl err \<Rightarrow> Inl err
         | Inr r \<Rightarrow> (case batch_records ls of Inl err \<Rightarrow> Inl err | Inr rs \<Rightarrow> Inr (r # rs))))"

text \<open>The records of the file are appended once all of it has been read.\<close>

fun append_records :: "cli_env \<Rightarrow> nat \<Rightarrow> Engine \<Rightarrow> go_record list \<Rightarrow> store \<Rightarrow> go_error option \<times> Engine \<times> store" where
  "append_records env i e [] s = (None, e, s)"
| "append_records env i e (r # rs) s =
     (case env_turns env i (e, s) of (e, s) \<Rightarrow>
        (case engine_Append (env_now env i) e r s of
           (Some err, e, s) \<Rightarrow> (Some err, e, s)
         | (None, e, s) \<Rightarrow> append_records env (i + 1) e rs s))"

definition appendBatch :: "cli_env \<Rightarrow> Engine \<Rightarrow> path \<Rightarrow> store \<Rightarrow> cli_error option \<times> Engine \<times> store" where
  "appendBatch env e path s = (case os_open path (fst s) of
     Inl err \<Rightarrow> (Some (CliErr err), e, s)
   | Inr f \<Rightarrow>
       if fs_bad (fst s) f then (Some (CliErr EIO), e, s)
       else
         (case batch_records (split_lines (fs_data (fst s) f)) of
            Inl err \<Rightarrow> (Some err, e, s)
          | Inr recs \<Rightarrow>
              (case append_records env 1 e recs s of (err, e, s) \<Rightarrow> (map_option CliErr err, e, s))))"

definition appendSingle :: "cli_env \<Rightarrow> Engine \<Rightarrow> bytes \<Rightarrow> bytes \<Rightarrow> bytes \<Rightarrow> store \<Rightarrow>
    cli_error option \<times> Engine \<times> store" where
  "appendSingle env e source tsStr payload s =
     (let ts = (if tsStr = [] then Inr (time_Unix (env_now env 1)) else parseTime tsStr) in
      case ts of
        Inl _ \<Rightarrow> (Some (ErrTimestampFlag tsStr), e, s)
      | Inr t \<Rightarrow>
          (case append_records env 2 e [\<lparr>Timestamp = UnixNano t, SourceID = source, Payload = payload\<rparr>] s of
             (err, e, s) \<Rightarrow> (map_option CliErr err, e, s)))"

definition cmd_append :: "codecs \<Rightarrow> bool \<Rightarrow> cli_env \<Rightarrow> path \<Rightarrow> bytes \<Rightarrow> bytes \<Rightarrow> bytes \<Rightarrow> path \<Rightarrow> file_sys \<Rightarrow>
    cli_error option \<times> file_sys" where
  "cmd_append cd mm env dbPath source tsStr payload file fs =
     (case engine_Open mm (env_now env 0) dbPath DefaultOptions fs of
        (Inl err, s) \<Rightarrow> (Some (CliErr err), fst s)
      | (Inr e, s) \<Rightarrow>
          (case (if file \<noteq> [] then
                   (if source \<noteq> [] \<or> tsStr \<noteq> [] \<or> payload \<noteq> [] then (Some ErrFlags, e, s)
                    else appendBatch env e file s)
                 else appendSingle env e source tsStr payload s) of
             (err, e, s) \<Rightarrow> (err, fst (snd (snd (engine_Close cd mm e s))))))"

subsection \<open>\<^verbatim>\<open>scan.go\<close>\<close>

text \<open>One line of \<^verbatim>\<open>json.Encoder\<close>.\<close>

definition scan_line :: "go_record \<Rightarrow> bytes" where
  "scan_line r = print_val (JObj
     [(str_bytes ''timestamp'', JStr (Format_RFC3339Nano (time_Unix (Timestamp r)))),
      (str_bytes ''source'', JStr (EncodeToString (SourceID r))),
      (str_bytes ''payload'', JStr (EncodeToString (Payload r)))])"

definition ndjson :: "go_record list \<Rightarrow> bytes" where
  "ndjson rs = concat (map (\<lambda>r. scan_line r @ [10]) rs)"

text \<open>
  The loop over the iterator prints every record it delivers, so the output is there even if the
  iterator then reports an error. \<open>None\<close> would be a loop that does not end.
\<close>

definition cmd_scan :: "codecs \<Rightarrow> bool \<Rightarrow> cli_env \<Rightarrow> path \<Rightarrow> bytes \<Rightarrow> bytes \<Rightarrow> bytes \<Rightarrow> file_sys \<Rightarrow>
    (bytes \<times> cli_error option \<times> file_sys) option" where
  "cmd_scan cd mm env dbPath startStr endStr source fs =
     (case parseTime startStr of
        Inl _ \<Rightarrow> Some ([], Some (ErrStartFlag startStr), fs)
      | Inr start \<Rightarrow>
          (case (if endStr \<noteq> [] then parseTime endStr else Inr (time_Unix (env_now env 0))) of
             Inl _ \<Rightarrow> Some ([], Some (ErrEndFlag endStr), fs)
           | Inr stop \<Rightarrow>
               (case engine_Open mm (env_now env 1) dbPath DefaultOptions fs of
                  (Inl err, s) \<Rightarrow> Some ([], Some (CliErr err), fst s)
                | (Inr e, s) \<Rightarrow>
                    (let opts = (if source \<noteq> [] then Some \<lparr>so_SourceID = Some source\<rparr> else None) in
                     case env_turns env 2 (e, s) of (e, s) \<Rightarrow>
                       (case engine_Scan cd (env_now env 2) e (UnixNano start) (UnixNano stop) opts s of
                          (Inl err, e, s) \<Rightarrow>
                            Some ([], Some (CliErr err), fst (snd (snd (engine_Close cd mm e s))))
                        | (Inr it, e, s) \<Rightarrow>
                            (case iter_collect (counting_Next cd) counting_View it s of
                               None \<Rightarrow> None
                             | Some (rs, it, s) \<Rightarrow>
                                 (case counting_Close (env_now env 3) it (e_metrics e) of
                                    (_, _, m) \<Rightarrow>
                                      Some (ndjson rs, map_option CliErr (counting_Err it),
                                        fst (snd (snd (engine_Close cd mm (e\<lparr>e_metrics := m\<rparr>) s)))))))))))"

subsection \<open>What scan prints, append reads\<close>

lemma parseTime_Unix: "is_i64 ns \<Longrightarrow> parseTime (Format_RFC3339Nano (time_Unix ns)) = Inr (time_Unix ns)"
  by (simp add: parseTime_def Parse_Unix)

lemma EncodeToString_ascii: "ascii (EncodeToString bs)"
  using EncodeToString_chars [of bs] by (simp add: ascii_def)

lemma ndjson_names: "ascii (str_bytes ''timestamp'')" "ascii (str_bytes ''source'')" "ascii (str_bytes ''payload'')"
  by (rule ascii_str_bytes, simp add: ascii_path_def)+

lemma parse_scan_line:
  assumes "is_i64 (Timestamp r)"
  shows "parse_line (scan_line r) = Inr r"
proof -
  let ?nr = "\<lparr>nr_Timestamp = Format_RFC3339Nano (time_Unix (Timestamp r)), nr_Source = EncodeToString (SourceID r),
    nr_Payload = EncodeToString (Payload r)\<rparr>"
  have "parse_json (scan_line r) = Some (JObj
     [(str_bytes ''timestamp'', JStr (nr_Timestamp ?nr)), (str_bytes ''source'', JStr (nr_Source ?nr)),
      (str_bytes ''payload'', JStr (nr_Payload ?nr))])"
    unfolding scan_line_def
    by (subst parse_json_print) (simp_all add: ndjson_names format_time_ascii EncodeToString_ascii)
  then have "unmarshal_ndjson (scan_line r) = Some ?nr"
    by (simp add: unmarshal_ndjson_def un_ndjson_member_def un_bytes_def)
  then show ?thesis using Parse_Unix(2) [OF assms] by (simp add: parse_line_def parseTime_Unix [OF assms] Decode_Encode)
qed

lemma ascii_esc_printable: "b < 0x80 \<Longrightarrow> c \<in> set (ascii_esc b) \<Longrightarrow> 32 \<le> c"
proof -
  have h: "k < 16 \<Longrightarrow> 32 \<le> hex_digit k" for k
    by (simp add: hex_digit_def word_le_nat_alt unat_small del: of_nat_add)
  assume b: "b < 0x80" "c \<in> set (ascii_esc b)"
  then have "unat b div 16 < 16" by (simp add: word_less_nat_alt)
  with b h show ?thesis by (auto simp: ascii_esc_def split: if_splits)
qed

lemma js_esc_printable: "ascii s \<Longrightarrow> c \<in> set (js_esc s) \<Longrightarrow> 32 \<le> c"
  by (induction s) (auto simp: ascii_esc_printable)

lemma print_strings_printable:
  "list_all (\<lambda>(k, s). ascii k \<and> ascii s) kss \<Longrightarrow> \<forall>c \<in> set (print_mems (map (\<lambda>(k, s). (k, JStr s)) kss)). 32 \<le> c"
  by (induction kss) (auto dest: js_esc_printable split: if_splits)

text \<open>A printed line has no line break and does not end in a carriage return.\<close>

lemma scan_line_chars: "10 \<notin> set (scan_line r)" "dropCR (scan_line r) = scan_line r" "scan_line r \<noteq> []"
proof -
  let ?kss = "[(str_bytes ''timestamp'', Format_RFC3339Nano (time_Unix (Timestamp r))),
      (str_bytes ''source'', EncodeToString (SourceID r)), (str_bytes ''payload'', EncodeToString (Payload r))]"
  have "scan_line r = 123 # print_mems (map (\<lambda>(k, s). (k, JStr s)) ?kss) @ [125]" unfolding scan_line_def by simp
  moreover have "\<forall>c \<in> set (print_mems (map (\<lambda>(k, s). (k, JStr s)) ?kss)). 32 \<le> c"
    by (rule print_strings_printable) (simp add: ndjson_names format_time_ascii EncodeToString_ascii)
  ultimately have "\<forall>c \<in> set (scan_line r). 32 \<le> c" by (simp only: list.set set_append ball_simps ball_Un) simp
  then show "10 \<notin> set (scan_line r)" by force
  show "dropCR (scan_line r) = scan_line r" "scan_line r \<noteq> []" by (simp_all add: scan_line_def dropCR_def)
qed

text \<open>A bound on the length of a line: small records always fit.\<close>

lemma js_esc_length: "ascii s \<Longrightarrow> length (js_esc s) \<le> 6 * length s"
proof (induction s)
  case (Cons b s)
  have "length (ascii_esc b) \<le> 6" by (simp add: ascii_esc_def)
  with Cons show ?case by simp
qed simp

lemma EncodeToString_length: "length (EncodeToString bs) \<le> 4 * length bs"
  by (induction bs rule: EncodeToString.induct) (simp_all add: Let_def)

lemma format_time_length: "length (format_time nano t) \<le> 30"
proof -
  have "length (append_nano x) \<le> 10" for x
    using length_dropWhile_le [of "\<lambda>b. b = 48" "rev (append_int 9 x)"] by (simp add: append_nano_def Let_def append_int_digits)
  then show ?thesis by (simp add: format_time_def Let_def append_int_digits split: prod.splits)
qed

lemma scan_line_length: "length (scan_line r) \<le> 400 + 24 * (length (SourceID r) + length (Payload r))"
proof -
  have n: "length (js_esc (str_bytes ''timestamp'')) \<le> 54" "length (js_esc (str_bytes ''source'')) \<le> 36"
    "length (js_esc (str_bytes ''payload'')) \<le> 42"
    using js_esc_length [OF ndjson_names(1)] js_esc_length [OF ndjson_names(2)] js_esc_length [OF ndjson_names(3)]
    by (simp_all add: str_bytes_def)
  have "length (js_esc (Format_RFC3339Nano (time_Unix (Timestamp r)))) \<le> 180"
    using js_esc_length [OF format_time_ascii [of True "time_Unix (Timestamp r)"]] format_time_length [of True "time_Unix (Timestamp r)"]
    by linarith
  moreover have "length (js_esc (EncodeToString bs)) \<le> 24 * length bs" for bs
    using js_esc_length [OF EncodeToString_ascii [of bs]] EncodeToString_length [of bs] by linarith
  from this [of "SourceID r"] this [of "Payload r"]
  have "length (js_esc (EncodeToString (SourceID r))) + length (js_esc (EncodeToString (Payload r))) \<le>
      24 * (length (SourceID r) + length (Payload r))" by (simp add: distrib_left add_mono)
  ultimately show ?thesis using n unfolding scan_line_def by simp
qed

lemma split_lines_line:
  assumes "10 \<notin> set l"
  shows "split_lines (l @ 10 # r) = l # split_lines r"
proof -
  have "list_all (\<lambda>b. b \<noteq> 10) l" using assms by (auto simp: list_all_iff)
  from takeWhile_all_stop [OF this, of 10 r] show ?thesis by (subst split_lines.simps) simp
qed

lemma batch_ndjson:
  assumes "\<forall>r \<in> set rs. is_i64 (Timestamp r)"
  shows "batch_records (split_lines (ndjson rs)) =
    (if \<forall>r \<in> set rs. length (scan_line r) < maxScanTokenSize then Inr rs else Inl ErrTooLong)"
  using assms
proof (induction rs)
  case Nil
  then show ?case by (simp add: ndjson_def split_lines.simps)
next
  case (Cons r rs)
  then have "split_lines (ndjson (r # rs)) = scan_line r # split_lines (ndjson rs)"
    by (simp add: ndjson_def split_lines_line scan_line_chars(1))
  then show ?case using Cons by (simp add: scan_line_chars parse_scan_line)
qed


subsection \<open>Appending a batch\<close>

text \<open>What the goroutines do between two calls is a run of flushes and compactions.\<close>

definition turns_ok :: "codecs \<Rightarrow> bool \<Rightarrow> cli_env \<Rightarrow> bool" where
  "turns_ok cd mm env \<longleftrightarrow> (\<forall>i e s. engine_good cd e s \<longrightarrow>
     (\<exists>ls. set ls \<subseteq> {LFlush, LCompact} \<and> engine_run cd mm (e, s) ls (env_turns env i (e, s))))"

lemma quiet_run:
  assumes "engine_run cd mm c ls c'" "set ls \<subseteq> {LFlush, LCompact}" "engine_good cd (fst c) (snd c)"
  shows "engine_good cd (fst c') (snd c') \<and> e_opts (fst c') = e_opts (fst c) \<and>
    engine_recs cd (fst c') (fst (snd c')) = engine_recs cd (fst c) (fst (snd c))"
  using assms
proof induction
  case (run_step ls c1 l c2)
  then have g: "engine_good cd (fst c1) (snd c1)" and st: "engine_step cd mm (fst c1, snd c1) l (fst c2, snd c2)" by simp_all
  show ?case using step_refines [OF g st] step_opts [OF g st] run_step
    by (auto elim: store_flushE store_compactE)
qed simp

lemma turns_keep:
  assumes "turns_ok cd mm env" "engine_good cd e s" "env_turns env i (e, s) = (e', s')"
  shows "engine_good cd e' s' \<and> e_opts e' = e_opts e \<and> engine_recs cd e' (fst s') = engine_recs cd e (fst s)"
proof -
  from assms obtain ls where "set ls \<subseteq> {LFlush, LCompact}" "engine_run cd mm (e, s) ls (e', s')"
    unfolding turns_ok_def by metis
  from quiet_run [OF this(2,1)] assms(2) show ?thesis by simp
qed

lemma append_records_ok:
  assumes "turns_ok cd mm env" "engine_good cd e s" "append_records env i e rs s = (err, e', s')"
    "\<forall>r \<in> set rs. ts_ok (o_PartitionDuration (e_opts e)) (Timestamp r)"
  shows "\<exists>n \<le> length rs. engine_good cd e' s' \<and> e_opts e' = e_opts e \<and> (err = None \<longleftrightarrow> n = length rs) \<and>
    engine_recs cd e' (fst s') = engine_recs cd e (fst s) + mset (take n rs)"
  using assms
proof (induction rs arbitrary: i e s)
  case (Cons r rs)
  obtain e1 s1 where t: "env_turns env i (e, s) = (e1, s1)" by (metis surj_pair)
  note k = turns_keep [OF Cons.prems(1,2) t]
  obtain er e2 s2 where a: "engine_Append (env_now env i) e1 r s1 = (er, e2, s2)" by (metis surj_pair)
  have "ts_ok (o_PartitionDuration (e_opts e1)) (Timestamp r)" using Cons.prems(4) k by simp
  from append_step_ok [OF _ a this, of cd] k have g: "engine_good cd e2 s2" "engine_recs cd e2 (fst s2) =
      (if er = None then add_mset r (engine_recs cd e (fst s)) else engine_recs cd e (fst s))" by simp_all
  have o: "e_opts e2 = e_opts e" using Append_opts [of "env_now env i" e1 r s1] a k by simp
  show ?case
  proof (cases er)
    case None
    then have "append_records env (i + 1) e2 rs s2 = (err, e', s')" using Cons.prems(3) t a by simp
    from Cons.IH [OF Cons.prems(1) g(1) this] Cons.prems(4) o obtain n where
      "n \<le> length rs" "engine_good cd e' s'" "e_opts e' = e_opts e" "err = None \<longleftrightarrow> n = length rs"
      "engine_recs cd e' (fst s') = engine_recs cd e2 (fst s2) + mset (take n rs)" by auto
    then show ?thesis using g(2) None by (intro exI [of _ "Suc n"]) simp
  next
    case (Some x)
    then have "err = Some x" "e' = e2" "s' = s2" using Cons.prems(3) t a by simp_all
    then show ?thesis using g Some o by (intro exI [of _ 0]) simp
  qed
qed simp


subsection \<open>Scanning a store\<close>

text \<open>The records that a store on disk has for a command that opens it now.\<close>

definition disk_recs :: "int \<Rightarrow> path \<Rightarrow> Options \<Rightarrow> file_sys \<Rightarrow> VersionEdit list \<Rightarrow> (path \<Rightarrow> go_record list) \<Rightarrow>
    (path \<Rightarrow> go_record list) \<Rightarrow> go_record multiset" where
  "disk_recs now dir opts fs es recs seg =
     (\<Sum>fe \<in># mset (filter (on_disk fs) (added es)). mset (recs (fe_Path fe))) +
       filter_mset (kept now opts (filter (on_disk fs) (added es))) (mset (concat (map seg (wal_paths dir fs))))"

lemma is_i64_UnixNano: "is_i64 (UnixNano t)"
  by (simp add: UnixNano_def is_i64_i64)

lemma Default_ok: "0 < o_PartitionDuration DefaultOptions" "o_CompressionType DefaultOptions \<le> 2"
  by (simp_all add: DefaultOptions_def compression_types)

lemma cmd_scan_ok:
  fixes env source
  assumes "disk_ok cd dbPath DefaultOptions fs es recs seg" "env_turns env 2 = id"
    "parseTime startStr = Inr t0" "endStr \<noteq> []" "parseTime endStr = Inr t1" "UnixNano t0 \<le> UnixNano t1"
  defines "M \<equiv> matching (UnixNano t0) (UnixNano t1) (if source = [] then None else Some source)
    (disk_recs (env_now env 1) dbPath DefaultOptions fs es recs seg)"
  shows "\<exists>rs fs'. cmd_scan cd mm env dbPath startStr endStr source fs = Some (ndjson rs, None, fs') \<and> rec_sorted rs \<and>
    mset rs \<subseteq># M \<and> filter_mset (\<lambda>x. Timestamp x \<noteq> UnixNano t0) (mset rs) = filter_mset (\<lambda>x. Timestamp x \<noteq> UnixNano t0) M"
proof -
  let ?opts = "if source \<noteq> [] then Some \<lparr>so_SourceID = Some source\<rparr> else None"
  from Open_disk [OF assms(1) Default_ok, of mm "env_now env 1"] obtain G e fs1 c where
    o: "engine_Open mm (env_now env 1) dbPath DefaultOptions fs = (Inr e, (fs1, c))" "data_ok cd G e fs1" "cache_ok cd G (fs1, c)"
    "\<not> e_closed e" "engine_recs cd e fs1 = disk_recs (env_now env 1) dbPath DefaultOptions fs es recs seg"
    unfolding disk_recs_def store_ok_def by (metis fst_conv surj_pair)
  have src: "(case ?opts of None \<Rightarrow> None | Some so \<Rightarrow> so_SourceID so) = (if source = [] then None else Some source)" by simp
  from engine_Scan_ok [OF o(2-4) is_i64_UnixNano is_i64_UnixNano assms(6), of "env_now env 2" ?opts, unfolded src]
  obtain it m s1 rs it' s2 where
    sc: "engine_Scan cd (env_now env 2) e (UnixNano t0) (UnixNano t1) ?opts (fs1, c) = (Inr it, e\<lparr>e_metrics := m\<rparr>, s1)"
    "iter_collect (counting_Next cd) counting_View it s1 = Some (rs, it', s2)" "counting_Err it' = None" "rec_sorted rs"
    "mset rs = matching (UnixNano t0) (UnixNano t1) (if source = [] then None else Some source) (mem_recs (e_router e)) +
      (\<Sum>r \<in># mset (all_readers e). mset (scan_recs cd fs1 (UnixNano t0) (UnixNano t1) (if source = [] then None else Some source) r))"
    by blast
  have "\<exists>fs'. cmd_scan cd mm env dbPath startStr endStr source fs = Some (ndjson rs, None, fs')"
    using assms(2-5) o(1) sc(1-3) by (simp add: cmd_scan_def split: prod.splits)
  then show ?thesis using sc(4,5) scan_sums [OF o(2), of "if source = [] then None else Some source" "UnixNano t0" "UnixNano t1"]
    unfolding M_def o(5) by auto
qed

subsection \<open>Properties\<close>

text \<open>
  C10: what the scan command prints, append can read. A file with the lines that \<^verbatim>\<open>scan\<close> prints for some
  records, of any 64-bit timestamps and any bytes, is read back by \<^verbatim>\<open>append --file\<close> as exactly these
  records, in order: JSON, base64 and RFC 3339 with nanoseconds lose nothing. The exception is a record
  whose line has 64 KiB or more: the line scanner rejects it, and with it the whole file.
\<close>

theorem ndjson_roundtrip:
  assumes "\<forall>r \<in> set rs. is_i64 (Timestamp r)"
  shows "batch_records (split_lines (ndjson rs)) =
    (if \<forall>r \<in> set rs. length (scan_line r) < maxScanTokenSize then Inr rs else Inl ErrTooLong)"
  by (rule batch_ndjson [OF assms])

theorem ndjson_roundtrip_witness:
  "batch_records (split_lines (ndjson [\<lparr>Timestamp = -1, SourceID = [1, 255], Payload = [10]\<rparr>])) =
     Inr [\<lparr>Timestamp = -1, SourceID = [1, 255], Payload = [10]\<rparr>]"
proof -
  let ?r = "\<lparr>Timestamp = -1, SourceID = [1, 255], Payload = [10]\<rparr>"
  have "length (scan_line ?r) < maxScanTokenSize" using scan_line_length [of ?r] by simp
  moreover have "\<forall>r \<in> set [?r]. is_i64 (Timestamp r)" by (simp add: is_i64_def)
  ultimately show ?thesis using ndjson_roundtrip [of "[?r]"] by simp
qed


text \<open>
  C11: \<^verbatim>\<open>append --file\<close> is all or nothing for the file and a prefix for the engine. A line that cannot be
  read leaves the engine as it was, whatever the other lines hold. Otherwise the records of the file are
  appended in order, while flushes and compactions run in between: the engine keeps its invariant and
  ends up with its old records and the records before the first one it rejects, all of them exactly when
  the command reports no error.
\<close>

theorem appendBatch_correct:
  assumes "engine_good cd e s" "turns_ok cd mm env" "os_open path (fst s) = Inr f" "\<not> fs_bad (fst s) f"
    and "appendBatch env e path s = (err, e', s')"
  shows "case batch_records (split_lines (fs_data (fst s) f)) of
      Inl er \<Rightarrow> err = Some er \<and> e' = e \<and> s' = s
    | Inr rs \<Rightarrow> (\<forall>r \<in> set rs. ts_ok (o_PartitionDuration (e_opts e)) (Timestamp r)) \<longrightarrow>
        (\<exists>n \<le> length rs. engine_good cd e' s' \<and> (err = None \<longleftrightarrow> n = length rs) \<and>
           engine_recs cd e' (fst s') = engine_recs cd e (fst s) + mset (take n rs))"
proof (cases "batch_records (split_lines (fs_data (fst s) f))")
  case (Inl er)
  then show ?thesis using assms(3-5) by (simp add: appendBatch_def)
next
  case (Inr rs)
  obtain er where a: "append_records env 1 e rs s = (er, e', s')" "err = map_option CliErr er"
    using assms(3-5) Inr by (auto simp: appendBatch_def split: prod.splits)
  from append_records_ok [OF assms(2,1) a(1)] a(2) Inr show ?thesis by auto
qed

definition demo_env :: cli_env where
  "demo_env = \<lparr>env_now = (\<lambda>_. 0), env_turns = (\<lambda>_ c. c)\<rparr>"

lemma demo_env_ok: "turns_ok cd mm demo_env"
  unfolding turns_ok_def demo_env_def by (auto intro: exI [of _ "[]"] run_start)

definition add_file :: "path \<Rightarrow> bytes \<Rightarrow> file_sys \<Rightarrow> file_sys" where
  "add_file p bs fs = fs\<lparr>fs_names := (p, fs_next fs) # fs_names fs, fs_data := (fs_data fs)(fs_next fs := bs),
     fs_next := Suc (fs_next fs)\<rparr>"

theorem appendBatch_correct_witness:
  "\<exists>e fs c f err e' s'. engine_good tag_codecs e (fs, c) \<and> engine_recs tag_codecs e fs = {#} \<and>
     os_open ''in'' fs = Inr f \<and> fs_data fs f = ndjson [zero_record] \<and>
     appendBatch demo_env e ''in'' (fs, c) = (err, e', s') \<and> engine_good tag_codecs e' s' \<and>
     engine_recs tag_codecs e' (fst s') = (if err = None then {#zero_record#} else {#})"
proof -
  have "new_store fs_empty" by (simp add: new_store_def fs_empty_def)
  from Open_new [OF this Default_ok, of True 0 "''d''" tag_codecs] obtain e fs c where
    o: "engine_ok tag_codecs Map.empty e (fs, c)" "engine_recs tag_codecs e fs = {#}" "e_opts e = DefaultOptions" "e_dir e = ''d''"
    "e_files e = []" "e_flushCh e = []" "e_compactCh e = []" by (metis fst_conv surj_pair)
  let ?fs = "add_file ''in'' (ndjson [zero_record]) fs"
  have "fs_faults fs = []" "mf_path (e_manifest e) = path_join ''d'' ''MANIFEST''" using o(1,4) by (auto simp: engine_ok_def store_ok_def names_ok_def)
  moreover then have "fs_frame {''in''} {} fs ?fs" by (auto simp: fs_frame_def add_file_def fs_lookup_def)
  moreover have "harmless e {''in''}"
    using o(4,5) calculation(2) by (auto simp: harmless_def future_def flushPath_def walPath_def compactPath_def path_join_def all_readers_def)
  ultimately have ok: "engine_ok tag_codecs Map.empty e (?fs, c)" "file_recs tag_codecs e ?fs = file_recs tag_codecs e fs"
    using engine_ok_names [OF o(1)] by blast+
  then have g: "engine_good tag_codecs e (?fs, c)" "engine_recs tag_codecs e ?fs = {#}"
    using o(2,6,7) by (auto simp: engine_good_def engine_inv_def chan_ok_def engine_recs_def)
  have f: "os_open ''in'' (fst (?fs, c)) = Inr (fs_next fs)" "fs_data (fst (?fs, c)) (fs_next fs) = ndjson [zero_record]"
    by (simp_all add: os_open_def fs_lookup_def add_file_def)
  have b: "\<not> fs_bad (fst (?fs, c)) (fs_next fs)" using ok(1) by (simp add: engine_ok_def store_ok_def)
  obtain err e' s' where a: "appendBatch demo_env e ''in'' (?fs, c) = (err, e', s')" by (metis surj_pair)
  have "batch_records (split_lines (ndjson [zero_record])) = Inr [zero_record]"
    using batch_ndjson [of "[zero_record]"] scan_line_length [of zero_record] by (simp add: zero_record_def is_i64_def)
  moreover have "ts_ok (o_PartitionDuration (e_opts e)) (Timestamp zero_record)"
    using o(3) by (simp add: ts_ok_def zero_record_def DefaultOptions_def)
  ultimately obtain n where "n \<le> 1" "engine_good tag_codecs e' s'" "err = None \<longleftrightarrow> n = 1"
    "engine_recs tag_codecs e' (fst s') = mset (take n [zero_record])"
    using appendBatch_correct [OF g(1) demo_env_ok f(1) b a] f(2) g(2) by auto
  then have "engine_recs tag_codecs e' (fst s') = (if err = None then {#zero_record#} else {#})" by (cases n) auto
  then show ?thesis using g f a \<open>engine_good tag_codecs e' s'\<close> by (metis fst_conv)
qed


text \<open>
  C9: the scan command on a store. For a directory with a whole manifest, sound files and whole log
  segments, and a start and end that parse and are in order, the command succeeds and prints, as one
  JSON line each and in (Timestamp, SourceID) order, the records of the store in the range and with the
  source, if one is given: records of the files that the manifest names, and of the log where they
  come back. Only records exactly at the start of the range may be missing. No turn of the goroutines
  falls between opening and scanning.
\<close>

theorem cmd_scan_correct:
  assumes "disk_ok cd dbPath DefaultOptions fs es recs seg" "env_turns env 2 = id"
    "parseTime startStr = Inr t0" "endStr \<noteq> []" "parseTime endStr = Inr t1" "UnixNano t0 \<le> UnixNano t1"
  shows "\<exists>rs fs' M. cmd_scan cd mm env dbPath startStr endStr source fs = Some (ndjson rs, None, fs') \<and> rec_sorted rs \<and>
    M = matching (UnixNano t0) (UnixNano t1) (if source = [] then None else Some source)
      (disk_recs (env_now env 1) dbPath DefaultOptions fs es recs seg) \<and> mset rs \<subseteq># M \<and>
    filter_mset (\<lambda>x. Timestamp x \<noteq> UnixNano t0) (mset rs) = filter_mset (\<lambda>x. Timestamp x \<noteq> UnixNano t0) M"
  using cmd_scan_ok [OF assms, of mm source] by blast

lemma disk_ok_opts: "o_PartitionDuration opts' = o_PartitionDuration opts \<Longrightarrow>
    disk_ok cd dir opts' fs es recs seg = disk_ok cd dir opts fs es recs seg"
  by (simp add: disk_ok_def)

theorem cmd_scan_correct_witness:
  "\<exists>fs'. cmd_scan tag_codecs True demo_env ''d'' (Format_RFC3339Nano (time_Unix (-1))) (Format_RFC3339Nano (time_Unix 1)) [] demo_disk =
     Some (ndjson [zero_record], None, fs')"
proof -
  have d: "disk_ok tag_codecs ''d'' DefaultOptions demo_disk [] (\<lambda>_. []) (\<lambda>_. [zero_record])"
    using demo_disk_ok(1) disk_ok_opts [of DefaultOptions demo_opts] by (simp add: demo_opts_def)
  have i: "is_i64 (-1)" "is_i64 1" by (simp_all add: is_i64_def)
  have t: "parseTime (Format_RFC3339Nano (time_Unix (-1))) = Inr (time_Unix (-1))" "parseTime (Format_RFC3339Nano (time_Unix 1)) = Inr (time_Unix 1)"
    using i by (simp_all add: parseTime_Unix)
  have ne: "Format_RFC3339Nano (time_Unix 1) \<noteq> []" by (simp add: format_time_def Let_def split: prod.splits)
  have u: "UnixNano (time_Unix (-1)) = -1" "UnixNano (time_Unix 1) = 1" using i Parse_Unix(2) by blast+
  have "kept 0 DefaultOptions [] zero_record" by (simp add: kept_def covered_def zero_record_def DefaultOptions_def i64_def)
  then have r: "disk_recs 0 ''d'' DefaultOptions demo_disk [] (\<lambda>_. []) (\<lambda>_. [zero_record]) = {#zero_record#}"
    by (simp add: disk_recs_def added_def demo_disk_ok(2))
  have m: "matching (-1) 1 None {#zero_record#} = {#zero_record#}"
    by (simp add: matching_def in_range_def src_match_def zero_record_def)
  have "env_turns demo_env 2 = id" "env_now demo_env 1 = 0" by (auto simp: demo_env_def)
  with cmd_scan_correct [OF d this(1) t(1) ne t(2), of True "[]"] u r m obtain rs fs' where
    k: "cmd_scan tag_codecs True demo_env ''d'' (Format_RFC3339Nano (time_Unix (-1))) (Format_RFC3339Nano (time_Unix 1)) [] demo_disk =
      Some (ndjson rs, None, fs')" "mset rs \<subseteq># {#zero_record#}"
      "filter_mset (\<lambda>x. Timestamp x \<noteq> -1) (mset rs) = filter_mset (\<lambda>x. Timestamp x \<noteq> -1) {#zero_record#}" by auto
  have "zero_record \<in># filter_mset (\<lambda>x. Timestamp x \<noteq> -1) (mset rs)" unfolding k(3) by (simp add: zero_record_def)
  then have "mset rs = {#zero_record#}" using k(2) by (intro subset_mset.antisym) simp_all
  then have "rs = [zero_record]" by simp
  then show ?thesis using k(1) by blast
qed


end
