(* ===== verification/Durable.thy ===== *)
theory Durable
  imports Recovery
begin

text \<open>
  What a running engine has on disk, and what a restart after a crash brings back. The invariant says
  that the manifest names exactly the files of the engine, that these are whole and on stable storage,
  and that every segment of the log is a sequence of records that were handed to \<^verbatim>\<open>Append\<close>. Every
  step of a client or goroutine keeps it, so that \<^verbatim>\<open>Open\<close> finds a sound directory after any crash.
\<close>

subsection \<open>The invariant\<close>

definition files_inv :: "codecs \<Rightarrow> Engine \<Rightarrow> file_sys \<Rightarrow> bool" where
  "files_inv cd e fs \<longleftrightarrow> (\<exists>es. manifest_log (e_manifest e) fs es \<and> (\<forall>ed \<in> set es. length (ve_AddedFiles ed) \<le> 1) \<and>
     mset (filter (on_disk fs) (added es)) = image_mset entry_of (mset (all_readers e)) \<and>
     (\<forall>r \<in> set (all_readers e). sst_stored cd fs (o_PartitionDuration (e_opts e)) r) \<and>
     (\<forall>fe \<in> set (deleted es). \<not> on_disk fs fe) \<and>
     (\<forall>fe \<in> set (added es) \<union> set (deleted es). \<not> future e (fe_Path fe) \<and> suffix ''.sst'' (fe_Path fe)))"

text \<open>
  With \<open>SyncAlways\<close> every segment is on stable storage. Together the segments hold records of the bag \<open>H\<close>,
  each at most as often; the active one holds the list \<open>A\<close>.
\<close>

definition seg_paths :: "file_sys \<Rightarrow> path set" where
  "seg_paths fs = {p. fs_lookup fs p \<noteq> None \<and> last p = CHR ''l''}"

definition seg_as :: "file_sys \<Rightarrow> (path \<Rightarrow> go_record list) \<Rightarrow> bool" where
  "seg_as fs S \<longleftrightarrow> (\<forall>p i. fs_lookup fs p = Some i \<and> last p = CHR ''l'' \<longrightarrow>
     fs_data fs i = wal_bytes (S p) \<and> fs_synced fs i = length (fs_data fs i))"

definition log_inv :: "path \<Rightarrow> go_record multiset \<Rightarrow> go_record list \<Rightarrow> Engine \<Rightarrow> file_sys \<Rightarrow> bool" where
  "log_inv d H A e fs \<longleftrightarrow> e_dir e = d \<and> w_syncMode (e_wal e) = SyncAlways \<and> fs_lookup fs (w_path (e_wal e)) = Some (w_file (e_wal e)) \<and>
     wal_log (e_wal e) fs A \<and> \<not> e_closed e \<and>
     (\<exists>S. seg_as fs S \<and> (\<Sum>p \<in> seg_paths fs. mset (S p)) \<subseteq># H \<and> S (w_path (e_wal e)) = A)"

definition tracked :: "codecs \<Rightarrow> path \<Rightarrow> go_record multiset \<Rightarrow> go_record list \<Rightarrow> Engine \<Rightarrow> file_sys \<Rightarrow> bool" where
  "tracked cd d H A e fs \<longleftrightarrow> files_inv cd e fs \<and> log_inv d H A e fs \<and> fs_inj fs"

lemma finite_seg_paths [simp]: "finite (seg_paths fs)"
proof -
  have "seg_paths fs \<subseteq> dom (map_of (fs_names fs))" by (auto simp: seg_paths_def fs_lookup_def)
  then show ?thesis using finite_dom_map_of finite_subset by blast
qed

lemma sum_mset_mono: "finite Y \<Longrightarrow> X \<subseteq> Y \<Longrightarrow> (\<Sum>x \<in> X. f x) \<subseteq># (\<Sum>x \<in> Y. f x)" for f :: "'a \<Rightarrow> 'b multiset"
  by (simp add: sum.subset_diff)

lemma entry_path [simp]: "fe_Path (meta_entry m) = sm_Path m"
  by (simp add: meta_entry_def)

lemma sst_stored_same:
  assumes "sst_stored cd fs dur r" "fs_lookup fs' (rpath r) = fs_lookup fs (rpath r)" "fs_bad fs' = fs_bad fs"
    and "fs_data fs' (r_file r) = fs_data fs (r_file r)" "fs_synced fs' (r_file r) = fs_synced fs (r_file r)"
  shows "sst_stored cd fs' dur r"
proof -
  have "recs_of cd fs' r = recs_of cd fs r" using assms(3,4) by (intro recs_of_same) (simp add: same_file_def)
  moreover from assms(1) obtain f wo bs where f: "fs_lookup fs (rpath r) = Some f" "fs_data fs f = sst_layout cd (rpath r) wo bs"
    "layout_ok cd (rpath r) wo bs" "bs \<noteq> []" "recs_of cd fs r = concat bs" "entry_of r = meta_entry (layout_meta cd (rpath r) wo bs)"
    "\<forall>x \<in> set (recs_of cd fs r). in_window (entry_window (entry_of r)) (Timestamp x) \<and> ts_ok dur (Timestamp x)" "f = r_file r"
    unfolding sst_stored_def stored_def entry_path by auto
  then have "stored cd fs' dur (entry_of r) (recs_of cd fs r)"
    unfolding stored_def entry_path using assms(2,4) by metis
  ultimately show ?thesis using assms(1,2,4,5) by (simp add: sst_stored_def)
qed

lemma filter_image_mset: "filter_mset P (image_mset f M) = image_mset f (filter_mset (\<lambda>x. P (f x)) M)"
  by (induction M) auto

subsection \<open>Changes of the files keep the invariant\<close>

lemma files_inv_edit:
  assumes "engine_ok cd G e (fs, c)" "files_inv cd e fs" "disk_edit cd W F e fs e' fs' news xs"
    and "F \<subseteq> {mf_f (e_manifest e), w_file (e_wal e)}" "\<forall>p \<in> W. last p = CHR ''l''" "e_opts e' = e_opts e"
  shows "files_inv cd e' fs'"
proof -
  let ?dur = "o_PartitionDuration (e_opts e)"
  from assms(2) obtain es where es: "manifest_log (e_manifest e) fs es" "\<forall>ed \<in> set es. length (ve_AddedFiles ed) \<le> 1"
    "mset (filter (on_disk fs) (added es)) = image_mset entry_of (mset (all_readers e))"
    "\<And>r. r \<in> set (all_readers e) \<Longrightarrow> sst_stored cd fs ?dur r" "\<And>fe. fe \<in> set (deleted es) \<Longrightarrow> \<not> on_disk fs fe"
    "\<And>fe. fe \<in> set (added es) \<union> set (deleted es) \<Longrightarrow> \<not> future e (fe_Path fe) \<and> suffix ''.sst'' (fe_Path fe)"
    unfolding files_inv_def by blast
  from assms(3) es(1) obtain eds where ed: "manifest_log (e_manifest e') fs' (es @ eds)"
    "added eds = map entry_of news" "deleted eds = map entry_of xs" "\<forall>ed \<in> set eds. length (ve_AddedFiles ed) \<le> 1"
    unfolding disk_edit_def by blast
  have d: "set xs \<subseteq> set (all_readers e)"
    "mset (all_readers e') = filter_mset (\<lambda>r. rpath r \<notin> rpath ` set xs) (mset (all_readers e)) + mset news"
    "\<And>r. r \<in> set news \<Longrightarrow> sst_stored cd fs' ?dur r \<and> suffix ''.sst'' (rpath r) \<and> future e (rpath r) \<and> \<not> future e' (rpath r)"
    "\<And>p. future e' p \<Longrightarrow> future e p"
    "\<And>q. q \<notin> W \<Longrightarrow> q \<notin> rpath ` set news \<Longrightarrow> fs_lookup fs' q = (if q \<in> rpath ` set xs then None else fs_lookup fs q)"
    "\<And>j. j < fs_next fs \<Longrightarrow> j \<notin> F \<Longrightarrow> fs_data fs' j = fs_data fs j \<and> fs_synced fs' j = fs_synced fs j" "fs_bad fs' = fs_bad fs"
    using assms(3) unfolding disk_edit_def by blast+
  have sst: "p \<notin> W" if "suffix ''.sst'' p" for p using assms(5) that suffix_last(1) [OF that] by auto
  have old: "fs_lookup fs' p = (if p \<in> rpath ` set xs then None else fs_lookup fs p)" if "\<not> future e p" "suffix ''.sst'' p" for p
    using that d(3,5) sst by fastforce
  have ok: "data_ok cd G e fs" "store_ok cd G e (fs, c)" "names_ok G e fs" using assms(1) by (auto simp: engine_ok_def)
  have rd: "\<not> future e (rpath r) \<and> suffix ''.sst'' (rpath r)" if "r \<in> set (all_readers e)" for r
  proof -
    have "entry_of r \<in># mset (filter (on_disk fs) (added es))" using es(3) that by simp
    then show ?thesis using es(6) [of "entry_of r"] by simp
  qed
  have "sst_stored cd fs' ?dur r" if "r \<in> set (all_readers e')" for r
  proof (cases "r \<in> set news")
    case False
    then have r: "r \<in> set (all_readers e)" "rpath r \<notin> rpath ` set xs"
      using that arg_cong [OF d(2), of set_mset] by auto
    have "G (rpath r) = Some r" by (rule data_ok_registered(1) [OF ok(1) r(1)])
    then have "r_file r < fs_next fs" "r_file r \<notin> F" using ok(2) assms(4) by (auto simp: store_ok_def)
    note inode = d(6) [OF this]
    have "fs_lookup fs' (rpath r) = fs_lookup fs (rpath r)" using old rd [OF r(1)] r(2) by presburger
    from sst_stored_same [OF es(4) [OF r(1)] this d(7)] inode show ?thesis by blast
  qed (use d(3) in blast)
  moreover have "mset (filter (on_disk fs') (added (es @ eds))) = image_mset entry_of (mset (all_readers e'))"
  proof -
    have "on_disk fs' fe \<longleftrightarrow> on_disk fs fe \<and> fe_Path fe \<notin> rpath ` set xs" if "fe \<in> set (added es)" for fe
      using old [of "fe_Path fe"] es(6) [of fe] that by (auto simp: on_disk_def)
    then have "filter (on_disk fs') (added es) = filter (\<lambda>fe. fe_Path fe \<notin> rpath ` set xs) (filter (on_disk fs) (added es))"
      by (auto intro: filter_cong)
    then have "mset (filter (on_disk fs') (added es)) = filter_mset (\<lambda>fe. fe_Path fe \<notin> rpath ` set xs) (mset (filter (on_disk fs) (added es)))"
      by (metis mset_filter)
    moreover have "filter (on_disk fs') (added eds) = added eds"
      using d(3) ed(2) by (auto simp: on_disk_def sst_stored_def filter_id_conv)
    ultimately show ?thesis unfolding added_append filter_append mset_append es(3) filter_image_mset d(2) ed(2) by simp
  qed
  moreover have "\<not> on_disk fs' fe" if fe: "fe \<in> set (deleted (es @ eds))" for fe
  proof (cases "fe \<in> set (deleted es)")
    case True
    then show ?thesis using es(5,6) [of fe] old by (simp add: on_disk_def)
  next
    case False
    then obtain x where "x \<in> set xs" "fe = entry_of x" using fe ed(3) by auto
    then show ?thesis using old [of "rpath x"] rd [of x] d(1) by (auto simp: on_disk_def)
  qed
  moreover have "\<not> future e' (fe_Path fe) \<and> suffix ''.sst'' (fe_Path fe)" if "fe \<in> set (added (es @ eds)) \<union> set (deleted (es @ eds))" for fe
    using that ed(2,3) es(6) d(1,3,4) rd by fastforce
  ultimately show ?thesis using es(2) ed(1,4) assms(6) unfolding files_inv_def
    by (intro exI [of _ "es @ eds"]) auto
qed

lemma files_inv_fields:
  assumes "e_manifest e' = e_manifest e" "e_files e' = e_files e" "e_opts e' = e_opts e" "e_dir e' = e_dir e"
    "e_walSeq e' = e_walSeq e" "e_compactSeq e' = e_compactSeq e"
  shows "files_inv cd e' fs = files_inv cd e fs"
proof -
  have "all_readers e' = all_readers e" using assms(2) by (simp add: all_readers_def)
  moreover have "future e' = future e" using path_fields [OF assms(4)] assms(5,6) by (simp add: fun_eq_iff future_def)
  ultimately show ?thesis using assms(1,3) by (simp add: files_inv_def)
qed

lemma files_inv_paths:
  assumes "files_inv cd e fs" "r \<in> set (all_readers e)"
  shows "suffix ''.sst'' (rpath r)"
proof -
  from assms(1) obtain es where es: "mset (filter (on_disk fs) (added es)) = image_mset entry_of (mset (all_readers e))"
    "\<forall>fe \<in> set (added es) \<union> set (deleted es). suffix ''.sst'' (fe_Path fe)" unfolding files_inv_def by blast
  have "entry_of r \<in># mset (filter (on_disk fs) (added es))" unfolding es(1) using assms(2) by simp
  then have "entry_of r \<in> set (added es)" by simp
  then show ?thesis using bspec [OF es(2), of "entry_of r"] by simp
qed

lemma inode_owner:
  assumes "tracked cd d H A e fs" "engine_ok cd G e (fs, c)" "fs_lookup fs p = Some i" "last p = CHR ''l''"
  shows "i < fs_next fs" "i \<noteq> mf_f (e_manifest e)" "i = w_file (e_wal e) \<longleftrightarrow> p = w_path (e_wal e)"
proof -
  have inj: "i < fs_next fs \<and> (\<forall>q. fs_lookup fs q = Some i \<longrightarrow> q = p)" using assms(1,3) unfolding tracked_def fs_inj_def by blast
  then show "i < fs_next fs" by blast
  have "mf_path (e_manifest e) = path_join (e_dir e) ''MANIFEST''" using assms(2) by (simp add: engine_ok_def names_ok_def)
  then have "last (mf_path (e_manifest e)) = CHR ''T''" using name_ends(4) by simp
  moreover have "fs_lookup fs (mf_path (e_manifest e)) = Some (mf_f (e_manifest e))"
    using assms(2) by (auto simp: engine_ok_def store_ok_def manifest_log_def manifest_file_def)
  ultimately show "i \<noteq> mf_f (e_manifest e)" using inj assms(4) by auto
  have "fs_lookup fs (w_path (e_wal e)) = Some (w_file (e_wal e))" using assms(1) by (simp add: tracked_def log_inv_def)
  then show "i = w_file (e_wal e) \<longleftrightarrow> p = w_path (e_wal e)" using inj assms(3) by (metis option.inject)
qed

lemma tracked_quiet:
  assumes "quiet_step cd (e, fs) (e', fs')" "tracked cd d H A e fs"
  shows "tracked cd d H A e' fs'"
proof -
  from assms(1) obtain G c where q: "engine_ok cd G e (fs, c)" "e_wal e' = e_wal e" "e_dir e' = e_dir e" "e_walSeq e' = e_walSeq e"
    "e_opts e' = e_opts e" "e_closed e' = e_closed e" "fs' = fs \<and> e_manifest e' = e_manifest e \<and> e_files e' = e_files e \<and> e_compactSeq e' = e_compactSeq e \<or>
      (\<exists>news xs. disk_edit cd {} {mf_f (e_manifest e)} e fs e' fs' news xs)" unfolding quiet_step_def by blast
  from q(7) show ?thesis
  proof (elim disjE conjE exE)
    assume "fs' = fs" "e_manifest e' = e_manifest e" "e_files e' = e_files e" "e_compactSeq e' = e_compactSeq e"
    then show ?thesis using assms(2) q(2-6) files_inv_fields [of e' e] by (simp add: tracked_def log_inv_def)
  next
    fix news xs
    assume ed: "disk_edit cd {} {mf_f (e_manifest e)} e fs e' fs' news xs"
    have inv: "files_inv cd e fs" "log_inv d H A e fs" "fs_inj fs" using assms(2) by (auto simp: tracked_def)
    have look: "fs_lookup fs' p = fs_lookup fs p" if "last p = CHR ''l''" for p
    proof -
      have "suffix ''.sst'' (rpath r)" if "r \<in> set news \<union> set xs" for r
        using ed that files_inv_paths [OF inv(1)] unfolding disk_edit_def by blast
      then have "p \<notin> rpath ` set news" "p \<notin> rpath ` set xs" using that suffix_last(1) by fastforce+
      then show ?thesis using ed unfolding disk_edit_def by simp
    qed
    have wl: "last (w_path (e_wal e)) = CHR ''l''" using q(1) name_ends(3) by (auto simp: engine_ok_def names_ok_def)
    have same: "fs_data fs' i = fs_data fs i \<and> fs_synced fs' i = fs_synced fs i" if "fs_lookup fs p = Some i" "last p = CHR ''l''" for p i
      using inode_owner(1,2) [OF assms(2) q(1) that] ed unfolding disk_edit_def by blast
    have "fs_lookup fs (w_path (e_wal e)) = Some (w_file (e_wal e))" "wal_log (e_wal e) fs A" using inv(2) by (auto simp: log_inv_def)
    then have "wal_log (e_wal e) fs' A" using same wl wal_log_same by blast
    moreover obtain S where S: "seg_as fs S" "(\<Sum>p \<in> seg_paths fs. mset (S p)) \<subseteq># H" "S (w_path (e_wal e)) = A"
      using inv(2) unfolding log_inv_def by blast
    have "seg_as fs' S" using S(1) same look unfolding seg_as_def by metis
    moreover have "seg_paths fs' = seg_paths fs" using look by (auto simp: seg_paths_def)
    ultimately have "log_inv d H A e' fs'" using inv(2) look [OF wl] q(2,3,6) S(2,3) unfolding log_inv_def by metis
    moreover have "fs_inj fs'" using ed inv(3) unfolding disk_edit_def by blast
    ultimately show ?thesis using files_inv_edit [OF q(1) inv(1) ed _ _ q(5)] by (simp add: tracked_def)
  qed
qed

lemma tracked_quiets:
  assumes "(quiet_step cd)\<^sup>*\<^sup>* (e, fs) (e', fs')" "tracked cd d H A e fs"
  shows "tracked cd d H A e' fs'"
  using assms by (induction rule: rtranclp_induct2) (auto intro: tracked_quiet)


subsection \<open>Every step keeps the invariant\<close>

lemma Append_disk:
  assumes "\<not> e_closed e" "engine_Append now e r s = (err, e', s')" "wal_Append (e_wal e) r (fst s) = (werr, w, fs)"
  shows "e_wal e' = w" "fst s' = fs" "e_manifest e' = e_manifest e" "e_files e' = e_files e" "e_opts e' = e_opts e"
    "e_dir e' = e_dir e" "e_walSeq e' = e_walSeq e" "e_compactSeq e' = e_compactSeq e" "\<not> e_closed e'"
  using assms by (auto simp: engine_Append_def Let_def split: prod.splits option.splits sum.splits if_splits)

lemma log_inv_active:
  assumes "engine_ok cd G e (fs, c)" "log_inv d H A e fs"
  shows "wal_log (e_wal e) fs A" "w_path (e_wal e) \<in> seg_paths fs" "w_path (e_wal e) = walPath e (e_walSeq e)"
  using assms name_ends(3) [of e "e_walSeq e"] by (auto simp: log_inv_def engine_ok_def names_ok_def seg_paths_def)

lemma append_tracked:
  assumes "engine_ok cd G e (fs, c)" "\<not> e_closed e" "engine_Append now e r (fs, c) = (err, e', s')" "tracked cd d H A e fs"
  shows "tracked cd d (add_mset r H) (A @ [r]) e' (fst s')"
proof -
  have inv: "files_inv cd e fs" "log_inv d H A e fs" "fs_inj fs" using assms(4) by (auto simp: tracked_def)
  note rs = log_inv_active [OF assms(1) inv(2)]
  have st: "store_ok cd G e (fs, c)" "fs_faults fs = []" using assms(1) by (auto simp: engine_ok_def store_ok_def)
  from wal_Append_ok [OF st(2) rs(1)] obtain w fs1 where
    w: "wal_Append (e_wal e) r fs = (None, w, fs1)" "wal_log w fs1 (A @ [r])" "wal_frame (e_wal e) fs w fs1" by blast
  have "wal_Append (e_wal e) r (fst (fs, c)) = (None, w, fs1)" using w(1) by simp
  note f = Append_disk [OF assms(2,3) this]
  have fr: "fs_names fs1 = fs_names fs" "fs_bad fs1 = fs_bad fs" "fs_next fs1 = fs_next fs" "w_file w = w_file (e_wal e)"
    "w_path w = w_path (e_wal e)" "w_syncMode w = w_syncMode (e_wal e)"
    "\<And>j. j \<noteq> w_file (e_wal e) \<Longrightarrow> fs_data fs1 j = fs_data fs j \<and> fs_synced fs1 j = fs_synced fs j"
    using w(3) by (auto simp: wal_frame_def)
  have lk: "fs_lookup fs1 = fs_lookup fs" using fr(1) by (simp add: fun_eq_iff fs_lookup_def)
  have "files_inv cd e' fs1"
  proof -
    have "manifest_log (e_manifest e) fs1 es" if "manifest_log (e_manifest e) fs es" for es
      using that st(1) fr(2) lk fr(7) [of "mf_f (e_manifest e)"] by (intro manifest_log_same [OF that]) (auto simp: store_ok_def)
    then have "disk_edit cd {} {w_file (e_wal e)} e fs e fs1 [] []"
      using lk fr inv(3) unfolding disk_edit_def fs_inj_def
      by (auto simp: added_def deleted_def intro!: exI [of _ "[]"])
    from files_inv_edit [OF assms(1) inv(1) this] show ?thesis using files_inv_fields [of e' e] f by simp
  qed
  moreover have "log_inv d (add_mset r H) (A @ [r]) e' fs1"
  proof -
    let ?w = "w_path (e_wal e)"
    obtain S where S: "seg_as fs S" "(\<Sum>p \<in> seg_paths fs. mset (S p)) \<subseteq># H" "S ?w = A"
      using inv(2) unfolding log_inv_def by blast
    let ?S = "S(?w := A @ [r])"
    have "seg_as fs1 ?S"
      unfolding seg_as_def
    proof (intro allI impI)
      fix p i
      assume p: "fs_lookup fs1 p = Some i \<and> last p = CHR ''l''"
      have own: "i = w_file (e_wal e) \<longleftrightarrow> p = ?w" using inode_owner(3) [OF assms(4,1)] p lk by simp
      show "fs_data fs1 i = wal_bytes (?S p) \<and> fs_synced fs1 i = length (fs_data fs1 i)"
      proof (cases "p = ?w")
        case True
        have "w_syncMode w = SyncAlways" using inv(2) fr(6) by (simp add: log_inv_def)
        then show ?thesis using w(2) fr(4) True own by (auto simp: wal_log_def bw_view_def)
      next
        case False
        then show ?thesis using S(1) p lk own fr(7) by (simp add: seg_as_def)
      qed
    qed
    moreover have "(\<Sum>p \<in> seg_paths fs. mset (?S p)) = add_mset r (\<Sum>p \<in> seg_paths fs. mset (S p))"
      using S(3) rs(2) by (simp add: sum.remove [of "seg_paths fs" ?w])
    moreover have "seg_paths fs1 = seg_paths fs" using lk by (simp add: seg_paths_def)
    ultimately show ?thesis using inv(2) f(1,6,9) fr(4-6) lk w(2) S(2) unfolding log_inv_def
      by (auto intro!: exI [of _ ?S])
  qed
  moreover have "fs_inj fs1" using inv(3) lk fr(3) by (simp add: fs_inj_def)
  ultimately show ?thesis using f(2) by (simp add: tracked_def)
qed

lemma flush_tracked:
  assumes "engine_ok cd G e (fs, c)" "engine_ok cd G' e' (fs', c')" "rotated e fs e' fs'" "wal_log (e_wal e') fs' []" "e_opts e' = e_opts e" "e_closed e' = e_closed e"
    and "disk_edit cd {walPath e (e_walSeq e + 1), walPath e (e_walSeq e)} {mf_f (e_manifest e), w_file (e_wal e)} e fs e' fs' news []"
    and "tracked cd d H A e fs"
  shows "tracked cd d H [] e' fs'"
proof -
  let ?np = "walPath e (e_walSeq e + 1)" let ?old = "walPath e (e_walSeq e)"
  have inv: "files_inv cd e fs" "log_inv d H A e fs" "fs_inj fs" using assms(8) by (auto simp: tracked_def)
  note rs = log_inv_active [OF assms(1) inv(2)]
  have r: "w_file (e_wal e') = fs_next fs" "w_syncMode (e_wal e') = SyncAlways" "fs_lookup fs' ?np = Some (fs_next fs)"
    "fs_lookup fs' ?old \<in> {None, fs_lookup fs ?old}" "sealed_log (e_wal e) fs fs'" "walPath e' = walPath e" "e_walSeq e' = e_walSeq e + 1" "e_dir e' = d"
    using assms(3) inv(2) path_fields(1) [of e' e] by (auto simp: rotated_def log_inv_def)
  have wp: "w_path (e_wal e') = ?np" using assms(2) r(6,7) by (simp add: engine_ok_def names_ok_def)
  have look: "fs_lookup fs' p = fs_lookup fs p" if "last p = CHR ''l''" "p \<noteq> ?np" "p \<noteq> ?old" for p
  proof -
    have "p \<notin> rpath ` set news" using that(1) assms(7) suffix_last(1) unfolding disk_edit_def by fastforce
    then show ?thesis using assms(7) that(2,3) unfolding disk_edit_def by simp
  qed
  obtain S where S: "seg_as fs S" "(\<Sum>p \<in> seg_paths fs. mset (S p)) \<subseteq># H" "S ?old = A"
    using inv(2) rs(3) unfolding log_inv_def by metis
  let ?S = "S(?np := [])"
  have "fs_data fs' i = wal_bytes (?S p) \<and> fs_synced fs' i = length (fs_data fs' i)"
    if p: "fs_lookup fs' p = Some i" "last p = CHR ''l''" for p i
  proof -
    consider "p = ?np" | "p = ?old" "p \<noteq> ?np" | "p \<noteq> ?np" "p \<noteq> ?old" by blast
    then show ?thesis
    proof cases
      case 1
      then have "i = w_file (e_wal e')" using p(1) r(1,3) by simp
      then show ?thesis using assms(4) r(2) 1 by (auto simp: wal_log_def bw_view_def)
    next
      case 2
      then have "fs_lookup fs ?old = Some i" using p(1) r(4) by auto
      then have "i = w_file (e_wal e)" using inv(2) rs(3) by (simp add: log_inv_def)
      then show ?thesis using r(5) rs(1) S(3) 2 by (simp add: sealed_log_def wal_log_def)
    next
      case 3
      then have l: "fs_lookup fs p = Some i" using look p by simp
      have "fs_data fs' i = fs_data fs i \<and> fs_synced fs' i = fs_synced fs i"
        using inode_owner [OF assms(8,1) l p(2)] 3(2) rs(3) assms(7) unfolding disk_edit_def by auto
      then show ?thesis using S(1) l p(2) 3(1) by (simp add: seg_as_def)
    qed
  qed
  then have seg: "seg_as fs' ?S" unfolding seg_as_def by blast
  have "(\<Sum>p \<in> seg_paths fs'. mset (?S p)) = (\<Sum>p \<in> seg_paths fs' - {?np}. mset (?S p))"
    by (rule sum.mono_neutral_right) auto
  also have "\<dots> = (\<Sum>p \<in> seg_paths fs' - {?np}. mset (S p))" by (rule sum.cong) auto
  also have "\<dots> \<subseteq># (\<Sum>p \<in> seg_paths fs. mset (S p))"
  proof (rule sum_mset_mono)
    show "seg_paths fs' - {?np} \<subseteq> seg_paths fs"
    proof
      fix p
      assume "p \<in> seg_paths fs' - {?np}"
      then show "p \<in> seg_paths fs" using look [of p] r(4) by (cases "p = ?old") (auto simp: seg_paths_def)
    qed
  qed simp
  finally have "(\<Sum>p \<in> seg_paths fs'. mset (?S p)) \<subseteq># H" using S(2) by (rule subset_mset.order_trans)
  moreover have "?S (w_path (e_wal e')) = []" using wp by simp
  moreover have "e_dir e' = d" "w_syncMode (e_wal e') = SyncAlways" "fs_lookup fs' (w_path (e_wal e')) = Some (w_file (e_wal e'))" "\<not> e_closed e'"
    using r(1-3,8) wp assms(6) inv(2) by (simp_all add: log_inv_def)
  ultimately have "log_inv d H [] e' fs'" using seg assms(4) unfolding log_inv_def by blast
  moreover have "fs_inj fs'" using assms(7) inv(3) unfolding disk_edit_def by blast
  moreover have "files_inv cd e' fs'"
    by (rule files_inv_edit [OF assms(1) inv(1) assms(7) _ _ assms(5)]) (use name_ends(3) in auto)
  ultimately show ?thesis by (simp add: tracked_def)
qed


text \<open>The records that a run hands to \<^verbatim>\<open>Append\<close>, accepted or not: all of them are logged.\<close>

fun step_recs :: "step_label \<Rightarrow> go_record list" where
  "step_recs (LAppend r) = [r]"
| "step_recs (LReject r err) = [r]"
| "step_recs _ = []"

definition logged :: "step_label list \<Rightarrow> go_record list" where
  "logged ls = concat (map step_recs ls)"

lemma logged_snoc: "logged [] = []" "logged (ls @ [l]) = logged ls @ step_recs l"
  by (simp_all add: logged_def)

text \<open>Those handed over since the last flush.\<close>

definition since_flush :: "step_label list \<Rightarrow> go_record list" where
  "since_flush ls = logged (rev (takeWhile (\<lambda>l. l \<noteq> LFlush) (rev ls)))"

lemma since_flush_snoc:
  "since_flush [] = []" "since_flush (ls @ [l]) = (if l = LFlush then [] else since_flush ls @ step_recs l)"
  by (simp_all add: since_flush_def logged_snoc)

lemma append_step_tracked:
  assumes "engine_good cd e s" "engine_Append now e r s = (err, e', s')" "tracked cd d H A e (fst s)"
  shows "tracked cd d (add_mset r H) (A @ [r]) e' (fst s')"
proof -
  have False: "\<not> e_closed e" using assms(3) by (simp add: tracked_def log_inv_def)
  obtain fs c where s: "s = (fs, c)" by (cases s)
  from assms(1) s obtain G where "engine_ok cd G e (fs, c)" by (auto simp: engine_good_def engine_inv_def)
  from append_tracked [OF this False] assms(2,3) s show ?thesis by simp
qed

lemma flush_step_tracked:
  assumes "engine_good cd e s" "e_flushCh e = win # ch" "flush_fits cd e win (fst s)" "runFlusher_turn cd mm e s = (e', s')"
    and "tracked cd d H A e (fst s)"
  shows "tracked cd d H [] e' (fst s')"
proof -
  obtain fs c where s: "s = (fs, c)" by (cases s)
  from assms(1,2) s obtain G p where g: "engine_ok cd G e (fs, c)" "map_of (rt_partitions (e_router e)) win = Some p"
    by (auto simp: engine_good_def engine_inv_def chan_ok_def)
  let ?e = "e\<lparr>e_flushCh := ch\<rparr>"
  have fits: "flush_fits cd ?e win fs"
    using assms(3) s path_fields [of ?e e] by (simp add: flush_fits_def writerOptions_def)
  have e: "engine_ok cd G ?e (fs, c)" "map_of (rt_partitions (e_router ?e)) win = Some p" using g by simp_all
  from flushPartition_ok [OF e fits, of mm] obtain G' e1 fs1 news where
    f: "flushPartition cd mm ?e win (fs, c) = (None, e1, (fs1, c))" "engine_ok cd G' e1 (fs1, c)" "e_opts e1 = e_opts ?e"
    "wal_log (e_wal e1) fs1 []" "rotated ?e fs e1 fs1" "e_closed e1 = e_closed ?e"
    "disk_edit cd {walPath ?e (e_walSeq ?e + 1), walPath ?e (e_walSeq ?e)} {mf_f (e_manifest ?e), w_file (e_wal ?e)} ?e fs e1 fs1 news []"
    by blast
  have "tracked cd d H A ?e fs" using assms(5) s files_inv_fields [of ?e e] by (simp add: tracked_def log_inv_def)
  from flush_tracked [OF e(1) f(2,5,4,3,6,7) this] show ?thesis using assms(2,4) s f(1) by (auto simp: runFlusher_turn_def)
qed

lemma compact_step_tracked:
  assumes "engine_good cd e s" "ev \<noteq> RetentionTick" "turn_fits cd mm now dt ev e s"
    and "runCompactor_turn cd mm now dt ev e s = Some (e', s')" "tracked cd d H A e (fst s)"
  shows "tracked cd d H A e' (fst s')"
proof -
  obtain fs c where s: "s = (fs, c)" by (cases s)
  from assms(1) s obtain G where g: "engine_ok cd G e (fs, c)" by (auto simp: engine_good_def engine_inv_def)
  show ?thesis
  proof (cases ev)
    case CompactSignal
    show ?thesis
    proof (cases "e_compactCh e")
      case Nil
      then show ?thesis using CompactSignal assms(4,5) by simp
    next
      case (Cons win ch)
      let ?e = "e\<lparr>e_compactCh := ch\<rparr>"
      have fits: "compact_fits cd ?e win fs"
        using assms(3) CompactSignal Cons s path_fields [of ?e e]
        by (simp add: turn_fits_def compact_fits_def writerOptions_def files_of_def)
      have "maybeCompact cd mm dt win ?e (fs, c) = Some (e', s')" "engine_ok cd G ?e (fs, c)"
        using assms(4) CompactSignal Cons s g by simp_all
      from maybeCompact_quiet [OF this(2) fits this(1)] have "quiet_step cd (?e, fs) (e', fst s')" .
      moreover have "tracked cd d H A ?e fs" using assms(5) s files_inv_fields [of ?e e] by (simp add: tracked_def log_inv_def)
      ultimately show ?thesis by (rule tracked_quiet)
    qed
  next
    case CompactTick
    let ?e = "e\<lparr>e_router := SealExpired (e_router e) now\<rparr>"
    have fits: "sweep_fits cd mm dt (map fst (e_files ?e)) ?e (fs, c)" using assms(3) CompactTick s by (simp add: turn_fits_def)
    from compact_windows_ok [OF SealExpired_engine_ok(1) [OF g] fits] assms(4) CompactTick s
    have "(quiet_step cd)\<^sup>*\<^sup>* (?e, fs) (e', fst s')" by (auto simp: sweepCompaction_def Let_def)
    then have "(quiet_step cd)\<^sup>*\<^sup>* (e, fs) (e', fst s')"
      by (rule converse_rtranclp_into_rtranclp [of "quiet_step cd", OF router_quiet [OF g]])
    then show ?thesis using tracked_quiets assms(5) s by (metis fst_conv)
  qed (use assms(2) in simp)
qed

lemma retain_step_tracked:
  assumes "engine_good cd e s" "0 < o_RetentionDuration (e_opts e)" "turn_fits cd mm now dt RetentionTick e s"
    and "runCompactor_turn cd mm now dt RetentionTick e s = Some (e', s')" "tracked cd d H A e (fst s)"
  shows "tracked cd d H A e' (fst s')"
proof -
  obtain fs c where s: "s = (fs, c)" by (cases s)
  from assms(1) s obtain G where g: "engine_ok cd G e (fs, c)" by (auto simp: engine_good_def engine_inv_def)
  have "retire_fits e (i64 (now - o_RetentionDuration (e_opts e))) fs" using assms(3) s by (simp add: turn_fits_def)
  from sweepRetention_ok [OF g _ this] assms(2,4) s have "(quiet_step cd)\<^sup>*\<^sup>* (e, fs) (e', fst s')" by auto
  then show ?thesis using tracked_quiets assms(5) s by (metis fst_conv)
qed


lemma step_tracked:
  assumes "engine_good cd e s" "engine_step cd mm (e, s) l (e', s')" "tracked cd d H A e (fst s)"
  shows "tracked cd d (mset (step_recs l) + H) (if l = LFlush then [] else A @ step_recs l) e' (fst s')"
  using assms(2)
proof cases
  case (append now r)
  then show ?thesis using append_step_tracked [OF assms(1) append(2) assms(3)] by simp
next
  case (reject now r err)
  then show ?thesis using append_step_tracked [OF assms(1) reject(2) assms(3)] by simp
next
  case (scan now t0 t1 opts it e1 s1 rs it' now' err it'' m)
  obtain fs c where s: "s = (fs, c)" by (cases s)
  from assms(1) obtain G where g: "engine_ok cd G e s" by (auto simp: engine_good_def engine_inv_def)
  have "\<not> e_closed e" using scan(3) by (auto simp: engine_Scan_def)
  from scan_step_ok [OF g this scan(4-6), of now opts] scan(3,8) obtain m' where
    k: "e1 = e\<lparr>e_metrics := m'\<rparr>" "fst s' = fst s" by fastforce
  have "quiet_step cd (e, fs) (e\<lparr>e_metrics := m\<rparr>, fs)" using metrics_quiet g s by blast
  from tracked_quiet [OF this] assms(3) s k scan(1,2) show ?thesis by simp
next
  case (flush win ch)
  then show ?thesis using flush_step_tracked [OF assms(1) flush(2-4) assms(3)] by simp
next
  case (compact ev now dt)
  then show ?thesis using compact_step_tracked [OF assms(1) compact(2-4) assms(3)] by simp
next
  case (retain now dt)
  then show ?thesis using retain_step_tracked [OF assms(1) retain(2-4) assms(3)] by simp
qed

lemma run_tracked:
  assumes "engine_run cd mm c0 ls c1" "engine_good cd (fst c0) (snd c0)" "tracked cd d {#} [] (fst c0) (fst (snd c0))"
  shows "engine_good cd (fst c1) (snd c1) \<and> tracked cd d (mset (logged ls)) (since_flush ls) (fst c1) (fst (snd c1)) \<and>
    e_opts (fst c1) = e_opts (fst c0) \<and>
    (\<forall>r \<in> set (logged ls). ts_ok (o_PartitionDuration (e_opts (fst c0))) (Timestamp r))"
  using assms
proof (induction rule: engine_run.induct)
  case run_start
  then show ?case by (simp add: logged_snoc since_flush_snoc)
next
  case (run_step ls c1 l c2)
  obtain e s e' s' where c: "c1 = (e, s)" "c2 = (e', s')" by (metis surj_pair)
  have ih: "engine_good cd e s" "tracked cd d (mset (logged ls)) (since_flush ls) e (fst s)" "e_opts e = e_opts (fst c0)"
    "\<forall>r \<in> set (logged ls). ts_ok (o_PartitionDuration (e_opts (fst c0))) (Timestamp r)" using run_step c by auto
  have st: "engine_step cd mm (e, s) l (e', s')" using run_step.hyps(2) c by simp
  have "engine_good cd e' s'" using step_refines [OF ih(1) st] by blast
  moreover have "\<forall>r \<in> set (step_recs l). ts_ok (o_PartitionDuration (e_opts e)) (Timestamp r)" using st by cases auto
  ultimately show ?case using step_tracked [OF ih(1) st ih(2)] step_opts [OF ih(1) st] ih(3,4) c
    by (auto simp: add.commute logged_snoc since_flush_snoc)
qed


subsection \<open>The names of segments\<close>

lemma isdig_is_dec: "isdig = is_dec"
  by (simp add: fun_eq_iff isdig_def is_dec_def)

lemma dec_value_num: "digits s \<Longrightarrow> dec_value s = int (num_of s)"
proof -
  have "foldl (\<lambda>a c. a * 10 + (int (of_char c) - 48)) (int a) s = int (foldl (\<lambda>a d. a * 10 + (unat d - 48)) a (str_bytes s))"
    if "list_all isdig s" for s a
    using that
  proof (induction s arbitrary: a)
    case (Cons c s)
    have c: "48 \<le> (of_char c :: nat)" "(of_char c :: nat) \<le> 57" using Cons.prems by (simp_all add: isdig_def)
    have "unat (of_nat (of_char c) :: 8 word) = of_char c" using c by (simp add: unat_of_nat)
    then have "int a * 10 + (int (of_char c) - 48) = int (a * 10 + (unat (of_nat (of_char c) :: 8 word) - 48))"
      using c by simp
    then show ?case using Cons.IH [of "a * 10 + (unat (of_nat (of_char c) :: 8 word) - 48)"] Cons.prems
      by (simp add: str_bytes_def)
  qed (simp add: str_bytes_def)
  from this [of s 0] show "digits s \<Longrightarrow> dec_value s = int (num_of s)" by (simp add: digits_def dec_value_def num_of_def)
qed

lemma file_Base_join: "CHR ''/'' \<notin> set name \<Longrightarrow> file_Base (path_join dir name) = name"
  by (simp add: file_Base_def path_join_def takeWhile_append)

lemma digits_no_slash: "digits s \<Longrightarrow> CHR ''/'' \<notin> set s"
  by (auto simp: digits_def list_all_iff isdig_def)

lemma walPath_seq:
  assumes "0 \<le> sq" "is_i64 sq"
  shows "scan_walSeq (file_Base (walPath e sq)) = Some sq"
proof -
  let ?s = "fmt_06d sq"
  have d: "digits ?s" by (rule fmt_06d_digits [OF assms(1)])
  then have base: "file_Base (walPath e sq) = ''wal-'' @ ?s @ ''.wal''"
    using digits_no_slash by (simp add: walPath_def file_Base_join)
  obtain c t where ct: "?s = c # t" "is_dec c" "list_all is_dec ?s" using d by (cases ?s) (auto simp: digits_def isdig_is_dec)
  have "c \<noteq> CHR ''-''" "c \<noteq> CHR ''+''" using ct(2) by (auto simp: is_dec_def)
  then have sign: "take 1 ?s \<noteq> ''-''" "take 1 ?s \<noteq> ''+''" "?s \<noteq> []" "list_all is_dec ?s" using ct by simp_all
  have "\<not> is_dec (CHR ''.'')" by (simp add: is_dec_def)
  then have "takeWhile is_dec (?s @ ''.wal'') = ?s" "dropWhile is_dec (?s @ ''.wal'') = ''.wal''"
    using sign(4) by (simp_all add: list_all_iff takeWhile_append2 dropWhile_append2)
  moreover have "dec_value ?s = sq" using dec_value_num [OF d] num_of_fmt_06d [OF assms(1)] by simp
  moreover have "take 1 (?s @ ''.wal'') = take 1 ?s" using sign(3) by (cases ?s) simp_all
  ultimately show ?thesis using sign assms(2) unfolding base scan_walSeq_def by (simp add: Let_def)
qed

lemma walPath_glob:
  assumes "0 \<le> sq"
  shows "glob_match (e_dir e) ''wal-'' ''.wal'' (walPath e sq)"
proof -
  have "suffix ''.wal'' (walPath e sq)" by (simp add: walPath_def path_join_def suffix_def)
  moreover have "CHR ''/'' \<notin> set (''wal-'' @ fmt_06d sq @ ''.wal'')" using digits_no_slash [OF fmt_06d_digits [OF assms]] by simp
  ultimately show ?thesis by (simp add: glob_match_def Let_def walPath_def path_join_def)
qed

lemma highest_walSeq_ge:
  assumes "p \<in> set ps" "scan_walSeq (file_Base p) = Some sq"
  shows "sq \<le> highest_walSeq ps n"
  using assms(1)
proof (induction ps arbitrary: n)
  case (Cons q ps)
  let ?n = "case scan_walSeq (file_Base q) of Some sq \<Rightarrow> if sq > n then sq else n | None \<Rightarrow> n"
  have step: "highest_walSeq (q # ps) n = highest_walSeq ps ?n" by (simp add: highest_walSeq_def)
  show ?case
  proof (cases "q = p")
    case True
    then have "sq \<le> ?n" using assms(2) by simp
    then show ?thesis using highest_walSeq_le [of ?n ps] step by linarith
  next
    case False
    then show ?thesis using Cons step by simp
  qed
qed simp


subsection \<open>A new store and a crash\<close>

lemma Open_tracked:
  assumes "new_store fs" "0 < o_PartitionDuration opts" "o_CompressionType opts \<le> 2" "o_WALSyncMode opts = SyncAlways"
    "engine_Open mm now dir opts fs = (Inr e, s)"
  shows "tracked cd dir {#} [] e (fst s)" "e_opts e = opts"
proof -
  from Open_new [OF assms(1-3), of mm now dir cd] assms(5) have
    o: "engine_ok cd Map.empty e s" "e_opts e = opts" "e_files e = []" "e_dir e = dir" "wal_log (e_wal e) (fst s) []"
    "manifest_log (e_manifest e) (fst s) []" "w_syncMode (e_wal e) = SyncAlways" "\<not> e_closed e"
    "fs_names (fst s) = [(w_path (e_wal e), w_file (e_wal e)), (mf_path (e_manifest e), mf_f (e_manifest e))]"
    using assms(4) by auto
  show "e_opts e = opts" by (rule o(2))
  have p: "w_path (e_wal e) = walPath e (e_walSeq e)" "mf_path (e_manifest e) = path_join (e_dir e) ''MANIFEST''"
    "mf_f (e_manifest e) < fs_next (fst s)" "w_file (e_wal e) < fs_next (fst s)" "mf_f (e_manifest e) \<noteq> w_file (e_wal e)"
    using o(1) by (auto simp: engine_ok_def names_ok_def store_ok_def)
  have lk: "fs_lookup (fst s) q = (if q = w_path (e_wal e) then Some (w_file (e_wal e))
      else if q = mf_path (e_manifest e) then Some (mf_f (e_manifest e)) else None)" for q
    using o(9) by (simp add: fs_lookup_def)
  have "fs_inj (fst s)" unfolding fs_inj_def lk using p(3-5) by auto
  moreover have "files_inv cd e (fst s)"
    using o(3,6) unfolding files_inv_def by (intro exI [of _ "[]"]) (simp add: all_readers_def added_def deleted_def)
  moreover have "log_inv dir {#} [] e (fst s)"
  proof -
    have "q = w_path (e_wal e)" if "fs_lookup (fst s) q = Some i" "last q = CHR ''l''" for q i
      using that name_ends(4) [of "e_dir e"] p(2) by (auto simp: lk split: if_splits)
    then have "i = w_file (e_wal e)" if "fs_lookup (fst s) q = Some i" "last q = CHR ''l''" for q i
      using that lk [of "w_path (e_wal e)"] by (metis option.inject)
    moreover have "fs_data (fst s) (w_file (e_wal e)) = []" "fs_synced (fst s) (w_file (e_wal e)) = 0"
      using o(5,7) by (auto simp: wal_log_def bw_view_def)
    ultimately have "seg_as (fst s) (\<lambda>_. [])" unfolding seg_as_def by (metis concat.simps(1) list.map(1) list.size(3))
    then show ?thesis using o(4,5,7,8) lk [of "w_path (e_wal e)"] unfolding log_inv_def by (auto intro!: exI [of _ "\<lambda>_. []"])
  qed
  ultimately show "tracked cd dir {#} [] e (fst s)" by (simp add: tracked_def)
qed

text \<open>A store on which everything is synced, and what was synced before is unchanged: after a crash, or a full sync.\<close>

definition settled :: "file_sys \<Rightarrow> file_sys \<Rightarrow> bool" where
  "settled fs fs' \<longleftrightarrow> fs_names fs' = fs_names fs \<and> fs_next fs' = fs_next fs \<and> fs_bad fs' = fs_bad fs \<and>
     (\<forall>i. fs_synced fs' i = length (fs_data fs' i)) \<and>
     (\<forall>i. fs_synced fs i = length (fs_data fs i) \<longrightarrow> fs_data fs' i = fs_data fs i)"

lemma crash_settled: "fs_crash fs fs' \<Longrightarrow> settled fs fs'"
proof -
  assume c: "fs_crash fs fs'"
  have "fs_synced fs' i = length (fs_data fs' i)" for i
  proof -
    from c obtain n where "n \<le> length (fs_data fs i)" "fs_data fs' i = take n (fs_data fs i)" "fs_synced fs' i = n"
      unfolding fs_crash_def by blast
    then show ?thesis by simp
  qed
  then show ?thesis using c fs_crash_synced [OF c] by (simp add: settled_def fs_crash_def)
qed

lemma synced_settled: "settled fs (fs\<lparr>fs_synced := \<lambda>i. length (fs_data fs i)\<rparr>)"
  by (simp add: settled_def)

text \<open>What \<^verbatim>\<open>Open\<close> finds there: the files of the engine, and the segments of the log.\<close>

lemma tracked_files:
  assumes "files_inv cd e fs" "engine_ok cd G e (fs, c)" "settled fs fs'"
  obtains es recs where "manifest_log (e_manifest e) fs es" "manifest_file fs' (mf_path (e_manifest e)) (mf_f (e_manifest e)) es"
    "files_disk cd fs' (o_PartitionDuration (e_opts e)) es recs"
    "(\<Sum>fe \<in># mset (filter (on_disk fs') (added es)). mset (recs (fe_Path fe))) = file_recs cd e fs"
    "set (filter (on_disk fs') (added es)) = entry_of ` set (all_readers e)"
    "\<forall>fe \<in> set (added es). suffix ''.sst'' (fe_Path fe)"
proof -
  let ?dur = "o_PartitionDuration (e_opts e)"
  from assms(1) obtain es where es: "manifest_log (e_manifest e) fs es" "\<forall>ed \<in> set es. length (ve_AddedFiles ed) \<le> 1"
    "mset (filter (on_disk fs) (added es)) = image_mset entry_of (mset (all_readers e))"
    "\<And>r. r \<in> set (all_readers e) \<Longrightarrow> sst_stored cd fs ?dur r" "\<And>fe. fe \<in> set (deleted es) \<Longrightarrow> \<not> on_disk fs fe"
    "\<And>fe. fe \<in> set (added es) \<union> set (deleted es) \<Longrightarrow> suffix ''.sst'' (fe_Path fe)"
    unfolding files_inv_def by blast
  have cr: "fs_lookup fs' = fs_lookup fs" "fs_bad fs' = fs_bad fs" using assms(3) by (simp_all add: settled_def fs_lookup_def fun_eq_iff)
  have syn: "fs_synced fs' i = length (fs_data fs' i)" for i using assms(3) by (simp add: settled_def)
  have same: "fs_data fs' i = fs_data fs i" if "fs_synced fs i = length (fs_data fs i)" for i
    using assms(3) that by (simp add: settled_def)
  have od: "on_disk fs' = on_disk fs" by (simp add: fun_eq_iff on_disk_def cr(1))
  have d: "data_ok cd G e fs" using assms(2) by (simp add: engine_ok_def)
  define recs where "recs p = (case find (\<lambda>r. rpath r = p) (all_readers e) of Some r \<Rightarrow> recs_of cd fs r | None \<Rightarrow> [])" for p
  have recs: "recs (rpath r) = recs_of cd fs r" if r: "r \<in> set (all_readers e)" for r
  proof -
    obtain x where x: "find (\<lambda>x. rpath x = rpath r) (all_readers e) = Some x" using r by (cases "find (\<lambda>x. rpath x = rpath r) (all_readers e)") (auto simp: find_None_iff)
    then have "x \<in> set (all_readers e)" "rpath x = rpath r" by (auto simp: find_Some_iff in_set_conv_nth)
    then have "x = r" using data_ok_registered(1) [OF d] r by (metis option.inject)
    then show ?thesis using x by (simp add: recs_def)
  qed
  have ents: "set (filter (on_disk fs) (added es)) = entry_of ` set (all_readers e)"
    using arg_cong [OF es(3), of set_mset] by simp
  have "manifest_file fs' (mf_path (e_manifest e)) (mf_f (e_manifest e)) es"
    using es(1) same [of "mf_f (e_manifest e)"] cr syn by (simp add: manifest_log_def manifest_file_def)
  moreover have "files_disk cd fs' ?dur es recs"
    unfolding files_disk_def od
  proof (intro conjI ballI impI)
    have "mset (map fe_Path (filter (on_disk fs) (added es))) = mset (reader_paths (all_readers e))"
      unfolding mset_map es(3) by (simp add: reader_paths_def multiset.map_comp comp_def)
    then show "distinct (map fe_Path (filter (on_disk fs) (added es)))"
      using d mset_eq_imp_distinct_iff unfolding data_ok_def by blast
  next
    fix fe
    assume fe: "fe \<in> set (added es)" "on_disk fs fe"
    then obtain r where r: "fe = entry_of r" "r \<in> set (all_readers e)" using ents by auto
    have s: "fs_synced fs (r_file r) = length (fs_data fs (r_file r))" using es(4) [OF r(2)] unfolding sst_stored_def by blast
    note f = same [OF s]
    have "sst_stored cd fs' ?dur r" using f s syn cr by (intro sst_stored_same [OF es(4) [OF r(2)]]) simp_all
    moreover have "recs_of cd fs' r = recs_of cd fs r" using f cr(2) by (intro recs_of_same) (simp add: same_file_def)
    ultimately show "stored cd fs' ?dur fe (recs (fe_Path fe))"
      unfolding sst_stored_def r(1) entry_path recs [OF r(2)] by metis
    show "fe_Path fe \<notin> fe_Path ` set (deleted es)" using fe(2) es(5) by (auto simp: on_disk_def)
  qed (use es(2) in blast)
  moreover have "(\<Sum>fe \<in># mset (filter (on_disk fs') (added es)). mset (recs (fe_Path fe))) = file_recs cd e fs"
    unfolding od es(3) file_recs_def multiset.map_comp using recs
    by (intro arg_cong [where f = sum_mset] image_mset_cong) simp
  moreover have "set (filter (on_disk fs') (added es)) = entry_of ` set (all_readers e)" unfolding od by (rule ents)
  ultimately show ?thesis using that es(1,6) by blast
qed


lemma tracked_disk:
  assumes "tracked cd d H A e fs" "engine_ok cd G e (fs, c)" "settled fs fs'" "fs_faults fs' = []" "is_i64 (e_walSeq e)"
    and "\<forall>r \<in># H. wal_good r \<and> ts_ok (o_PartitionDuration (e_opts e)) (Timestamp r)"
  obtains es recs seg where "manifest_log (e_manifest e) fs es" "disk_ok cd d (e_opts e) fs' es recs seg"
    "(\<Sum>fe \<in># mset (filter (on_disk fs') (added es)). mset (recs (fe_Path fe))) = file_recs cd e fs"
    "set (filter (on_disk fs') (added es)) = entry_of ` set (all_readers e)"
    "mset (concat (map seg (wal_paths d fs'))) \<subseteq># H"
    "walPath e (e_walSeq e) \<in> set (wal_paths d fs')" "seg (walPath e (e_walSeq e)) = A"
proof -
  let ?act = "walPath e (e_walSeq e)"
  have inv: "files_inv cd e fs" "log_inv d H A e fs" "fs_inj fs" using assms(1) by (auto simp: tracked_def)
  have e: "e_dir e = d" "fs_lookup fs (w_path (e_wal e)) = Some (w_file (e_wal e))" "w_syncMode (e_wal e) = SyncAlways"
    "w_path (e_wal e) = ?act" "mf_path (e_manifest e) = path_join d ''MANIFEST''" "0 \<le> e_walSeq e"
    "\<And>p. future e p \<Longrightarrow> fs_lookup fs p = None" "\<forall>i. \<not> fs_bad fs i"
    using inv(2) assms(2) by (auto simp: log_inv_def engine_ok_def names_ok_future store_ok_def unused_def)
  have cr: "fs_lookup fs' = fs_lookup fs" "fs_bad fs' = fs_bad fs" "fs_next fs' = fs_next fs"
    using assms(3) by (simp_all add: settled_def fs_lookup_def fun_eq_iff)
  from tracked_files [OF inv(1) assms(2,3)] obtain es recs where log: "manifest_log (e_manifest e) fs es" and f:
    "manifest_file fs' (path_join d ''MANIFEST'') (mf_f (e_manifest e)) es" "files_disk cd fs' (o_PartitionDuration (e_opts e)) es recs"
    "(\<Sum>fe \<in># mset (filter (on_disk fs') (added es)). mset (recs (fe_Path fe))) = file_recs cd e fs"
    "set (filter (on_disk fs') (added es)) = entry_of ` set (all_readers e)" "\<forall>fe \<in> set (added es). suffix ''.sst'' (fe_Path fe)"
    unfolding e(5) by metis
  obtain S where S: "seg_as fs S" "(\<Sum>p \<in> seg_paths fs. mset (S p)) \<subseteq># H" "S ?act = A"
    using inv(2) e(4) unfolding log_inv_def by metis
  have wp: "p \<in> seg_paths fs" if "p \<in> set (wal_paths d fs')" for p
    using that wal_paths_set [of p d fs'] segment_paths(2) [OF that] cr(1) by (simp add: seg_paths_def)
  have seg: "segment fs' p (S p) \<and> set (S p) \<subseteq> set_mset H" if "p \<in> set (wal_paths d fs')" for p
  proof -
    from wp [OF that] obtain i where i: "fs_lookup fs p = Some i" "last p = CHR ''l''" by (auto simp: seg_paths_def)
    then have "fs_data fs' i = wal_bytes (S p)" using S(1) assms(3) by (simp add: seg_as_def settled_def)
    moreover have "mset (S p) \<subseteq># H"
      using sum_mset_mono [of "seg_paths fs" "{p}" "\<lambda>p. mset (S p)"] wp [OF that] S(2) by (auto intro: subset_mset.order_trans)
    then have "set (S p) \<subseteq> set_mset H" using set_mset_mono by fastforce
    moreover from this have "list_all wal_good (S p)" using assms(6) by (auto simp: list_all_iff)
    ultimately show ?thesis using i(1) cr(1) by (auto simp: segment_def)
  qed
  have bag: "mset (concat (map S (wal_paths d fs'))) \<subseteq># H"
  proof -
    have "mset (concat (map S ps)) = (\<Sum>p \<in># mset ps. mset (S p))" for ps by (induction ps) simp_all
    then have eq: "mset (concat (map S (wal_paths d fs'))) = (\<Sum>p \<in> set (wal_paths d fs'). mset (S p))"
      using distinct_sum_mset [OF segment_paths(1), of "\<lambda>p. mset (S p)"] by simp
    have "set (wal_paths d fs') \<subseteq> seg_paths fs" using wp by blast
    from sum_mset_mono [OF finite_seg_paths this, of "\<lambda>p. mset (S p)"] S(2)
    show ?thesis unfolding eq by (rule subset_mset.order_trans)
  qed
  have act: "?act \<in> set (wal_paths d fs')"
    using e(1,2,4) walPath_glob [OF e(6), of e] unfolding wal_paths_set cr(1) by simp
  have high: "e_walSeq e \<le> highest_walSeq (wal_paths d fs') 0"
    by (rule highest_walSeq_ge [OF act walPath_seq [OF e(6) assms(5)]])
  have "fs_lookup fs (flushPath x w sq) = None \<and> fs_lookup fs (walPath x sq) = None"
    if "e_dir x = d" "highest_walSeq (wal_paths d fs') 0 < sq" for x w sq
  proof -
    have "walPath x = walPath e" "flushPath x = flushPath e" using path_fields [of x e] that(1) e(1) by simp_all
    moreover have "future e (flushPath e w sq)" "future e (walPath e sq)" using that(2) high unfolding future_def
      by (auto intro!: exI [of _ sq])
    ultimately show ?thesis using e(7) by simp
  qed
  then have "disk_ok cd d (e_opts e) fs' es recs S"
    using assms(4,6) e(8) cr f(1,2,5) seg inv(3) unfolding disk_ok_def fs_inj_def cr by blast
  then show ?thesis using that [OF log] f(3,4) bag act S(3) by blast
qed


subsection \<open>Property\<close>

lemma acked_logged: "set_mset (acked ls) \<subseteq> set (logged ls)"
proof -
  have "set_mset (label_recs l) \<subseteq> set (step_recs l)" for l by (cases l) auto
  then show ?thesis by (auto simp: acked_def logged_def)
qed

lemma kept_cong: "set A = set B \<Longrightarrow> kept now opts A = kept now opts B"
  by (simp add: fun_eq_iff kept_def covered_def)

text \<open>
  C3: crash recovery. Take any run of an engine on a new directory with \<open>SyncAlways\<close>, in which clients and
  goroutines take turns in any order and no record handed to \<^verbatim>\<open>Append\<close> has a body above the replay
  limit of 10 MB, and a crash after any of its steps that keeps the names of the files and of each file
  at least the synced part. \<^verbatim>\<open>Open\<close> then succeeds, and the new engine holds
  exactly the records of the SSTables that the old one had, as often as these hold them, and the records
  of the log \<open>L\<close> that replay keeps. \<open>L\<close> contains every record handed to \<^verbatim>\<open>Append\<close> since the last flush,
  no record more often than it was handed to \<^verbatim>\<open>Append\<close>, and nothing but the former when no segment
  except the active one is left. Replay keeps a record unless a file of its window has a largest
  timestamp that is positive and not below the record's, or the record is too late in strict mode.
  So nothing is made up: every record of the new engine had been handed to \<^verbatim>\<open>Append\<close>. A flushed record can
  come back a second time only from a segment that was left behind, and only when replay keeps it, for
  example when its timestamp and those of its file are at or before the epoch.
\<close>

theorem crash_recovers:
  assumes "new_store fs0" "0 < o_PartitionDuration opts" "o_CompressionType opts \<le> 2" "o_WALSyncMode opts = SyncAlways"
    and "engine_Open mm now0 dir opts fs0 = (Inr e0, s0)" "engine_run cd mm (e0, s0) ls (e, s)"
    and "\<forall>r \<in> set (logged ls). wal_good r" "is_i64 (e_walSeq e)" "fs_crash (fst s) fs" "fs_faults fs = []"
  shows "\<exists>G e' s' L. engine_Open mm now dir opts fs = (Inr e', s') \<and> \<not> e_closed e' \<and> data_ok cd G e' (fst s') \<and> cache_ok cd G s' \<and>
    engine_recs cd e' (fst s') = file_recs cd e (fst s) +
      filter_mset (kept now opts (map entry_of (all_readers e))) (mset L) \<and>
    mset (since_flush ls) \<subseteq># mset L \<and> mset L \<subseteq># mset (logged ls) \<and>
    (wal_paths dir fs = [walPath e (e_walSeq e)] \<longrightarrow> L = since_flush ls) \<and>
    set_mset (engine_recs cd e' (fst s')) \<subseteq> set (logged ls)"
proof -
  note good = Open_good(1) [OF assms(1-3,5), of cd] and tr = Open_tracked(1) [OF assms(1-5), of cd]
  from run_tracked [OF assms(6), of dir] good tr have
    r: "engine_good cd e s" "tracked cd dir (mset (logged ls)) (since_flush ls) e (fst s)" "e_opts e = opts"
    "\<forall>r \<in> set (logged ls). ts_ok (o_PartitionDuration opts) (Timestamp r)" using Open_tracked(2) [OF assms(1-5)] by auto
  obtain fs1 c where s: "s = (fs1, c)" by (cases s)
  from r(1) s obtain G where g: "engine_ok cd G e (fs1, c)" by (auto simp: engine_good_def engine_inv_def)
  have "\<forall>r \<in># mset (logged ls). wal_good r \<and> ts_ok (o_PartitionDuration (e_opts e)) (Timestamp r)" using assms(7) r(3,4) by simp
  note ts = this
  have t: "tracked cd dir (mset (logged ls)) (since_flush ls) e fs1" "settled fs1 fs" "fst s = fs1"
    using r(2) crash_settled [OF assms(9)] s by simp_all
  have files: "set_mset (file_recs cd e fs1) \<subseteq> set (logged ls)"
  proof -
    have "store_run {#} ls (engine_recs cd e fs1)" using run_refines [OF assms(6)] good Open_good(2) [OF assms(1-3,5), of cd] t(3) by simp
    then have "engine_recs cd e fs1 \<subseteq># acked ls" using store_run_recs by blast
    then have "set_mset (engine_recs cd e fs1) \<subseteq> set_mset (acked ls)" by (rule set_mset_mono)
    then show ?thesis using acked_logged [of ls] by (auto simp: engine_recs_def)
  qed
  from tracked_disk [OF t(1) g t(2) assms(10,8) ts] obtain es recs seg where
    d: "disk_ok cd dir (e_opts e) fs es recs seg"
    "(\<Sum>fe \<in># mset (filter (on_disk fs) (added es)). mset (recs (fe_Path fe))) = file_recs cd e fs1"
    "set (filter (on_disk fs) (added es)) = entry_of ` set (all_readers e)"
    "mset (concat (map seg (wal_paths dir fs))) \<subseteq># mset (logged ls)"
    "walPath e (e_walSeq e) \<in> set (wal_paths dir fs)" "seg (walPath e (e_walSeq e)) = since_flush ls" .
  let ?L = "concat (map seg (wal_paths dir fs))"
  have "kept now opts (filter (on_disk fs) (added es)) = kept now opts (map entry_of (all_readers e))"
    using d(3) by (intro kept_cong) simp
  moreover have "mset (since_flush ls) \<subseteq># mset ?L"
  proof -
    obtain xs ys where "wal_paths dir fs = xs @ walPath e (e_walSeq e) # ys" using split_list [OF d(5)] by blast
    then show ?thesis using d(6) by simp
  qed
  moreover have "wal_paths dir fs = [walPath e (e_walSeq e)] \<Longrightarrow> ?L = since_flush ls" using d(6) by simp
  moreover from Open_disk [OF d(1) [unfolded r(3)] assms(2,3), of mm now] obtain G' e' s' where
    o: "engine_Open mm now dir opts fs = (Inr e', s')" "\<not> e_closed e'" "data_ok cd G' e' (fst s')" "cache_ok cd G' s'"
    "engine_recs cd e' (fst s') = file_recs cd e fs1 + filter_mset (kept now opts (filter (on_disk fs) (added es))) (mset ?L)"
    unfolding store_ok_def d(2) by blast
  moreover have "set_mset (engine_recs cd e' (fst s')) \<subseteq> set (logged ls)"
    using files set_mset_mono [OF d(4)] unfolding o(5) by auto
  ultimately show ?thesis using d(4) t(3)
    by (intro exI [of _ G'] exI [of _ e'] exI [of _ s'] exI [of _ ?L]) simp
qed


text \<open>The engine of the examples after one append, and a crash that loses nothing.\<close>

lemma demo_crash:
  "\<exists>e0 s0 e s fs. engine_Open True 0 ''d'' demo_opts fs_empty = (Inr e0, s0) \<and>
     engine_run tag_codecs True (e0, s0) [LAppend zero_record] (e, s) \<and> e_files e = [] \<and> e_walSeq e = 1 \<and>
     fs_crash (fst s) fs \<and> fs_faults fs = []"
proof -
  have n: "new_store fs_empty" by (simp add: new_store_def fs_empty_def)
  have o: "0 < o_PartitionDuration demo_opts" "o_CompressionType demo_opts \<le> 2" "o_WALSyncMode demo_opts = SyncAlways"
    by (simp_all add: demo_opts_def DefaultOptions_def compression_types)
  from demo_engine obtain e0 s0 e s where
    d: "engine_Open True 0 ''d'' demo_opts fs_empty = (Inr e0, s0)" "engine_run tag_codecs True (e0, s0) ([] @ [LAppend zero_record]) (e, s)"
    "e_files e = []" "engine_good tag_codecs e0 s0" by auto
  from Open_new [OF n o(1,2), of True 0 "''d''" tag_codecs] d(1) have e0: "e_walSeq e0 = 1" "wal_log (e_wal e0) (fst s0) []"
    "manifest_log (e_manifest e0) (fst s0) []" "w_syncMode (e_wal e0) = SyncAlways" "\<not> e_closed e0" "engine_ok tag_codecs Map.empty e0 s0"
    "\<And>j. j \<noteq> w_file (e_wal e0) \<Longrightarrow> j \<noteq> mf_f (e_manifest e0) \<Longrightarrow> fs_synced (fst s0) j = 0"
    using o(3) by (auto simp: fs_empty_def)
  have ff: "fs_faults (fst s0) = []" "mf_f (e_manifest e0) \<noteq> w_file (e_wal e0)" using e0(6) by (auto simp: engine_ok_def store_ok_def)
  from d(2) obtain now where a: "engine_Append now e0 zero_record s0 = (None, e, s)"
  proof -
    from run_snocE [OF d(2)] obtain c1 where c1: "engine_run tag_codecs True (e0, s0) [] c1"
      "engine_step tag_codecs True c1 (LAppend zero_record) (e, s)" by blast
    from c1(1) have "c1 = (e0, s0)" by cases auto
    with c1(2) that show ?thesis by (auto elim: engine_step.cases)
  qed
  from wal_Append_ok [OF ff(1) e0(2), of zero_record] obtain w fs where
    w: "wal_Append (e_wal e0) zero_record (fst s0) = (None, w, fs)" "wal_log w fs ([] @ [zero_record])" "wal_frame (e_wal e0) (fst s0) w fs" by blast
  note f = Append_disk [OF e0(5) a w(1)]
  have "fs_synced fs i \<le> length (fs_data fs i)" for i
  proof (cases "i = w_file (e_wal e0)")
    case True
    then show ?thesis using w(2,3) e0(4) by (simp add: wal_log_def wal_frame_def)
  next
    case False
    then have "fs_synced fs i = fs_synced (fst s0) i" "fs_data fs i = fs_data (fst s0) i" using w(3) by (simp_all add: wal_frame_def)
    then show ?thesis using e0(3) e0(7) [of i] False by (cases "i = mf_f (e_manifest e0)") (simp_all add: manifest_log_def manifest_file_def)
  qed
  then have "fs_crash fs (fs\<lparr>fs_synced := \<lambda>i. length (fs_data fs i)\<rparr>)" unfolding fs_crash_def by auto
  moreover have "fs_faults (fs\<lparr>fs_synced := \<lambda>i. length (fs_data fs i)\<rparr>) = []" using w(3) by (simp add: wal_frame_def)
  ultimately show ?thesis using d(1-3) f(2,7) e0(1) by (metis append_Nil)
qed

theorem crash_recovers_witness:
  "\<exists>e0 s0 e s fs e' s'. engine_Open True 0 ''d'' demo_opts fs_empty = (Inr e0, s0) \<and>
     engine_run tag_codecs True (e0, s0) [LAppend zero_record] (e, s) \<and> fs_crash (fst s) fs \<and>
     engine_Open True 0 ''d'' demo_opts fs = (Inr e', s') \<and> engine_recs tag_codecs e' (fst s') = {#zero_record#}"
proof -
  have n: "new_store fs_empty" by (simp add: new_store_def fs_empty_def)
  have o: "0 < o_PartitionDuration demo_opts" "o_CompressionType demo_opts \<le> 2" "o_WALSyncMode demo_opts = SyncAlways"
    by (simp_all add: demo_opts_def DefaultOptions_def compression_types)
  from demo_crash obtain e0 s0 e s fs where
    d: "engine_Open True 0 ''d'' demo_opts fs_empty = (Inr e0, s0)" "engine_run tag_codecs True (e0, s0) [LAppend zero_record] (e, s)"
    "e_files e = []" "e_walSeq e = 1" "fs_crash (fst s) fs" "fs_faults fs = []" by blast
  have l: "logged [LAppend zero_record] = [zero_record]" "since_flush [LAppend zero_record] = [zero_record]"
    by (simp_all add: logged_def since_flush_def)
  have "wal_good zero_record" by (simp add: wal_good_def zero_record_def maxRecordBodySize_def is_i64_def)
  then have g: "\<forall>r \<in> set (logged [LAppend zero_record]). wal_good r" "is_i64 (e_walSeq e)"
    using d(4) by (simp_all add: l is_i64_def)
  have k: "kept 0 demo_opts [] zero_record"
    by (simp add: kept_def covered_def zero_record_def demo_opts_def DefaultOptions_def i64_def)
  from crash_recovers [OF n o d(1,2) g d(5,6), of 0] obtain e' s' L where
    r: "engine_Open True 0 ''d'' demo_opts fs = (Inr e', s')"
    "engine_recs tag_codecs e' (fst s') = file_recs tag_codecs e (fst s) + filter_mset (kept 0 demo_opts (map entry_of (all_readers e))) (mset L)"
    "mset [zero_record] \<subseteq># mset L" "mset L \<subseteq># mset [zero_record]" unfolding l by blast
  then have "mset L = {#zero_record#}" using subset_mset.order_antisym by force
  then have "engine_recs tag_codecs e' (fst s') = {#zero_record#}" using r(2) k d(3) by (simp add: all_readers_def file_recs_def)
  with d r(1) show ?thesis by blast
qed


end
