(* ===== verification/Inspect.thy ===== *)
theory Inspect
  imports Cli Durable
begin

text \<open>
  \<^verbatim>\<open>cmd/timberdb/inspect.go\<close>: the four inspect commands. Each returns what it prints, its error and the file
  system it leaves: \<^verbatim>\<open>partitions\<close> opens the whole store, \<^verbatim>\<open>wal\<close> and \<^verbatim>\<open>manifest\<close> open their file for writing and
  create it when it is not there.
\<close>

subsection \<open>Printing\<close>

abbreviation newline :: bytes where "newline \<equiv> [10]"

text \<open>\<^verbatim>\<open>%-ns\<close> pads on the right and counts runes, not bytes.\<close>

definition rune_count :: "bytes \<Rightarrow> nat" where
  "rune_count bs = length (filter (\<lambda>b. \<not> cont_byte b) bs)"

definition pad_right :: "nat \<Rightarrow> bytes \<Rightarrow> bytes" where
  "pad_right n bs = bs @ replicate (n - rune_count bs) 32"

abbreviation arrow :: bytes where "arrow \<equiv> [0xE2, 0x86, 0x92]"

definition time_range :: "int \<Rightarrow> int \<Rightarrow> bytes" where
  "time_range a b = Format_RFC3339 (time_Unix a) @ [32] @ arrow @ [32] @ Format_RFC3339 (time_Unix b)"

subsection \<open>\<^verbatim>\<open>inspect partitions\<close>\<close>

definition partitions_row :: "bytes \<Rightarrow> bytes \<Rightarrow> bytes \<Rightarrow> bytes \<Rightarrow> bytes" where
  "partitions_row a b c d = pad_right 45 a @ [32] @ pad_right 8 b @ [32] @ pad_right 10 c @ [32] @ d @ newline"

definition partitions_text :: "PartitionInfo list \<Rightarrow> bytes" where
  "partitions_text parts =
     (if parts = [] then str_bytes ''no partitions'' @ newline
      else partitions_row (str_bytes ''WINDOW'') (str_bytes ''STATE'') (str_bytes ''SST FILES'') (str_bytes ''SIZE'') @
        concat (map (\<lambda>p. partitions_row (time_range (pi_Start p) (pi_End p)) (str_bytes (pi_State p))
          (dec_int (pi_SSTFiles p)) (fmtBytes (pi_SizeBytes p))) parts))"

definition inspect_partitions :: "codecs \<Rightarrow> bool \<Rightarrow> cli_env \<Rightarrow> path \<Rightarrow> file_sys \<Rightarrow> bytes \<times> cli_error option \<times> file_sys" where
  "inspect_partitions cd mm env dbPath fs =
     (case engine_Open mm (env_now env 0) dbPath DefaultOptions fs of
        (Inl err, s) \<Rightarrow> ([], Some (CliErr err), fst s)
      | (Inr e, s) \<Rightarrow>
          (case env_turns env 1 (e, s) of (e, s) \<Rightarrow>
             (partitions_text (engine_Partitions e (fst s)), None, fst (snd (snd (engine_Close cd mm e s))))))"

subsection \<open>\<^verbatim>\<open>inspect sstable\<close>\<close>

definition meta_text :: "SSTableMeta \<Rightarrow> bytes" where
  "meta_text m =
     str_bytes ''File:           '' @ str_bytes (sm_Path m) @ newline @
     str_bytes ''PartitionStart: '' @ Format_RFC3339Nano (time_Unix (sm_PartitionStart m)) @ newline @
     str_bytes ''PartitionEnd:   '' @ Format_RFC3339Nano (time_Unix (sm_PartitionEnd m)) @ newline @
     str_bytes ''MinTimestamp:   '' @ Format_RFC3339Nano (time_Unix (sm_MinTimestamp m)) @ newline @
     str_bytes ''MaxTimestamp:   '' @ Format_RFC3339Nano (time_Unix (sm_MaxTimestamp m)) @ newline @
     str_bytes ''RecordCount:    '' @ dec_nat (sm_RecordCount m) @ newline"

definition inspect_sstable :: "bool \<Rightarrow> path \<Rightarrow> file_sys \<Rightarrow> bytes \<times> cli_error option \<times> file_sys" where
  "inspect_sstable mm filePath fs =
     (case NewReader mm filePath False fs of
        (Inl err, fs) \<Rightarrow> ([], Some (CliErr err), fs)
      | (Inr r, fs) \<Rightarrow> (meta_text (reader_Meta r), None, snd (reader_Close r fs)))"

subsection \<open>\<^verbatim>\<open>inspect wal\<close>\<close>

definition wal_text :: "path \<Rightarrow> nat \<Rightarrow> bytes" where
  "wal_text filePath n =
     str_bytes ''File:        '' @ str_bytes filePath @ newline @ str_bytes ''RecordCount: '' @ dec_nat n @ newline"

definition inspect_wal :: "path \<Rightarrow> file_sys \<Rightarrow> bytes \<times> cli_error option \<times> file_sys" where
  "inspect_wal filePath fs =
     (case wal_Open filePath SyncNever fs of
        (Inl err, fs) \<Rightarrow> ([], Some (CliErr err), fs)
      | (Inr w, fs) \<Rightarrow>
          (case wal_Replay w fs of
             (rs, rerr, w, fs) \<Rightarrow>
               (let fs = snd (snd (wal_Close w fs)) in
                case rerr of
                  Some err \<Rightarrow> ([], Some (CliErr err), fs)
                | None \<Rightarrow> (wal_text filePath (length rs), None, fs))))"

subsection \<open>\<^verbatim>\<open>inspect manifest\<close>\<close>

definition plural :: "nat \<Rightarrow> bytes" where
  "plural n = (if n \<noteq> 1 then str_bytes ''s'' else [])"

text \<open>The callback of \<^verbatim>\<open>Replay\<close>: what it prints for an edit, and the set of live paths after it.\<close>

definition edit_text :: "VersionEdit \<Rightarrow> bytes" where
  "edit_text edit =
     (let added = length (ve_AddedFiles edit); deleted = length (ve_DeletedFiles edit) in
      str_bytes ''Edit #'' @ dec_nat (ve_Seq edit) @ str_bytes '': +'' @ dec_nat added @ str_bytes '' file'' @ plural added @
      str_bytes '', -'' @ dec_nat deleted @ str_bytes '' file'' @ plural deleted @ newline @
      concat (map (\<lambda>f. str_bytes ''  + '' @ str_bytes (fe_Path f) @ str_bytes '' ['' @ dec_nat (fe_RecordCount f) @
        str_bytes '' records, '' @ time_range (fe_MinTimestamp f) (fe_MaxTimestamp f) @ str_bytes '']'' @ newline)
        (ve_AddedFiles edit)) @
      concat (map (\<lambda>f. str_bytes ''  - '' @ str_bytes (fe_Path f) @ newline) (ve_DeletedFiles edit)))"

definition edit_live :: "VersionEdit \<Rightarrow> path list \<Rightarrow> path list" where
  "edit_live edit live0 =
     fold (\<lambda>f ps. removeAll (fe_Path f) ps) (ve_DeletedFiles edit)
       (fold (\<lambda>f ps. List.insert (fe_Path f) ps) (ve_AddedFiles edit) live0)"

definition inspect_manifest :: "path \<Rightarrow> file_sys \<Rightarrow> bytes \<times> cli_error option \<times> file_sys" where
  "inspect_manifest dbPath fs =
     (case manifest_Open (path_join dbPath ''MANIFEST'') fs of
        (Inl err, fs) \<Rightarrow> ([], Some (CliErr err), fs)
      | (Inr m, fs) \<Rightarrow>
          (case manifest_Replay m fs of
             (edits, rerr, m, fs) \<Rightarrow>
               (let out = concat (map edit_text edits); fs = snd (snd (manifest_Close m fs)) in
                case rerr of
                  Some err \<Rightarrow> (out, Some (CliErr err), fs)
                | None \<Rightarrow>
                    (out @ newline @ str_bytes ''Live SSTable count: '' @ dec_nat (length (fold edit_live edits [])) @ newline,
                     None, fs))))"

subsection \<open>\<^verbatim>\<open>main\<close>\<close>

text \<open>
  The commands with their flags, as cobra hands them to \<^verbatim>\<open>RunE\<close>; required flags are present. A command
  that fails makes the process exit with status 1; what goes to the standard error is left out.
\<close>

datatype command =
    Append (c_db: path) (c_source: bytes) (c_timestamp: bytes) (c_payload: bytes) (c_batch: path)
  | Scan (c_db: path) (c_start: bytes) (c_end: bytes) (c_source: bytes)
  | InspectPartitions (c_db: path)
  | InspectSSTable (c_file: path)
  | InspectWAL (c_file: path)
  | InspectManifest (c_db: path)

definition exit_status :: "cli_error option \<Rightarrow> nat" where
  "exit_status err = (if err = None then 0 else 1)"

definition cli_main :: "codecs \<Rightarrow> bool \<Rightarrow> cli_env \<Rightarrow> command \<Rightarrow> file_sys \<Rightarrow> (bytes \<times> nat \<times> file_sys) option" where
  "cli_main cd mm env cmd fs =
     map_option (\<lambda>(out, err, fs). (out, exit_status err, fs))
       (case cmd of
          Append db source ts payload file \<Rightarrow> Some ([], cmd_append cd mm env db source ts payload file fs)
        | Scan db start stop source \<Rightarrow> cmd_scan cd mm env db start stop source fs
        | InspectPartitions db \<Rightarrow> Some (inspect_partitions cd mm env db fs)
        | InspectSSTable file \<Rightarrow> Some (inspect_sstable mm file fs)
        | InspectWAL file \<Rightarrow> Some (inspect_wal file fs)
        | InspectManifest db \<Rightarrow> Some (inspect_manifest db fs))"


subsection \<open>What the commands report\<close>

lemma inspect_wal_ok:
  assumes "fs_faults fs = []" "\<forall>i. \<not> fs_bad fs i"
  shows "segment fs p rs \<Longrightarrow> \<exists>fs'. inspect_wal p fs = (wal_text p (length rs), None, fs') \<and> unlinked {} fs fs'"
    "fs_lookup fs p = None \<Longrightarrow> \<exists>fs'. inspect_wal p fs = (wal_text p 0, None, fs') \<and> fs_lookup fs' p = Some (fs_next fs)"
proof -
  assume "segment fs p rs"
  from read_segment [OF assms this, of SyncNever] show "\<exists>fs'. inspect_wal p fs = (wal_text p (length rs), None, fs') \<and> unlinked {} fs fs'"
    by (auto simp: inspect_wal_def Let_def)
next
  assume n: "fs_lookup fs p = None"
  let ?i = "fs_next fs"
  define fs1 where "fs1 = fs\<lparr>fs_names := (p, ?i) # fs_names fs, fs_data := (fs_data fs)(?i := []),
    fs_synced := (fs_synced fs)(?i := 0), fs_next := Suc ?i\<rparr>"
  have o: "wal_Open p SyncNever fs = (Inr \<lparr>w_file = ?i, w_path = p, w_bw = bufio_New ?i (64 * 1024), w_syncMode = SyncNever,
      w_ticker = False\<rparr>, fs1)"
    using n assms(1) by (simp add: wal_Open_def os_open_create_def fs1_def Let_def)
  have k: "fs_faults fs1 = []" "\<forall>i. \<not> fs_bad fs1 i" "segment fs1 p []" "fs_lookup fs1 p = Some ?i"
    using assms by (simp_all add: fs1_def segment_def fs_lookup_def)
  from read_segment [OF k(1-3), of SyncNever] obtain w' fs' where
    "wal_Replay \<lparr>w_file = ?i, w_path = p, w_bw = bufio_New ?i (64 * 1024), w_syncMode = SyncNever, w_ticker = False\<rparr> fs1 = ([], None, w', fs1)"
    "snd (snd (wal_Close w' fs1)) = fs'" "unlinked {} fs1 fs'"
    using k(1,4) by (auto simp: wal_Open_def os_open_create_def)
  then show "\<exists>fs'. inspect_wal p fs = (wal_text p 0, None, fs') \<and> fs_lookup fs' p = Some (fs_next fs)"
    using o k(4) by (simp add: inspect_wal_def unlinked_def)
qed

text \<open>The live paths, each once: added, and not deleted by the same or a later edit.\<close>

lemma edit_live_set:
  "set (edit_live ed ps) = (set ps \<union> fe_Path ` set (ve_AddedFiles ed)) - fe_Path ` set (ve_DeletedFiles ed)"
  "distinct ps \<Longrightarrow> distinct (edit_live ed ps)"
proof -
  have a: "set (fold (\<lambda>f ps. List.insert (fe_Path f) ps) fes qs) = set qs \<union> fe_Path ` set fes"
    "distinct qs \<Longrightarrow> distinct (fold (\<lambda>f ps. List.insert (fe_Path f) ps) fes qs)" for fes qs
    by (induction fes arbitrary: qs) auto
  have d: "set (fold (\<lambda>f ps. removeAll (fe_Path f) ps) fes qs) = set qs - fe_Path ` set fes"
    "distinct qs \<Longrightarrow> distinct (fold (\<lambda>f ps. removeAll (fe_Path f) ps) fes qs)" for fes qs
    by (induction fes arbitrary: qs) (auto simp: distinct_removeAll)
  show "set (edit_live ed ps) = (set ps \<union> fe_Path ` set (ve_AddedFiles ed)) - fe_Path ` set (ve_DeletedFiles ed)"
    "distinct ps \<Longrightarrow> distinct (edit_live ed ps)" by (simp_all add: edit_live_def a d)
qed

text \<open>The paths that the manifest says are live, from the edits alone.\<close>

definition live_path :: "VersionEdit list \<Rightarrow> path \<Rightarrow> bool" where
  "live_path es p \<longleftrightarrow> (\<exists>i < length es. p \<in> fe_Path ` set (ve_AddedFiles (es ! i)) \<and>
     (\<forall>j. i \<le> j \<and> j < length es \<longrightarrow> p \<notin> fe_Path ` set (ve_DeletedFiles (es ! j))))"

lemma live_path_snoc:
  "live_path (es @ [ed]) p \<longleftrightarrow> p \<notin> fe_Path ` set (ve_DeletedFiles ed) \<and> (live_path es p \<or> p \<in> fe_Path ` set (ve_AddedFiles ed))"
  (is "?l \<longleftrightarrow> ?r")
proof
  assume ?l
  then obtain i where i: "i < Suc (length es)" "p \<in> fe_Path ` set (ve_AddedFiles ((es @ [ed]) ! i))"
    "\<And>j. i \<le> j \<Longrightarrow> j < Suc (length es) \<Longrightarrow> p \<notin> fe_Path ` set (ve_DeletedFiles ((es @ [ed]) ! j))"
    unfolding live_path_def by auto
  have "p \<notin> fe_Path ` set (ve_DeletedFiles ed)" using i(1) i(3) [of "length es"] by simp
  moreover have "live_path es p" if "i < length es"
    unfolding live_path_def
  proof (intro exI [of _ i] conjI allI impI)
    show "i < length es" by (rule that)
    show "p \<in> fe_Path ` set (ve_AddedFiles (es ! i))" using i(2) that by (simp add: nth_append)
    show "p \<notin> fe_Path ` set (ve_DeletedFiles (es ! j))" if "i \<le> j \<and> j < length es" for j
      using i(3) [of j] that by (simp add: nth_append)
  qed
  moreover have "p \<in> fe_Path ` set (ve_AddedFiles ed)" if "\<not> i < length es"
    using i(1,2) that by (simp add: nth_append not_less_less_Suc_eq)
  ultimately show ?r by blast
next
  assume r: ?r
  show ?l
  proof (cases "live_path es p")
    case True
    then obtain i where i: "i < length es" "p \<in> fe_Path ` set (ve_AddedFiles (es ! i))"
      "\<And>j. i \<le> j \<Longrightarrow> j < length es \<Longrightarrow> p \<notin> fe_Path ` set (ve_DeletedFiles (es ! j))" unfolding live_path_def by blast
    have "p \<notin> fe_Path ` set (ve_DeletedFiles ((es @ [ed]) ! j))" if "i \<le> j" "j < Suc (length es)" for j
      using i(3) [OF that(1)] r that(2) by (cases "j = length es") (simp_all add: nth_append)
    then show ?thesis using i(1,2) unfolding live_path_def by (intro exI [of _ i]) (simp add: nth_append)
  next
    case False
    then have a: "p \<in> fe_Path ` set (ve_AddedFiles ed)" "p \<notin> fe_Path ` set (ve_DeletedFiles ed)" using r by blast+
    have "p \<notin> fe_Path ` set (ve_DeletedFiles ((es @ [ed]) ! j))" if "length es \<le> j \<and> j < length (es @ [ed])" for j
    proof -
      have "j = length es" using that by simp
      then show ?thesis using a(2) by simp
    qed
    then show ?thesis unfolding live_path_def using a(1) by (intro exI [of _ "length es"]) simp
  qed
qed

text \<open>The command's set of paths is exactly that.\<close>

lemma edits_live: "set (fold edit_live es []) = {p. live_path es p}" "distinct (fold edit_live es [])"
proof (induction es rule: rev_induct)
  case (snoc ed es)
  {
    case 1 show ?case using snoc(1) by (auto simp: edit_live_set live_path_snoc)
  next
    case 2 show ?case using snoc(2) by (simp add: edit_live_set)
  }
qed (simp_all add: live_path_def)

lemma live_path_bounds:
  "live_path es p \<Longrightarrow> p \<in> fe_Path ` set (added es)"
  "p \<in> fe_Path ` set (added es) \<Longrightarrow> p \<notin> fe_Path ` set (deleted es) \<Longrightarrow> live_path es p"
proof (induction es rule: rev_induct)
  case (snoc ed es)
  {
    case 1 then show ?case using snoc(1) by (auto simp: live_path_snoc added_def)
  next
    case 2 then show ?case using snoc(2) by (auto simp: live_path_snoc added_def deleted_def)
  }
qed (simp_all add: live_path_def added_def)

lemma inspect_manifest_ok:
  assumes "disk_ok cd dbPath opts fs es recs seg" "0 < o_PartitionDuration opts" "o_CompressionType opts \<le> 2"
    "\<forall>p. live_path es p \<longrightarrow> fs_lookup fs p \<noteq> None"
  shows "\<exists>fs' e s. inspect_manifest dbPath fs = (concat (map edit_text es) @ newline @ str_bytes ''Live SSTable count: '' @
      dec_nat (card {p. live_path es p}) @ newline, None, fs') \<and> engine_Open mm now dbPath opts fs = (Inr e, s) \<and>
      distinct (reader_paths (all_readers e)) \<and> set (reader_paths (all_readers e)) = {p. live_path es p}"
proof -
  from assms(1) obtain f where f: "manifest_file fs (path_join dbPath ''MANIFEST'') f es" "fs_faults fs = []"
    and fd: "files_disk cd fs (o_PartitionDuration opts) es recs" unfolding disk_ok_def by blast
  from manifest_replay_unlinked [OF f(2,1)] obtain m m' fs1 where
    m: "manifest_Open (path_join dbPath ''MANIFEST'') fs = (Inr m, fs)" "manifest_Replay m fs = (es, None, m', fs1)" by blast
  from Open_disk [OF assms(1-3), of mm now] obtain G e s where
    o: "engine_Open mm now dbPath opts fs = (Inr e, s)" "data_ok cd G e (fst s)"
    "set (reader_paths (all_readers e)) = fe_Path ` set (filter (on_disk fs) (added es))" by blast
  have "{p. live_path es p} = fe_Path ` set (filter (on_disk fs) (added es))"
    using live_path_bounds [where es = es] assms(4) fd by (fastforce simp: on_disk_def files_disk_def)
  moreover have "distinct (reader_paths (all_readers e))" using o(2) by (simp add: data_ok_def)
  moreover have "length (fold edit_live es []) = card {p. live_path es p}"
    using edits_live [of es] distinct_card by metis
  ultimately show ?thesis using m o(1,3) by (simp add: inspect_manifest_def Let_def)
qed


subsection \<open>Property\<close>

text \<open>
  C12: \<^verbatim>\<open>inspect manifest\<close> agrees with \<^verbatim>\<open>Open\<close>. Call a path live when some edit of the manifest adds it and
  neither that edit nor a later one deletes it. For a sound store whose live files all exist, the
  command lists every edit and then the number of live paths; \<^verbatim>\<open>Open\<close> of the same directory loads one
  reader for each live path and no other: keeping a set of paths, as the command does, and keeping lists
  of readers per window, as the engine does, come to the same count.
\<close>

theorem inspect_manifest_correct:
  assumes "disk_ok cd dbPath opts fs es recs seg" "0 < o_PartitionDuration opts" "o_CompressionType opts \<le> 2"
    "\<forall>p. live_path es p \<longrightarrow> fs_lookup fs p \<noteq> None"
  shows "\<exists>fs' e s. engine_Open mm now dbPath opts fs = (Inr e, s) \<and>
    set (reader_paths (all_readers e)) = {p. live_path es p} \<and> length (all_readers e) = card {p. live_path es p} \<and>
    cli_main cd mm env (InspectManifest dbPath) fs = Some (concat (map edit_text es) @ newline @
      str_bytes ''Live SSTable count: '' @ dec_nat (card {p. live_path es p}) @ newline, 0, fs')"
proof -
  from inspect_manifest_ok [OF assms, of mm now] obtain fs' e s where
    i: "inspect_manifest dbPath fs = (concat (map edit_text es) @ newline @ str_bytes ''Live SSTable count: '' @
      dec_nat (card {p. live_path es p}) @ newline, None, fs')" "engine_Open mm now dbPath opts fs = (Inr e, s)"
    "distinct (reader_paths (all_readers e))" "set (reader_paths (all_readers e)) = {p. live_path es p}" by blast
  have "length (all_readers e) = card {p. live_path es p}" using distinct_card [OF i(3)] i(4) by (simp add: reader_paths_def)
  then show ?thesis using i by (auto simp: cli_main_def exit_status_def)
qed

text \<open>
  The engine of the examples after a flush, everything synced: one edit in the manifest and one SSTable.
\<close>

lemma demo_inspect:
  assumes "engine_Open True 0 ''d'' demo_opts fs_empty = (Inr e0, s0)" "engine_run tag_codecs True (e0, s0) ls (e, s)"
    and "\<forall>r \<in> set (logged ls). wal_good r" "is_i64 (e_walSeq e)" "manifest_log (e_manifest e) (fst s) es"
  defines "fs \<equiv> (fst s)\<lparr>fs_synced := \<lambda>i. length (fs_data (fst s) i)\<rparr>"
  shows "\<exists>recs seg. disk_ok tag_codecs ''d'' demo_opts fs es recs seg"
    "set (filter (on_disk fs) (added es)) = entry_of ` set (all_readers e)"
proof -
  have n: "new_store fs_empty" by (simp add: new_store_def fs_empty_def)
  have o: "0 < o_PartitionDuration demo_opts" "o_CompressionType demo_opts \<le> 2" "o_WALSyncMode demo_opts = SyncAlways"
    by (simp_all add: demo_opts_def DefaultOptions_def compression_types)
  note tr = Open_tracked(1) [OF n o assms(1), of tag_codecs] Open_tracked(2) [OF n o assms(1)]
  from run_tracked [OF assms(2), of "''d''"] Open_good(1) [OF n o(1,2) assms(1), of tag_codecs] tr have
    r: "engine_good tag_codecs e s" "tracked tag_codecs ''d'' (mset (logged ls)) (since_flush ls) e (fst s)" "e_opts e = demo_opts"
    "\<forall>r \<in> set (logged ls). ts_ok (o_PartitionDuration demo_opts) (Timestamp r)" by auto
  obtain fs1 c where s: "s = (fs1, c)" by (cases s)
  from r(1) s obtain G where g: "engine_ok tag_codecs G e (fs1, c)" by (auto simp: engine_good_def engine_inv_def)
  have ts: "\<forall>r \<in># mset (logged ls). wal_good r \<and> ts_ok (o_PartitionDuration (e_opts e)) (Timestamp r)" using assms(3) r(3,4) by simp
  have st: "settled fs1 fs" using synced_settled [of fs1] s by (simp add: fs_def)
  have ff: "fs_faults fs = []" using g s by (simp add: fs_def engine_ok_def store_ok_def)
  have t: "tracked tag_codecs ''d'' (mset (logged ls)) (since_flush ls) e fs1" using r(2) s by simp
  from tracked_disk [OF t g st ff assms(4) ts] obtain es' recs seg where
    d: "manifest_log (e_manifest e) fs1 es'" "disk_ok tag_codecs ''d'' (e_opts e) fs es' recs seg"
    "(\<Sum>fe \<in># mset (filter (on_disk fs) (added es')). mset (recs (fe_Path fe))) = file_recs tag_codecs e fs1"
    "set (filter (on_disk fs) (added es')) = entry_of ` set (all_readers e)" .
  have "manifest_log (e_manifest e) fs1 es" using assms(5) s by simp
  then have "es' = es" by (rule manifest_log_unique [OF d(1)])
  then show "\<exists>recs seg. disk_ok tag_codecs ''d'' demo_opts fs es recs seg"
    "set (filter (on_disk fs) (added es)) = entry_of ` set (all_readers e)" using d(2,4) r(3) by auto
qed

theorem inspect_manifest_correct_witness:
  "\<exists>e0 s0 e s fs ed fs' e' s'. engine_Open True 0 ''d'' demo_opts fs_empty = (Inr e0, s0) \<and>
     engine_run tag_codecs True (e0, s0) [LAppend zero_record, LAppend next_record, LFlush] (e, s) \<and>
     fs = (fst s)\<lparr>fs_synced := \<lambda>i. length (fs_data (fst s) i)\<rparr> \<and> length (ve_AddedFiles ed) = 1 \<and>
     engine_Open True 0 ''d'' demo_opts fs = (Inr e', s') \<and> length (all_readers e') = 1 \<and>
     cli_main tag_codecs True demo_env (InspectManifest ''d'') fs =
       Some (edit_text ed @ newline @ str_bytes ''Live SSTable count: '' @ dec_nat 1 @ newline, 0, fs')"
proof -
  from demo_flushed obtain e0 s0 e1 s1 e s r ed where d: "engine_Open True 0 ''d'' demo_opts fs_empty = (Inr e0, s0)"
    "engine_run tag_codecs True (e0, s0) [LAppend zero_record, LAppend next_record] (e1, s1)"
    "e_flushCh e1 = [demo_win, next_win]" "flush_fits tag_codecs e1 demo_win (fst s1)"
    "runFlusher_turn tag_codecs True e1 s1 = (e, s)" "e_files e = [(demo_win, [r])]"
    "manifest_log (e_manifest e) (fst s) [ed]" "added [ed] = [entry_of r]" "e_walSeq e = 2" by blast
  have run: "engine_run tag_codecs True (e0, s0) [LAppend zero_record, LAppend next_record, LFlush] (e, s)"
    using run_step [OF d(2) engine_step.flush [OF d(3-5)]] by simp
  have good: "\<forall>r \<in> set (logged [LAppend zero_record, LAppend next_record, LFlush]). wal_good r" "is_i64 (e_walSeq e)"
    using d(9) by (simp_all add: logged_def wal_good_def zero_record_def next_record_def maxRecordBodySize_def is_i64_def)
  let ?fs = "(fst s)\<lparr>fs_synced := \<lambda>i. length (fs_data (fst s) i)\<rparr>"
  note di = demo_inspect [OF d(1) run good d(7)]
  from di(1) obtain recs seg where disk: "disk_ok tag_codecs ''d'' demo_opts ?fs [ed] recs seg" by blast
  have on: "on_disk ?fs (entry_of r)" using di(2) d(6,8) by (auto simp: all_readers_def split: if_splits)
  have live: "live_path [ed] p \<longleftrightarrow> p = rpath r" for p
  proof
    show "live_path [ed] p \<Longrightarrow> p = rpath r" using live_path_bounds(1) [of "[ed]" p] d(8) by simp
    have "rpath r \<notin> fe_Path ` set (deleted [ed])" using disk on d(8) by (fastforce simp: disk_ok_def files_disk_def)
    then show "p = rpath r \<Longrightarrow> live_path [ed] p" using live_path_bounds(2) [of p "[ed]"] d(8) by simp
  qed
  then have set: "{p. live_path [ed] p} = {rpath r}" by auto
  moreover have "\<forall>p. live_path [ed] p \<longrightarrow> fs_lookup ?fs p \<noteq> None" using on by (auto simp: on_disk_def live)
  moreover have "0 < o_PartitionDuration demo_opts" "o_CompressionType demo_opts \<le> 2"
    by (simp_all add: demo_opts_def DefaultOptions_def compression_types)
  ultimately obtain fs' e' s' where "engine_Open True 0 ''d'' demo_opts ?fs = (Inr e', s')" "length (all_readers e') = 1"
    "cli_main tag_codecs True demo_env (InspectManifest ''d'') ?fs =
       Some (edit_text ed @ newline @ str_bytes ''Live SSTable count: '' @ dec_nat 1 @ newline, 0, fs')"
    using inspect_manifest_correct [OF disk, of True 0 demo_env] by (auto simp del: cli_main_def)
  moreover have "length (ve_AddedFiles ed) = 1" using d(8) by (simp add: added_def)
  ultimately show ?thesis using d(1) run by blast
qed

end
