(* ===== verification/Spec2Isabelle.thy ===== *)
theory Spec2Isabelle
  imports Inspect Durable
begin

text \<open>
  TimberDB, a time-partitioned log-structured store in Go: what is modelled and what is proved.

  \<^bold>\<open>The program.\<close> A client appends records (timestamp, source, payload) and scans time ranges. \<^verbatim>\<open>Append\<close>
  writes the record to a write-ahead log and routes it by its timestamp to the partition of its time
  window, which keeps it in a sorted memtable. When a memtable is large the partition is queued; a
  flusher goroutine rotates the log, writes the memtable to an SSTable, records the file in the manifest
  and deletes the old log segment. A compactor goroutine merges the files of a window, seals partitions
  whose time has passed, and retires files older than the retention horizon. \<^verbatim>\<open>Scan\<close> merges the iterators
  of memtables and files; \<^verbatim>\<open>Aggregate\<close> counts records per bucket; \<^verbatim>\<open>Open\<close> replays manifest and log;
  \<^verbatim>\<open>Close\<close> flushes.

  \<^bold>\<open>Conventions.\<close> An \<^verbatim>\<open>int64\<close> is an \<open>int\<close> with \<open>i64\<close> written out where the arithmetic can wrap; unsigned
  fields of the formats are \<open>nat\<close> with \<open>u32\<close> and \<open>u64\<close>; bytes are 8-bit words. Structs are records, errors
  are values of \<open>go_error\<close>, a function that can fail returns a sum, a run-time panic is the error
  \<open>GoPanic\<close>. State is passed explicitly: the engine, and a \<open>store\<close> (file system and block cache). Every
  method, and every turn of a goroutine, is one atomic step; for most of them the code holds a mutex, but
  \<^verbatim>\<open>flushPartition\<close>, \<^verbatim>\<open>maybeCompact\<close> and \<^verbatim>\<open>retireWindow\<close> hold it only in parts. The clock, the build tag for memory mapping and
  the compression libraries (not part of the repository) are parameters; the only hypothesis on the
  latter is that decompression inverts compression (\<open>codecs_ok\<close>, shown to hold for \<open>tag_codecs\<close>).

  \<^bold>\<open>The theories, by part of the program.\<close>
  \<^item> \<open>Prelude\<close>: errors, machine integers, little-endian encodings, slices, \<^verbatim>\<open>sort.Search\<close>, CRC-32.
  \<^item> \<open>Records\<close> (\<^verbatim>\<open>internal/record\<close>): records, their order, queries; the interface \<^verbatim>\<open>record.Iterator\<close> is the
    locale \<open>record_iterator\<close>, with the lemma that draining an iterator ends and delivers its rest.
  \<^item> \<open>Memtable\<close> (\<^verbatim>\<open>internal/memtable\<close>): insertion by binary search and shift, scans, freezing; the
    iterator interprets \<open>record_iterator\<close>.
  \<^item> \<open>FileSys\<close>: files with stable and volatile contents, system calls that may fail, crashes, \<^verbatim>\<open>bufio\<close>.
    \<open>Framing\<close>: the record framing shared by log and manifest; the locale \<open>framed_log\<close> has the round trip,
    the torn tail and the oversized record; single-byte corruption is caught by the checksum.
  \<^item> \<open>Wal\<close> (\<^verbatim>\<open>internal/wal\<close>): interprets \<open>framed_log\<close>; appends, sync modes, replay, rotation, crashes.
  \<^item> \<open>Block\<close>, \<open>BlockCache\<close>, \<open>Compress\<close>, \<open>SSTWriter\<close>, \<open>SSTReader\<close>, \<open>SSTScan\<close>, \<open>SSTOpen\<close> (\<^verbatim>\<open>internal/sstable\<close>):
    row and columnar blocks, the LRU cache as a refinement of a recency list, the writer with its exact
    file layout, the reader with both iterators (which interpret \<open>record_iterator\<close>) and the
    timestamps-only scan. \<open>reads_as\<close> says that a reader stands for a list of blocks.
  \<^item> \<open>Heap\<close>, \<open>MergeIter\<close> (\<^verbatim>\<open>engine/merge.go\<close>, heap of \<^verbatim>\<open>compaction/merge.go\<close>): binary heaps interpret the
    locale \<open>priority_queue\<close>; the k-way merge is proved in the locale \<open>merge_heap\<close> over any iterator and any
    priority queue, and interpreted for scans and for compaction.
  \<^item> \<open>Partition\<close> (\<^verbatim>\<open>internal/partition\<close>): windows with wrap-around, routing, sealing, overlap queries.
  \<^item> \<open>Json\<close>, \<open>Manifest\<close> (\<^verbatim>\<open>internal/manifest\<close>): version edits, their JSON text, atomic append, replay.
  \<^item> \<open>Compaction\<close> (\<^verbatim>\<open>internal/compaction\<close>): the FIFO strategy and \<^verbatim>\<open>Merge\<close> with its commit.
  \<^item> \<open>Metrics\<close> (\<^verbatim>\<open>internal/metrics\<close>): the handles the engine updates.
  \<^item> \<open>Engine\<close> (\<^verbatim>\<open>internal/engine/engine.go\<close>, \<^verbatim>\<open>options.go\<close>): \<^verbatim>\<open>Append\<close>, \<^verbatim>\<open>Scan\<close>, the flusher, the compactor,
    retention. \<open>Lifecycle\<close>: \<^verbatim>\<open>Open\<close>, \<^verbatim>\<open>Close\<close>, \<^verbatim>\<open>Partitions\<close>. \<open>Aggregate\<close>: \<^verbatim>\<open>Aggregate\<close>.
  \<^item> \<open>Clock\<close>, \<open>Base64\<close>, \<open>Cli\<close>, \<open>Inspect\<close> (\<^verbatim>\<open>cmd/timberdb\<close>): the parts of \<^verbatim>\<open>time\<close> and \<^verbatim>\<open>encoding/base64\<close> that
    the commands use, with their round trips; the commands append, scan and inspect, each a function of
    its flags, the clock readings, the turns of the goroutines and the file system. What scan prints,
    append reads; a batch is appended whole or up to the first rejected record; scan prints the records
    of the store; inspect manifest counts the files that \<^verbatim>\<open>Open\<close> loads.

  \<^bold>\<open>The engine's theorems.\<close> \<open>EngineInv\<close> states the invariant: partitions hold sorted memtables of their
  window, every file of a window reads as a sorted list of records of that window, manifest and log are
  whole, and the names that flushes and merges will use next are free. \<open>EngineScan\<close>, \<open>EngineOps\<close>,
  \<open>EngineFlush\<close>, \<open>EngineCompact\<close> and \<open>EngineRun\<close> show that each operation keeps it and what it does to the
  bag of records. \<open>EngineSteps\<close> makes the engine a transition system, with a step for every client call
  and every turn of a goroutine in any order, and shows that it refines a bag of records;
  \<open>EngineCorrect\<close> has the properties of the running engine. \<open>EngineOpen\<close> treats an empty directory and
  \<open>Recovery\<close> a directory with contents. \<open>Durable\<close> tracks what a running engine has on disk (\<open>EngineFlush\<close>
  and \<open>EngineCompact\<close> say what each operation does to the files, as a \<open>disk_edit\<close>) and shows what a restart
  after a crash between any two steps of a run brings back. \<open>Returns\<close> shows that the loops without a syntactic bound end,
  whatever the files contain and whichever system calls fail.

  \<^bold>\<open>Hypotheses of the engine's theorems.\<close> The steps assume no I/O faults (the components' theorems treat
  faults and crashes), timestamps at least one window away from the ends of \<^verbatim>\<open>int64\<close>, files within the
  widths of the format (\<open>flush_fits\<close>, \<open>turn_fits\<close>), and no source filter that is empty but not nil, which
  memtable and SSTable read differently. A scan may miss records at exactly the start of its range;
  \<open>SSTOpen\<close> proves when this happens. The theorems on replay of the log ask for record bodies of at most
  10 MB (\<open>wal_good\<close>): \<^verbatim>\<open>Append\<close> accepts larger ones, replay stops at them.

  \<^bold>\<open>Crashes.\<close> \<open>fs_crash\<close> keeps of every file at least the synced prefix and cuts the rest at any point. It
  keeps the directory as it is, so files that were created or removed stay so, although the code never
  syncs a directory; and an unsynced tail is lost from the end, not overwritten. Real file systems can
  do worse in both respects, and the theorems on crashes do not speak of that.

  \<^bold>\<open>Loops.\<close> Recursions carry termination proofs; \<open>merge_loop\<close> and \<open>iter_collect\<close> are partial functions into
  an option, and every theorem that speaks of their result proves that it is not \<open>None\<close>. There is no
  fuel, except in the JSON parser, where the length of the text is shown to be enough.

  \<^bold>\<open>Simplifications.\<close> \<^verbatim>\<open>Open\<close> reads the clock once for all records of the log, the code once per
  record. A page fault of a mapped file is raised when the block is sliced, before the cache is asked;
  the code raises it at the first access to the bytes, so the model fails at least as often. The
  capacity that \<^verbatim>\<open>decodeBlock\<close> reserves for the record count of a block before checking it is left out.

  \<^bold>\<open>Not modelled.\<close> The interleaving inside an operation (a scan between the swap of a memtable and the
  registration of its file misses the records in flight), and crashes inside an operation of the engine
  (the theorems on log and manifest treat them for the single file); the reuse of decompression buffers; the HTTP
  handler of the metrics; logging and the texts of error messages; \<^verbatim>\<open>Bucket.Rate\<close>, a floating-point
  division; the parsing of flags, which is the cobra library; \<^verbatim>\<open>pkg/engine\<close>, which only re-exports names.
\<close>

end
